(* ===== verification/Prelude.thy ===== *)
theory Prelude
  imports Main "HOL-Library.Word" "HOL-Library.Multiset"
begin

unbundle bit_operations_syntax

section \<open>Shared types, failures and arithmetic\<close>

text \<open>
  What every component of the development uses: the machine integers of the C++ sources, the
  ways an operation can fail, the results of Vulkan calls, and the generic lemmas on lists,
  multisets, alignment and words.

  A C++ operation that changes an object is a function from the object's state to a pair of an
  outcome and the new state: the state is kept beside the outcome because an exception leaves
  the object behind as it was at the throw. \<open>Throw\<close> is a C++ exception with its message,
  \<open>Abort\<close> is \<open>std::abort\<close>, and \<open>Undefined\<close> marks undefined behaviour of C++ (a null
  dereference, an iterator past the end), which the safety lemmas rule out.
\<close>

type_synonym u8 = "8 word"
type_synonym u16 = "16 word"
type_synonym u32 = "32 word"
type_synonym u64 = "64 word"

datatype failure = Throw string | Abort | Undefined

type_synonym 'a outcome = "failure + 'a"

text \<open>The results of Vulkan calls that the sources tell apart; every other error is \<open>VK_ERROR\<close>.\<close>

datatype VkResult = VK_SUCCESS | VK_NOT_READY | VK_TIMEOUT | VK_INCOMPLETE | VK_SUBOPTIMAL_KHR
  | VK_ERROR_OUT_OF_DATE_KHR | VK_ERROR nat

text \<open>Sequencing: the next step runs on the state the step before left, unless that failed.\<close>

definition and_then :: "'a outcome \<times> 's \<Rightarrow> ('a \<Rightarrow> 's \<Rightarrow> 'b outcome \<times> 's) \<Rightarrow> 'b outcome \<times> 's" where
  "and_then r f = (case r of (Inl e, s) \<Rightarrow> (Inl e, s) | (Inr x, s) \<Rightarrow> f x s)"

lemma and_then_simps [simp]:
  "and_then (Inl e, s) f = (Inl e, s)"
  "and_then (Inr x, s) f = f x s"
  by (simp_all add: and_then_def)

lemma and_then_Inr_iff:
  "and_then r f = (Inr y, t) \<longleftrightarrow> (\<exists>x s. r = (Inr x, s) \<and> f x s = (Inr y, t))"
  by (cases r; cases "fst r") (auto simp: and_then_def split: sum.splits)

lemma and_then_InrE:
  assumes "and_then r f = (Inr y, t)"
  obtains x s where "r = (Inr x, s)" "f x s = (Inr y, t)"
  using assms by (auto simp: and_then_Inr_iff)

lemma and_then_cases:
  assumes "and_then r f = (o', t)"
  obtains (stop) e where "r = (Inl e, t)" "o' = Inl e"
  | (go) x s where "r = (Inr x, s)" "f x s = (o', t)"
  using assms by (cases r; cases "fst r") (auto simp: and_then_def split: sum.splits)

text \<open>
  \<open>model_simps\<close> collects unfolding facts a component's proofs share, \<open>inv_intros\<close> the
  preservation lemmas of its invariant.
\<close>

named_theorems model_simps
named_theorems inv_intros

subsection \<open>Standard library functions the sources use\<close>

definition std_clamp :: "nat \<Rightarrow> nat \<Rightarrow> nat \<Rightarrow> nat" where
  "std_clamp v lo hi = (if v < lo then lo else if hi < v then hi else v)"

lemma std_clamp_bounds: "lo \<le> hi \<Longrightarrow> lo \<le> std_clamp v lo hi \<and> std_clamp v lo hi \<le> hi"
  by (simp add: std_clamp_def)

lemma find_SomeD: "List.find P xs = Some x \<Longrightarrow> x \<in> set xs \<and> P x"
  by (induction xs) (auto split: if_splits)

lemma sum_list_map_update:
  fixes f :: "'a \<Rightarrow> nat"
  assumes "i < length xs"
  shows "sum_list (map f (xs[i := x])) + f (xs ! i) = sum_list (map f xs) + f x"
proof -
  have "map f xs = map f (take i xs @ xs ! i # drop (Suc i) xs)" using assms id_take_nth_drop by metis
  then show ?thesis using assms by (simp add: upd_conv_take_nth_drop)
qed

subsection \<open>Alignment\<close>

text \<open>\<open>(n + a - 1) / a * a\<close>: the least multiple of \<open>a\<close> that is not below \<open>n\<close>.\<close>

definition round_up :: "nat \<Rightarrow> nat \<Rightarrow> nat" where
  "round_up n a = (n + a - 1) div a * a"

lemma round_up_dvd [simp]: "a dvd round_up n a"
  by (simp add: round_up_def)

lemma round_up_bounds:
  assumes "0 < a"
  shows "n \<le> round_up n a" and "round_up n a < n + a"
proof -
  have e: "n + a - 1 = round_up n a + (n + a - 1) mod a" by (simp add: round_up_def)
  have l: "(n + a - 1) mod a < a" using assms by simp
  show "n \<le> round_up n a" using e l assms by linarith
  show "round_up n a < n + a" using e l assms by linarith
qed

lemma round_up_least:
  assumes "0 < a" "a dvd m" "n \<le> m"
  shows "round_up n a \<le> m"
proof -
  obtain q where q: "m = a * q" using assms(2) by (rule dvdE)
  have "round_up n a < a * q + a" using round_up_bounds(2) [OF assms(1), of n] assms(3) q by linarith
  moreover have "a dvd round_up n a" by simp
  then obtain p where p: "round_up n a = a * p" by (rule dvdE)
  ultimately have "a * p < a * (q + 1)" by (simp add: algebra_simps)
  then have "p < q + 1" using assms(1) by (simp only: nat_mult_less_cancel1)
  then have "p \<le> q" by simp
  then show ?thesis using p q by simp
qed

lemma round_up_eq_self: "0 < a \<Longrightarrow> a dvd n \<Longrightarrow> round_up n a = n"
  by (meson le_antisym order_refl round_up_bounds(1) round_up_least)

text \<open>The same rounding by masks, \<open>(x + a - 1) & ~(a - 1)\<close>, on unsigned words.\<close>

definition align_up :: "'a::len word \<Rightarrow> 'a word \<Rightarrow> 'a word" where
  "align_up x a = (x + a - 1) AND NOT (a - 1)"

lemma and_not_mask_eq: "y AND NOT (mask k) = push_bit k (drop_bit k y)" for y :: "'a::len word"
  by (rule bit_word_eqI) (auto simp: bit_simps)

lemma unat_drop_bit: "unat (drop_bit k y) = unat y div 2 ^ k" for y :: "'a::len word"
  by (simp only: unsigned_drop_bit_eq) (simp add: drop_bit_eq_div take_bit_nat_eq_self)

lemma unat_push_drop_bit:
  "unat (push_bit k (drop_bit k y)) = unat y div 2 ^ k * 2 ^ k" for y :: "'a::len word"
proof -
  have "unat (push_bit k (drop_bit k y)) = take_bit LENGTH('a) (unat y div 2 ^ k * 2 ^ k)"
    by (simp only: unsigned_push_bit_eq unat_drop_bit) (simp only: push_bit_eq_mult)
  moreover have "unat y div 2 ^ k * 2 ^ k < 2 ^ LENGTH('a)"
    by (rule le_less_trans [OF div_times_less_eq_dividend]) (rule unsigned_less)
  ultimately show ?thesis by (simp add: take_bit_nat_eq_self)
qed

lemma unat_pow2:
  assumes "k < LENGTH('a)"
  shows "unat (2 ^ k :: 'a::len word) = 2 ^ k"
proof -
  have "(2 ^ k :: 'a word) = push_bit k 1" by (simp add: push_bit_eq_mult)
  then have "unat (2 ^ k :: 'a word) = take_bit LENGTH('a) (push_bit k (unat (1 :: 'a word)))"
    by (simp only: unsigned_push_bit_eq)
  also have "\<dots> = take_bit LENGTH('a) (2 ^ k)" by (simp add: push_bit_eq_mult)
  also have "\<dots> = 2 ^ k" using assms by (simp add: take_bit_nat_eq_self)
  finally show ?thesis .
qed

lemma unat_align_up:
  fixes x a :: "'a::len word"
  assumes a: "a = 2 ^ k" and k: "k < LENGTH('a)" and fits: "unat x + 2 ^ k \<le> 2 ^ LENGTH('a)"
  shows "unat (align_up x a) = round_up (unat x) (2 ^ k)"
proof -
  have ua: "unat a = 2 ^ k" using a k by (simp add: unat_pow2)
  have m: "a - 1 = mask k" using a by (simp add: mask_eq_decr_exp)
  have pos: "0 < (2 :: nat) ^ k" by simp
  have "a \<noteq> 0" using ua pos by (metis unat_0 less_irrefl)
  then have "unat (a - 1) = 2 ^ k - 1" using ua by (simp add: unat_minus_one)
  moreover have "unat x + (2 ^ k - 1) < 2 ^ LENGTH('a)" using fits pos by linarith
  ultimately have s: "unat (x + (a - 1)) = unat x + 2 ^ k - 1"
    by (simp add: unat_word_ariths)
  have "align_up x a = (x + (a - 1)) AND NOT (mask k)"
    by (simp add: align_up_def m [symmetric] algebra_simps)
  then show ?thesis by (simp only: and_not_mask_eq unat_push_drop_bit s round_up_def)
qed

end
