(* ===== verification/MemoryTypes.thy ===== *)
theory MemoryTypes
  imports Prelude
begin

section \<open>Choosing a Vulkan memory type\<close>

text \<open>
  \<open>native/renderer/memory-type.h\<close>: the two searches through the memory types of a physical
  device, one for buffers and staging memory (\<open>buffer_memory_type\<close>), one for drawable images
  (\<open>drawable_memory_type\<close>). An index \<open>UINT32_MAX\<close> ("none") is \<open>None\<close>; a device has
  at most 32 memory types, so no index is confused with it. The property bits have the values
  of the Vulkan headers.
\<close>

definition VK_MEMORY_PROPERTY_DEVICE_LOCAL_BIT :: u32 where "VK_MEMORY_PROPERTY_DEVICE_LOCAL_BIT = 1"
definition VK_MEMORY_PROPERTY_HOST_VISIBLE_BIT :: u32 where "VK_MEMORY_PROPERTY_HOST_VISIBLE_BIT = 2"
definition VK_MEMORY_PROPERTY_HOST_COHERENT_BIT :: u32 where "VK_MEMORY_PROPERTY_HOST_COHERENT_BIT = 4"
definition VK_MEMORY_PROPERTY_HOST_CACHED_BIT :: u32 where "VK_MEMORY_PROPERTY_HOST_CACHED_BIT = 8"

lemmas property_bits [model_simps] =
  VK_MEMORY_PROPERTY_DEVICE_LOCAL_BIT_def VK_MEMORY_PROPERTY_HOST_VISIBLE_BIT_def
  VK_MEMORY_PROPERTY_HOST_COHERENT_BIT_def VK_MEMORY_PROPERTY_HOST_CACHED_BIT_def

record memory_type =
  propertyFlags :: u32
  heapIndex :: nat

record memory_properties =
  memoryTypes :: "memory_type list"
  memoryHeaps :: "nat list"

text \<open>\<open>(flags & mask) == mask\<close>, and the bit \<open>bits & (1u << i)\<close> that admits type \<open>i\<close>.\<close>

definition has_flags :: "u32 \<Rightarrow> u32 \<Rightarrow> bool" where
  "has_flags flags m \<longleftrightarrow> flags AND m = m"

definition admits :: "u32 \<Rightarrow> nat \<Rightarrow> bool" where
  "admits bits i \<longleftrightarrow> bits AND push_bit i 1 \<noteq> 0"

lemma admits_iff_bit: "admits bits i \<longleftrightarrow> bit bits i"
  by (simp add: admits_def bit_iff_and_push_bit_not_eq_0)

lemma has_flags_or: "has_flags f (a OR b) \<longleftrightarrow> has_flags f a \<and> has_flags f b"
  unfolding has_flags_def by (auto simp: bit_eq_iff bit_simps)

lemma has_flags_zero [simp]: "has_flags f 0"
  by (simp add: has_flags_def)

text \<open>The loop both searches share: remember the first admissible type, return the first that is
  also preferred.\<close>

fun scan_types :: "u32 \<Rightarrow> u32 \<Rightarrow> (u32 \<Rightarrow> bool) \<Rightarrow> memory_type list \<Rightarrow> nat \<Rightarrow> nat option \<Rightarrow> nat option" where
  "scan_types bits required prefers [] i first = first"
| "scan_types bits required prefers (t # ts) i first =
     (let flags = propertyFlags t in
      if \<not> admits bits i \<or> \<not> has_flags flags required
      then scan_types bits required prefers ts (Suc i) first
      else let first' = (if first = None then Some i else first) in
        if prefers flags then Some i else scan_types bits required prefers ts (Suc i) first')"

definition buffer_memory_type :: "memory_properties \<Rightarrow> u32 \<Rightarrow> bool \<Rightarrow> bool \<Rightarrow> bool \<Rightarrow> nat option" where
  "buffer_memory_type memory bits shared managed write_combined =
     (let required = (if shared \<or> managed then VK_MEMORY_PROPERTY_HOST_VISIBLE_BIT else 0);
          required = (if shared then required OR VK_MEMORY_PROPERTY_HOST_COHERENT_BIT else required);
          preferred = (if shared \<or> managed
                       then (if write_combined then 0 else VK_MEMORY_PROPERTY_HOST_CACHED_BIT)
                       else VK_MEMORY_PROPERTY_DEVICE_LOCAL_BIT)
      in scan_types bits required (\<lambda>flags. has_flags flags preferred) (memoryTypes memory) 0 None)"

definition drawable_memory_type :: "memory_properties \<Rightarrow> u32 \<Rightarrow> bool \<Rightarrow> nat option" where
  "drawable_memory_type memory bits host_visible =
     (let required = (if host_visible
                      then VK_MEMORY_PROPERTY_HOST_VISIBLE_BIT OR VK_MEMORY_PROPERTY_HOST_COHERENT_BIT else 0)
      in scan_types bits required (\<lambda>flags. flags AND VK_MEMORY_PROPERTY_DEVICE_LOCAL_BIT \<noteq> 0)
           (memoryTypes memory) 0 None)"

subsection \<open>The search against its specification\<close>

text \<open>
  The specification names no loop: the least admissible index that is preferred, or else the
  least admissible index.
\<close>

definition admissible :: "u32 \<Rightarrow> u32 \<Rightarrow> memory_type list \<Rightarrow> nat \<Rightarrow> bool" where
  "admissible bits required ts i \<longleftrightarrow>
     i < length ts \<and> admits bits i \<and> has_flags (propertyFlags (ts ! i)) required"

definition best_type :: "u32 \<Rightarrow> u32 \<Rightarrow> (u32 \<Rightarrow> bool) \<Rightarrow> memory_type list \<Rightarrow> nat option" where
  "best_type bits required prefers ts =
     (case find (\<lambda>i. admissible bits required ts i \<and> prefers (propertyFlags (ts ! i))) [0..<length ts] of
        Some i \<Rightarrow> Some i
      | None \<Rightarrow> find (admissible bits required ts) [0..<length ts])"

lemma scan_types_upt:
  "scan_types bits required prefers (drop i ts) i first =
     (case find (\<lambda>j. admissible bits required ts j \<and> prefers (propertyFlags (ts ! j))) [i..<length ts] of
        Some j \<Rightarrow> Some j
      | None \<Rightarrow> (case first of Some f \<Rightarrow> Some f | None \<Rightarrow> find (admissible bits required ts) [i..<length ts]))"
proof (induction "length ts - i" arbitrary: i first)
  case 0
  then show ?case by (simp split: option.split)
next
  case (Suc n)
  then have i: "i < length ts" by simp
  have IH: "\<And>f. scan_types bits required prefers (drop (Suc i) ts) (Suc i) f =
     (case find (\<lambda>j. admissible bits required ts j \<and> prefers (propertyFlags (ts ! j))) [Suc i..<length ts] of
        Some j \<Rightarrow> Some j
      | None \<Rightarrow> (case f of Some f \<Rightarrow> Some f | None \<Rightarrow> find (admissible bits required ts) [Suc i..<length ts]))"
    using Suc by (intro Suc.hyps(1)) simp
  show ?case
    using i by (auto simp: Cons_nth_drop_Suc [symmetric] upt_conv_Cons IH admissible_def Let_def
        split: option.split)
qed

lemma scan_types_eq_best: "scan_types bits required prefers ts 0 None = best_type bits required prefers ts"
  using scan_types_upt [of bits required prefers 0 ts None] by (simp add: best_type_def split: option.split)

lemma find_upt_Some: "find P [0..<n] = Some i \<longleftrightarrow> i < n \<and> P i \<and> (\<forall>j<i. \<not> P j)"
  by (auto simp: find_Some_iff)

lemma best_type_admissible:
  "best_type bits required prefers ts = Some i \<Longrightarrow> admissible bits required ts i"
  by (auto simp: best_type_def find_upt_Some split: option.splits)

lemma best_type_None_iff:
  "best_type bits required prefers ts = None \<longleftrightarrow> (\<forall>i. \<not> admissible bits required ts i)"
proof
  assume "best_type bits required prefers ts = None"
  then have "find (admissible bits required ts) [0..<length ts] = None"
    by (simp add: best_type_def split: option.splits)
  then show "\<forall>i. \<not> admissible bits required ts i"
    by (auto simp: find_None_iff admissible_def)
next
  assume "\<forall>i. \<not> admissible bits required ts i"
  then show "best_type bits required prefers ts = None"
    by (auto simp: best_type_def find_None_iff split: option.split)
qed

lemma best_type_preferred:
  assumes "admissible bits required ts j" "prefers (propertyFlags (ts ! j))"
  shows "\<exists>i\<le>j. best_type bits required prefers ts = Some i \<and> prefers (propertyFlags (ts ! i))"
proof -
  let ?P = "\<lambda>i. admissible bits required ts i \<and> prefers (propertyFlags (ts ! i))"
  have "find ?P [0..<length ts] \<noteq> None"
    using assms by (auto simp: find_None_iff admissible_def)
  then obtain i where i: "find ?P [0..<length ts] = Some i" by blast
  then have "?P i" and "\<not> j < i" using assms by (auto simp: find_upt_Some)
  with i show ?thesis by (auto simp: best_type_def)
qed

subsection \<open>Properties\<close>

text \<open>
  C4: The buffer search returns the least admissible memory type with the preferred property
  (host cached for mapped buffers unless write combining is asked for, device local for the
  others), and the least admissible type when none has it; mapped buffers admit only host
  visible types, shared ones only host coherent types.
\<close>

theorem buffer_memory_type_best:
  "buffer_memory_type memory bits shared managed write_combined =
     best_type bits (if shared then 6 else if managed then 2 else 0)
       (\<lambda>flags. has_flags flags (if shared \<or> managed then (if write_combined then 0 else 8) else 1))
       (memoryTypes memory)"
  unfolding buffer_memory_type_def Let_def scan_types_eq_best
  by (cases shared; cases managed; cases write_combined) (simp_all add: model_simps)

lemma buffer_memory_type_flags:
  assumes "buffer_memory_type memory bits shared managed write_combined = Some i"
  shows "i < length (memoryTypes memory)" and "admits bits i"
    and "shared \<or> managed \<Longrightarrow> has_flags (propertyFlags (memoryTypes memory ! i)) VK_MEMORY_PROPERTY_HOST_VISIBLE_BIT"
    and "shared \<Longrightarrow> has_flags (propertyFlags (memoryTypes memory ! i)) VK_MEMORY_PROPERTY_HOST_COHERENT_BIT"
  using best_type_admissible [OF assms [unfolded buffer_memory_type_def Let_def scan_types_eq_best]]
  by (auto simp: admissible_def has_flags_or split: if_splits)

text \<open>
  The drawable search never loses video memory: when some admissible type is device local,
  the chosen one is, whatever the host visibility asked for; and it fails only if no type is
  admissible.
\<close>

theorem drawable_memory_type_device_local:
  "(\<exists>j. admissible bits (if host_visible then 6 else 0) (memoryTypes memory) j
        \<and> propertyFlags (memoryTypes memory ! j) AND 1 \<noteq> 0)
     = (\<exists>i. drawable_memory_type memory bits host_visible = Some i
        \<and> propertyFlags (memoryTypes memory ! i) AND 1 \<noteq> 0)
   \<and> (drawable_memory_type memory bits host_visible = None)
     = (\<forall>j. \<not> admissible bits (if host_visible then 6 else 0) (memoryTypes memory) j)"
proof -
  have d: "drawable_memory_type memory bits host_visible =
      best_type bits (if host_visible then 6 else 0) (\<lambda>flags. flags AND 1 \<noteq> 0) (memoryTypes memory)"
    by (simp add: drawable_memory_type_def Let_def scan_types_eq_best model_simps)
  show ?thesis
    unfolding d best_type_None_iff
    by (blast dest: best_type_admissible best_type_preferred [where prefers = "\<lambda>flags. flags AND 1 \<noteq> 0"])
qed

end

