(* ===== verification/Slots.thy ===== *)
theory Slots
  imports Prelude
begin

section \<open>Slot blocks: the interface of the suballocators\<close>

text \<open>
  Mesh buffers and small images are suballocated from blocks of equal slots: a block keeps a
  stack of free slot numbers, hands out the byte offset of a slot and takes the offset back.
  The locale \<open>slot_block\<close> states what a client relies on; \<open>BufferMemory\<close> interprets it on
  the buffer blocks and on the image blocks.
\<close>

subsection \<open>Free and used slots\<close>

text \<open>Every slot of a block is free once or used once.\<close>

definition slots_ok :: "nat list \<Rightarrow> nat list \<Rightarrow> nat \<Rightarrow> bool" where
  "slots_ok free used cap \<longleftrightarrow> mset free + mset used = mset [0..<cap]"

lemma slots_ok_initial: "slots_ok (rev [0..<cap]) [] cap"
  by (simp add: slots_ok_def)

lemma slots_ok_length: "slots_ok free used cap \<Longrightarrow> length free + length used = cap"
  unfolding slots_ok_def by (metis length_upt minus_nat.diff_0 size_mset size_union)

lemma slots_ok_all_free: "slots_ok free used cap \<Longrightarrow> length free = cap \<longleftrightarrow> used = []"
  using slots_ok_length by fastforce

lemma slots_ok_distinct:
  assumes "slots_ok free used cap"
  shows "distinct (free @ used)" and "set free \<union> set used = {..<cap}"
proof -
  have "mset (free @ used) = mset [0..<cap]" using assms by (simp add: slots_ok_def)
  then have "distinct (free @ used) = distinct [0..<cap]" and s: "set (free @ used) = set [0..<cap]"
    by (metis mset_eq_imp_distinct_iff) (metis mset_eq_setD \<open>mset (free @ used) = mset [0..<cap]\<close>)
  then show "distinct (free @ used)" by simp
  show "set free \<union> set used = {..<cap}" using s by (auto simp: atLeast0LessThan)
qed

lemma slots_ok_used_bound: "slots_ok free used cap \<Longrightarrow> s \<in> set used \<Longrightarrow> s < cap"
  using slots_ok_distinct(2) by blast

lemma slots_ok_take: "slots_ok (free @ [s]) used cap \<Longrightarrow> slots_ok free (s # used) cap"
  by (simp add: slots_ok_def)

lemma slots_ok_give:
  assumes "slots_ok free used cap" "mset used = add_mset s (mset used')"
  shows "slots_ok (free @ [s]) used' cap"
  using assms by (simp add: slots_ok_def)

lemma slots_ok_permute: "slots_ok free used cap \<Longrightarrow> mset used' = mset used \<Longrightarrow> slots_ok free used' cap"
  by (simp add: slots_ok_def)

text \<open>Two different slots of a block are disjoint byte ranges, and a slot lies in the block.\<close>

lemma slot_ranges_disjoint:
  fixes s t w :: nat
  assumes "s \<noteq> t" "m \<le> w" "n \<le> w"
  shows "s * w + m \<le> t * w \<or> t * w + n \<le> s * w"
proof (cases "s < t")
  case True
  then have "Suc s * w \<le> t * w" by (intro mult_le_mono1) simp
  with assms show ?thesis by simp
next
  case False
  with assms have "Suc t * w \<le> s * w" by (intro mult_le_mono1) simp
  with assms show ?thesis by simp
qed

lemma slot_range_inside:
  fixes s w cap :: nat
  assumes "s < cap" "n \<le> w"
  shows "s * w + n \<le> w * cap"
proof -
  have "Suc s * w \<le> cap * w" using assms(1) by (intro mult_le_mono1) simp
  then show ?thesis using assms(2) by (simp add: mult.commute)
qed

subsection \<open>The interface\<close>

locale slot_block =
  fixes free :: "'b \<Rightarrow> nat list"
    and cap :: "'b \<Rightarrow> nat"
    and width :: "'b \<Rightarrow> nat"
    and take :: "'b \<Rightarrow> nat option \<times> 'b"
    and give :: "nat \<Rightarrow> 'b \<Rightarrow> 'b"
  assumes take_full: "free b = [] \<Longrightarrow> take b = (None, b)"
    and take_last: "free b \<noteq> [] \<Longrightarrow> fst (take b) = Some (last (free b) * width b)"
    and take_free: "free b \<noteq> [] \<Longrightarrow> free (snd (take b)) = butlast (free b)"
    and take_frame: "cap (snd (take b)) = cap b" "width (snd (take b)) = width b"
    and give_free: "0 < width b \<Longrightarrow> free (give (s * width b) b) = free b @ [s]"
    and give_frame: "cap (give off b) = cap b" "width (give off b) = width b"
begin

lemma take_SomeE:
  assumes "take b = (Some off, b')"
  obtains s where "free b = free b' @ [s]" "off = s * width b" "cap b' = cap b" "width b' = width b"
proof -
  have ne: "free b \<noteq> []" using assms take_full [of b] by auto
  show thesis
    using that [of "last (free b)"] take_last [OF ne] take_free [OF ne] take_frame [of b] ne assms
    by (simp add: append_butlast_last_id)
qed

lemma take_None_iff: "fst (take b) = None \<longleftrightarrow> free b = []"
  using take_full [of b] take_last [of b] by (cases "free b = []") auto

text \<open>A slot handed out was free, is used by nobody, and its range is inside the block.\<close>

lemma take_slots_ok:
  assumes "take b = (Some off, b')" and "slots_ok (free b) used (cap b)"
  shows "\<exists>s. off = s * width b \<and> s \<notin> set used \<and> s < cap b \<and> slots_ok (free b') (s # used) (cap b')"
proof -
  obtain s where s: "free b = free b' @ [s]" "off = s * width b" "cap b' = cap b"
    using assms(1) by (rule take_SomeE)
  then have ok: "slots_ok (free b') (s # used) (cap b')" using assms(2) by (simp add: slots_ok_take)
  then have "distinct (free b' @ s # used)" "s < cap b'"
    using slots_ok_distinct(1) slots_ok_used_bound by (blast, fastforce)
  with s ok show ?thesis by auto
qed

lemma take_range_fresh:
  assumes "take b = (Some off, b')" "slots_ok (free b) used (cap b)" "t \<in> set used"
    and "m \<le> width b" "n \<le> width b"
  shows "off + m \<le> t * width b \<or> t * width b + n \<le> off" and "off + m \<le> width b * cap b"
proof -
  obtain s where s: "off = s * width b" "s \<notin> set used" "s < cap b"
    using take_slots_ok [OF assms(1,2)] by blast
  with assms(3) have "s \<noteq> t" by blast
  with s(1) assms(4,5) show "off + m \<le> t * width b \<or> t * width b + n \<le> off"
    by (simp add: slot_ranges_disjoint)
  show "off + m \<le> width b * cap b" using s assms(4) by (simp add: slot_range_inside)
qed

lemma give_slots_ok:
  assumes "slots_ok (free b) used (cap b)" "0 < width b" "mset used = add_mset s (mset used')"
  shows "slots_ok (free (give (s * width b) b)) used' (cap (give (s * width b) b))"
  using assms by (simp add: give_free give_frame slots_ok_give)

text \<open>Giving a slot back makes it the next one handed out.\<close>

lemma take_after_give:
  assumes "0 < width b"
  shows "fst (take (give (s * width b) b)) = Some (s * width b)"
  using assms take_last [of "give (s * width b) b"] by (simp add: give_free give_frame)

end

end
