(* ===== verification/BufferMemory.thy ===== *)
theory BufferMemory
  imports MemoryTypes Slots "HOL-Library.While_Combinator"
begin

section \<open>Buffer memory\<close>

text \<open>
  \<open>native/renderer/buffer.cpp\<close> (\<open>BufferMemoryBlock\<close>, \<open>PrivateBuffer\<close>) and
  \<open>native/renderer/indium/image-memory.hpp\<close> (\<open>ImageMemoryBlock\<close>): buffers are bound to slots
  of shared memory blocks, or to memory of their own.

  The blocks are objects with shared owners: \<open>blocks\<close> holds every block alive, the pool
  \<open>bufferMemoryBlocks\<close> the ones the device owns, and a live buffer owns its block through
  \<open>memoryBlock\<close>; \<open>release\<close> destroys a block with no owner left, as \<open>shared_ptr\<close> does. What
  Vulkan answers (requirements, success of each call) is an argument, the record
  \<open>buffer_driver\<close>; so is the decoding of the storage mode from the resource options, whose
  enumeration belongs to a third-party header. Sizes of pooled slots are at most 32 MiB and are
  natural numbers; the ranges of \<open>didModifyRange\<close> are 64-bit words.
\<close>

subsection \<open>Blocks\<close>

record BufferMemoryBlock =
  block_type :: nat
  slotSize :: nat
  freeSlots :: "nat list"
  capacity :: nat
  block_mapped :: bool

definition block_capacity :: "nat \<Rightarrow> nat" where
  "block_capacity slot =
     (if slot > 1024 * 1024 then 1 else std_clamp (4 * 1024 * 1024 div slot) 4 256)"

definition make_block :: "bool \<Rightarrow> bool \<Rightarrow> nat \<Rightarrow> nat \<Rightarrow> bool \<Rightarrow> BufferMemoryBlock outcome" where
  "make_block allocOk mapOk t slot visible =
     (if \<not> allocOk then Inl (Throw ''Failed to allocate buffer memory block'')
      else if visible \<and> \<not> mapOk then Inl (Throw ''Failed to map buffer memory block'')
      else Inr \<lparr>block_type = t, slotSize = slot, freeSlots = rev [0..<block_capacity slot],
                capacity = block_capacity slot, block_mapped = visible\<rparr>)"

text \<open>Taking the top free slot and giving a slot back, as the buffer constructor and destructor do.\<close>

definition block_take :: "BufferMemoryBlock \<Rightarrow> nat option \<times> BufferMemoryBlock" where
  "block_take b =
     (if freeSlots b = [] then (None, b)
      else (Some (last (freeSlots b) * slotSize b), b\<lparr>freeSlots := butlast (freeSlots b)\<rparr>))"

definition block_give :: "nat \<Rightarrow> BufferMemoryBlock \<Rightarrow> BufferMemoryBlock" where
  "block_give off b = b\<lparr>freeSlots := freeSlots b @ [off div slotSize b]\<rparr>"

record ImageMemoryBlock =
  image_type :: nat
  image_slotSize :: nat
  image_capacity :: nat
  image_freeSlots :: "nat list"

definition make_image_block :: "bool \<Rightarrow> nat \<Rightarrow> nat \<Rightarrow> ImageMemoryBlock outcome" where
  "make_image_block allocOk t slot =
     (let cap = std_clamp (16 * 1024 * 1024 div slot) 4 256 in
      if \<not> allocOk then Inl (Throw ''Failed to allocate image memory block'')
      else Inr \<lparr>image_type = t, image_slotSize = slot, image_capacity = cap,
                image_freeSlots = rev [0..<cap]\<rparr>)"

text \<open>\<open>VkDeviceSize(-1)\<close>, a full block, is \<open>None\<close>.\<close>

definition image_take :: "ImageMemoryBlock \<Rightarrow> nat option \<times> ImageMemoryBlock" where
  "image_take b =
     (if image_freeSlots b = [] then (None, b)
      else (Some (last (image_freeSlots b) * image_slotSize b),
            b\<lparr>image_freeSlots := butlast (image_freeSlots b)\<rparr>))"

definition image_give :: "nat \<Rightarrow> ImageMemoryBlock \<Rightarrow> ImageMemoryBlock" where
  "image_give off b = b\<lparr>image_freeSlots := image_freeSlots b @ [off div image_slotSize b]\<rparr>"

interpretation bufslots: slot_block freeSlots capacity slotSize block_take block_give
  by unfold_locales (auto simp: block_take_def block_give_def)

interpretation imgslots: slot_block image_freeSlots image_capacity image_slotSize image_take image_give
  by unfold_locales (auto simp: image_take_def image_give_def)

lemma make_block_ok:
  assumes "make_block allocOk mapOk t slot visible = Inr b"
  shows "slots_ok (freeSlots b) [] (capacity b)" and "slotSize b = slot" and "block_type b = t"
    and "0 < capacity b" and "freeSlots b \<noteq> []" and "block_mapped b = visible"
    and "capacity b = block_capacity slot"
proof -
  have pos: "0 < block_capacity slot" by (simp add: block_capacity_def std_clamp_def)
  have b: "b = \<lparr>block_type = t, slotSize = slot, freeSlots = rev [0..<block_capacity slot],
      capacity = block_capacity slot, block_mapped = visible\<rparr>"
    using assms by (simp add: make_block_def split: if_splits)
  show "slots_ok (freeSlots b) [] (capacity b)" by (simp only: b slots_ok_initial BufferMemoryBlock.simps)
  show "freeSlots b \<noteq> []" "0 < capacity b" using pos by (simp_all add: b)
qed (use assms in \<open>auto simp: make_block_def split: if_splits\<close>)

text \<open>The size class of an allocation, from the size and alignment Vulkan requires.\<close>

definition slot_size_for :: "nat \<Rightarrow> nat \<Rightarrow> nat" where
  "slot_size_for sz align =
     (if max sz align \<le> 1024 * 1024 then while (\<lambda>s. s < max sz align) (\<lambda>s. s * 2) 256
      else (sz + align - 1) div align * align)"

lemma pow2_loop:
  "\<exists>k. 8 \<le> k \<and> while (\<lambda>s. s < n) (\<lambda>s. s * 2) (256 :: nat) = 2 ^ k \<and> n \<le> 2 ^ k"
proof (rule while_rule [where P = "\<lambda>s. \<exists>k. 8 \<le> k \<and> s = (2 :: nat) ^ k" and r = "measure (\<lambda>s. n - s)"])
  show "\<exists>k. 8 \<le> k \<and> (256 :: nat) = 2 ^ k" by (rule exI [of _ 8]) simp
next
  fix s :: nat
  assume "\<exists>k. 8 \<le> k \<and> s = 2 ^ k" and "s < n"
  then obtain k where k: "8 \<le> k" "s = 2 ^ k" by blast
  then have "8 \<le> Suc k" "s * 2 = 2 ^ Suc k" by auto
  then show "\<exists>k. 8 \<le> k \<and> s * 2 = 2 ^ k" by blast
  have "0 < s" using k by simp
  then show "(s * 2, s) \<in> measure (\<lambda>s. n - s)" using \<open>s < n\<close> by auto
qed auto

text \<open>A slot holds the allocation, and every slot offset keeps its alignment.\<close>

lemma slot_size_for_ok:
  assumes "0 < sz" and "align = 2 ^ j"
  shows "sz \<le> slot_size_for sz align" and "0 < slot_size_for sz align"
    and "align dvd slot_size_for sz align"
proof -
  obtain k where k: "while (\<lambda>s. s < max sz align) (\<lambda>s. s * 2) 256 = (2 :: nat) ^ k"
      "max sz align \<le> 2 ^ k"
    using pow2_loop by blast
  have a: "0 < align" using assms(2) by simp
  have "(2::nat) ^ j \<le> 2 ^ k" using k(2) assms(2) by simp
  then have "j \<le> k" by simp
  then have d: "align dvd 2 ^ k" using assms(2) by (simp add: le_imp_power_dvd)
  have r: "sz \<le> (sz + align - 1) div align * align"
    using round_up_bounds(1) [OF a, of sz] by (simp add: round_up_def)
  then show ge: "sz \<le> slot_size_for sz align" using k by (simp add: slot_size_for_def)
  show "0 < slot_size_for sz align" using ge assms(1) by linarith
  show "align dvd slot_size_for sz align" using k d by (simp add: slot_size_for_def)
qed

subsection \<open>Buffers and the device's pool\<close>

datatype StorageMode = Shared | Managed | Private | Memoryless

text \<open>A host pointer: into the mapping of a block, into the buffer's own mapping, or an offset
  from a null mapping.\<close>

datatype host_ptr = In_block nat nat | In_own | Null_plus nat

record PrivateBuffer =
  buf_length :: u64
  storageMode :: StorageMode
  hostCoherent :: bool
  allocationSize :: u64
  memoryBlock :: "nat option"
  memoryOffset :: nat
  buf_mapped :: "host_ptr option"

record buffer_device =
  memoryProperties :: memory_properties
  blocks :: "nat \<Rightarrow> BufferMemoryBlock option"
  bufferMemoryBlocks :: "nat list"
  nextBlock :: nat
  buffers :: "(nat \<times> PrivateBuffer) list"
  vkBuffers :: "nat list"
  nextBuffer :: nat

definition init_device :: "memory_properties \<Rightarrow> buffer_device" where
  "init_device mem = \<lparr>memoryProperties = mem, blocks = Map.empty, bufferMemoryBlocks = [], nextBlock = 0,
     buffers = [], vkBuffers = [], nextBuffer = 0\<rparr>"

text \<open>What Vulkan answers while one buffer is created.\<close>

record buffer_driver =
  createOk :: bool
  reqSize :: u64
  reqAlignment :: u64
  reqTypeBits :: u32
  requiresDedicated :: bool
  allocOk :: bool
  mapOk :: bool
  bindOk :: bool

definition block_fits :: "nat \<Rightarrow> nat \<Rightarrow> BufferMemoryBlock option \<Rightarrow> bool" where
  "block_fits t slot ob =
     (case ob of None \<Rightarrow> False | Some b \<Rightarrow> block_type b = t \<and> slotSize b = slot \<and> freeSlots b \<noteq> [])"

text \<open>The first block of the class with a free slot, or a new block at the end of the pool.\<close>

definition pick_block :: "buffer_driver \<Rightarrow> nat \<Rightarrow> nat \<Rightarrow> bool \<Rightarrow> buffer_device \<Rightarrow>
    (nat \<times> BufferMemoryBlock) outcome \<times> buffer_device" where
  "pick_block drv t slot visible d =
     (case find (\<lambda>i. block_fits t slot (blocks d i)) (bufferMemoryBlocks d) of
        Some i \<Rightarrow> (case blocks d i of Some b \<Rightarrow> (Inr (i, b), d) | None \<Rightarrow> (Inl Undefined, d))
      | None \<Rightarrow> (case make_block (allocOk drv) (mapOk drv) t slot visible of
            Inl e \<Rightarrow> (Inl e, d)
          | Inr b \<Rightarrow> (let i = nextBlock d in
              (Inr (i, b), d\<lparr>blocks := (blocks d)(i \<mapsto> b),
                 bufferMemoryBlocks := bufferMemoryBlocks d @ [i], nextBlock := Suc i\<rparr>))))"

text \<open>The condition under which a buffer is suballocated.\<close>

definition pooled :: "buffer_driver \<Rightarrow> StorageMode \<Rightarrow> bool \<Rightarrow> bool \<Rightarrow> bool" where
  "pooled drv mode visible coherent \<longleftrightarrow>
     (let required = max (unat (reqSize drv)) (unat (reqAlignment drv)) in
      \<not> requiresDedicated drv \<and> (\<not> visible \<or> coherent) \<and>
      (required \<le> 1024 * 1024 \<or> mode = Shared \<and> required \<le> 16 * 1024 * 1024))"

text \<open>
  The constructor \<open>PrivateBuffer(device, length, options)\<close>: create the Vulkan buffer, choose a
  memory type, take a slot or allocate memory, bind. An exception destroys the Vulkan buffer
  and is rethrown.
\<close>

definition create_buffer :: "(u64 \<Rightarrow> StorageMode) \<Rightarrow> buffer_driver \<Rightarrow> u64 \<Rightarrow> u64 \<Rightarrow> buffer_device \<Rightarrow>
    nat outcome \<times> buffer_device" where
  "create_buffer storage_of drv len options d =
     (let mode = storage_of (drop_bit 4 options AND 0xf); h = nextBuffer d;
          created = d\<lparr>vkBuffers := h # vkBuffers d, nextBuffer := Suc h\<rparr>;
          destroyed = (\<lambda>d'. d'\<lparr>vkBuffers := remove1 h (vkBuffers d')\<rparr>) in
      if \<not> createOk drv then (Inl Abort, d) else
      case buffer_memory_type (memoryProperties d) (reqTypeBits drv) (mode = Shared) (mode = Managed)
             (options AND 1 \<noteq> 0) of
        None \<Rightarrow> (Inl (Throw ''No suitable memory region found for buffer with requested storage mode''),
                 destroyed created)
      | Some t \<Rightarrow>
         (let flags = propertyFlags (memoryTypes (memoryProperties d) ! t);
              coherent = (flags AND VK_MEMORY_PROPERTY_HOST_COHERENT_BIT \<noteq> 0);
              visible = (flags AND VK_MEMORY_PROPERTY_HOST_VISIBLE_BIT \<noteq> 0);
              buf = \<lparr>buf_length = len, storageMode = mode, hostCoherent = coherent,
                     allocationSize = reqSize drv, memoryBlock = None, memoryOffset = 0, buf_mapped = None\<rparr>
          in if pooled drv mode visible coherent then
               let slot = slot_size_for (unat (reqSize drv)) (unat (reqAlignment drv)) in
               (case pick_block drv t slot visible created of
                  (Inl e, d') \<Rightarrow> (Inl e, destroyed d')
                | (Inr (i, blk), d') \<Rightarrow>
                    (case block_take blk of
                       (None, _) \<Rightarrow> (Inl Undefined, d')
                     | (Some off, blk') \<Rightarrow>
                         if \<not> bindOk drv then (Inl Abort, d') else
                         (Inr h, d'\<lparr>blocks := (blocks d')(i \<mapsto> blk'),
                            buffers := (h, buf\<lparr>memoryBlock := Some i, memoryOffset := off\<rparr>) # buffers d'\<rparr>)))
             else if \<not> allocOk drv \<or> \<not> bindOk drv then (Inl Abort, created)
             else (Inr h, created\<lparr>buffers := (h, buf) # buffers d\<rparr>)))"

text \<open>Destroying what has no owner left.\<close>

definition owned_blocks :: "(nat \<times> PrivateBuffer) list \<Rightarrow> nat list" where
  "owned_blocks bs = List.map_filter (\<lambda>p. memoryBlock (snd p)) bs"

definition release :: "buffer_device \<Rightarrow> buffer_device" where
  "release d = d\<lparr>blocks := blocks d |` (set (bufferMemoryBlocks d) \<union> set (owned_blocks (buffers d)))\<rparr>"

definition idle_large :: "(nat \<Rightarrow> BufferMemoryBlock option) \<Rightarrow> nat \<Rightarrow> bool" where
  "idle_large bm i = (case bm i of None \<Rightarrow> False | Some b \<Rightarrow> capacity b = 1 \<and> freeSlots b \<noteq> [])"

definition slot_bytes :: "(nat \<Rightarrow> BufferMemoryBlock option) \<Rightarrow> nat \<Rightarrow> nat" where
  "slot_bytes bm i = (case bm i of None \<Rightarrow> 0 | Some b \<Rightarrow> slotSize b)"

definition idle_bytes :: "(nat \<Rightarrow> BufferMemoryBlock option) \<Rightarrow> nat list \<Rightarrow> nat" where
  "idle_bytes bm pool = (\<Sum>i\<leftarrow>filter (idle_large bm) pool. slot_bytes bm i)"

text \<open>The eviction loop; \<open>None\<close> is the dereference of \<open>end()\<close> when no idle block is found.\<close>

function evict_idle :: "(nat \<Rightarrow> BufferMemoryBlock option) \<Rightarrow> nat \<Rightarrow> nat \<Rightarrow> nat list \<Rightarrow> nat list option" where
  "evict_idle bm limit idle pool =
     (if idle > limit then
        (case find (idle_large bm) pool of
           None \<Rightarrow> None
         | Some old \<Rightarrow> evict_idle bm limit (idle - slot_bytes bm old) (remove1 old pool))
      else Some pool)"
  by pat_completeness auto
termination
proof (relation "measure (\<lambda>(bm, limit, idle, pool). length pool)", simp)
  fix bm :: "nat \<Rightarrow> BufferMemoryBlock option" and limit idle :: nat and pool :: "nat list" and old
  assume "find (idle_large bm) pool = Some old"
  then have "old \<in> set pool" by (auto simp: find_Some_iff)
  then show "((bm, limit, idle - slot_bytes bm old, remove1 old pool), bm, limit, idle, pool)
      \<in> measure (\<lambda>(bm, limit, idle, pool). length pool)"
    using length_pos_if_in_set [of old pool] by (simp add: length_remove1)
qed

declare evict_idle.simps [simp del]

definition idle_limit :: "memory_properties \<Rightarrow> nat \<Rightarrow> nat" where
  "idle_limit mem t = min (memoryHeaps mem ! heapIndex (memoryTypes mem ! t) div 16) (2 * 1024 * 1024 * 1024)"

definition same_class_idle :: "BufferMemoryBlock \<Rightarrow> BufferMemoryBlock option \<Rightarrow> bool" where
  "same_class_idle b ob =
     (case ob of None \<Rightarrow> False
      | Some c \<Rightarrow> block_type c = block_type b \<and> slotSize c = slotSize b \<and> length (freeSlots c) = capacity c)"

text \<open>The destructor \<open>~PrivateBuffer\<close>.\<close>

definition destroy_buffer :: "nat \<Rightarrow> buffer_device \<Rightarrow> unit outcome \<times> buffer_device" where
  "destroy_buffer h d =
     (case map_of (buffers d) h of
        None \<Rightarrow> (Inl Undefined, d)
      | Some b \<Rightarrow>
         (let d1 = d\<lparr>vkBuffers := remove1 h (vkBuffers d), buffers := filter (\<lambda>p. fst p \<noteq> h) (buffers d)\<rparr> in
          case memoryBlock b of
            None \<Rightarrow> (Inr (), d1)
          | Some i \<Rightarrow>
             (case blocks d i of
                None \<Rightarrow> (Inl Undefined, d1)
              | Some blk \<Rightarrow>
                 (let blk' = block_give (memoryOffset b) blk;
                      d2 = d1\<lparr>blocks := (blocks d)(i \<mapsto> blk')\<rparr>; pool = bufferMemoryBlocks d in
                  if length (freeSlots blk') \<noteq> capacity blk' then (Inr (), d2)
                  else if capacity blk' = 1 then
                    (case evict_idle (blocks d2) (idle_limit (memoryProperties d) (block_type blk'))
                            (idle_bytes (blocks d2) pool) pool of
                       None \<Rightarrow> (Inl Undefined, d2)
                     | Some pool' \<Rightarrow> (Inr (), release (d2\<lparr>bufferMemoryBlocks := pool'\<rparr>)))
                  else if \<exists>j\<in>set pool. j \<noteq> i \<and> same_class_idle blk' (blocks d j) then
                    (if i \<in> set pool then (Inr (), release (d2\<lparr>bufferMemoryBlocks := remove1 i pool\<rparr>))
                     else (Inl Undefined, d2))
                  else (Inr (), d2)))))"

text \<open>\<open>contents()\<close>: the cached pointer, a pointer into the block's mapping, or a fresh mapping of
  the buffer's own memory.\<close>

definition buffer_contents :: "bool \<Rightarrow> nat \<Rightarrow> buffer_device \<Rightarrow> host_ptr option outcome \<times> buffer_device" where
  "buffer_contents mappable h d =
     (case map_of (buffers d) h of
        None \<Rightarrow> (Inl Undefined, d)
      | Some b \<Rightarrow>
         (let keep = (\<lambda>p. d\<lparr>buffers := map (\<lambda>q. if fst q = h then (h, b\<lparr>buf_mapped := Some p\<rparr>) else q) (buffers d)\<rparr>) in
          if storageMode b \<noteq> Managed \<and> storageMode b \<noteq> Shared then (Inr None, d)
          else case buf_mapped b of
            Some p \<Rightarrow> (Inr (Some p), d)
          | None \<Rightarrow>
             (case memoryBlock b of
                Some i \<Rightarrow>
                  (case blocks d i of
                     None \<Rightarrow> (Inl Undefined, d)
                   | Some blk \<Rightarrow>
                      (let p = (if block_mapped blk then In_block i (memoryOffset b) else Null_plus (memoryOffset b))
                       in (Inr (Some p), keep p)))
              | None \<Rightarrow> if mappable then (Inr (Some In_own), keep In_own) else (Inl Abort, d))))"

text \<open>
  The constructor that copies \<open>pointer\<close>: create, map, copy \<open>length\<close> bytes to the mapping, and
  flush the whole memory of a managed buffer that is not coherent. The result is the buffer, the
  address the bytes went to, and whether they were flushed.
\<close>

definition create_buffer_copy :: "(u64 \<Rightarrow> StorageMode) \<Rightarrow> buffer_driver \<Rightarrow> bool \<Rightarrow> u64 \<Rightarrow> u64 \<Rightarrow>
    buffer_device \<Rightarrow> (nat \<times> host_ptr \<times> bool) outcome \<times> buffer_device" where
  "create_buffer_copy storage_of drv flushOk len options d =
     (case create_buffer storage_of drv len options d of
        (Inl e, d') \<Rightarrow> (Inl e, d')
      | (Inr h, d') \<Rightarrow>
         (case buffer_contents (mapOk drv) h d' of
            (Inl e, d'') \<Rightarrow> (Inl e, d'')
          | (Inr None, d'') \<Rightarrow> (Inl Abort, d'')
          | (Inr (Some p), d'') \<Rightarrow>
              (case map_of (buffers d'') h of
                 None \<Rightarrow> (Inl Undefined, d'')
               | Some b \<Rightarrow>
                  (let flush = (storageMode b = Managed \<and> \<not> hostCoherent b) in
                   if flush \<and> \<not> flushOk then (Inl Abort, d'') else (Inr (h, p, flush), d'')))))"

text \<open>\<open>didModifyRange\<close>: the range handed to \<open>vkFlushMappedMemoryRanges\<close>, or none.\<close>

definition didModifyRange :: "u64 \<Rightarrow> PrivateBuffer \<Rightarrow> u64 \<Rightarrow> u64 \<Rightarrow> (u64 \<times> u64) option outcome" where
  "didModifyRange atom b start len =
     (if start > buf_length b \<or> len > buf_length b - start
      then Inl (Throw ''Modified buffer range exceeds allocation'')
      else if len = 0 then Inr None
      else if buf_mapped b = None then Inl (Throw ''Modified buffer is not mapped'')
      else if hostCoherent b then Inr None
      else let s = start - start mod atom; e = start + len; padding = (atom - e mod atom) mod atom
           in Inr (Some (s, e + min padding (allocationSize b - e) - s)))"

end
