(* ===== verification/BufferSafety.thy ===== *)
theory BufferSafety
  imports BufferMemory
begin

section \<open>Buffer memory is never shared, lost or misaligned\<close>

text \<open>
  The invariant of the device's buffer pool, its preservation by every operation, and what it
  gives for every reachable device: live buffers occupy disjoint ranges inside their block, no
  block and no Vulkan buffer leaks, destruction never reaches undefined behaviour, idle memory
  is bounded.
\<close>

subsection \<open>The invariant\<close>

definition used_in :: "nat \<Rightarrow> nat \<Rightarrow> (nat \<times> PrivateBuffer) list \<Rightarrow> nat list" where
  "used_in i w bs = map (\<lambda>p. memoryOffset (snd p) div w) (filter (\<lambda>p. memoryBlock (snd p) = Some i) bs)"

definition visible_type :: "memory_properties \<Rightarrow> nat \<Rightarrow> bool" where
  "visible_type mem t \<longleftrightarrow> propertyFlags (memoryTypes mem ! t) AND VK_MEMORY_PROPERTY_HOST_VISIBLE_BIT \<noteq> 0"

definition block_ok :: "buffer_device \<Rightarrow> nat \<Rightarrow> BufferMemoryBlock \<Rightarrow> bool" where
  "block_ok d i blk \<longleftrightarrow> 0 < slotSize blk \<and> 0 < capacity blk \<and> block_capacity (slotSize blk) = capacity blk
     \<and> block_mapped blk = visible_type (memoryProperties d) (block_type blk)
     \<and> slots_ok (freeSlots blk) (used_in i (slotSize blk) (buffers d)) (capacity blk)"

definition bound_ok :: "BufferMemoryBlock \<Rightarrow> nat \<Rightarrow> PrivateBuffer \<Rightarrow> bool" where
  "bound_ok blk i b \<longleftrightarrow> slotSize blk dvd memoryOffset b \<and> unat (allocationSize b) \<le> slotSize blk
     \<and> (storageMode b = Shared \<or> storageMode b = Managed \<longrightarrow> block_mapped blk)
     \<and> (buf_mapped b = None \<or> buf_mapped b = Some (In_block i (memoryOffset b)))"

definition buffer_ok :: "(nat \<Rightarrow> BufferMemoryBlock option) \<Rightarrow> PrivateBuffer \<Rightarrow> bool" where
  "buffer_ok bm b \<longleftrightarrow>
     (case memoryBlock b of
        None \<Rightarrow> buf_mapped b = None \<or> buf_mapped b = Some In_own
      | Some i \<Rightarrow> (case bm i of None \<Rightarrow> False | Some blk \<Rightarrow> bound_ok blk i b))"

definition idle_unique :: "(nat \<Rightarrow> BufferMemoryBlock option) \<Rightarrow> bool" where
  "idle_unique bm \<longleftrightarrow>
     (\<forall>i j b. bm i = Some b \<and> capacity b \<noteq> 1 \<and> length (freeSlots b) = capacity b
        \<and> same_class_idle b (bm j) \<longrightarrow> i = j)"

lemma idle_uniqueD:
  "idle_unique bm \<Longrightarrow> bm i = Some b \<Longrightarrow> capacity b \<noteq> 1 \<Longrightarrow> length (freeSlots b) = capacity b
     \<Longrightarrow> same_class_idle b (bm j) \<Longrightarrow> i = j"
  unfolding idle_unique_def by blast

text \<open>The names of the live buffers, and the memory behind them.\<close>

definition names_ok :: "buffer_device \<Rightarrow> bool" where
  "names_ok d \<longleftrightarrow>
     distinct (map fst (buffers d)) \<and> (\<forall>p\<in>set (buffers d). fst p < nextBuffer d)
     \<and> distinct (vkBuffers d) \<and> set (vkBuffers d) = fst ` set (buffers d)"

definition mem_core :: "buffer_device \<Rightarrow> bool" where
  "mem_core d \<longleftrightarrow>
     distinct (bufferMemoryBlocks d) \<and> (\<forall>i\<in>set (bufferMemoryBlocks d). i < nextBlock d)
     \<and> dom (blocks d) = set (bufferMemoryBlocks d)
     \<and> (\<forall>i blk. blocks d i = Some blk \<longrightarrow> block_ok d i blk)
     \<and> (\<forall>p\<in>set (buffers d). buffer_ok (blocks d) (snd p))"

definition mem_ok :: "buffer_device \<Rightarrow> bool" where
  "mem_ok d \<longleftrightarrow> mem_core d \<and> idle_unique (blocks d)"

definition pool_inv :: "buffer_device \<Rightarrow> bool" where
  "pool_inv d \<longleftrightarrow> names_ok d \<and> mem_ok d"

lemma pool_inv_init: "pool_inv (init_device mem)"
  by (simp add: pool_inv_def names_ok_def mem_ok_def mem_core_def idle_unique_def init_device_def)

lemma mem_ok_cong:
  assumes "mem_ok d" "blocks d' = blocks d" "bufferMemoryBlocks d' = bufferMemoryBlocks d"
    "nextBlock d' = nextBlock d" "buffers d' = buffers d" "memoryProperties d' = memoryProperties d"
  shows "mem_ok d'"
  using assms by (simp add: mem_ok_def mem_core_def block_ok_def)

lemma mem_coreD:
  assumes "mem_core d"
  shows "dom (blocks d) = set (bufferMemoryBlocks d)"
    and "\<And>i. i \<in> set (bufferMemoryBlocks d) \<Longrightarrow> i < nextBlock d"
    and "\<And>i blk. blocks d i = Some blk \<Longrightarrow> block_ok d i blk"
    and "\<And>p. p \<in> set (buffers d) \<Longrightarrow> buffer_ok (blocks d) (snd p)"
    and "distinct (bufferMemoryBlocks d)"
  using assms by (auto simp: mem_core_def)

lemma buffer_ok_block:
  assumes "buffer_ok bm b" "memoryBlock b = Some i"
  obtains blk where "bm i = Some blk" "bound_ok blk i b"
  using assms by (auto simp: buffer_ok_def split: option.splits)

text \<open>A buffer of a block keeps its block out of the idle ones.\<close>

lemma block_all_free_iff:
  "block_ok d i blk \<Longrightarrow> length (freeSlots blk) = capacity blk \<longleftrightarrow> used_in i (slotSize blk) (buffers d) = []"
  unfolding block_ok_def using slots_ok_all_free by blast

lemma used_in_Cons:
  "used_in i w (p # bs) =
     (if memoryBlock (snd p) = Some i then [memoryOffset (snd p) div w] else []) @ used_in i w bs"
  by (simp add: used_in_def)

lemma used_in_none: "(\<And>p. p \<in> set bs \<Longrightarrow> memoryBlock (snd p) \<noteq> Some i) \<Longrightarrow> used_in i w bs = []"
  by (auto simp: used_in_def filter_empty_conv)

lemma used_in_Nil_iff: "used_in i w bs = [] \<longleftrightarrow> (\<forall>p\<in>set bs. memoryBlock (snd p) \<noteq> Some i)"
  by (auto simp: used_in_def filter_empty_conv)

text \<open>Removing one live buffer removes its slot and nothing else.\<close>

lemma used_in_remove:
  assumes "distinct (map fst bs)" "(h, b) \<in> set bs"
  shows "mset (used_in i w bs) =
     (if memoryBlock b = Some i then {#memoryOffset b div w#} else {#})
       + mset (used_in i w (filter (\<lambda>p. fst p \<noteq> h) bs))"
  using assms
proof (induction bs)
  case Nil
  then show ?case by simp
next
  case (Cons p bs)
  show ?case
  proof (cases "fst p = h")
    case True
    then have "h \<notin> fst ` set bs" using Cons.prems(1) by auto
    then have "(h, b) \<notin> set bs" by (metis fst_conv imageI)
    with Cons.prems(2) have "p = (h, b)" by simp
    moreover have "filter (\<lambda>p. fst p \<noteq> h) bs = bs"
      using \<open>h \<notin> fst ` set bs\<close> by (intro filter_True ballI) (metis imageI)
    ultimately show ?thesis by (simp add: used_in_Cons)
  next
    case False
    then have "(h, b) \<in> set bs" using Cons.prems(2) by auto
    with Cons False show ?thesis by (simp add: used_in_Cons)
  qed
qed

lemma live_lookup:
  assumes "distinct (map fst bs)"
  shows "map_of bs h = Some b \<longleftrightarrow> (h, b) \<in> set bs"
  using assms by (metis map_of_SomeD map_of_is_SomeI)

subsection \<open>Creation\<close>

definition driver_ok :: "buffer_driver \<Rightarrow> bool" where
  "driver_ok drv \<longleftrightarrow> 0 < reqSize drv \<and> (\<exists>k. unat (reqAlignment drv) = 2 ^ k)"

lemma pick_block_frame:
  assumes "pick_block drv t slot visible d = (r, d')"
  shows "buffers d' = buffers d" "vkBuffers d' = vkBuffers d" "nextBuffer d' = nextBuffer d"
    "memoryProperties d' = memoryProperties d"
  using assms by (auto simp: pick_block_def Let_def split: option.splits sum.splits)

lemma pick_block_error:
  assumes "pick_block drv t slot visible d = (Inl e, d')" "mem_ok d"
  shows "d' = d" "e \<noteq> Undefined"
proof -
  have live: "blocks d i \<noteq> None" if "find (\<lambda>i. block_fits t slot (blocks d i)) pool = Some i" for i pool
    using that by (auto simp: find_Some_iff block_fits_def split: option.splits)
  show "d' = d" using assms(1) by (auto simp: pick_block_def Let_def split: option.splits sum.splits)
  show "e \<noteq> Undefined"
  proof (cases "find (\<lambda>i. block_fits t slot (blocks d i)) (bufferMemoryBlocks d)")
    case None
    then show ?thesis using assms(1) by (auto simp: pick_block_def Let_def make_block_def split: if_splits)
  next
    case (Some i)
    then show ?thesis using assms(1) live [OF Some] by (auto simp: pick_block_def split: option.splits)
  qed
qed

lemma add_block_mem_ok:
  assumes d: "mem_ok d" and new: "make_block a m t slot (visible_type (memoryProperties d) t) = Inr blk"
    and slot: "0 < slot" and none: "\<And>j. j \<in> set (bufferMemoryBlocks d) \<Longrightarrow> \<not> block_fits t slot (blocks d j)"
  shows "mem_ok (d\<lparr>blocks := (blocks d)(nextBlock d \<mapsto> blk),
      bufferMemoryBlocks := bufferMemoryBlocks d @ [nextBlock d], nextBlock := Suc (nextBlock d)\<rparr>)"
    (is "mem_ok ?d'")
proof -
  let ?n = "nextBlock d"
  note blk = make_block_ok [OF new]
  have core: "mem_core d" and old: "idle_unique (blocks d)" using d by (simp_all add: mem_ok_def)
  note D = mem_coreD [OF core]
  have n: "?n \<notin> set (bufferMemoryBlocks d)" using D(2) by blast
  have bn: "blocks d ?n = None" using n D(1) by blast
  have unused: "used_in ?n w (buffers d) = []" for w
  proof (rule used_in_none)
    fix p assume "p \<in> set (buffers d)"
    then show "memoryBlock (snd p) \<noteq> Some ?n" using bn D(4) [of p] by (auto simp: buffer_ok_def)
  qed
  have b: "block_ok ?d' i c" if "blocks ?d' i = Some c" for i c
    using that D(3) blk slot unused by (auto simp: block_ok_def split: if_splits)
  have u: "buffer_ok (blocks ?d') (snd p)" if "p \<in> set (buffers ?d')" for p
    using that D(4) [of p] bn by (auto simp: buffer_ok_def split: option.splits)
  have notidle: "\<not> same_class_idle blk (blocks d j)" for j
  proof
    assume s: "same_class_idle blk (blocks d j)"
    then obtain c where c: "blocks d j = Some c" "block_type c = t" "slotSize c = slot"
        "length (freeSlots c) = capacity c"
      using blk by (auto simp: same_class_idle_def split: option.splits)
    then have "0 < capacity c" "j \<in> set (bufferMemoryBlocks d)"
      using D(1,3) by (auto simp: block_ok_def)
    then show False using c none by (force simp: block_fits_def)
  qed
  have "idle_unique (blocks ?d')"
    unfolding idle_unique_def
  proof (intro allI impI, elim conjE)
    fix i j b
    assume i: "blocks ?d' i = Some b" and b: "capacity b \<noteq> 1" "length (freeSlots b) = capacity b"
      and j: "same_class_idle b (blocks ?d' j)"
    consider "i = ?n" "j \<noteq> ?n" | "i \<noteq> ?n" "j = ?n" | "i = j" | "i \<noteq> ?n" "j \<noteq> ?n" by blast
    then show "i = j"
    proof cases
      case 1
      then show ?thesis using i j notidle by auto
    next
      case 2
      then have "same_class_idle blk (blocks d i)" using i j b by (auto simp: same_class_idle_def)
      then show ?thesis using notidle by blast
    next
      case 4
      then have "blocks d i = Some b" "same_class_idle b (blocks d j)" using i j by simp_all
      then show ?thesis using b old by (blast dest: idle_uniqueD)
    qed
  qed
  moreover have "dom (blocks ?d') = set (bufferMemoryBlocks ?d')" using D(1) by simp
  moreover have "distinct (bufferMemoryBlocks ?d')" using D(5) n by simp
  moreover have "\<forall>i\<in>set (bufferMemoryBlocks ?d'). i < nextBlock ?d'"
    using D(2) by (auto simp: less_Suc_eq)
  ultimately show ?thesis
    unfolding mem_ok_def mem_core_def using b u by blast
qed

lemma pick_block_ok:
  assumes pick: "pick_block drv t slot (visible_type (memoryProperties d) t) d = (Inr (i, blk), d')"
    and d: "mem_ok d" and slot: "0 < slot"
  shows "mem_ok d'" and "blocks d' i = Some blk" and "freeSlots blk \<noteq> []"
    and "slotSize blk = slot" and "block_type blk = t"
proof -
  let ?found = "find (\<lambda>i. block_fits t slot (blocks d i)) (bufferMemoryBlocks d)"
  have "mem_ok d' \<and> blocks d' i = Some blk \<and> freeSlots blk \<noteq> [] \<and> slotSize blk = slot \<and> block_type blk = t"
  proof (cases ?found)
    case (Some j)
    then have "block_fits t slot (blocks d j)" by (auto simp: find_Some_iff)
    then show ?thesis using pick d Some by (auto simp: pick_block_def block_fits_def split: option.splits)
  next
    case None
    then have none: "\<And>j. j \<in> set (bufferMemoryBlocks d) \<Longrightarrow> \<not> block_fits t slot (blocks d j)"
      by (auto simp: find_None_iff)
    from None pick have new: "make_block (allocOk drv) (mapOk drv) t slot (visible_type (memoryProperties d) t) = Inr blk"
      and i: "i = nextBlock d"
      and d': "d' = d\<lparr>blocks := (blocks d)(i \<mapsto> blk), bufferMemoryBlocks := bufferMemoryBlocks d @ [i],
        nextBlock := Suc i\<rparr>"
      by (auto simp: pick_block_def Let_def split: sum.splits)
    have "mem_ok d'" unfolding d' i by (rule add_block_mem_ok [OF d new slot none])
    then show ?thesis using make_block_ok [OF new] d' by simp
  qed
  then show "mem_ok d'" "blocks d' i = Some blk" "freeSlots blk \<noteq> []" "slotSize blk = slot" "block_type blk = t"
    by simp_all
qed

text \<open>Updating a block in place keeps what its buffers rely on.\<close>

lemma buffer_ok_update:
  assumes "bm i = Some blk" "slotSize blk' = slotSize blk" "block_mapped blk' = block_mapped blk"
  shows "buffer_ok (bm(i \<mapsto> blk')) b = buffer_ok bm b"
  using assms by (auto simp: buffer_ok_def bound_ok_def split: option.splits)

lemma idle_unique_update:
  assumes "idle_unique bm" "length (freeSlots blk') \<noteq> capacity blk'"
  shows "idle_unique (bm(i \<mapsto> blk'))"
  unfolding idle_unique_def
proof (intro allI impI, elim conjE)
  fix k j b
  assume k: "(bm(i \<mapsto> blk')) k = Some b" and b: "capacity b \<noteq> 1" "length (freeSlots b) = capacity b"
    and j: "same_class_idle b ((bm(i \<mapsto> blk')) j)"
  have "k \<noteq> i" using k b assms(2) by auto
  moreover have "j \<noteq> i" using j assms(2) by (auto simp: same_class_idle_def)
  ultimately have "bm k = Some b" "same_class_idle b (bm j)" using k j by simp_all
  then show "k = j" using b assms(1) by (blast dest: idle_uniqueD)
qed

lemma bind_slot_mem_ok:
  assumes d: "mem_ok d" and i: "blocks d i = Some blk" and take: "block_take blk = (Some off, blk')"
    and buf: "memoryBlock b = Some i" "memoryOffset b = off" "buf_mapped b = None"
      "unat (allocationSize b) \<le> slotSize blk"
      "storageMode b = Shared \<or> storageMode b = Managed \<longrightarrow> block_mapped blk"
  shows "mem_ok (d\<lparr>blocks := (blocks d)(i \<mapsto> blk'), buffers := (h, b) # buffers d\<rparr>)" (is "mem_ok ?d'")
proof -
  have core: "mem_core d" and old: "idle_unique (blocks d)" using d by (simp_all add: mem_ok_def)
  note D = mem_coreD [OF core]
  have ok: "block_ok d i blk" using D(3) i by blast
  then have w: "0 < slotSize blk" and c: "0 < capacity blk"
    and s: "slots_ok (freeSlots blk) (used_in i (slotSize blk) (buffers d)) (capacity blk)"
    by (simp_all add: block_ok_def)
  from bufslots.take_slots_ok [OF take s]
  obtain t where t: "off = t * slotSize blk"
      "slots_ok (freeSlots blk') (t # used_in i (slotSize blk) (buffers d)) (capacity blk')"
    by blast
  have frame: "slotSize blk' = slotSize blk" "capacity blk' = capacity blk"
      "block_mapped blk' = block_mapped blk" "block_type blk' = block_type blk"
    using take by (auto simp: block_take_def split: if_splits)
  have new: "block_ok ?d' i blk'"
    using ok t w buf frame by (simp add: block_ok_def used_in_Cons)
  have b: "block_ok ?d' j c" if "blocks ?d' j = Some c" for j c
  proof (cases "j = i")
    case True
    then show ?thesis using new that by simp
  next
    case False
    then show ?thesis using that D(3) buf by (auto simp: block_ok_def used_in_Cons)
  qed
  have "buffer_ok (blocks ?d') b"
    using buf t frame by (simp add: buffer_ok_def bound_ok_def)
  moreover have "buffer_ok (blocks ?d') (snd p)" if "p \<in> set (buffers d)" for p
    using D(4) [OF that] by (simp add: buffer_ok_update [of "blocks d" i, OF i frame(1,3)])
  ultimately have u: "buffer_ok (blocks ?d') (snd p)" if "p \<in> set (buffers ?d')" for p
    using that by (cases "p = (h, b)") simp_all
  have "length (freeSlots blk') \<noteq> capacity blk'"
    using slots_ok_all_free [OF t(2)] by simp
  then have "idle_unique (blocks ?d')" using old by (simp add: idle_unique_update)
  moreover have "dom (blocks ?d') = set (bufferMemoryBlocks ?d')" using D(1) i by auto
  ultimately show ?thesis
    unfolding mem_ok_def mem_core_def using b u D(2,5) by simp
qed

lemma add_dedicated_mem_ok:
  assumes "mem_ok d" "memoryBlock b = None" "buf_mapped b = None"
  shows "mem_ok (d\<lparr>buffers := (h, b) # buffers d\<rparr>)"
  using assms by (simp add: mem_ok_def mem_core_def block_ok_def used_in_Cons buffer_ok_def)

text \<open>
  A buffer that is created keeps the invariant, is new, lies at an offset of the alignment
  Vulkan asked for, and has room for its allocation; an exception leaves the device's buffers
  and blocks as they were.
\<close>

lemma pool_inv_created:
  assumes "names_ok d" "buffers d' = (nextBuffer d, b) # buffers d"
    "vkBuffers d' = nextBuffer d # vkBuffers d" "nextBuffer d' = Suc (nextBuffer d)"
  shows "names_ok d'"
proof -
  have "nextBuffer d \<notin> fst ` set (buffers d)" using assms(1) by (force simp: names_ok_def)
  then show ?thesis using assms by (auto simp: names_ok_def less_Suc_eq)
qed

definition fresh_buffer :: "memory_properties \<Rightarrow> buffer_driver \<Rightarrow> u64 \<Rightarrow> StorageMode \<Rightarrow> nat \<Rightarrow> PrivateBuffer" where
  "fresh_buffer mem drv len mode t =
     \<lparr>buf_length = len, storageMode = mode,
      hostCoherent = (propertyFlags (memoryTypes mem ! t) AND VK_MEMORY_PROPERTY_HOST_COHERENT_BIT \<noteq> 0),
      allocationSize = reqSize drv, memoryBlock = None, memoryOffset = 0, buf_mapped = None\<rparr>"

text \<open>The two ways in which a buffer is created.\<close>

lemma create_bufferE:
  assumes create: "create_buffer storage_of drv len opts d = (Inr h, d')"
    and mode: "mode = storage_of (drop_bit 4 opts AND 0xf)"
    and c: "c = d\<lparr>vkBuffers := nextBuffer d # vkBuffers d, nextBuffer := Suc (nextBuffer d)\<rparr>"
  obtains (dedicated) t where "h = nextBuffer d"
      "buffer_memory_type (memoryProperties d) (reqTypeBits drv) (mode = Shared) (mode = Managed) (opts AND 1 \<noteq> 0) = Some t"
      "d' = c\<lparr>buffers := (h, fresh_buffer (memoryProperties d) drv len mode t) # buffers c\<rparr>"
  | (slot) t i blk d1 off blk' where "h = nextBuffer d"
      "buffer_memory_type (memoryProperties d) (reqTypeBits drv) (mode = Shared) (mode = Managed) (opts AND 1 \<noteq> 0) = Some t"
      "pick_block drv t (slot_size_for (unat (reqSize drv)) (unat (reqAlignment drv)))
         (visible_type (memoryProperties c) t) c = (Inr (i, blk), d1)"
      "block_take blk = (Some off, blk')"
      "d' = d1\<lparr>blocks := (blocks d1)(i \<mapsto> blk'),
          buffers := (h, (fresh_buffer (memoryProperties d) drv len mode t)\<lparr>memoryBlock := Some i, memoryOffset := off\<rparr>)
            # buffers d1\<rparr>"
proof -
  obtain t where t: "buffer_memory_type (memoryProperties d) (reqTypeBits drv) (mode = Shared) (mode = Managed)
      (opts AND 1 \<noteq> 0) = Some t"
    using create by (auto simp: create_buffer_def Let_def mode split: if_splits option.splits)
  have vis: "(propertyFlags (memoryTypes (memoryProperties d) ! t) AND VK_MEMORY_PROPERTY_HOST_VISIBLE_BIT \<noteq> 0)
      = visible_type (memoryProperties d) t"
    by (simp add: visible_type_def)
  show thesis
  proof (cases "pooled drv mode (visible_type (memoryProperties d) t)
      (propertyFlags (memoryTypes (memoryProperties d) ! t) AND VK_MEMORY_PROPERTY_HOST_COHERENT_BIT \<noteq> 0)")
    case False
    then show thesis using create t vis dedicated [of t]
      by (auto simp: create_buffer_def Let_def mode c fresh_buffer_def split: if_splits)
  next
    case True
    let ?slot = "slot_size_for (unat (reqSize drv)) (unat (reqAlignment drv))"
    obtain r d1 where pick: "pick_block drv t ?slot (visible_type (memoryProperties c) t) c = (r, d1)"
      by fastforce
    have ok: "createOk drv" using create by (auto simp: create_buffer_def Let_def split: if_splits)
    have pick': "pick_block drv t ?slot (visible_type (memoryProperties d) t)
        (d\<lparr>vkBuffers := nextBuffer d # vkBuffers d, nextBuffer := Suc (nextBuffer d)\<rparr>) = (r, d1)"
      using pick by (simp add: c)
    obtain i blk where r: "r = Inr (i, blk)"
      using create t ok True pick' vis
      by (cases r) (auto simp: create_buffer_def Let_def mode [symmetric])
    obtain off blk' where take: "block_take blk = (Some off, blk')"
      using create t ok True pick' vis r
      by (cases "block_take blk"; cases "fst (block_take blk)")
        (auto simp: create_buffer_def Let_def mode [symmetric])
    show thesis
      using create t ok True pick' vis r take
      by (intro slot [OF _ t pick [unfolded r] take])
        (auto simp: create_buffer_def Let_def mode [symmetric] fresh_buffer_def split: if_splits)
  qed
qed

lemma create_buffer_inv:
  assumes inv: "pool_inv d" and drv: "driver_ok drv"
    and create: "create_buffer storage_of drv len opts d = (Inr h, d')"
  shows "pool_inv d' \<and> memoryProperties d' = memoryProperties d \<and> h = nextBuffer d
    \<and> (\<exists>b. buffers d' = (h, b) # buffers d \<and> buf_length b = len
           \<and> allocationSize b = reqSize drv \<and> unat (reqAlignment drv) dvd memoryOffset b)"
proof -
  obtain k where k: "unat (reqAlignment drv) = 2 ^ k" and pos: "0 < unat (reqSize drv)"
    using drv by (auto simp: driver_ok_def unat_gt_0)
  have names: "names_ok d" and mem: "mem_ok d" using inv by (simp_all add: pool_inv_def)
  define c where "c = d\<lparr>vkBuffers := nextBuffer d # vkBuffers d, nextBuffer := Suc (nextBuffer d)\<rparr>"
  have memc: "mem_ok c" using mem by (rule mem_ok_cong) (simp_all add: c_def)
  from create refl c_def show ?thesis
  proof (cases rule: create_bufferE)
    case (dedicated t)
    have "mem_ok d'"
      unfolding dedicated(3) by (rule add_dedicated_mem_ok [OF memc]) (simp_all add: fresh_buffer_def)
    moreover have "names_ok d'" using dedicated by (intro pool_inv_created [OF names]) (simp_all add: c_def)
    ultimately show ?thesis using dedicated by (simp add: pool_inv_def fresh_buffer_def c_def)
  next
    case (slot t i blk d1 off blk')
    note S = slot_size_for_ok [OF pos k] and F = pick_block_frame [OF slot(3)]
    note P = pick_block_ok [OF slot(3) memc S(2)]
    have "block_ok d1 i blk" using P(1,2) by (simp add: mem_ok_def mem_core_def)
    then have "block_mapped blk = visible_type (memoryProperties d) t"
      using P(5) F(4) by (simp add: block_ok_def c_def)
    then have shared: "mode = Shared \<or> mode = Managed \<longrightarrow> block_mapped blk"
      if "mode = storage_of (drop_bit 4 opts AND 0xf)" for mode
      using buffer_memory_type_flags(3) [OF slot(2)] that
      by (auto simp: has_flags_def visible_type_def model_simps)
    have "mem_ok d'"
      unfolding slot(5) using P S shared slot(4)
      by (intro bind_slot_mem_ok [where blk = blk and off = off]) (auto simp: fresh_buffer_def)
    moreover have "names_ok d'" using slot F by (intro pool_inv_created [OF names]) (simp_all add: c_def)
    moreover have "unat (reqAlignment drv) dvd off"
      using bufslots.take_SomeE [OF slot(4)] P(4) S(3) by (metis dvd_mult)
    ultimately show ?thesis using slot F by (simp add: pool_inv_def fresh_buffer_def c_def)
  qed
qed

subsection \<open>Destruction\<close>

lemma set_owned_blocks: "i \<in> set (owned_blocks bs) \<longleftrightarrow> (\<exists>p\<in>set bs. memoryBlock (snd p) = Some i)"
  by (induction bs) (auto simp: owned_blocks_def List.map_filter_simps split: option.splits)

text \<open>Dropping blocks nobody uses from the pool destroys them, and only them.\<close>

lemma drop_blocks:
  assumes core: "mem_core d" and sub: "set pool' \<subseteq> set (bufferMemoryBlocks d)" and dist: "distinct pool'"
    and unused: "\<And>i p. i \<in> set (bufferMemoryBlocks d) - set pool' \<Longrightarrow> p \<in> set (buffers d)
      \<Longrightarrow> memoryBlock (snd p) \<noteq> Some i"
  shows "blocks (release (d\<lparr>bufferMemoryBlocks := pool'\<rparr>)) = blocks d |` set pool'"
    and "mem_core (release (d\<lparr>bufferMemoryBlocks := pool'\<rparr>))"
proof -
  note D = mem_coreD [OF core]
  let ?d' = "release (d\<lparr>bufferMemoryBlocks := pool'\<rparr>)"
  have own: "set (owned_blocks (buffers d)) \<subseteq> set pool'"
  proof
    fix i assume "i \<in> set (owned_blocks (buffers d))"
    then obtain p where p: "p \<in> set (buffers d)" "memoryBlock (snd p) = Some i"
      by (auto simp: set_owned_blocks)
    then obtain blk where "blocks d i = Some blk" using D(4) by (blast elim: buffer_ok_block)
    then have "i \<in> set (bufferMemoryBlocks d)" using D(1) by blast
    then show "i \<in> set pool'" using unused p by blast
  qed
  then show blocks: "blocks ?d' = blocks d |` set pool'"
    by (simp add: release_def Un_absorb2)
  have "buffer_ok (blocks ?d') (snd p)" if p: "p \<in> set (buffers d)" for p
  proof -
    have "i \<in> set pool'" if "memoryBlock (snd p) = Some i" for i
      using own p that set_owned_blocks by blast
    then show ?thesis using D(4) [OF p] by (auto simp: buffer_ok_def blocks split: option.splits)
  qed
  moreover have "block_ok ?d' i blk" if "blocks ?d' i = Some blk" for i blk
    using that D(3) [of i blk] by (auto simp: block_ok_def blocks restrict_map_def release_def split: if_splits)
  moreover have "dom (blocks ?d') = set pool'" using D(1) sub by (auto simp: blocks)
  ultimately show "mem_core ?d'"
    using dist sub D(2) by (auto simp: mem_core_def release_def)
qed

lemma idle_unique_restrict: "idle_unique bm \<Longrightarrow> idle_unique (bm |` A)"
  unfolding idle_unique_def
proof (intro allI impI, elim conjE)
  fix i j b
  assume u: "\<forall>i j b. bm i = Some b \<and> capacity b \<noteq> 1 \<and> length (freeSlots b) = capacity b
      \<and> same_class_idle b (bm j) \<longrightarrow> i = j"
    and i: "(bm |` A) i = Some b" and b: "capacity b \<noteq> 1" "length (freeSlots b) = capacity b"
    and j: "same_class_idle b ((bm |` A) j)"
  have "bm i = Some b" using i by (simp add: restrict_map_def split: if_splits)
  moreover have "same_class_idle b (bm j)"
    using j by (cases "j \<in> A") (simp_all add: same_class_idle_def)
  ultimately show "i = j" using u b by blast
qed

lemma same_class_idle_sym:
  "same_class_idle b (Some c) \<Longrightarrow> length (freeSlots b) = capacity b \<Longrightarrow> same_class_idle c (Some b)"
  by (simp add: same_class_idle_def)

lemma idle_unique_give:
  assumes old: "idle_unique bm" and none: "\<And>j. j \<noteq> i \<Longrightarrow> capacity blk \<noteq> 1 \<Longrightarrow> \<not> same_class_idle blk (bm j)"
    and caps: "\<And>j c. bm j = Some c \<Longrightarrow> capacity c = block_capacity (slotSize c)"
    and cap: "capacity blk = block_capacity (slotSize blk)"
  shows "idle_unique (bm(i \<mapsto> blk))"
  unfolding idle_unique_def
proof (intro allI impI, elim conjE)
  fix k j b
  assume k: "(bm(i \<mapsto> blk)) k = Some b" and b: "capacity b \<noteq> 1" "length (freeSlots b) = capacity b"
    and j: "same_class_idle b ((bm(i \<mapsto> blk)) j)"
  consider "k = i" | "k \<noteq> i" "j = i" | "k \<noteq> i" "j \<noteq> i" by blast
  then show "k = j"
  proof cases
    case 1
    then show ?thesis using k j b none by (cases "j = i") auto
  next
    case 2
    then have bk: "bm k = Some b" and s: "same_class_idle b (Some blk)" using k j by simp_all
    then have "capacity blk \<noteq> 1" using caps [OF bk] cap b by (simp add: same_class_idle_def)
    then show ?thesis using none [OF 2(1)] same_class_idle_sym [OF s b(2)] bk by simp
  next
    case 3
    then show ?thesis using k j b old by (auto dest: idle_uniqueD)
  qed
qed

lemma give_mem_core:
  assumes d: "mem_core d" and dist: "distinct (map fst (buffers d))" and h: "(h, b) \<in> set (buffers d)"
    and i: "memoryBlock b = Some i" "blocks d i = Some blk"
    and d': "d' = d\<lparr>blocks := (blocks d)(i \<mapsto> block_give (memoryOffset b) blk),
      buffers := filter (\<lambda>p. fst p \<noteq> h) (buffers d)\<rparr>"
  shows "mem_core d'" and "block_ok d' i (block_give (memoryOffset b) blk)"
proof -
  note D = mem_coreD [OF d]
  let ?blk = "block_give (memoryOffset b) blk"
  let ?rest = "filter (\<lambda>p. fst p \<noteq> h) (buffers d)"
  have frame: "slotSize ?blk = slotSize blk" "capacity ?blk = capacity blk" "block_mapped ?blk = block_mapped blk"
      "block_type ?blk = block_type blk"
    by (simp_all add: block_give_def)
  have bok: "block_ok d i blk" using D(3) i(2) by blast
  have "slotSize blk dvd memoryOffset b"
    using D(4) [OF h] i by (simp add: buffer_ok_def bound_ok_def)
  then have off: "memoryOffset b = memoryOffset b div slotSize blk * slotSize blk" by simp
  have "mset (used_in i (slotSize blk) (buffers d))
      = add_mset (memoryOffset b div slotSize blk) (mset (used_in i (slotSize blk) ?rest))"
    using used_in_remove [OF dist h, of i] i(1) by simp
  then have "slots_ok (freeSlots ?blk) (used_in i (slotSize blk) ?rest) (capacity ?blk)"
    using bok bufslots.give_slots_ok [of blk] off by (metis block_ok_def)
  then show own: "block_ok d' i ?blk" using bok frame by (simp add: block_ok_def d')
  have "block_ok d' j c" if "j \<noteq> i" "blocks d j = Some c" for j c
  proof -
    have "mset (used_in j w (buffers d)) = mset (used_in j w ?rest)" for w
      using used_in_remove [OF dist h, of j] i(1) that(1) by simp
    then show ?thesis using D(3) [OF that(2)] by (simp add: block_ok_def slots_ok_def d')
  qed
  with own have bl: "\<forall>j c. blocks d' j = Some c \<longrightarrow> block_ok d' j c" by (simp add: d')
  have "buffer_ok (blocks d') (snd p)" if "p \<in> set (buffers d')" for p
    using that D(4) [of p] by (simp add: d' buffer_ok_update [of "blocks d" i, OF i(2) frame(1,3)])
  moreover have "dom (blocks d') = set (bufferMemoryBlocks d')" using D(1) i(2) by (auto simp: d')
  moreover have "distinct (bufferMemoryBlocks d')" "\<forall>i\<in>set (bufferMemoryBlocks d'). i < nextBlock d'"
    using D(2,5) by (simp_all add: d')
  ultimately show "mem_core d'"
    using bl by (simp add: mem_core_def)
qed


text \<open>The eviction loop ends without reaching \<open>end()\<close>: it drops idle blocks only, and stops
  under the limit.\<close>

lemma idle_bytes_remove1:
  assumes "old \<in> set pool" "idle_large bm old"
  shows "idle_bytes bm pool = slot_bytes bm old + idle_bytes bm (remove1 old pool)"
proof -
  have "old \<in> set (filter (idle_large bm) pool)" using assms by simp
  then show ?thesis unfolding idle_bytes_def filter_remove1 by (rule sum_list_map_remove1)
qed

lemma idle_bytes_no_idle: "find (idle_large bm) pool = None \<Longrightarrow> idle_bytes bm pool = 0"
  by (simp add: idle_bytes_def find_None_iff filter_False)

lemma evict_idle_ok:
  assumes "distinct pool"
  shows "\<exists>pool'. evict_idle bm limit (idle_bytes bm pool) pool = Some pool' \<and> set pool' \<subseteq> set pool
    \<and> distinct pool' \<and> idle_bytes bm pool' \<le> limit \<and> (\<forall>i\<in>set pool - set pool'. idle_large bm i)"
  using assms
proof (induction "length pool" arbitrary: pool rule: less_induct)
  case less
  show ?case
  proof (cases "idle_bytes bm pool > limit")
    case False
    then show ?thesis using less.prems by (subst evict_idle.simps) auto
  next
    case True
    then obtain old where old: "find (idle_large bm) pool = Some old"
      using idle_bytes_no_idle [of bm pool] by (cases "find (idle_large bm) pool") auto
    then have o: "old \<in> set pool" "idle_large bm old" by (auto simp: find_Some_iff)
    let ?rest = "remove1 old pool"
    have "length ?rest < length pool" using o(1) length_pos_if_in_set [OF o(1)] by (simp add: length_remove1)
    moreover have "distinct ?rest" using less.prems by simp
    ultimately obtain pool' where p: "evict_idle bm limit (idle_bytes bm ?rest) ?rest = Some pool'"
        "set pool' \<subseteq> set ?rest" "distinct pool'" "idle_bytes bm pool' \<le> limit"
        "\<forall>i\<in>set ?rest - set pool'. idle_large bm i"
      using less.hyps by blast
    have "evict_idle bm limit (idle_bytes bm pool) pool = Some pool'"
      using True old p(1) idle_bytes_remove1 [OF o] by (subst evict_idle.simps) simp
    moreover have "set pool' \<subseteq> set pool" using p(2) set_remove1_subset by fast
    moreover have "idle_large bm i" if "i \<in> set pool - set pool'" for i
      using that o p(5) less.prems by (cases "i = old") auto
    ultimately show ?thesis using p(3,4) by blast
  qed
qed

lemma mem_core_vk [simp]: "mem_core (d\<lparr>vkBuffers := v\<rparr>) = mem_core d"
  by (simp add: mem_core_def block_ok_def)

lemma pool_inv_destroyed:
  assumes "names_ok d" "buffers d' = filter (\<lambda>p. fst p \<noteq> h) (buffers d)"
    "vkBuffers d' = remove1 h (vkBuffers d)" "nextBuffer d' = nextBuffer d"
  shows "names_ok d'"
proof -
  have "distinct (map fst (filter (\<lambda>p. fst p \<noteq> h) (buffers d)))"
    using assms(1) by (simp add: names_ok_def distinct_map_filter)
  moreover have "set (remove1 h (vkBuffers d)) = fst ` set (filter (\<lambda>p. fst p \<noteq> h) (buffers d))"
    using assms(1) by (auto simp: names_ok_def)
  ultimately show ?thesis using assms by (simp add: names_ok_def)
qed

lemma remove_dedicated_mem_ok:
  assumes d: "mem_ok d" and dist: "distinct (map fst (buffers d))" and h: "(h, b) \<in> set (buffers d)"
    and none: "memoryBlock b = None"
  shows "mem_ok (d\<lparr>buffers := filter (\<lambda>p. fst p \<noteq> h) (buffers d)\<rparr>)"
proof -
  have "mset (used_in j w (buffers d)) = mset (used_in j w (filter (\<lambda>p. fst p \<noteq> h) (buffers d)))" for j w
    using used_in_remove [OF dist h, of j] none by simp
  then show ?thesis using d by (simp add: mem_ok_def mem_core_def block_ok_def slots_ok_def)
qed

text \<open>Blocks that are free entirely have no buffer.\<close>

lemma idle_large_unused:
  assumes "mem_core d" "idle_large (blocks d) i" "p \<in> set (buffers d)"
  shows "memoryBlock (snd p) \<noteq> Some i"
proof -
  obtain blk where blk: "blocks d i = Some blk" "capacity blk = 1" "freeSlots blk \<noteq> []"
    using assms(2) by (auto simp: idle_large_def split: option.splits)
  have ok: "block_ok d i blk" using assms(1) blk(1) by (rule mem_coreD)
  then have "length (freeSlots blk) + length (used_in i (slotSize blk) (buffers d)) = 1"
    using blk(2) slots_ok_length by (fastforce simp: block_ok_def)
  then have "length (freeSlots blk) = capacity blk" using blk(2,3) by (cases "freeSlots blk") auto
  then show ?thesis using block_all_free_iff [OF ok] assms(3) by (simp add: used_in_Nil_iff)
qed


lemma drop_blocks_mem_ok:
  assumes core: "mem_core d" and sub: "set pool' \<subseteq> set (bufferMemoryBlocks d)" and dist: "distinct pool'"
    and unused: "\<And>i p. i \<in> set (bufferMemoryBlocks d) - set pool' \<Longrightarrow> p \<in> set (buffers d)
      \<Longrightarrow> memoryBlock (snd p) \<noteq> Some i"
    and idle: "idle_unique (blocks d |` set pool')"
  shows "mem_ok (release (d\<lparr>bufferMemoryBlocks := pool'\<rparr>))"
  using drop_blocks [OF core sub dist unused] idle by (simp add: mem_ok_def)

lemma release_frame [simp]:
  "buffers (release d) = buffers d" "vkBuffers (release d) = vkBuffers d" "nextBuffer (release d) = nextBuffer d"
  "memoryProperties (release d) = memoryProperties d" "bufferMemoryBlocks (release d) = bufferMemoryBlocks d"
  by (simp_all add: release_def)

text \<open>The three ways in which a freed slot leaves the pool: nothing is dropped, idle large blocks
  are evicted, or the emptied block itself is dropped.\<close>

lemma give_slot_mem_ok:
  assumes d: "mem_ok d" and dist: "distinct (map fst (buffers d))" and h: "(h, b) \<in> set (buffers d)"
    and i: "memoryBlock b = Some i" "blocks d i = Some blk"
    and blk': "blk' = block_give (memoryOffset b) blk"
    and d2: "d2 = d\<lparr>blocks := (blocks d)(i \<mapsto> blk'), buffers := filter (\<lambda>p. fst p \<noteq> h) (buffers d)\<rparr>"
  shows "length (freeSlots blk') \<noteq> capacity blk' \<Longrightarrow> mem_ok d2"
    and "capacity blk' = 1 \<Longrightarrow> set pool' \<subseteq> set (bufferMemoryBlocks d) \<Longrightarrow> distinct pool' \<Longrightarrow>
      (\<And>j. j \<in> set (bufferMemoryBlocks d) - set pool' \<Longrightarrow> idle_large (blocks d2) j) \<Longrightarrow>
      mem_ok (release (d2\<lparr>bufferMemoryBlocks := pool'\<rparr>))"
    and "length (freeSlots blk') = capacity blk' \<Longrightarrow> mem_ok (release (d2\<lparr>bufferMemoryBlocks := remove1 i (bufferMemoryBlocks d)\<rparr>))"
    and "\<not> (\<exists>j\<in>set (bufferMemoryBlocks d). j \<noteq> i \<and> same_class_idle blk' (blocks d j)) \<Longrightarrow> mem_ok d2"
proof -
  have core: "mem_core d" and old: "idle_unique (blocks d)" using d by (simp_all add: mem_ok_def)
  note D = mem_coreD [OF core]
  note G = give_mem_core [OF core dist h i d2 [unfolded blk']]
  have ok2: "block_ok d2 i blk'" using G(2) by (simp add: blk')
  have caps: "\<And>j c. blocks d j = Some c \<Longrightarrow> capacity c = block_capacity (slotSize c)"
    and cap: "capacity blk' = block_capacity (slotSize blk')"
    using D(3) ok2 by (simp_all add: block_ok_def)
  show "mem_ok d2" if "length (freeSlots blk') \<noteq> capacity blk'"
    using G(1) idle_unique_update [OF old that] by (simp add: mem_ok_def d2)
  show "mem_ok d2" if none: "\<not> (\<exists>j\<in>set (bufferMemoryBlocks d). j \<noteq> i \<and> same_class_idle blk' (blocks d j))"
  proof -
    have "\<not> same_class_idle blk' (blocks d j)" if "j \<noteq> i" for j
    proof (cases "blocks d j")
      case (Some c)
      then have "j \<in> set (bufferMemoryBlocks d)" using D(1) by blast
      then show ?thesis using none that by blast
    qed (simp add: same_class_idle_def)
    then have "idle_unique ((blocks d)(i \<mapsto> blk'))" by (rule idle_unique_give [OF old _ caps cap])
    then show ?thesis using G(1) by (simp add: mem_ok_def d2)
  qed
  show "mem_ok (release (d2\<lparr>bufferMemoryBlocks := pool'\<rparr>))"
    if one: "capacity blk' = 1" and sub: "set pool' \<subseteq> set (bufferMemoryBlocks d)" and dp: "distinct pool'"
      and idle: "\<And>j. j \<in> set (bufferMemoryBlocks d) - set pool' \<Longrightarrow> idle_large (blocks d2) j"
  proof (rule drop_blocks_mem_ok [OF G(1) _ dp])
    show "set pool' \<subseteq> set (bufferMemoryBlocks d2)" using sub by (simp add: d2)
    show "memoryBlock (snd p) \<noteq> Some j"
      if "j \<in> set (bufferMemoryBlocks d2) - set pool'" "p \<in> set (buffers d2)" for j p
      using idle_large_unused [OF G(1) idle that(2), of j] that(1) by (simp add: d2)
    have "idle_unique ((blocks d)(i \<mapsto> blk'))" by (rule idle_unique_give [OF old _ caps cap]) (simp add: one)
    then have "idle_unique (blocks d2)" by (simp add: d2)
    then show "idle_unique (blocks d2 |` set pool')" by (rule idle_unique_restrict)
  qed
  show "mem_ok (release (d2\<lparr>bufferMemoryBlocks := remove1 i (bufferMemoryBlocks d)\<rparr>))"
    if full: "length (freeSlots blk') = capacity blk'"
  proof (rule drop_blocks_mem_ok [OF G(1)])
    show "set (remove1 i (bufferMemoryBlocks d)) \<subseteq> set (bufferMemoryBlocks d2)"
      by (simp add: d2 set_remove1_subset)
    show "distinct (remove1 i (bufferMemoryBlocks d))" using D(5) by simp
    have "used_in i (slotSize blk') (buffers d2) = []" using block_all_free_iff [OF ok2] full by simp
    then have u: "\<forall>p\<in>set (buffers d2). memoryBlock (snd p) \<noteq> Some i" by (simp only: used_in_Nil_iff)
    show "memoryBlock (snd p) \<noteq> Some j"
      if "j \<in> set (bufferMemoryBlocks d2) - set (remove1 i (bufferMemoryBlocks d))" "p \<in> set (buffers d2)" for j p
    proof -
      have "j = i" using that(1) D(5) by (auto simp: d2)
      then show ?thesis using u that(2) by blast
    qed
    have "(blocks d)(i \<mapsto> blk') |` set (remove1 i (bufferMemoryBlocks d))
        = blocks d |` set (remove1 i (bufferMemoryBlocks d))"
      using D(5) by (auto simp: restrict_map_def fun_eq_iff)
    moreover have "blocks d2 = (blocks d)(i \<mapsto> blk')" by (simp add: d2)
    ultimately show "idle_unique (blocks d2 |` set (remove1 i (bufferMemoryBlocks d)))"
      using idle_unique_restrict [OF old] by metis
  qed
qed


text \<open>The destructor of a buffer that holds a slot, in terms of the device after the slot was
  given back.\<close>

lemma destroy_slot_eq:
  assumes h: "map_of (buffers d) h = Some b" and i: "memoryBlock b = Some i" "blocks d i = Some blk"
    and pool: "i \<in> set (bufferMemoryBlocks d)"
    and blk': "blk' = block_give (memoryOffset b) blk"
    and d2: "d2 = d\<lparr>blocks := (blocks d)(i \<mapsto> blk'), buffers := filter (\<lambda>p. fst p \<noteq> h) (buffers d)\<rparr>"
    and V: "V = (\<lambda>X :: buffer_device. X\<lparr>vkBuffers := remove1 h (vkBuffers d)\<rparr>)"
  shows "destroy_buffer h d =
     (if length (freeSlots blk') \<noteq> capacity blk' then (Inr (), V d2)
      else if capacity blk' = 1 then
        (case evict_idle (blocks d2) (idle_limit (memoryProperties d) (block_type blk'))
            (idle_bytes (blocks d2) (bufferMemoryBlocks d)) (bufferMemoryBlocks d) of
           None \<Rightarrow> (Inl Undefined, V d2)
         | Some pool' \<Rightarrow> (Inr (), V (release (d2\<lparr>bufferMemoryBlocks := pool'\<rparr>))))
      else if \<exists>j\<in>set (bufferMemoryBlocks d). j \<noteq> i \<and> same_class_idle blk' (blocks d j)
        then (Inr (), V (release (d2\<lparr>bufferMemoryBlocks := remove1 i (bufferMemoryBlocks d)\<rparr>)))
        else (Inr (), V d2))"
proof -
  have e: "d\<lparr>vkBuffers := remove1 h (vkBuffers d), buffers := filter (\<lambda>p. fst p \<noteq> h) (buffers d),
      blocks := (blocks d)(i \<mapsto> blk')\<rparr> = V d2"
    and eV: "blocks (V d2) = blocks d2" "\<And>p. release ((V d2)\<lparr>bufferMemoryBlocks := p\<rparr>)
      = V (release (d2\<lparr>bufferMemoryBlocks := p\<rparr>))"
    by (simp_all add: V d2 release_def)
  show ?thesis
    using h i pool
    by (simp add: destroy_buffer_def blk' [symmetric] Let_def e eV split: option.split) blast
qed

text \<open>
  The destructor of a live buffer succeeds, keeps the invariant, and removes exactly that
  buffer; when it frees a block of one slot, the idle memory that is left is within the limit.
\<close>

lemma destroy_buffer_spec:
  assumes inv: "pool_inv d" and h: "map_of (buffers d) h = Some b"
  obtains d' where "destroy_buffer h d = (Inr (), d')" "pool_inv d'"
    "memoryProperties d' = memoryProperties d" "buffers d' = filter (\<lambda>p. fst p \<noteq> h) (buffers d)"
    "nextBuffer d' = nextBuffer d"
    "\<And>i blk. memoryBlock b = Some i \<Longrightarrow> blocks d i = Some blk \<Longrightarrow> capacity blk = 1 \<Longrightarrow>
       idle_bytes (blocks d') (bufferMemoryBlocks d') \<le> idle_limit (memoryProperties d) (block_type blk)"
proof -
  note result = that
  have names: "names_ok d" and mem: "mem_ok d" using inv by (simp_all add: pool_inv_def)
  have dist: "distinct (map fst (buffers d))" using names by (simp add: names_ok_def)
  have hb: "(h, b) \<in> set (buffers d)" using h by (rule map_of_SomeD)
  let ?v = "\<lambda>d. d\<lparr>vkBuffers := remove1 h (vkBuffers d)\<rparr>"
  have fin: "pool_inv d'" if "mem_ok d'" "buffers d' = filter (\<lambda>p. fst p \<noteq> h) (buffers d)"
    "vkBuffers d' = remove1 h (vkBuffers d)" "nextBuffer d' = nextBuffer d" for d'
    using that pool_inv_destroyed [OF names that(2-4)] by (simp add: pool_inv_def)
  show thesis
  proof (cases "memoryBlock b")
    case None
    let ?d' = "(d\<lparr>buffers := filter (\<lambda>p. fst p \<noteq> h) (buffers d)\<rparr>)\<lparr>vkBuffers := remove1 h (vkBuffers d)\<rparr>"
    have "mem_ok ?d'" by (rule mem_ok_cong [OF remove_dedicated_mem_ok [OF mem dist hb None]]) simp_all
    then show thesis using h None by (intro result [of ?d'] fin) (simp_all add: destroy_buffer_def Let_def)
  next
    case (Some i)
    have "buffer_ok (blocks d) b" using mem hb by (force simp: mem_ok_def mem_core_def)
    then obtain blk where blk: "blocks d i = Some blk" using Some by (blast elim: buffer_ok_block)
    define blk' where "blk' = block_give (memoryOffset b) blk"
    define d2 where "d2 = d\<lparr>blocks := (blocks d)(i \<mapsto> blk'), buffers := filter (\<lambda>p. fst p \<noteq> h) (buffers d)\<rparr>"
    have cap: "capacity blk' = capacity blk" "block_type blk' = block_type blk"
      by (simp_all add: blk'_def block_give_def)
    have pool: "i \<in> set (bufferMemoryBlocks d)" "distinct (bufferMemoryBlocks d)"
      using mem blk by (auto simp: mem_ok_def mem_core_def)
    note G = give_slot_mem_ok [OF mem dist hb Some blk blk'_def d2_def]
    have "block_ok d2 i blk'"
      using give_mem_core [OF _ dist hb Some blk d2_def [unfolded blk'_def]] mem by (simp add: mem_ok_def blk'_def)
    then have "length (freeSlots blk') + length (used_in i (slotSize blk') (buffers d2)) = capacity blk'"
      unfolding block_ok_def by (blast dest: slots_ok_length)
    moreover have "0 < length (freeSlots blk')" by (simp add: blk'_def block_give_def)
    ultimately have one: "length (freeSlots blk') = capacity blk'" if "capacity blk' = 1" using that by linarith
    have finish: thesis if "destroy_buffer h d = (Inr (), X\<lparr>vkBuffers := remove1 h (vkBuffers d)\<rparr>)"
      "mem_ok X" "buffers X = buffers d2" "nextBuffer X = nextBuffer d" "memoryProperties X = memoryProperties d"
      "capacity blk = 1 \<Longrightarrow> idle_bytes (blocks X) (bufferMemoryBlocks X)
         \<le> idle_limit (memoryProperties d) (block_type blk)" for X
    proof (rule result)
      let ?X = "X\<lparr>vkBuffers := remove1 h (vkBuffers d)\<rparr>"
      show "destroy_buffer h d = (Inr (), ?X)" by (rule that(1))
      have "mem_ok ?X" by (rule mem_ok_cong [OF that(2)]) simp_all
      then show "pool_inv ?X" by (rule fin) (simp_all add: that d2_def)
      show "memoryProperties ?X = memoryProperties d" "nextBuffer ?X = nextBuffer d"
        "buffers ?X = filter (\<lambda>p. fst p \<noteq> h) (buffers d)"
        by (simp_all add: that(3-5) d2_def)
      show "idle_bytes (blocks ?X) (bufferMemoryBlocks ?X) \<le> idle_limit (memoryProperties d) (block_type c)"
        if "memoryBlock b = Some k" "blocks d k = Some c" "capacity c = 1" for k c
        using that Some blk \<open>capacity blk = 1 \<Longrightarrow> _\<close> by simp
    qed
    define V where "V = (\<lambda>X :: buffer_device. X\<lparr>vkBuffers := remove1 h (vkBuffers d)\<rparr>)"
    let ?drop = "release (d2\<lparr>bufferMemoryBlocks := remove1 i (bufferMemoryBlocks d)\<rparr>)"
    note dest = destroy_slot_eq [OF h Some blk pool(1) blk'_def d2_def V_def]
    note finish = finish [folded V_def]
    show thesis
    proof (cases "length (freeSlots blk') = capacity blk'")
      case False
      show thesis
        by (rule finish [of d2]) (use False one cap dest G(1) in \<open>simp_all add: d2_def\<close>)
    next
      case full: True
      show thesis
      proof (cases "capacity blk' = 1")
        case True
        obtain pool' where pool': "evict_idle (blocks d2) (idle_limit (memoryProperties d) (block_type blk'))
              (idle_bytes (blocks d2) (bufferMemoryBlocks d)) (bufferMemoryBlocks d) = Some pool'"
            "set pool' \<subseteq> set (bufferMemoryBlocks d)" "distinct pool'"
            "idle_bytes (blocks d2) pool' \<le> idle_limit (memoryProperties d) (block_type blk')"
            "\<forall>j\<in>set (bufferMemoryBlocks d) - set pool'. idle_large (blocks d2) j"
          using evict_idle_ok [OF pool(2)] by blast
        let ?X = "release (d2\<lparr>bufferMemoryBlocks := pool'\<rparr>)"
        have X: "mem_ok ?X" using G(2) [OF True pool'(2,3)] pool'(5) by blast
        have bl: "blocks ?X j = blocks d2 j" if "j \<in> set pool'" for j using that by (simp add: release_def)
        have "idle_bytes (blocks ?X) pool' = idle_bytes (blocks d2) pool'"
          unfolding idle_bytes_def using bl
          by (intro arg_cong [where f = sum_list] map_cong filter_cong) (simp_all add: idle_large_def slot_bytes_def)
        moreover have "destroy_buffer h d = (Inr (), V ?X)"
          using full True pool'(1) by (simp add: dest)
        ultimately show thesis using X pool'(4) cap by (intro finish [of ?X]) (simp_all add: d2_def)
      next
        case many: False
        show thesis
        proof (cases "\<exists>j\<in>set (bufferMemoryBlocks d). j \<noteq> i \<and> same_class_idle blk' (blocks d j)")
          case True
          then have "destroy_buffer h d = (Inr (), V ?drop)" using full many by (simp add: dest)
          then show thesis using G(3) [OF full] many cap by (intro finish [of ?drop]) (simp_all add: d2_def)
        next
          case False
          then have "destroy_buffer h d = (Inr (), V d2)" using full many by (auto simp: dest)
          then show thesis using G(4) [OF False] many cap by (intro finish [of d2]) (simp_all add: d2_def)
        qed
      qed
    qed
  qed
qed


subsection \<open>Errors and mapping\<close>

text \<open>A failed creation: the block pool is as before, and only the process-ending \<open>Abort\<close> or a
  thrown exception occurs.\<close>

lemma create_buffer_error:
  assumes inv: "pool_inv d" and drv: "driver_ok drv"
    and create: "create_buffer storage_of drv len opts d = (Inl e, d')"
  shows "e \<noteq> Undefined" and "e \<noteq> Abort \<Longrightarrow> d' = d\<lparr>nextBuffer := Suc (nextBuffer d)\<rparr>"
proof -
  obtain k where k: "unat (reqAlignment drv) = 2 ^ k" and pos: "0 < unat (reqSize drv)"
    using drv by (auto simp: driver_ok_def unat_gt_0)
  define c where "c = d\<lparr>vkBuffers := nextBuffer d # vkBuffers d, nextBuffer := Suc (nextBuffer d)\<rparr>"
  have "mem_ok d" using inv by (simp add: pool_inv_def)
  then have mem: "mem_ok c" by (rule mem_ok_cong) (simp_all add: c_def)
  have undo: "c\<lparr>vkBuffers := remove1 (nextBuffer d) (vkBuffers c)\<rparr> = d\<lparr>nextBuffer := Suc (nextBuffer d)\<rparr>"
    by (simp add: c_def)
  let ?mode = "storage_of (drop_bit 4 opts AND 0xf)"
  let ?slot = "slot_size_for (unat (reqSize drv)) (unat (reqAlignment drv))"
  have "e \<noteq> Undefined \<and> (e = Abort \<or> d' = d\<lparr>nextBuffer := Suc (nextBuffer d)\<rparr>)"
  proof (cases "buffer_memory_type (memoryProperties d) (reqTypeBits drv) (?mode = Shared) (?mode = Managed)
      (opts AND 1 \<noteq> 0)")
    case None
    then show ?thesis using create undo
      by (auto simp: create_buffer_def Let_def c_def split: if_splits)
  next
    case (Some t)
    obtain r d1 where pick: "pick_block drv t ?slot (visible_type (memoryProperties c) t) c = (r, d1)"
      by fastforce
    then have pick': "pick_block drv t ?slot
        (propertyFlags (memoryTypes (memoryProperties d) ! t) AND VK_MEMORY_PROPERTY_HOST_VISIBLE_BIT \<noteq> 0)
        (d\<lparr>vkBuffers := nextBuffer d # vkBuffers d, nextBuffer := Suc (nextBuffer d)\<rparr>) = (r, d1)"
      by (simp add: visible_type_def c_def)
    show ?thesis
    proof (cases r)
      case (Inl f)
      note E = pick_block_error [OF pick [unfolded Inl] mem]
      show ?thesis using create Some pick' Inl E undo
        by (auto simp: create_buffer_def Let_def c_def split: if_splits)
    next
      case (Inr ib)
      obtain i blk where ib: "ib = (i, blk)" by fastforce
      have "freeSlots blk \<noteq> []"
        using pick_block_ok [OF pick [unfolded Inr ib] mem] slot_size_for_ok [OF pos k] by blast
      then obtain off blk' where "block_take blk = (Some off, blk')" by (auto simp: block_take_def)
      then show ?thesis using create Some pick' Inr ib
        by (auto simp: create_buffer_def Let_def split: if_splits)
    qed
  qed
  then show "e \<noteq> Undefined" "e \<noteq> Abort \<Longrightarrow> d' = d\<lparr>nextBuffer := Suc (nextBuffer d)\<rparr>" by blast+
qed

lemma live_unique:
  assumes "distinct (map fst bs)" "map_of bs h = Some b" "q \<in> set bs" "fst q = h"
  shows "snd q = b"
proof -
  have "map_of bs (fst q) = Some (snd q)" using assms(1,3) by simp
  then show ?thesis using assms(2,4) by simp
qed

definition set_mapped :: "nat \<Rightarrow> host_ptr \<Rightarrow> (nat \<times> PrivateBuffer) list \<Rightarrow> (nat \<times> PrivateBuffer) list" where
  "set_mapped h p = map (\<lambda>q. if fst q = h then (h, (snd q)\<lparr>buf_mapped := Some p\<rparr>) else q)"

lemma map_fst_set_mapped [simp]: "map fst (set_mapped h p bs) = map fst bs"
  by (simp add: set_mapped_def)

lemma used_in_set_mapped [simp]: "used_in i w (set_mapped h p bs) = used_in i w bs"
  by (induction bs) (auto simp: set_mapped_def used_in_def)

lemma set_mapped_inv:
  assumes inv: "pool_inv d" and h: "map_of (buffers d) h = Some b"
    and p: "case memoryBlock b of None \<Rightarrow> p = In_own | Some i \<Rightarrow> p = In_block i (memoryOffset b)"
  shows "pool_inv (d\<lparr>buffers := set_mapped h p (buffers d)\<rparr>)"
proof -
  have dist: "distinct (map fst (buffers d))" using inv by (simp add: pool_inv_def names_ok_def)
  have "buffer_ok (blocks d) (snd q)" if q: "q \<in> set (set_mapped h p (buffers d))" for q
  proof -
    obtain q0 where q0: "q0 \<in> set (buffers d)"
        "q = (if fst q0 = h then (h, (snd q0)\<lparr>buf_mapped := Some p\<rparr>) else q0)"
      using q unfolding set_mapped_def set_map by blast
    then have ok: "buffer_ok (blocks d) (snd q0)" using inv by (simp add: pool_inv_def mem_ok_def mem_core_def)
    show ?thesis
    proof (cases "fst q0 = h")
      case True
      then have "snd q0 = b" using live_unique [OF dist h q0(1)] by simp
      then show ?thesis using ok p q0(2) True
        by (auto simp: buffer_ok_def bound_ok_def split: option.splits)
    qed (use ok q0 in simp)
  qed
  moreover have "fst ` set (set_mapped h p bs) = fst ` set bs" for bs
    by (metis list.set_map map_fst_set_mapped)
  moreover have "\<forall>q\<in>set (set_mapped h p (buffers d)). fst q < nextBuffer d"
    using inv by (auto simp: set_mapped_def pool_inv_def names_ok_def)
  ultimately show ?thesis
    using inv by (simp add: pool_inv_def names_ok_def mem_ok_def mem_core_def block_ok_def)
qed

lemma buffer_contents_spec:
  assumes inv: "pool_inv d" and h: "map_of (buffers d) h = Some b"
    and mode: "storageMode b = Shared \<or> storageMode b = Managed"
    and p: "p = (case memoryBlock b of None \<Rightarrow> In_own | Some i \<Rightarrow> In_block i (memoryOffset b))"
    and ok: "memoryBlock b = None \<Longrightarrow> mappable"
  shows "buffer_contents mappable h d = (Inr (Some p), d\<lparr>buffers := set_mapped h p (buffers d)\<rparr>)"
proof -
  have dist: "distinct (map fst (buffers d))" using inv by (simp add: pool_inv_def names_ok_def)
  have hb: "(h, b) \<in> set (buffers d)" using h by (rule map_of_SomeD)
  have ok: "buffer_ok (blocks d) b" using inv hb by (force simp: pool_inv_def mem_ok_def mem_core_def)
  have same: "map (\<lambda>q. if fst q = h then (h, b\<lparr>buf_mapped := Some p\<rparr>) else q) (buffers d)
      = set_mapped h p (buffers d)"
    unfolding set_mapped_def using live_unique [OF dist h] by (intro map_cong) auto
  have keep: "set_mapped h p (buffers d) = buffers d" if "buf_mapped b = Some p"
    unfolding set_mapped_def
  proof (rule map_idI)
    fix q assume q: "q \<in> set (buffers d)"
    show "(if fst q = h then (h, snd q\<lparr>buf_mapped := Some p\<rparr>) else q) = q"
    proof (cases "fst q = h")
      case True
      then have "snd q = b" by (rule live_unique [OF dist h q])
      then show ?thesis using that True by (cases q) (auto intro: PrivateBuffer.equality)
    qed simp
  qed
  show ?thesis
  proof (cases "buf_mapped b")
    case (Some p')
    then have "p' = p" using ok p by (auto simp: buffer_ok_def bound_ok_def split: option.splits)
    then show ?thesis using h mode Some keep by (auto simp: buffer_contents_def Let_def)
  next
    case None
    then show ?thesis using h mode p ok same assms(5)
      by (auto simp: buffer_contents_def Let_def buffer_ok_def bound_ok_def split: option.splits)
  qed
qed


subsection \<open>Reachable devices\<close>

text \<open>
  A device is used through the construction, the mapping and the destruction of buffers, in any
  order, with any answers Vulkan may give (\<open>driver_ok\<close>: sizes are positive and alignments powers
  of two). A creation that throws is a step; one that aborts ends the process.
\<close>

inductive buffer_step :: "buffer_device \<Rightarrow> buffer_device \<Rightarrow> bool" where
  step_create: "driver_ok drv \<Longrightarrow> create_buffer storage_of drv len opts d = (Inr h, d') \<Longrightarrow> buffer_step d d'"
| step_throw: "driver_ok drv \<Longrightarrow> create_buffer storage_of drv len opts d = (Inl (Throw m), d') \<Longrightarrow> buffer_step d d'"
| step_contents: "buffer_contents mappable h d = (Inr p, d') \<Longrightarrow> buffer_step d d'"
| step_destroy: "destroy_buffer h d = (Inr (), d') \<Longrightarrow> buffer_step d d'"

inductive buffer_reachable :: "memory_properties \<Rightarrow> buffer_device \<Rightarrow> bool" for mem where
  reach_init: "buffer_reachable mem (init_device mem)"
| reach_step: "buffer_reachable mem d \<Longrightarrow> buffer_step d d' \<Longrightarrow> buffer_reachable mem d'"

lemma contents_step_inv:
  assumes inv: "pool_inv d" and c: "buffer_contents mappable h d = (Inr p, d')"
  shows "pool_inv d' \<and> memoryProperties d' = memoryProperties d"
proof -
  obtain b where h: "map_of (buffers d) h = Some b"
    using c by (cases "map_of (buffers d) h") (simp_all add: buffer_contents_def)
  show ?thesis
  proof (cases "storageMode b = Shared \<or> storageMode b = Managed")
    case False
    then have "d' = d" using c h by (auto simp: buffer_contents_def)
    then show ?thesis using inv by simp
  next
    case mode: True
    show ?thesis
    proof (cases "memoryBlock b = None \<and> \<not> mappable")
      case True
      then have "d' = d" using c h mode by (auto simp: buffer_contents_def Let_def split: option.splits)
      then show ?thesis using inv by simp
    next
      case False
      then have "d' = d\<lparr>buffers := set_mapped h (case memoryBlock b of None \<Rightarrow> In_own
            | Some i \<Rightarrow> In_block i (memoryOffset b)) (buffers d)\<rparr>"
        using buffer_contents_spec [OF inv h mode refl, of mappable] c by (metis Pair_inject)
      then show ?thesis using set_mapped_inv [OF inv h] by (simp split: option.splits)
    qed
  qed
qed

lemma destroy_step_inv:
  assumes "pool_inv d" "destroy_buffer h d = (Inr (), d')"
  shows "pool_inv d' \<and> memoryProperties d' = memoryProperties d"
proof -
  obtain b where "map_of (buffers d) h = Some b"
    using assms(2) by (cases "map_of (buffers d) h") (simp_all add: destroy_buffer_def)
  then show ?thesis using destroy_buffer_spec [OF assms(1)] assms(2) by (metis Pair_inject)
qed

lemma create_throw_inv:
  assumes "pool_inv d" "driver_ok drv" "create_buffer storage_of drv len opts d = (Inl (Throw m), d')"
  shows "pool_inv d' \<and> memoryProperties d' = memoryProperties d"
proof -
  have d': "d' = d\<lparr>nextBuffer := Suc (nextBuffer d)\<rparr>" using create_buffer_error(2) [OF assms] by simp
  have "mem_ok d" using assms(1) by (simp add: pool_inv_def)
  then have "mem_ok d'" by (rule mem_ok_cong) (simp_all add: d')
  moreover have "names_ok d'" using assms(1) by (force simp: d' pool_inv_def names_ok_def)
  ultimately show ?thesis by (simp add: pool_inv_def d')
qed

lemma reachable_inv: "buffer_reachable mem d \<Longrightarrow> pool_inv d \<and> memoryProperties d = mem"
proof (induction rule: buffer_reachable.induct)
  case reach_init
  then show ?case using pool_inv_init by (simp add: init_device_def)
next
  case (reach_step d d')
  from reach_step.hyps(2) reach_step.IH show ?case
    by (cases rule: buffer_step.cases)
      (auto dest: create_buffer_inv create_throw_inv contents_step_inv destroy_step_inv)
qed


end
