(* ===== verification/BufferProperties.thy ===== *)
theory BufferProperties
  imports BufferSafety
begin

section \<open>What every reachable buffer pool guarantees\<close>

text \<open>
  The properties of \<open>native/renderer/buffer.cpp\<close> over the states a device can reach, each with
  a concrete device on which it applies, and the flush range of \<open>didModifyRange\<close>.
\<close>

definition bound_to :: "buffer_device \<Rightarrow> nat \<Rightarrow> nat \<Rightarrow> PrivateBuffer \<Rightarrow> bool" where
  "bound_to d i h b \<longleftrightarrow> (h, b) \<in> set (buffers d) \<and> memoryBlock b = Some i"

lemma bound_slot:
  assumes inv: "pool_inv d" and b: "bound_to d i h b"
  obtains blk s where "blocks d i = Some blk" "block_ok d i blk" "memoryOffset b = s * slotSize blk"
    "s \<in> set (used_in i (slotSize blk) (buffers d))" "s < capacity blk"
    "unat (allocationSize b) \<le> slotSize blk"
proof -
  have "buffer_ok (blocks d) b" and ok: "\<And>blk. blocks d i = Some blk \<Longrightarrow> block_ok d i blk"
    using inv b by (force simp: bound_to_def pool_inv_def mem_ok_def mem_core_def)+
  then obtain blk where blk: "blocks d i = Some blk" "bound_ok blk i b"
    using b by (auto simp: bound_to_def elim: buffer_ok_block)
  let ?s = "memoryOffset b div slotSize blk"
  have s: "?s \<in> set (used_in i (slotSize blk) (buffers d))"
    using b by (force simp: used_in_def bound_to_def)
  then have "?s < capacity blk"
    using ok [OF blk(1)] slots_ok_used_bound by (fastforce simp: block_ok_def)
  with blk s ok show thesis by (intro that [of blk ?s]) (simp_all add: bound_ok_def)
qed

subsection \<open>Concrete devices\<close>

text \<open>A device with one host-visible memory type, and buffers created on it one after another.\<close>

definition wit_mem :: memory_properties where
  "wit_mem = \<lparr>memoryTypes = [\<lparr>propertyFlags = 7, heapIndex = 0\<rparr>], memoryHeaps = [1073741824]\<rparr>"
definition wit_drv :: "u64 \<Rightarrow> buffer_driver" where
  "wit_drv n = \<lparr>createOk = True, reqSize = n, reqAlignment = 16, reqTypeBits = 1, requiresDedicated = False,
     allocOk = True, mapOk = True, bindOk = True\<rparr>"
definition wit_buf :: "u64 \<Rightarrow> nat \<Rightarrow> nat \<Rightarrow> PrivateBuffer" where
  "wit_buf n i off = \<lparr>buf_length = n, storageMode = Shared, hostCoherent = True, allocationSize = n, memoryBlock = Some i,
     memoryOffset = off, buf_mapped = None\<rparr>"
definition wit_dev :: "nat \<Rightarrow> nat list \<Rightarrow> nat \<Rightarrow> (nat \<times> PrivateBuffer) list \<Rightarrow> buffer_device" where
  "wit_dev w fr c bs = \<lparr>memoryProperties = wit_mem,
     blocks = [0 \<mapsto> \<lparr>block_type = 0, slotSize = w, freeSlots = fr, capacity = c, block_mapped = True\<rparr>],
     bufferMemoryBlocks = [0], nextBlock = 1, buffers = bs, vkBuffers = map fst bs, nextBuffer = length bs\<rparr>"

lemmas wit_simps = create_buffer_def wit_drv_def init_device_def wit_mem_def Let_def buffer_memory_type_def admits_def
   has_flags_def model_simps  slot_size_for_def while_unfold
   pooled_def pick_block_def make_block_def block_capacity_def std_clamp_def block_take_def wit_dev_def wit_buf_def block_fits_def

lemma wit_free: "rev [0..<4] = [3, 2, 1, 0 :: nat]" "rev [1..<4] = [3, 2, 1 :: nat]" "rev [2..<4] = [3, 2 :: nat]"
  by (simp_all add: upt_rec)

lemma wit_create: "create_buffer (\<lambda>_. Shared) (wit_drv 600000) 600000 0 (init_device wit_mem)
  = (Inr 0, wit_dev 1048576 (rev [1..<4]) 4 [(0, wit_buf 600000 0 0)])"
  by (simp add: wit_simps wit_free [simplified])

lemma wit_create2: "create_buffer (\<lambda>_. Shared) (wit_drv 600000) 600000 0 (wit_dev 1048576 (rev [1..<4]) 4 [(0, wit_buf 600000 0 0)])
  = (Inr 1, wit_dev 1048576 (rev [2..<4]) 4 [(1, wit_buf 600000 0 1048576), (0, wit_buf 600000 0 0)])"
  by (simp add: wit_simps wit_free [simplified])

lemma wit_large: "create_buffer (\<lambda>_. Shared) (wit_drv 2000000) 2000000 0 (init_device wit_mem)
  = (Inr 0, wit_dev 2000000 [] 1 [(0, wit_buf 2000000 0 0)])"
  by (simp add: wit_simps wit_free [simplified])

lemma wit_drv_ok: "driver_ok (wit_drv 600000)" "driver_ok (wit_drv 2000000)"
  by (auto simp: driver_ok_def wit_drv_def intro: exI [of _ 4])

definition wit_one :: buffer_device where
  "wit_one = wit_dev 1048576 (rev [1..<4]) 4 [(0, wit_buf 600000 0 0)]"

definition wit_two :: buffer_device where
  "wit_two = wit_dev 1048576 (rev [2..<4]) 4 [(1, wit_buf 600000 0 1048576), (0, wit_buf 600000 0 0)]"

definition wit_big :: buffer_device where
  "wit_big = wit_dev 2000000 [] 1 [(0, wit_buf 2000000 0 0)]"

lemma wit_reach: "buffer_reachable wit_mem wit_one" "buffer_reachable wit_mem wit_two" "buffer_reachable wit_mem wit_big"
proof -
  note start = reach_step [OF reach_init step_create]
  show one: "buffer_reachable wit_mem wit_one"
    unfolding wit_one_def by (rule start [OF wit_drv_ok(1) wit_create])
  show "buffer_reachable wit_mem wit_two"
    unfolding wit_two_def by (rule reach_step [OF one step_create [OF wit_drv_ok(1) wit_create2 [folded wit_one_def]]])
  show "buffer_reachable wit_mem wit_big"
    unfolding wit_big_def by (rule start [OF wit_drv_ok(2) wit_large])
qed

text \<open>
  C1: in every state the device can reach, two live buffers suballocated from the same memory
  block occupy disjoint byte ranges, and each range lies inside the block.
\<close>

theorem buffers_disjoint:
  assumes "buffer_reachable mem d" "bound_to d i h b" "bound_to d i h' b'" "h \<noteq> h'"
  shows "\<exists>blk. blocks d i = Some blk
    \<and> (memoryOffset b + unat (allocationSize b) \<le> memoryOffset b'
       \<or> memoryOffset b' + unat (allocationSize b') \<le> memoryOffset b)
    \<and> memoryOffset b + unat (allocationSize b) \<le> slotSize blk * capacity blk"
proof -
  have inv: "pool_inv d" using assms(1) reachable_inv by blast
  obtain blk s where s: "blocks d i = Some blk" "block_ok d i blk" "memoryOffset b = s * slotSize blk"
    "s < capacity blk" "unat (allocationSize b) \<le> slotSize blk"
    using bound_slot [OF inv assms(2)] by metis
  obtain t where t: "memoryOffset b' = t * slotSize blk" "unat (allocationSize b') \<le> slotSize blk"
    using bound_slot [OF inv assms(3)] s(1) by (metis option.inject)
  have "distinct (used_in i (slotSize blk) (buffers d))"
    using s(2) slots_ok_distinct(1) by (fastforce simp: block_ok_def)
  then have "memoryOffset b div slotSize blk \<noteq> memoryOffset b' div slotSize blk"
    using assms(2-4) unfolding used_in_def distinct_map inj_on_def bound_to_def by fastforce
  then have "s \<noteq> t" using s(3) t(1) by auto
  from slot_ranges_disjoint [OF this s(5) t(2)] slot_range_inside [OF s(4,5)] show ?thesis
    using s(1,3) t(1) by auto
qed

theorem buffers_disjoint_witness:
  "\<exists>blk. blocks wit_two 0 = Some blk \<and> 1048576 + unat (600000 :: u64) \<le> slotSize blk * capacity blk"
  using buffers_disjoint [OF wit_reach(2), of 0 1 "wit_buf 600000 0 1048576" 0 "wit_buf 600000 0 0"]
  by (simp add: bound_to_def wit_two_def wit_dev_def wit_buf_def)

text \<open>
  C3: no memory block and no Vulkan buffer is leaked: the blocks that exist are exactly those of
  the device's pool, each listed once, and the Vulkan buffers that exist are exactly those of
  the live buffers.
\<close>

theorem no_leaks:
  assumes "buffer_reachable mem d"
  shows "dom (blocks d) = set (bufferMemoryBlocks d) \<and> distinct (bufferMemoryBlocks d)
    \<and> set (vkBuffers d) = fst ` set (buffers d) \<and> distinct (vkBuffers d)"
  using reachable_inv [OF assms] by (simp add: pool_inv_def mem_ok_def mem_core_def names_ok_def)

theorem no_leaks_witness: "dom (blocks wit_two) = {0} \<and> set (vkBuffers wit_two) = {0, 1}"
  using no_leaks [OF wit_reach(2)] by (auto simp: wit_two_def wit_dev_def)

text \<open>
  C2: destroying a live buffer always succeeds: neither the eviction loop nor the search for the
  emptied block runs off the end of the pool, and exactly this buffer is gone.
\<close>

theorem destroy_buffer_succeeds:
  assumes "buffer_reachable mem d" "map_of (buffers d) h = Some b"
  shows "\<exists>d'. destroy_buffer h d = (Inr (), d') \<and> buffer_reachable mem d'
    \<and> buffers d' = filter (\<lambda>p. fst p \<noteq> h) (buffers d)"
proof -
  have "pool_inv d" using assms(1) reachable_inv by blast
  from destroy_buffer_spec [OF this assms(2)] show ?thesis
    using assms(1) by (metis reach_step step_destroy)
qed

theorem destroy_buffer_succeeds_witness:
  "\<exists>d'. destroy_buffer 0 wit_two = (Inr (), d') \<and> buffers d' = [(1, wit_buf 600000 0 1048576)]"
  using destroy_buffer_succeeds [OF wit_reach(2), of 0 "wit_buf 600000 0 0"]
  by (auto simp: wit_two_def wit_dev_def)

text \<open>
  Idle memory is bounded: at most one wholly free block of each size class of many slots is
  kept, and after a buffer of a block of one slot was destroyed the idle one-slot blocks
  together stay within a sixteenth of the heap and two gigabytes.
\<close>

theorem idle_memory_bounded:
  assumes "buffer_reachable mem d" "map_of (buffers d) h = Some b" "bound_to d i h b"
    "blocks d i = Some blk" "capacity blk = 1" "destroy_buffer h d = (r, d')"
  shows "idle_unique (blocks d) \<and> idle_unique (blocks d')
    \<and> idle_bytes (blocks d') (bufferMemoryBlocks d') \<le> idle_limit mem (block_type blk)"
proof -
  have inv: "pool_inv d" and mem: "memoryProperties d = mem" using assms(1) reachable_inv by blast+
  from destroy_buffer_spec [OF inv assms(2)] obtain d2 where "destroy_buffer h d = (Inr (), d2)" "pool_inv d2"
    "idle_bytes (blocks d2) (bufferMemoryBlocks d2) \<le> idle_limit (memoryProperties d) (block_type blk)"
    using assms(3-5) unfolding bound_to_def by metis
  then show ?thesis using inv mem assms(6) by (simp add: pool_inv_def mem_ok_def)
qed

theorem idle_memory_bounded_witness:
  "idle_bytes (blocks (snd (destroy_buffer 0 wit_big))) (bufferMemoryBlocks (snd (destroy_buffer 0 wit_big)))
     \<le> 67108864"
  using idle_memory_bounded [OF wit_reach(3), of 0 "wit_buf 2000000 0 0" 0 _ "fst (destroy_buffer 0 wit_big)"
      "snd (destroy_buffer 0 wit_big)"]
  by (simp add: bound_to_def wit_big_def wit_dev_def wit_buf_def idle_limit_def wit_mem_def)

text \<open>
  A created buffer is new, has the requested length and the size Vulkan asked for, and its
  offset has the alignment Vulkan asked for.
\<close>

theorem create_buffer_aligned:
  assumes "buffer_reachable mem d" "driver_ok drv" "create_buffer storage_of drv len opts d = (Inr h, d')"
  shows "map_of (buffers d) h = None \<and> (\<exists>b. map_of (buffers d') h = Some b \<and> buf_length b = len
    \<and> allocationSize b = reqSize drv \<and> unat (reqAlignment drv) dvd memoryOffset b)"
proof -
  have inv: "pool_inv d" using assms(1) reachable_inv by blast
  then have "h \<notin> fst ` set (buffers d)"
    using create_buffer_inv [OF inv assms(2,3)] by (force simp: pool_inv_def names_ok_def)
  then show ?thesis
    using create_buffer_inv [OF inv assms(2,3)] by (auto simp: map_of_eq_None_iff)
qed

theorem create_buffer_aligned_witness:
  "map_of (buffers wit_one) 1 = None \<and> (\<exists>b. map_of (buffers wit_two) 1 = Some b \<and> unat (16 :: u64) dvd memoryOffset b)"
  using create_buffer_aligned [OF wit_reach(1) wit_drv_ok(1) wit_create2 [folded wit_one_def wit_two_def]]
  by (auto simp: wit_drv_def)

text \<open>
  \<open>contents\<close> of a shared or managed buffer is a host address inside a mapped block at the
  buffer's own offset, or the buffer's own mapping; it is never computed from a null mapping,
  and asking twice gives the same address.
\<close>

theorem contents_stable:
  assumes "buffer_reachable mem d" "map_of (buffers d) h = Some b"
    "storageMode b = Shared \<or> storageMode b = Managed" "memoryBlock b = None \<Longrightarrow> mappable"
    "p = (case memoryBlock b of None \<Rightarrow> In_own | Some i \<Rightarrow> In_block i (memoryOffset b))"
  shows "\<exists>d'. buffer_contents mappable h d = (Inr (Some p), d')
    \<and> buffer_contents mappable h d' = (Inr (Some p), d')"
proof -
  have inv: "pool_inv d" using assms(1) reachable_inv by blast
  let ?d' = "d\<lparr>buffers := set_mapped h p (buffers d)\<rparr>"
  have first: "buffer_contents mappable h d = (Inr (Some p), ?d')"
    by (rule buffer_contents_spec [OF inv assms(2,3,5,4)])
  have "map_of (set_mapped h p bs) h = map_option (\<lambda>b. b\<lparr>buf_mapped := Some p\<rparr>) (map_of bs h)" for bs
    by (induction bs) (auto simp: set_mapped_def)
  then have "map_of (buffers ?d') h = Some (b\<lparr>buf_mapped := Some p\<rparr>)" using assms(2) by simp
  then have "buffer_contents mappable h ?d' = (Inr (Some p), ?d')"
    using assms(3) by (auto simp: buffer_contents_def)
  then show ?thesis using first by blast
qed

theorem contents_stable_witness:
  "\<exists>d'. buffer_contents False 1 wit_two = (Inr (Some (In_block 0 1048576)), d')
     \<and> buffer_contents False 1 d' = (Inr (Some (In_block 0 1048576)), d')"
  using contents_stable [OF wit_reach(2), of 1 "wit_buf 600000 0 1048576" False "In_block 0 1048576"]
  by (simp add: wit_two_def wit_dev_def wit_buf_def)

subsection \<open>The flush range\<close>

lemma flush_range_words:
  fixes atom s0 l a :: u64
  assumes atom: "0 < atom" and fits: "unat s0 + unat l \<le> unat a"
  defines "s \<equiv> s0 - s0 mod atom" and "e \<equiv> s0 + l"
  defines "n \<equiv> e + min ((atom - e mod atom) mod atom) (a - e) - s"
  shows "unat s = unat s0 - unat s0 mod unat atom"
    and "unat e = unat s0 + unat l"
    and "unat n = unat e + min ((unat atom - unat e mod unat atom) mod unat atom) (unat a - unat e) - unat s"
proof -
  have "s0 mod atom \<le> s0" by (simp add: word_le_nat_alt unat_mod)
  then show s: "unat s = unat s0 - unat s0 mod unat atom"
    by (simp add: s_def unat_sub unat_mod)
  have a: "unat a < 2 ^ 64" using unsigned_less [of a] by simp
  then have "unat s0 + unat l < 2 ^ 64" using fits by linarith
  then show e: "unat e = unat s0 + unat l" by (simp add: e_def unat_word_ariths)
  have ea: "e \<le> a" using e fits by (simp add: word_le_nat_alt)
  have "e mod atom \<le> atom" using atom by (simp add: word_le_nat_alt unat_mod word_less_nat_alt order_less_imp_le)
  then have p: "unat ((atom - e mod atom) mod atom) = (unat atom - unat e mod unat atom) mod unat atom"
    by (simp add: unat_sub unat_mod)
  have m: "unat (min ((atom - e mod atom) mod atom) (a - e))
      = min ((unat atom - unat e mod unat atom) mod unat atom) (unat a - unat e)"
    using p ea by (simp add: min_def word_le_nat_alt unat_sub)
  have "unat e + unat (min ((atom - e mod atom) mod atom) (a - e)) \<le> unat a"
    using m e fits by simp
  then have em: "unat (e + min ((atom - e mod atom) mod atom) (a - e))
      = unat e + unat (min ((atom - e mod atom) mod atom) (a - e))"
    using a by (simp add: unat_word_ariths)
  moreover have "s \<le> e + min ((atom - e mod atom) mod atom) (a - e)"
    using em e s by (simp add: word_le_nat_alt)
  ultimately show "unat n = unat e + min ((unat atom - unat e mod unat atom) mod unat atom) (unat a - unat e) - unat s"
    using m by (simp add: n_def unat_sub)
qed

lemma padding_aligns: "0 < a \<Longrightarrow> a dvd e + (a - e mod a) mod a" for a e :: nat
  by (metis add.commute le_add_diff_inverse mod_0_imp_dvd mod_add_left_eq mod_add_right_eq mod_less_divisor mod_self nat_less_le)

text \<open>
  For a non-coherent mapped buffer, the range \<open>didModifyRange\<close> flushes starts at a multiple
  of the device's atom, is a whole number of atoms long or runs to the end of the allocation,
  covers every modified byte and stays inside the allocation.
\<close>

theorem didModifyRange_covers:
  assumes "0 < atom" "buf_length b \<le> allocationSize b"
    "didModifyRange atom b start len = Inr (Some (offs, n))"
  shows "unat atom dvd unat offs
    \<and> (unat atom dvd unat n \<or> unat offs + unat n = unat (allocationSize b))
    \<and> unat offs \<le> unat start \<and> unat start + unat len \<le> unat offs + unat n
    \<and> unat offs + unat n \<le> unat (allocationSize b)"
proof -
  have r: "start \<le> buf_length b" "len \<le> buf_length b - start"
    and o: "offs = start - start mod atom"
    and n: "n = start + len + min ((atom - (start + len) mod atom) mod atom) (allocationSize b - (start + len)) - offs"
    using assms(3) by (auto simp: didModifyRange_def Let_def split: if_splits)
  have fits: "unat start + unat len \<le> unat (allocationSize b)"
    using r assms(2) by (simp add: word_le_nat_alt unat_sub)
  note W = flush_range_words [OF assms(1) fits]
  let ?p = "(unat atom - (unat start + unat len) mod unat atom) mod unat atom"
  have uo: "unat offs = unat start - unat start mod unat atom" using W(1) o by simp
  have un: "unat offs + unat n = unat start + unat len + min ?p (unat (allocationSize b) - (unat start + unat len))"
    using W(3) W(2) uo unfolding o n by simp
  have pos: "0 < unat atom" using assms(1) by (simp add: unat_gt_0)
  have d: "unat atom dvd unat offs" using uo by (simp add: dvd_minus_mod)
  have "unat atom dvd unat n" if "unat offs + unat n = unat start + unat len + ?p"
    using padding_aligns [OF pos] that d by (metis dvd_add_right_iff)
  then have "unat atom dvd unat n \<or> unat offs + unat n = unat (allocationSize b)"
    using un fits by (auto simp: min_def split: if_splits)
  then show ?thesis using d uo un fits by simp
qed

theorem didModifyRange_covers_witness:
  "didModifyRange 64 ((wit_buf 600000 0 0)\<lparr>hostCoherent := False, buf_mapped := Some (In_block 0 0)\<rparr>) 100 200
     = Inr (Some (64, 256)) \<and> unat (64 :: u64) dvd unat (256 :: u64)"
proof -
  let ?b = "(wit_buf 600000 0 0)\<lparr>hostCoherent := False, buf_mapped := Some (In_block 0 0)\<rparr>"
  have "didModifyRange 64 ?b 100 200 = Inr (Some (64, 256))"
    by (simp add: didModifyRange_def wit_buf_def Let_def min_def)
  with didModifyRange_covers [OF _ _ this] show ?thesis by (simp add: wit_buf_def)
qed

end
