(* ===== verification/Uploads.thy ===== *)
theory Uploads
  imports MemoryTypes
begin

section \<open>The texture upload queue\<close>

text \<open>
  \<open>native/renderer/uploads.cpp\<close> and \<open>indium/uploads.hpp\<close>: a ring of four batches, each with a
  command buffer, a fence and a staging buffer. A batch is the current one while uploads are
  recorded, is submitted by \<open>flush\<close>, and may be used again when its fence has been signalled.

  The answers of Vulkan are an argument \<open>upload_env\<close>, one answer for each kind of call in one
  operation (each is made at most once for a batch). What the command buffer of a batch holds is \<open>recorded\<close>, what
  the queue was handed is \<open>submitted\<close>; both are the driver's view of the program's calls. A call
  on a null command pool, command buffer or fence is undefined. Byte counts are 64-bit words, the
  statistics counters natural numbers, and the text of the exception omits the result's number.
\<close>

datatype upload_op = Init_image nat nat | Copy_image nat nat u64 u64

fun op_lifetime :: "upload_op \<Rightarrow> nat" where
  "op_lifetime (Init_image im life) = life"
| "op_lifetime (Copy_image im life off sz) = life"

record Batch =
  b_pool :: bool
  b_command :: bool
  b_fence :: bool
  b_staging :: bool
  b_memory :: bool
  b_mapped :: bool
  b_capacity :: u64
  b_used :: u64
  b_operations :: nat
  b_pending :: bool
  b_resources :: "nat list"
  b_recorded :: "upload_op list"

record UploadQueue =
  batches :: "Batch option list"
  current :: "nat option"
  cursor :: u32
  copies :: nat
  submissions :: nat
  waits :: nat
  stagingAllocations :: nat
  needsService :: bool
  submitted :: "upload_op list"

record upload_env =
  copyAlignment :: u64
  memProps :: memory_properties
  stagingTypeBits :: u32
  createPool :: VkResult
  allocCommand :: VkResult
  createFence :: VkResult
  fenceStatus :: "nat \<Rightarrow> VkResult"
  waitFence :: "nat \<Rightarrow> VkResult"
  createStaging :: VkResult
  allocStaging :: VkResult
  bindStaging :: VkResult
  mapStaging :: VkResult
  resetPool :: VkResult
  beginCommand :: VkResult
  endCommand :: VkResult
  resetFence :: VkResult
  queueSubmit :: VkResult

definition new_batch :: Batch where
  "new_batch = \<lparr>b_pool = False, b_command = False, b_fence = False, b_staging = False, b_memory = False,
     b_mapped = False, b_capacity = 0, b_used = 0, b_operations = 0, b_pending = False, b_resources = [],
     b_recorded = []\<rparr>"

definition init_uploads :: UploadQueue where
  "init_uploads = \<lparr>batches = replicate 4 None, current = None, cursor = 0, copies = 0, submissions = 0,
     waits = 0, stagingAllocations = 0, needsService = False, submitted = []\<rparr>"

definition checked :: "VkResult \<Rightarrow> 's \<Rightarrow> unit outcome \<times> 's" where
  "checked r s = (if r = VK_SUCCESS then (Inr (), s) else (Inl (Throw ''Vulkan texture upload failed''), s))"

definition set_batch :: "nat \<Rightarrow> Batch \<Rightarrow> UploadQueue \<Rightarrow> UploadQueue" where
  "set_batch i b q = q\<lparr>batches := (batches q)[i := Some b]\<rparr>"

subsection \<open>Submitting the current batch\<close>

definition flush :: "upload_env \<Rightarrow> UploadQueue \<Rightarrow> unit outcome \<times> UploadQueue" where
  "flush env q =
     (case current q of
        None \<Rightarrow> (Inr (), q)
      | Some i \<Rightarrow>
         (case batches q ! i of
            None \<Rightarrow> (Inl Undefined, q)
          | Some b \<Rightarrow>
             and_then (if b_command b then checked (endCommand env) q else (Inl Undefined, q)) (\<lambda>_ q.
             and_then (if b_fence b then checked (resetFence env) q else (Inl Undefined, q)) (\<lambda>_ q.
             and_then (checked (queueSubmit env) q) (\<lambda>_ q.
               (Inr (), (set_batch i (b\<lparr>b_pending := True\<rparr>) q)\<lparr>current := None,
                  submissions := Suc (submissions q), needsService := True,
                  submitted := submitted q @ b_recorded b\<rparr>))))))"

subsection \<open>Starting a batch\<close>

definition freeStaging :: "Batch \<Rightarrow> Batch" where
  "freeStaging b = b\<lparr>b_staging := False, b_memory := False, b_mapped := False, b_capacity := 0\<rparr>"

text \<open>The objects of a new slot; a failure keeps the slot with what was created before it.\<close>

definition create_slot :: "upload_env \<Rightarrow> Batch option \<Rightarrow> unit outcome \<times> Batch" where
  "create_slot env slot =
     (case slot of
        Some b \<Rightarrow> (Inr (), b)
      | None \<Rightarrow>
          and_then (checked (createPool env) new_batch) (\<lambda>_ b.
          and_then (checked (allocCommand env) (b\<lparr>b_pool := True\<rparr>)) (\<lambda>_ b.
          and_then (checked (createFence env) (b\<lparr>b_command := True\<rparr>)) (\<lambda>_ b.
            (Inr (), b\<lparr>b_fence := True\<rparr>)))))"

text \<open>Waiting for the fence of a submitted batch: \<open>waited\<close> when it was not signalled yet.\<close>

definition retire :: "upload_env \<Rightarrow> nat \<Rightarrow> Batch \<Rightarrow> unit outcome \<times> Batch" where
  "retire env i b =
     (if \<not> b_pending b then (Inr (), b)
      else and_then (if fenceStatus env i = VK_NOT_READY then checked (waitFence env i) b
                     else checked (fenceStatus env i) b)
             (\<lambda>_ b. (Inr (), b\<lparr>b_pending := False, b_resources := []\<rparr>)))"

definition waited :: "upload_env \<Rightarrow> nat \<Rightarrow> Batch option \<Rightarrow> bool" where
  "waited env i slot =
     (case slot of None \<Rightarrow> False | Some b \<Rightarrow> b_pending b \<and> fenceStatus env i = VK_NOT_READY)"

text \<open>A staging buffer of at least four megabytes; the flag says whether one was allocated. A
  failure keeps what was created before it.\<close>

definition stage :: "upload_env \<Rightarrow> u64 \<Rightarrow> Batch \<Rightarrow> bool outcome \<times> Batch" where
  "stage env bytes b =
     (if b_staging b \<and> bytes \<le> b_capacity b then (Inr False, b)
      else let cap = max (4 * 1024 * 1024) bytes in
        and_then (checked (createStaging env) (freeStaging b)) (\<lambda>_ b.
        if buffer_memory_type (memProps env) (stagingTypeBits env) True False False = None
        then (Inl (Throw ''No coherent texture staging memory''), b\<lparr>b_staging := True\<rparr>)
        else
        and_then (checked (allocStaging env) (b\<lparr>b_staging := True\<rparr>)) (\<lambda>_ b.
        and_then (checked (bindStaging env) (b\<lparr>b_memory := True\<rparr>)) (\<lambda>_ b.
        and_then (checked (mapStaging env) b) (\<lambda>_ b.
          (Inr True, b\<lparr>b_mapped := True, b_capacity := cap\<rparr>))))))"

definition start_recording :: "upload_env \<Rightarrow> Batch \<Rightarrow> unit outcome \<times> Batch" where
  "start_recording env b =
     (if \<not> b_pool b then (Inl Undefined, b)
      else and_then (checked (resetPool env) b) (\<lambda>_ b.
        if \<not> b_command b then (Inl Undefined, b)
        else and_then (checked (beginCommand env) (b\<lparr>b_recorded := []\<rparr>)) (\<lambda>_ b.
          (Inr (), b\<lparr>b_used := 0, b_operations := 0\<rparr>))))"

text \<open>The next slot of the ring becomes the current batch; a slot that fails keeps what its steps
  left.\<close>

definition staged_slot :: "upload_env \<Rightarrow> nat \<Rightarrow> u64 \<Rightarrow> Batch option \<Rightarrow> bool outcome \<times> Batch" where
  "staged_slot env i bytes slot =
     and_then (create_slot env slot) (\<lambda>_ b. and_then (retire env i b) (\<lambda>_ b. stage env bytes b))"

definition begin_slot :: "upload_env \<Rightarrow> u64 \<Rightarrow> UploadQueue \<Rightarrow> nat outcome \<times> UploadQueue" where
  "begin_slot env bytes q =
     (let i = unat (cursor q) mod 4; slot = batches q ! i;
          staged = staged_slot env i bytes slot;
          (r, b) = and_then staged (\<lambda>_ b. start_recording env b);
          q' = (set_batch i b q)\<lparr>cursor := cursor q + 1, waits := waits q + of_bool (waited env i slot),
                 stagingAllocations := stagingAllocations q + of_bool (fst staged = Inr True)\<rparr>
      in case r of Inl e \<Rightarrow> (Inl e, q') | Inr _ \<Rightarrow> (Inr i, q'\<lparr>current := Some i\<rparr>))"

definition upload_alignment :: "upload_env \<Rightarrow> u64" where
  "upload_alignment env = max 16 (copyAlignment env)"

text \<open>Room for \<open>bytes\<close> more in the current batch.\<close>

definition batch_fits :: "upload_env \<Rightarrow> u64 \<Rightarrow> Batch \<Rightarrow> bool" where
  "batch_fits env bytes b \<longleftrightarrow>
     (let offset = align_up (b_used b) (upload_alignment env) in
      offset \<le> b_capacity b \<and> bytes \<le> b_capacity b - offset \<and> b_operations b < 256)"

definition begin_upload :: "upload_env \<Rightarrow> u64 \<Rightarrow> UploadQueue \<Rightarrow> nat outcome \<times> UploadQueue" where
  "begin_upload env bytes q =
     (case current q of
        None \<Rightarrow> begin_slot env bytes q
      | Some i \<Rightarrow>
         (case batches q ! i of
            None \<Rightarrow> (Inl Undefined, q)
          | Some b \<Rightarrow>
              if batch_fits env bytes b
              then (Inr i, set_batch i (b\<lparr>b_used := align_up (b_used b) (upload_alignment env)\<rparr>) q)
              else and_then (flush env q) (\<lambda>_ q. begin_slot env bytes q)))"


subsection \<open>Recording uploads\<close>

definition initialize :: "upload_env \<Rightarrow> nat \<Rightarrow> nat \<Rightarrow> UploadQueue \<Rightarrow> unit outcome \<times> UploadQueue" where
  "initialize env im life q =
     and_then (begin_upload env 0 q) (\<lambda>i q.
       case batches q ! i of
         None \<Rightarrow> (Inl Undefined, q)
       | Some b \<Rightarrow>
           (Inr (), (set_batch i (b\<lparr>b_resources := b_resources b @ [life],
              b_recorded := b_recorded b @ [Init_image im life], b_operations := Suc (b_operations b)\<rparr>) q)
              \<lparr>needsService := True\<rparr>))"

text \<open>The bytes are copied to \<open>[used, used + size)\<close> of the mapping; with no mapping only an empty
  copy is defined.\<close>

definition copy_image :: "upload_env \<Rightarrow> nat \<Rightarrow> u64 \<Rightarrow> nat \<Rightarrow> UploadQueue \<Rightarrow> unit outcome \<times> UploadQueue" where
  "copy_image env im sz life q =
     and_then (begin_upload env sz q) (\<lambda>i q.
       case batches q ! i of
         None \<Rightarrow> (Inl Undefined, q)
       | Some b \<Rightarrow>
           if \<not> b_mapped b \<and> sz \<noteq> 0 then (Inl Undefined, q)
           else (Inr (), (set_batch i (b\<lparr>b_resources := b_resources b @ [life],
              b_recorded := b_recorded b @ [Copy_image im life (b_used b) sz],
              b_used := b_used b + sz, b_operations := Suc (b_operations b)\<rparr>) q)
              \<lparr>copies := Suc (copies q), needsService := True\<rparr>))"

subsection \<open>Collecting finished batches\<close>

fun collect_batches :: "upload_env \<Rightarrow> nat list \<Rightarrow> UploadQueue \<Rightarrow> unit outcome \<times> UploadQueue" where
  "collect_batches env [] q = (Inr (), q)"
| "collect_batches env (i # is) q =
     (case batches q ! i of
        None \<Rightarrow> collect_batches env is q
      | Some b \<Rightarrow>
          if \<not> b_pending b \<or> fenceStatus env i = VK_NOT_READY then collect_batches env is q
          else and_then (checked (fenceStatus env i) q) (\<lambda>_ q.
            let b' = b\<lparr>b_pending := False, b_resources := []\<rparr>;
                b' = (if b_capacity b' > 4 * 1024 * 1024 then freeStaging b' else b')
            in collect_batches env is (set_batch i b' q)))"

definition any_pending :: "UploadQueue \<Rightarrow> bool" where
  "any_pending q \<longleftrightarrow> (\<exists>ob\<in>set (batches q). case ob of None \<Rightarrow> False | Some b \<Rightarrow> b_pending b)"

definition collect :: "upload_env \<Rightarrow> UploadQueue \<Rightarrow> unit outcome \<times> UploadQueue" where
  "collect env q =
     and_then (collect_batches env [0..<4] q) (\<lambda>_ q.
       (Inr (), if current q \<noteq> None \<or> any_pending q then q else q\<lparr>needsService := False\<rparr>))"

text \<open>The destructor: every submitted batch is waited for, or the process aborts.\<close>

definition destroy_uploads :: "upload_env \<Rightarrow> UploadQueue \<Rightarrow> unit outcome \<times> UploadQueue" where
  "destroy_uploads env q =
     (if \<exists>i<length (batches q). (case batches q ! i of None \<Rightarrow> False
          | Some b \<Rightarrow> b_pending b \<and> waitFence env i \<noteq> VK_SUCCESS)
      then (Inl Abort, q) else (Inr (), q\<lparr>batches := replicate 4 None, current := None\<rparr>))"

datatype upload_cmd = Initialize nat nat | Copy nat u64 nat | Flush | Collect

fun exec_upload :: "upload_env \<Rightarrow> upload_cmd \<Rightarrow> UploadQueue \<Rightarrow> unit outcome \<times> UploadQueue" where
  "exec_upload env (Initialize im life) q = initialize env im life q"
| "exec_upload env (Copy im sz life) q = copy_image env im sz life q"
| "exec_upload env Flush q = flush env q"
| "exec_upload env Collect q = collect env q"

end
