(* ===== verification/UploadSafety.thy ===== *)
theory UploadSafety
  imports Uploads
begin

section \<open>Uploads are neither lost, reordered nor overwritten\<close>

text \<open>
  The invariant of the upload queue and its preservation by every operation, whatever Vulkan
  answers; the properties of the queue follow: staged bytes stay intact until the GPU has read
  them, images live until then, the polling flag is set while work is outstanding, and the
  commands reach the queue in the order they were issued.
\<close>

subsection \<open>The invariant\<close>

fun copy_ranges :: "upload_op list \<Rightarrow> (nat \<times> nat) list" where
  "copy_ranges [] = []"
| "copy_ranges (Init_image im life # ops) = copy_ranges ops"
| "copy_ranges (Copy_image im life off sz # ops) = (unat off, unat sz) # copy_ranges ops"

lemma copy_ranges_append [simp]: "copy_ranges (xs @ ys) = copy_ranges xs @ copy_ranges ys"
  by (induction xs rule: copy_ranges.induct) simp_all

text \<open>The ranges follow one another without overlap, below \<open>lim\<close>.\<close>

definition packed :: "(nat \<times> nat) list \<Rightarrow> nat \<Rightarrow> bool" where
  "packed rs lim \<longleftrightarrow> sorted_wrt (\<lambda>x y. fst x + snd x \<le> fst y) rs \<and> (\<forall>x\<in>set rs. fst x + snd x \<le> lim)"

lemma packed_Nil [simp]: "packed [] lim"
  by (simp add: packed_def)

lemma packed_mono: "packed rs lim \<Longrightarrow> lim \<le> lim' \<Longrightarrow> packed rs lim'"
  by (auto simp: packed_def)

lemma packed_snoc: "packed rs off \<Longrightarrow> packed (rs @ [(off, n)]) (off + n)"
  by (auto simp: packed_def sorted_wrt_append)

definition memory_ok :: "Batch \<Rightarrow> bool" where
  "memory_ok b \<longleftrightarrow> unat (b_capacity b) \<le> 2 ^ 62
     \<and> (b_capacity b \<noteq> 0 \<longrightarrow> b_staging b \<and> b_memory b \<and> b_mapped b)"

definition recording_ok :: "Batch \<Rightarrow> bool" where
  "recording_ok b \<longleftrightarrow> b_used b \<le> b_capacity b \<and> packed (copy_ranges (b_recorded b)) (unat (b_used b))
     \<and> b_operations b = length (b_recorded b) \<and> b_operations b \<le> 256
     \<and> op_lifetime ` set (b_recorded b) \<subseteq> set (b_resources b)"

definition uploads_inv :: "UploadQueue \<Rightarrow> bool" where
  "uploads_inv q \<longleftrightarrow> length (batches q) = 4
     \<and> (\<forall>i b. i < 4 \<longrightarrow> batches q ! i = Some b \<longrightarrow> memory_ok b
          \<and> (b_pending b \<or> current q = Some i \<longrightarrow> recording_ok b \<and> needsService q))
     \<and> (\<forall>i. current q = Some i \<longrightarrow> i < 4 \<and> (\<exists>b. batches q ! i = Some b \<and> \<not> b_pending b))"

text \<open>What the device may answer: the copy alignment is a power of two, and a staging buffer that
  is created has at most \<open>2 ^ 62\<close> bytes.\<close>

definition upload_env_ok :: "upload_env \<Rightarrow> bool" where
  "upload_env_ok env \<longleftrightarrow> (\<exists>k<32. copyAlignment env = 2 ^ k)"

definition request_ok :: "upload_env \<Rightarrow> u64 \<Rightarrow> bool" where
  "request_ok env bytes \<longleftrightarrow> (createStaging env = VK_SUCCESS \<longrightarrow> unat bytes \<le> 2 ^ 62)"

lemma uploads_inv_init: "uploads_inv init_uploads"
  by (simp add: uploads_inv_def init_uploads_def nth_Cons split: nat.splits)

lemma checked_simps [simp]:
  "checked r s = (Inr u, t) \<longleftrightarrow> r = VK_SUCCESS \<and> t = s"
  "checked r s = (Inl e, t) \<longleftrightarrow> r \<noteq> VK_SUCCESS \<and> e = Throw ''Vulkan texture upload failed'' \<and> t = s"
  by (auto simp: checked_def)

lemma and_then_checked:
  "and_then (checked r s) f = (if r = VK_SUCCESS then f () s else (Inl (Throw ''Vulkan texture upload failed''), s))"
  by (simp add: checked_def)

lemma snd_checked [simp]: "snd (checked r s) = s"
  by (simp add: checked_def)

lemma checked_cases: "checked r s = (Inr (), s) \<or> checked r s = (Inl (Throw ''Vulkan texture upload failed''), s)"
  by (simp add: checked_def)

subsection \<open>Submission\<close>

lemma uploads_invD:
  assumes "uploads_inv q"
  shows "length (batches q) = 4" and "\<And>i b. i < 4 \<Longrightarrow> batches q ! i = Some b \<Longrightarrow> memory_ok b"
    and "\<And>i b. i < 4 \<Longrightarrow> batches q ! i = Some b \<Longrightarrow> b_pending b \<or> current q = Some i \<Longrightarrow> recording_ok b \<and> needsService q"
    and "\<And>i. current q = Some i \<Longrightarrow> i < 4 \<and> (\<exists>b. batches q ! i = Some b \<and> \<not> b_pending b)"
  using assms by (auto simp: uploads_inv_def)

definition op_log :: "UploadQueue \<Rightarrow> upload_op list" where
  "op_log q = submitted q @ (case current q of None \<Rightarrow> [] | Some i \<Rightarrow>
     (case batches q ! i of None \<Rightarrow> [] | Some b \<Rightarrow> b_recorded b))"

lemma flush_cases:
  assumes "uploads_inv q" "flush env q = (r, q')"
  obtains (idle) "current q = None" "r = Inr ()" "q' = q"
  | (failed) e i where "current q = Some i" "r = Inl e" "q' = q"
  | (sent) i b where "current q = Some i" "batches q ! i = Some b" "b_command b" "b_fence b" "r = Inr ()"
      "q' = (set_batch i (b\<lparr>b_pending := True\<rparr>) q)\<lparr>current := None,
         submissions := Suc (submissions q), needsService := True, submitted := submitted q @ b_recorded b\<rparr>"
proof (cases "current q")
  case None
  then have "r = Inr ()" "q' = q" using assms(2) by (simp_all add: flush_def)
  then show thesis using idle [OF None] by blast
next
  case (Some i)
  then obtain b where b: "batches q ! i = Some b" using assms(1) by (auto simp: uploads_inv_def)
  have "(\<exists>e. r = Inl e \<and> q' = q) \<or> (b_command b \<and> b_fence b \<and> r = Inr () \<and>
      q' = (set_batch i (b\<lparr>b_pending := True\<rparr>) q)\<lparr>current := None,
         submissions := Suc (submissions q), needsService := True, submitted := submitted q @ b_recorded b\<rparr>)"
    using assms(2) Some b
    by (cases "b_command b"; cases "b_fence b"; simp add: flush_def and_then_checked split: if_splits) auto
  then show thesis using failed [OF Some] sent [OF Some b] by blast
qed

lemma set_batch_inv:
  assumes inv: "uploads_inv q" and i: "i < 4" and mem: "memory_ok b"
    and rec: "b_pending b \<or> c = Some i \<Longrightarrow> recording_ok b \<and> s"
    and cur: "c = Some i \<and> \<not> b_pending b \<or> c = None \<or> c = current q \<and> c \<noteq> Some i"
    and s: "needsService q \<longrightarrow> s"
    and q': "batches q' = (batches q)[i := Some b]" "current q' = c" "needsService q' = s"
  shows "uploads_inv q'"
proof -
  note I = uploads_invD [OF inv]
  have "memory_ok c'" if "j < 4" "batches q' ! j = Some c'" for j c'
    using that i I(1,2) mem by (cases "j = i") (auto simp: q')
  moreover have "recording_ok c' \<and> needsService q'"
    if "j < 4" "batches q' ! j = Some c'" "b_pending c' \<or> current q' = Some j" for j c'
  proof (cases "j = i")
    case True
    then show ?thesis using that rec I(1) i by (simp add: q')
  next
    case False
    then have "batches q ! j = Some c'" "b_pending c' \<or> current q = Some j"
      using that cur by (auto simp: q')
    then show ?thesis using I(3) that(1) s by (auto simp: q')
  qed
  moreover have "j < 4 \<and> (\<exists>b. batches q' ! j = Some b \<and> \<not> b_pending b)" if "current q' = Some j" for j
    using that cur i I(1,4) by (cases "j = i") (auto simp: q')
  ultimately show ?thesis using I(1) by (simp add: uploads_inv_def q')
qed

lemma flush_inv:
  assumes inv: "uploads_inv q" and f: "flush env q = (r, q')"
  shows "uploads_inv q'" and "op_log q' = op_log q" and "r = Inr () \<Longrightarrow> current q' = None"
proof -
  from inv f have "uploads_inv q' \<and> op_log q' = op_log q \<and> (r = Inr () \<longrightarrow> current q' = None)"
  proof (cases rule: flush_cases)
    case (sent i b)
    note I = uploads_invD [OF inv]
    have i: "i < 4" using I(4) [OF sent(1)] by simp
    have "memory_ok (b\<lparr>b_pending := True\<rparr>)" using I(2) [OF i sent(2)] by (simp add: memory_ok_def)
    moreover have "recording_ok (b\<lparr>b_pending := True\<rparr>)" using I(3) [OF i sent(2)] sent(1) by (simp add: recording_ok_def)
    ultimately have "uploads_inv q'"
      by (intro set_batch_inv [OF inv i, where c = None and s = True]) (simp_all add: sent(6) set_batch_def)
    then show ?thesis using sent by (simp add: op_log_def)
  qed (use inv in simp_all)
  then show "uploads_inv q'" "op_log q' = op_log q" "r = Inr () \<Longrightarrow> current q' = None" by simp_all
qed

subsection \<open>Starting a batch\<close>

lemma create_slot_ok:
  assumes "create_slot env slot = (r, b)" "\<And>c. slot = Some c \<Longrightarrow> memory_ok c"
  shows "memory_ok b" and "b_pending b \<Longrightarrow> slot = Some b"
  using assms by (auto simp: create_slot_def and_then_def checked_def new_batch_def memory_ok_def
      split: option.splits if_splits)

lemma retire_ok:
  assumes "retire env i b = (r, b')" "memory_ok b"
  shows "memory_ok b'" and "b_pending b' \<Longrightarrow> b' = b" and "r = Inr () \<Longrightarrow> \<not> b_pending b'"
  using assms by (auto simp: retire_def and_then_def checked_def memory_ok_def split: if_splits)

lemma stage_cases:
  assumes "stage env bytes b = (r, b')"
  obtains (kept) "b' = b" "b_staging b" "bytes \<le> b_capacity b"
  | (failed) e where "r = Inl e" "b_capacity b' = 0" "b_pending b' = b_pending b"
  | (made) "createStaging env = VK_SUCCESS" "b' = b\<lparr>b_staging := True, b_memory := True, b_mapped := True,
      b_capacity := max (4 * 1024 * 1024) bytes\<rparr>"
proof (cases "b_staging b \<and> bytes \<le> b_capacity b")
  case True
  then show thesis using assms kept by (simp add: stage_def)
next
  case False
  then have "(\<exists>e. r = Inl e \<and> b_capacity b' = 0 \<and> b_pending b' = b_pending b) \<or>
      (createStaging env = VK_SUCCESS \<and> b' = b\<lparr>b_staging := True, b_memory := True, b_mapped := True,
        b_capacity := max (4 * 1024 * 1024) bytes\<rparr>)"
    using assms by (auto simp: stage_def and_then_checked freeStaging_def Let_def split: if_splits)
  then show thesis using failed made by blast
qed

lemma stage_ok:
  assumes st: "stage env bytes b = (r, b')" and b: "memory_ok b" "\<not> b_pending b" and req: "request_ok env bytes"
  shows "memory_ok b'" and "\<not> b_pending b'" and "r = Inr made \<Longrightarrow> bytes \<le> b_capacity b'"
proof -
  from st have "memory_ok b' \<and> \<not> b_pending b' \<and> (r = Inr made \<longrightarrow> bytes \<le> b_capacity b')"
  proof (cases rule: stage_cases)
    case made
    then have "unat bytes \<le> 2 ^ 62" using req by (simp add: request_ok_def)
    then have "unat (max 0x400000 bytes) \<le> 2 ^ 62" by (simp add: max_def)
    then show ?thesis using made b by (simp add: memory_ok_def)
  qed (use b in \<open>simp_all add: memory_ok_def\<close>)
  then show "memory_ok b'" "\<not> b_pending b'" "r = Inr made \<Longrightarrow> bytes \<le> b_capacity b'" by simp_all
qed

lemma start_recording_ok:
  assumes "start_recording env b = (r, b')" "memory_ok b" "\<not> b_pending b"
  shows "memory_ok b'" and "\<not> b_pending b'" and "b_capacity b' = b_capacity b"
    and "r = Inr () \<Longrightarrow> b_used b' = 0 \<and> b_recorded b' = [] \<and> b_operations b' = 0"
  using assms by (auto simp: start_recording_def and_then_def checked_def memory_ok_def split: if_splits)

lemma staged_slot_ok:
  assumes st: "staged_slot env i bytes slot = (r, b)" and mem: "\<And>c. slot = Some c \<Longrightarrow> memory_ok c"
    and req: "request_ok env bytes"
  shows "memory_ok b" and "b_pending b \<Longrightarrow> slot = Some b"
    and "r = Inr made \<Longrightarrow> \<not> b_pending b \<and> bytes \<le> b_capacity b"
proof -
  obtain r1 b1 where c: "create_slot env slot = (r1, b1)" by fastforce
  note C = create_slot_ok [OF c mem]
  obtain r2 b2 where rt: "retire env i b1 = (r2, b2)" by fastforce
  note R = retire_ok [OF rt C(1)]
  obtain r3 b3 where s: "stage env bytes b2 = (r3, b3)" by fastforce
  have "memory_ok b \<and> (b_pending b \<longrightarrow> slot = Some b) \<and> (r = Inr made \<longrightarrow> \<not> b_pending b \<and> bytes \<le> b_capacity b)"
  proof (cases r1)
    case (Inl e)
    then show ?thesis using st c C by (auto simp: staged_slot_def)
  next
    case r1: (Inr u)
    show ?thesis
    proof (cases r2)
      case (Inl e)
      then show ?thesis using st c rt r1 C R mem by (auto simp: staged_slot_def)
    next
      case (Inr v)
      note S = stage_ok [OF s R(1) _ req]
      show ?thesis using st c rt s r1 Inr S R by (auto simp: staged_slot_def)
    qed
  qed
  then show "memory_ok b" "b_pending b \<Longrightarrow> slot = Some b"
    "r = Inr made \<Longrightarrow> \<not> b_pending b \<and> bytes \<le> b_capacity b" by simp_all
qed

lemma begin_slot_inv:
  assumes inv: "uploads_inv q" and cur: "current q = None" and req: "request_ok env bytes"
    and b: "begin_slot env bytes q = (r, q')"
  shows "op_log q' = op_log q"
    and "r = Inr i \<Longrightarrow> current q' = Some i
       \<and> (\<exists>b. batches q' ! i = Some b \<and> \<not> b_pending b \<and> b_used b = 0 \<and> bytes \<le> b_capacity b \<and> b_operations b = 0)"
    and "r = Inl e \<Longrightarrow> uploads_inv q'"
    and "r = Inr i \<Longrightarrow> uploads_inv (q'\<lparr>needsService := True\<rparr>)"
proof -
  note I = uploads_invD [OF inv]
  define j where "j = unat (cursor q) mod 4"
  have j: "j < 4" by (simp add: j_def)
  obtain r1 b1 where st: "staged_slot env j bytes (batches q ! j) = (r1, b1)" by fastforce
  note S = staged_slot_ok [OF st I(2) [OF j] req]
  obtain r2 b2 where rec: "start_recording env b1 = (r2, b2)" by fastforce
  note E = start_recording_ok [OF rec S(1)]
  obtain r3 b3 where both: "and_then (staged_slot env j bytes (batches q ! j)) (\<lambda>_ b. start_recording env b) = (r3, b3)"
    by fastforce
  have frame: "batches q' = (batches q)[j := Some b3]" "submitted q' = submitted q" "needsService q' = needsService q"
    "current q' = (if \<exists>e. r3 = Inl e then None else Some j)" "r = (case r3 of Inl e \<Rightarrow> Inl e | Inr _ \<Rightarrow> Inr j)"
    using b both cur by (auto simp: begin_slot_def j_def [symmetric] Let_def set_batch_def split: sum.splits)
  have mem: "memory_ok b3" and pend: "b_pending b3 \<Longrightarrow> batches q ! j = Some b3 \<and> (\<exists>e. r3 = Inl e)"
    using both st rec S E by (cases r1; auto)+
  have fresh: "b_used b3 = 0 \<and> b_recorded b3 = [] \<and> b_operations b3 = 0 \<and> bytes \<le> b_capacity b3 \<and> \<not> b_pending b3"
    if "r3 = Inr u" for u
    using that both st rec S E by (cases r1; cases r2) auto
  show "op_log q' = op_log q"
    using frame cur fresh I(1) j by (cases r3) (auto simp: op_log_def)
  show "current q' = Some i \<and> (\<exists>b. batches q' ! i = Some b \<and> \<not> b_pending b \<and> b_used b = 0
      \<and> bytes \<le> b_capacity b \<and> b_operations b = 0)" if "r = Inr i"
    using that frame fresh I(1) j by (cases r3) auto
  show "uploads_inv q'" if "r = Inl e"
  proof (rule set_batch_inv [OF inv j mem, where c = None and s = "needsService q"])
    show "recording_ok b3 \<and> needsService q" if "b_pending b3 \<or> None = Some j"
      using that pend I(3) [OF j] by auto
  qed (use frame that cur in \<open>auto split: sum.splits\<close>)
  show "uploads_inv (q'\<lparr>needsService := True\<rparr>)" if "r = Inr i"
  proof (rule set_batch_inv [OF inv j mem, where c = "Some j" and s = True])
    have "\<exists>u. r3 = Inr u" using that frame(5) by (cases r3) simp_all
    then show "recording_ok b3 \<and> True" using fresh by (auto simp: recording_ok_def)
    show "Some j = Some j \<and> \<not> b_pending b3 \<or> Some j = None \<or> Some j = current q \<and> Some j \<noteq> Some j"
      using \<open>\<exists>u. r3 = Inr u\<close> fresh by auto
  qed (use frame that in \<open>auto split: sum.splits\<close>)
qed


subsection \<open>Recording\<close>

text \<open>Where the next upload goes: a batch that the GPU does not use, at an offset behind
  everything recorded in it.\<close>

lemma align_fits:
  assumes env: "upload_env_ok env" and u: "b_used b \<le> b_capacity b" and mem: "memory_ok b"
  shows "b_used b \<le> align_up (b_used b) (upload_alignment env)"
proof -
  obtain k where k: "k < 32" "copyAlignment env = 2 ^ k" using env by (auto simp: upload_env_ok_def)
  have "\<exists>m<32. upload_alignment env = 2 ^ m"
  proof (cases "copyAlignment env \<le> 16")
    case True
    then show ?thesis by (intro exI [of _ 4]) (simp add: upload_alignment_def max_def)
  next
    case False
    then have "16 \<le> copyAlignment env" by simp
    then show ?thesis using k by (intro exI [of _ k]) (simp add: upload_alignment_def max.absorb2)
  qed
  then obtain m where m: "m < 32" "upload_alignment env = 2 ^ m" by blast
  have c: "unat (b_used b) \<le> 2 ^ 62" using u mem by (simp add: memory_ok_def word_le_nat_alt)
  have "(2::nat) ^ m \<le> 2 ^ 32" using m(1) by (intro power_increasing) simp_all
  then have "unat (align_up (b_used b) (upload_alignment env)) = round_up (unat (b_used b)) (2 ^ m)"
    using m c by (intro unat_align_up) simp_all
  then show ?thesis using round_up_bounds(1) [of "2 ^ m" "unat (b_used b)"] by (simp add: word_le_nat_alt)
qed

lemma begin_upload_ok:
  assumes inv: "uploads_inv q" and env: "upload_env_ok env" and req: "request_ok env bytes"
    and b: "begin_upload env bytes q = (r, q')"
  shows "op_log q' = op_log q" and "r = Inl e \<Longrightarrow> uploads_inv q'"
    and "r = Inr i \<Longrightarrow> uploads_inv (q'\<lparr>needsService := True\<rparr>) \<and> current q' = Some i
       \<and> (\<exists>b. batches q' ! i = Some b \<and> \<not> b_pending b \<and> b_used b \<le> b_capacity b
            \<and> bytes \<le> b_capacity b - b_used b \<and> b_operations b < 256)"
proof -
  note I = uploads_invD [OF inv]
  have slot: "op_log q1 = op_log q0 \<and> (\<forall>e. s = Inl e \<longrightarrow> uploads_inv q1) \<and> (\<forall>i. s = Inr i \<longrightarrow>
      uploads_inv (q1\<lparr>needsService := True\<rparr>) \<and> current q1 = Some i
       \<and> (\<exists>b. batches q1 ! i = Some b \<and> \<not> b_pending b \<and> b_used b \<le> b_capacity b
            \<and> bytes \<le> b_capacity b - b_used b \<and> b_operations b < 256))"
    if "uploads_inv q0" "current q0 = None" "begin_slot env bytes q0 = (s, q1)" for q0 q1 s
    using begin_slot_inv [OF that(1,2) req that(3)] by fastforce
  have "op_log q' = op_log q \<and> (\<forall>e. r = Inl e \<longrightarrow> uploads_inv q') \<and> (\<forall>i. r = Inr i \<longrightarrow>
      uploads_inv (q'\<lparr>needsService := True\<rparr>) \<and> current q' = Some i
       \<and> (\<exists>b. batches q' ! i = Some b \<and> \<not> b_pending b \<and> b_used b \<le> b_capacity b
            \<and> bytes \<le> b_capacity b - b_used b \<and> b_operations b < 256))"
  proof (cases "current q")
    case None
    then show ?thesis using b slot [OF inv None] by (simp add: begin_upload_def)
  next
    case cur: (Some j)
    then obtain c where c: "batches q ! j = Some c" "\<not> b_pending c" and j: "j < 4" using I(4) by blast
    show ?thesis
    proof (cases "batch_fits env bytes c")
      case True
      let ?c = "c\<lparr>b_used := align_up (b_used c) (upload_alignment env)\<rparr>"
      have rec: "recording_ok c" and mem: "memory_ok c" using I(2,3) [OF j c(1)] cur by simp_all
      have le: "b_used c \<le> b_used ?c" using align_fits [OF env _ mem] rec by (simp add: recording_ok_def)
      have "recording_ok ?c" using rec le True
        by (auto simp: recording_ok_def batch_fits_def Let_def word_le_nat_alt intro: packed_mono)
      moreover have "memory_ok ?c" using mem by (simp add: memory_ok_def)
      moreover have q': "q' = set_batch j ?c q" "r = Inr j" using b cur c True by (simp_all add: begin_upload_def)
      ultimately have "uploads_inv (q'\<lparr>needsService := True\<rparr>)"
        using cur c(2) by (intro set_batch_inv [OF inv j, of ?c "Some j" True]) (simp_all add: set_batch_def)
      then show ?thesis using q' cur c True j I(1)
        by (auto simp: set_batch_def op_log_def batch_fits_def Let_def)
    next
      case False
      obtain s q1 where f: "flush env q = (s, q1)" by fastforce
      note F = flush_inv [OF inv f]
      show ?thesis
      proof (cases s)
        case (Inl e)
        then have "r = Inl e" "q' = q1" using b cur c False f by (simp_all add: begin_upload_def)
        then show ?thesis using F(1,2) by simp
      next
        case (Inr u)
        then have "begin_slot env bytes q1 = (r, q')" using b cur c False f by (simp add: begin_upload_def)
        then show ?thesis using slot [OF F(1) F(3)] Inr F(2) by simp
      qed
    qed
  qed
  then show "op_log q' = op_log q" "r = Inl e \<Longrightarrow> uploads_inv q'"
    "r = Inr i \<Longrightarrow> uploads_inv (q'\<lparr>needsService := True\<rparr>) \<and> current q' = Some i
       \<and> (\<exists>b. batches q' ! i = Some b \<and> \<not> b_pending b \<and> b_used b \<le> b_capacity b
            \<and> bytes \<le> b_capacity b - b_used b \<and> b_operations b < 256)"
    by blast+
qed


text \<open>Recording one more operation in the current batch.\<close>

definition record_op :: "upload_op \<Rightarrow> Batch \<Rightarrow> Batch" where
  "record_op op' b = b\<lparr>b_resources := b_resources b @ [op_lifetime op'], b_recorded := b_recorded b @ [op'],
     b_used := (case op' of Init_image im life \<Rightarrow> b_used b | Copy_image im life off sz \<Rightarrow> b_used b + sz),
     b_operations := Suc (b_operations b)\<rparr>"

lemma record_op_inv:
  assumes inv: "uploads_inv (q\<lparr>needsService := True\<rparr>)" and cur: "current q = Some i"
    and b: "batches q ! i = Some b" "\<not> b_pending b" "b_used b \<le> b_capacity b" "b_operations b < 256"
    and fits: "bytes \<le> b_capacity b - b_used b"
    and op': "\<exists>im life. op' = Init_image im life \<or> op' = Copy_image im life (b_used b) bytes"
    and q': "batches q' = (batches q)[i := Some (record_op op' b)]" "current q' = Some i" "needsService q'"
  shows "uploads_inv q'"
proof -
  note I = uploads_invD [OF inv]
  have i: "i < 4" using I(4) [of i] cur by simp
  have rec: "recording_ok b" and mem: "memory_ok b" using I(2,3) [OF i, of b] b cur by simp_all
  have u: "unat bytes \<le> unat (b_capacity b) - unat (b_used b)" "unat (b_used b) \<le> unat (b_capacity b)"
    using fits b(3) by (simp_all add: word_le_nat_alt unat_sub)
  moreover have "unat (b_capacity b) \<le> 2 ^ 62" using mem by (simp add: memory_ok_def)
  ultimately have sum: "unat (b_used b + bytes) = unat (b_used b) + unat bytes"
    by (simp add: unat_word_ariths)
  have "recording_ok (record_op op' b)"
    using op' rec b u sum by (auto simp: recording_ok_def record_op_def word_le_nat_alt packed_snoc)
  moreover have "memory_ok (record_op op' b)" using mem by (simp add: memory_ok_def record_op_def)
  ultimately show ?thesis
    using cur b q' by (intro set_batch_inv [OF inv i, of "record_op op' b" "Some i" True]) (simp_all add: record_op_def)
qed

definition op_request :: "upload_op \<Rightarrow> upload_cmd" where
  "op_request op' = (case op' of Init_image im life \<Rightarrow> Initialize im life | Copy_image im life off sz \<Rightarrow> Copy im sz life)"

definition upload_log :: "UploadQueue \<Rightarrow> upload_cmd list" where
  "upload_log q = map op_request (op_log q)"

lemma op_log_record:
  assumes "op_log q = l" "length (batches q) = 4" "i < 4" "current q = Some i" "batches q ! i = Some b"
    "batches q' = (batches q)[i := Some (record_op op' b)]" "current q' = Some i" "submitted q' = submitted q"
  shows "op_log q' = l @ [op']"
  using assms by (auto simp: op_log_def record_op_def)

text \<open>An upload that succeeds is the last operation of the current batch, which the GPU does not
  use; one that fails records nothing.\<close>

lemma record_step:
  assumes inv: "uploads_inv q" and env: "upload_env_ok env" and req: "request_ok env bytes"
    and b: "begin_upload env bytes q = (r0, q0)"
    and ok: "\<And>i b. r0 = Inr i \<Longrightarrow> batches q0 ! i = Some b \<Longrightarrow> bytes \<noteq> 0 \<longrightarrow> b_mapped b \<Longrightarrow> r = Inr () \<and>
      batches q' = (batches q0)[i := Some (record_op (opf b) b)] \<and> current q' = current q0
      \<and> submitted q' = submitted q0 \<and> needsService q'"
    and op': "\<And>b. \<exists>im life. opf b = Init_image im life \<or> opf b = Copy_image im life (b_used b) bytes"
    and err: "\<And>e. r0 = Inl e \<Longrightarrow> r = Inl e \<and> q' = q0"
    and reqs: "\<And>b. op_request (opf b) = cmd"
  shows "uploads_inv q' \<and> upload_log q' = upload_log q @ (if r = Inr () then [cmd] else [])
    \<and> (r = Inr () \<longrightarrow> (\<exists>i b. current q' = Some i \<and> batches q' ! i = Some b \<and> \<not> b_pending b
         \<and> op_request (last (b_recorded b)) = cmd \<and> b_recorded b \<noteq> []))"
proof (cases r0)
  case (Inl e)
  then show ?thesis using begin_upload_ok(1,2) [OF inv env req b] err by (simp add: upload_log_def)
next
  case (Inr i)
  note B = begin_upload_ok(1,3) [OF inv env req b]
  from B(2) [OF Inr] obtain c where c: "batches q0 ! i = Some c" "\<not> b_pending c" "b_used c \<le> b_capacity c"
      "bytes \<le> b_capacity c - b_used c" "b_operations c < 256" and cur: "current q0 = Some i"
      and inv0: "uploads_inv (q0\<lparr>needsService := True\<rparr>)" by blast
  have len: "length (batches q0) = 4" "i < 4" using uploads_invD(1,4) [OF inv0] cur by auto
  have "memory_ok c" using uploads_invD(2) [OF inv0 len(2)] c(1) by simp
  then have "bytes \<noteq> 0 \<longrightarrow> b_mapped c" using c(3,4) by (auto simp: memory_ok_def)
  note O = ok [OF Inr c(1) this]
  have "uploads_inv q'" using O op' [of c] cur
    by (intro record_op_inv [OF inv0 cur c(1,2,3,5,4), of "opf c"]) simp_all
  moreover have "op_log q' = op_log q @ [opf c]"
    using O cur by (intro op_log_record [OF B(1) len cur c(1)]) simp_all
  ultimately show ?thesis using O cur len c(2) reqs
    by (simp add: upload_log_def) (simp add: record_op_def)
qed

lemma initialize_step:
  assumes "uploads_inv q" "upload_env_ok env" "initialize env im life q = (r, q')"
  shows "uploads_inv q' \<and> upload_log q' = upload_log q @ (if r = Inr () then [Initialize im life] else [])
    \<and> (r = Inr () \<longrightarrow> (\<exists>i b. current q' = Some i \<and> batches q' ! i = Some b \<and> \<not> b_pending b
         \<and> op_request (last (b_recorded b)) = Initialize im life \<and> b_recorded b \<noteq> []))"
proof -
  obtain r0 q0 where b: "begin_upload env 0 q = (r0, q0)" by fastforce
  have req: "request_ok env 0" by (simp add: request_ok_def)
  show ?thesis
    by (rule record_step [OF assms(1,2) req b, where opf = "\<lambda>_. Init_image im life"])
      (use assms(3) b in \<open>auto simp: initialize_def record_op_def set_batch_def op_request_def\<close>)
qed

lemma copy_step:
  assumes "uploads_inv q" "upload_env_ok env" "request_ok env sz" "copy_image env im sz life q = (r, q')"
  shows "uploads_inv q' \<and> upload_log q' = upload_log q @ (if r = Inr () then [Copy im sz life] else [])
    \<and> (r = Inr () \<longrightarrow> (\<exists>i b. current q' = Some i \<and> batches q' ! i = Some b \<and> \<not> b_pending b
         \<and> op_request (last (b_recorded b)) = Copy im sz life \<and> b_recorded b \<noteq> []))"
proof -
  obtain r0 q0 where b: "begin_upload env sz q = (r0, q0)" by fastforce
  show ?thesis
    by (rule record_step [OF assms(1,2,3) b, where opf = "\<lambda>b. Copy_image im life (b_used b) sz"])
      (use assms(4) b in \<open>auto simp: copy_image_def record_op_def set_batch_def op_request_def\<close>)
qed

subsection \<open>Collection\<close>

lemma retired_inv:
  assumes inv: "uploads_inv q" and i: "i < 4" and b: "batches q ! i = Some b" "b_pending b"
  shows "uploads_inv (set_batch i (if big then freeStaging (b\<lparr>b_pending := False, b_resources := []\<rparr>)
      else b\<lparr>b_pending := False, b_resources := []\<rparr>) q)"
    and "op_log (set_batch i b' q) = op_log q"
proof -
  note I = uploads_invD [OF inv]
  have cur: "current q \<noteq> Some i" using I(4) b by auto
  have "memory_ok b" using I(2) [OF i b(1)] .
  then have "memory_ok (if big then freeStaging (b\<lparr>b_pending := False, b_resources := []\<rparr>)
      else b\<lparr>b_pending := False, b_resources := []\<rparr>)"
    by (simp add: memory_ok_def freeStaging_def)
  then show "uploads_inv (set_batch i (if big then freeStaging (b\<lparr>b_pending := False, b_resources := []\<rparr>)
      else b\<lparr>b_pending := False, b_resources := []\<rparr>) q)"
    by (rule set_batch_inv [OF inv i]) (use cur in \<open>auto simp: set_batch_def freeStaging_def\<close>)
  show "op_log (set_batch i b' q) = op_log q"
    using cur by (auto simp: op_log_def set_batch_def split: option.split)
qed

lemma collect_batches_ok:
  assumes "uploads_inv q" "\<forall>i\<in>set is. i < 4" "collect_batches env is q = (r, q')"
  shows "uploads_inv q' \<and> op_log q' = op_log q \<and> current q' = current q \<and> needsService q' = needsService q"
  using assms
proof (induction "is" arbitrary: q)
  case Nil
  then show ?case by simp
next
  case (Cons i "is")
  note IH = Cons.IH and inv = Cons.prems(1)
  have i: "i < 4" and all: "\<forall>i\<in>set is. i < 4" using Cons.prems(2) by simp_all
  show ?case
  proof (cases "\<exists>b. batches q ! i = Some b \<and> b_pending b \<and> fenceStatus env i \<noteq> VK_NOT_READY")
    case False
    then have "collect_batches env is q = (r, q')"
      using Cons.prems(3) by (auto split: option.splits)
    then show ?thesis using IH [OF inv all] by simp
  next
    case True
    then obtain b where b: "batches q ! i = Some b" "b_pending b" "fenceStatus env i \<noteq> VK_NOT_READY" by blast
    show ?thesis
    proof (cases "fenceStatus env i = VK_SUCCESS")
      case ok: True
      let ?b = "b\<lparr>b_pending := False, b_resources := []\<rparr>"
      let ?q = "set_batch i (if b_capacity b > 4 * 1024 * 1024 then freeStaging ?b else ?b) q"
      have "collect_batches env is ?q = (r, q')"
        using Cons.prems(3) b ok by (simp add: and_then_checked Let_def split: if_splits)
      from IH [OF retired_inv(1) [OF inv i b(1,2)] all this] retired_inv(2) [OF inv i b(1,2)]
      show ?thesis by (simp add: set_batch_def)
    next
      case no: False
      then have "q' = q" using Cons.prems(3) b by (simp add: and_then_checked)
      then show ?thesis using inv by simp
    qed
  qed
qed

lemma uploads_idle:
  assumes "uploads_inv q" "current q = None" "\<not> any_pending q"
  shows "uploads_inv (q\<lparr>needsService := s\<rparr>)"
proof -
  have "\<not> b_pending b" if "i < 4" "batches q ! i = Some b" for i b
    using that assms(1,3) by (force simp: any_pending_def uploads_inv_def in_set_conv_nth split: option.splits)
  then show ?thesis using assms(1,2) by (simp add: uploads_inv_def)
qed

lemma collect_step:
  assumes "uploads_inv q" "collect env q = (r, q')"
  shows "uploads_inv q' \<and> op_log q' = op_log q"
proof -
  obtain s q1 where c: "collect_batches env [0..<4] q = (s, q1)" by fastforce
  then have ok: "uploads_inv q1 \<and> op_log q1 = op_log q"
    using collect_batches_ok [OF assms(1) _ c] by simp
  have q': "q' = q1 \<or> (current q1 = None \<and> \<not> any_pending q1 \<and> q' = q1\<lparr>needsService := False\<rparr>)"
    using assms(2) c by (cases s) (auto simp: collect_def split: if_splits)
  then show ?thesis using ok uploads_idle [of q1 False] by (auto simp: op_log_def)
qed

text \<open>All four operations.\<close>

definition cmd_ok :: "upload_env \<Rightarrow> upload_cmd \<Rightarrow> bool" where
  "cmd_ok env c \<longleftrightarrow> upload_env_ok env \<and> (case c of Copy im sz life \<Rightarrow> request_ok env sz | _ \<Rightarrow> True)"

definition issued :: "upload_cmd \<Rightarrow> bool" where
  "issued c \<longleftrightarrow> (case c of Initialize _ _ \<Rightarrow> True | Copy _ _ _ \<Rightarrow> True | _ \<Rightarrow> False)"

lemma exec_upload_step:
  assumes "uploads_inv q" "cmd_ok env c" "exec_upload env c q = (r, q')"
  shows "uploads_inv q' \<and> upload_log q' = upload_log q @ (if r = Inr () \<and> issued c then [c] else [])"
proof (cases c)
  case (Initialize im life)
  then show ?thesis using assms initialize_step [of q env im life r q'] by (simp add: cmd_ok_def issued_def)
next
  case (Copy im sz life)
  then show ?thesis using assms copy_step [of q env sz im life r q'] by (simp add: cmd_ok_def issued_def)
next
  case Flush
  then show ?thesis using assms flush_inv [OF assms(1), of env r q'] by (simp add: issued_def upload_log_def)
next
  case Collect
  then show ?thesis using assms collect_step [OF assms(1), of env r q'] by (simp add: issued_def upload_log_def)
qed

subsection \<open>Whole runs\<close>

text \<open>A run of operations, each with its own answers from Vulkan; a failed operation throws and the
  program goes on with the next. The result lists the uploads that succeeded.\<close>

fun run_uploads :: "(upload_env \<times> upload_cmd) list \<Rightarrow> UploadQueue \<Rightarrow> upload_cmd list \<times> UploadQueue" where
  "run_uploads [] q = ([], q)"
| "run_uploads ((env, c) # rest) q =
     (let (r, q1) = exec_upload env c q; (l, q2) = run_uploads rest q1
      in (if r = Inr () \<and> issued c then c # l else l, q2))"

definition cmds_ok :: "(upload_env \<times> upload_cmd) list \<Rightarrow> bool" where
  "cmds_ok cs \<longleftrightarrow> (\<forall>(env, c)\<in>set cs. cmd_ok env c)"

lemma run_uploads_inv:
  assumes "uploads_inv q" "cmds_ok cs" "run_uploads cs q = (l, q')"
  shows "uploads_inv q' \<and> upload_log q' = upload_log q @ l"
  using assms
proof (induction cs arbitrary: q l q')
  case Nil
  then show ?case by simp
next
  case (Cons p cs)
  obtain env c where p: "p = (env, c)" by fastforce
  obtain r q1 where e: "exec_upload env c q = (r, q1)" by fastforce
  obtain l2 q2 where rest: "run_uploads cs q1 = (l2, q2)" by fastforce
  have ok: "cmd_ok env c" "cmds_ok cs" using Cons.prems(2) p by (simp_all add: cmds_ok_def)
  note E = exec_upload_step [OF Cons.prems(1) ok(1) e]
  have "uploads_inv q2 \<and> upload_log q2 = upload_log q1 @ l2" using Cons.IH ok(2) rest E by blast
  then show ?case using Cons.prems(3) p e rest E by (auto split: if_splits)
qed

definition wit_env :: upload_env where
  "wit_env = \<lparr>copyAlignment = 4, memProps = \<lparr>memoryTypes = [\<lparr>propertyFlags = 6, heapIndex = 0\<rparr>], memoryHeaps = [1073741824]\<rparr>,
     stagingTypeBits = 1, createPool = VK_SUCCESS, allocCommand = VK_SUCCESS, createFence = VK_SUCCESS,
     fenceStatus = (\<lambda>_. VK_NOT_READY), waitFence = (\<lambda>_. VK_SUCCESS), createStaging = VK_SUCCESS,
     allocStaging = VK_SUCCESS, bindStaging = VK_SUCCESS, mapStaging = VK_SUCCESS, resetPool = VK_SUCCESS,
     beginCommand = VK_SUCCESS, endCommand = VK_SUCCESS, resetFence = VK_SUCCESS, queueSubmit = VK_SUCCESS\<rparr>"

definition wit_cmds :: "(upload_env \<times> upload_cmd) list" where
  "wit_cmds = [(wit_env, Initialize 1 7), (wit_env, Copy 1 100 7), (wit_env, Copy 2 50 8)]"

lemma wit_cmds_ok: "cmds_ok wit_cmds"
  by (auto simp: cmds_ok_def wit_cmds_def cmd_ok_def request_ok_def upload_env_ok_def wit_env_def intro: exI [of _ 2])

lemmas run_simps = begin_upload_def begin_slot_def staged_slot_def create_slot_def retire_def stage_def
  start_recording_def initialize_def copy_image_def flush_def collect_def checked_def new_batch_def init_uploads_def
  buffer_memory_type_def admits_def has_flags_def model_simps Let_def freeStaging_def set_batch_def waited_def
  batch_fits_def upload_alignment_def align_up_def issued_def

lemma wit_run: "fst (run_uploads wit_cmds init_uploads) = [Initialize 1 7, Copy 1 100 7, Copy 2 50 8]"
  by (simp add: wit_cmds_def wit_env_def run_simps max_def)




text \<open>
  C6: in every batch that is recording or in flight, the staged byte ranges are pairwise disjoint
  and inside the staging buffer, every image written is kept alive, there are at most 256
  operations, and the flag that makes the polling thread service the queue is set.
\<close>

theorem staged_bytes_safe:
  assumes "cmds_ok cs" "run_uploads cs init_uploads = (l, q)" "i < 4" "batches q ! i = Some b"
    "b_pending b \<or> current q = Some i"
  shows "packed (copy_ranges (b_recorded b)) (unat (b_capacity b))
    \<and> op_lifetime ` set (b_recorded b) \<subseteq> set (b_resources b)
    \<and> length (b_recorded b) \<le> 256 \<and> needsService q"
proof -
  have "uploads_inv q" using run_uploads_inv [OF uploads_inv_init assms(1,2)] by simp
  from uploads_invD(3) [OF this assms(3-5)] show ?thesis
    by (auto simp: recording_ok_def word_le_nat_alt intro: packed_mono)
qed

lemma wit_batch: "\<exists>b. batches (snd (run_uploads wit_cmds init_uploads)) ! 0 = Some b
    \<and> b_recorded b = [Init_image 1 7, Copy_image 1 7 0 100, Copy_image 2 8 112 50]
    \<and> current (snd (run_uploads wit_cmds init_uploads)) = Some 0 \<and> b_capacity b = 4194304"
  by (simp add: wit_cmds_def wit_env_def run_simps max_def)

theorem staged_bytes_safe_witness:
  "packed [(0, 100), (112, 50)] 4194304 \<and> needsService (snd (run_uploads wit_cmds init_uploads))"
proof -
  obtain b where b: "batches (snd (run_uploads wit_cmds init_uploads)) ! 0 = Some b"
    "b_recorded b = [Init_image 1 7, Copy_image 1 7 0 100, Copy_image 2 8 112 50]"
    "current (snd (run_uploads wit_cmds init_uploads)) = Some 0" "b_capacity b = 4194304"
    using wit_batch by blast
  have "packed (copy_ranges (b_recorded b)) (unat (b_capacity b)) \<and> needsService (snd (run_uploads wit_cmds init_uploads))"
    using staged_bytes_safe [OF wit_cmds_ok, of "fst (run_uploads wit_cmds init_uploads)", OF _ _ b(1)] b(3) by simp
  then show ?thesis using b(2,4) by simp
qed

text \<open>
  A copy that succeeds was written to the staging buffer of a batch that the GPU is not
  using, and is the last command recorded there.
\<close>

theorem copy_target_not_in_flight:
  assumes "cmds_ok cs" "run_uploads cs init_uploads = (l, q)" "cmd_ok env (Copy im sz life)"
    "copy_image env im sz life q = (Inr (), q')"
  shows "\<exists>i b off. current q' = Some i \<and> batches q' ! i = Some b \<and> \<not> b_pending b
    \<and> b_recorded b \<noteq> [] \<and> last (b_recorded b) = Copy_image im life off sz"
proof -
  have inv: "uploads_inv q" using run_uploads_inv [OF uploads_inv_init assms(1,2)] by simp
  have "upload_env_ok env" "request_ok env sz" using assms(3) by (simp_all add: cmd_ok_def)
  from copy_step [OF inv this assms(4)] obtain i b where "current q' = Some i" "batches q' ! i = Some b"
    "\<not> b_pending b" "op_request (last (b_recorded b)) = Copy im sz life" "b_recorded b \<noteq> []" by auto
  then show ?thesis by (cases "last (b_recorded b)") (auto simp: op_request_def)
qed

theorem copy_target_not_in_flight_witness:
  "\<exists>i b off. current (snd (copy_image wit_env 3 10 9 (snd (run_uploads wit_cmds init_uploads)))) = Some i
     \<and> batches (snd (copy_image wit_env 3 10 9 (snd (run_uploads wit_cmds init_uploads)))) ! i = Some b
     \<and> \<not> b_pending b \<and> last (b_recorded b) = Copy_image 3 9 off 10"
proof -
  let ?q = "snd (run_uploads wit_cmds init_uploads)"
  have "fst (copy_image wit_env 3 10 9 ?q) = Inr ()"
    by (simp add: wit_cmds_def wit_env_def run_simps max_def)
  then have c: "copy_image wit_env 3 10 9 ?q = (Inr (), snd (copy_image wit_env 3 10 9 ?q))"
    by (metis prod.collapse)
  have ok: "cmd_ok wit_env (Copy 3 10 9)" using wit_cmds_ok by (simp add: cmds_ok_def wit_cmds_def cmd_ok_def request_ok_def)
  show ?thesis using copy_target_not_in_flight [OF wit_cmds_ok _ ok c] by (metis prod.collapse)
qed

text \<open>
  a failure to create the command pool of a ring slot is not recovered from: the slot keeps
  a batch without one, and when the ring comes back to it, with Vulkan answering every call with
  success, the null command pool is used.
\<close>

theorem failed_slot_is_reused:
  "fst (initialize wit_env 5 5 (snd (run_uploads
      ((wit_env\<lparr>createPool := VK_ERROR 1\<rparr>, Initialize 1 1) #
       concat (map (\<lambda>i. [(wit_env, Initialize i i), (wit_env, Flush)]) [2, 3, 4])) init_uploads))) = Inl Undefined"
  by (simp add: wit_env_def run_simps max_def)

end
