(* ===== verification/EventLoop.thy ===== *)
theory EventLoop
  imports Prelude "HOL-Library.Sublist"
begin

section \<open>The completion event loop\<close>

text \<open>
  \<open>pollEvents\<close>, \<open>wakeupEventLoop\<close> and \<open>waitForSemaphore\<close> of \<open>native/renderer/device.cpp\<close>: one
  polling thread waits for timeline semaphores and runs the callbacks of those that have
  reached their value, while other threads register waits and ask it to wake up, and the GPU
  advances the semaphores.

  Each step is what a thread does under \<open>_eventLoopMutex\<close>, or one call it makes without it, so
  every interleaving of the threads is a sequence of steps; \<open>_pollingMutex\<close> makes the poller one
  thread, whose place in \<open>pollEvents\<close> is the phase. Callbacks are numbers, the null callback of
  the wakeup entry is \<open>None\<close>. The 64-bit timeline values are natural numbers. A Vulkan failure
  aborts the process and is no step. \<open>registered\<close> and \<open>called\<close> record what was asked for and what was called.
\<close>

datatype poll_phase =
    Outside
  | Sleeping
  | Waiting "nat list" "nat list"
  | Scanning "nat list" "nat list" nat "nat list"
  | Calling "nat option list"

record event_loop =
  semaphores :: "nat list"
  waitValues :: "nat list"
  callbacks :: "nat option list"
  counters :: "nat \<Rightarrow> nat"
  loopWaiting :: bool
  wakePending :: bool
  phase :: poll_phase
  registered :: "(nat \<times> nat \<times> nat) list"
  called :: "nat list"

text \<open>The wakeup semaphore is semaphore 0, its first awaited value is 1.\<close>

definition init_loop :: event_loop where
  "init_loop = \<lparr>semaphores = [0], waitValues = [1], callbacks = [None], counters = (\<lambda>_. 0),
     loopWaiting = False, wakePending = False, phase = Outside, registered = [], called = []\<rparr>"

subsection \<open>Registration and wakeup\<close>

definition waitForSemaphore :: "nat \<Rightarrow> nat \<Rightarrow> nat \<Rightarrow> event_loop \<Rightarrow> event_loop" where
  "waitForSemaphore s v c l = l\<lparr>semaphores := semaphores l @ [s], waitValues := waitValues l @ [v],
     callbacks := callbacks l @ [Some c], loopWaiting := False, registered := registered l @ [(s, v, c)]\<rparr>"

text \<open>The signalled value, if the wakeup semaphore is signalled.\<close>

definition wakeupEventLoop :: "event_loop \<Rightarrow> nat option \<times> event_loop" where
  "wakeupEventLoop l =
     (if loopWaiting l then (None, l\<lparr>wakePending := True, loopWaiting := False\<rparr>)
      else let oldVal = waitValues l ! 0 in
        (Some oldVal, l\<lparr>wakePending := True, waitValues := (waitValues l)[0 := Suc oldVal],
           counters := (counters l)(semaphores l ! 0 := oldVal)\<rparr>))"

subsection \<open>Polling\<close>

text \<open>Entering \<open>pollEvents\<close>: consume a pending wake, sleep when there is no GPU work, or take the
  snapshot of the waits.\<close>

definition poll_begin :: "event_loop \<Rightarrow> event_loop" where
  "poll_begin l =
     (if wakePending l then l\<lparr>wakePending := False\<rparr>
      else if length (semaphores l) = 1 then l\<lparr>loopWaiting := True, phase := Sleeping\<rparr>
      else l\<lparr>phase := Waiting (semaphores l) (waitValues l)\<rparr>)"

definition sleep_end :: "event_loop \<Rightarrow> event_loop" where
  "sleep_end l = l\<lparr>loopWaiting := False, wakePending := False, phase := Outside\<rparr>"

text \<open>Reading the counter of entry \<open>i\<close> of the snapshot.\<close>

definition scan_entry :: "event_loop \<Rightarrow> event_loop" where
  "scan_entry l =
     (case phase l of
        Scanning ss vs i ready \<Rightarrow>
          l\<lparr>phase := Scanning ss vs (Suc i) (if counters l (ss ! i) \<ge> vs ! i then ready @ [i] else ready)\<rparr>
      | _ \<Rightarrow> l)"

definition erase_at :: "nat \<Rightarrow> 'a list \<Rightarrow> 'a list" where
  "erase_at i xs = take i xs @ drop (Suc i) xs"

text \<open>Erasing back to front.\<close>

definition erase_all :: "nat list \<Rightarrow> 'a list \<Rightarrow> 'a list" where
  "erase_all is xs = fold erase_at (rev is) xs"

definition take_ready :: "event_loop \<Rightarrow> event_loop" where
  "take_ready l =
     (case phase l of
        Scanning ss vs i ready \<Rightarrow>
          l\<lparr>semaphores := erase_all ready (semaphores l), waitValues := erase_all ready (waitValues l),
            callbacks := erase_all ready (callbacks l), phase := Calling (map (\<lambda>j. callbacks l ! j) ready)\<rparr>
      | _ \<Rightarrow> l)"

definition call_next :: "event_loop \<Rightarrow> event_loop" where
  "call_next l =
     (case phase l of
        Calling [] \<Rightarrow> l\<lparr>phase := Outside\<rparr>
      | Calling (None # cs) \<Rightarrow> l\<lparr>phase := Calling cs\<rparr>
      | Calling (Some c # cs) \<Rightarrow> l\<lparr>phase := Calling cs, called := called l @ [c]\<rparr>
      | _ \<Rightarrow> l)"

text \<open>
  The steps of all threads. \<open>vkWaitSemaphores\<close> returns success only when some entry of the
  snapshot is signalled, and may time out; a sleep ends when it is woken or times out. The GPU
  only advances the semaphores, and does not signal the wakeup semaphore.
\<close>

inductive loop_step :: "event_loop \<Rightarrow> event_loop \<Rightarrow> bool" where
  register: "s \<noteq> 0 \<Longrightarrow> loop_step l (waitForSemaphore s v c l)"
| wakeup: "loop_step l (snd (wakeupEventLoop l))"
| gpu: "s \<noteq> 0 \<Longrightarrow> counters l s \<le> v \<Longrightarrow> loop_step l (l\<lparr>counters := (counters l)(s := v)\<rparr>)"
| poll: "phase l = Outside \<Longrightarrow> loop_step l (poll_begin l)"
| wake: "phase l = Sleeping \<Longrightarrow> loop_step l (sleep_end l)"
| timeout: "phase l = Waiting ss vs \<Longrightarrow> loop_step l (l\<lparr>phase := Outside\<rparr>)"
| signalled: "phase l = Waiting ss vs \<Longrightarrow> \<exists>i<length ss. counters l (ss ! i) \<ge> vs ! i
    \<Longrightarrow> loop_step l (l\<lparr>phase := Scanning ss vs 1 []\<rparr>)"
| scan: "phase l = Scanning ss vs i ready \<Longrightarrow> i < length ss \<Longrightarrow> loop_step l (scan_entry l)"
| scanned: "phase l = Scanning ss vs i ready \<Longrightarrow> i = length ss \<Longrightarrow> loop_step l (take_ready l)"
| call: "phase l = Calling cs \<Longrightarrow> loop_step l (call_next l)"

inductive loop_reachable :: "event_loop \<Rightarrow> bool" where
  loop_init: "loop_reachable init_loop"
| loop_next: "loop_reachable l \<Longrightarrow> loop_step l l' \<Longrightarrow> loop_reachable l'"

subsection \<open>Erasing several entries\<close>

text \<open>Erasing sorted indices back to front leaves the entries at the other indices.\<close>

lemma nths_upto_all: "nths xs {..<n} = take n xs"
  by (simp add: nths_upt_eq_take)

lemma erase_at_nths: "i < length xs \<Longrightarrow> erase_at i xs = nths xs (- {i})"
proof (induction xs arbitrary: i)
  case (Cons x xs)
  show ?case
  proof (cases i)
    case 0
    have "nths xs {j. Suc j \<in> - {0}} = xs" by (rule nths_all) simp
    then show ?thesis using 0 by (simp add: erase_at_def nths_Cons)
  next
    case (Suc k)
    have "{j. Suc j \<in> - {Suc k}} = - {k}" by auto
    then show ?thesis using Suc Cons by (simp add: erase_at_def nths_Cons)
  qed
qed (simp add: erase_at_def)

lemma erase_all_snoc: "erase_all (is @ [i]) xs = erase_all is (erase_at i xs)"
  by (simp add: erase_all_def)

lemma erase_all_Nil [simp]: "erase_all [] xs = xs"
  by (simp add: erase_all_def)

lemma length_erase_at: "i < length xs \<Longrightarrow> length (erase_at i xs) = length xs - 1"
  by (simp add: erase_at_def)

lemma erase_at_nth_below: "j < i \<Longrightarrow> i < length xs \<Longrightarrow> erase_at i xs ! j = xs ! j"
  by (simp add: erase_at_def nth_append)

lemma erase_at_zip:
  "length xs = length ys \<Longrightarrow> erase_at i (zip xs ys) = zip (erase_at i xs) (erase_at i ys)"
  by (simp add: erase_at_def take_zip drop_zip zip_append)

lemma erase_at_map: "erase_at i (map f xs) = map f (erase_at i xs)"
  by (simp add: erase_at_def take_map drop_map)

lemma erase_all_map: "erase_all is (map f xs) = map f (erase_all is xs)"
  by (induction "is" arbitrary: xs rule: rev_induct) (simp_all add: erase_all_snoc erase_at_map)

lemma mset_erase_at: "i < length xs \<Longrightarrow> mset xs = add_mset (xs ! i) (mset (erase_at i xs))"
  using id_take_nth_drop [of i xs] by (metis erase_at_def mset.simps(2) mset_append union_mset_add_mset_right)

lemma mset_erase_all:
  assumes "sorted_wrt (<) is" "\<forall>i\<in>set is. i < length xs"
  shows "mset xs = mset (map ((!) xs) is) + mset (erase_all is xs)"
  using assms
proof (induction "is" arbitrary: xs rule: rev_induct)
  case Nil
  then show ?case by simp
next
  case (snoc i "is")
  have lt: "\<forall>j\<in>set is. j < i" and i: "i < length xs" and s: "sorted_wrt (<) is"
    using snoc.prems by (auto simp: sorted_wrt_append)
  then have "\<forall>j\<in>set is. j < length (erase_at i xs)" by (fastforce simp: length_erase_at)
  from snoc.IH [OF s this]
  have "mset (erase_at i xs) = mset (map ((!) (erase_at i xs)) is) + mset (erase_all is (erase_at i xs))" .
  moreover have "map ((!) (erase_at i xs)) is = map ((!) xs) is"
    using lt i by (intro map_cong) (simp_all add: erase_at_nth_below)
  ultimately show ?case using mset_erase_at [OF i] by (simp add: erase_all_snoc)
qed

lemma erase_all_keeps_front:
  assumes "sorted_wrt (<) is" "\<forall>i\<in>set is. 0 < i \<and> i < length xs" "xs \<noteq> []"
  shows "erase_all is xs \<noteq> [] \<and> erase_all is xs ! 0 = xs ! 0"
  using assms
proof (induction "is" arbitrary: xs rule: rev_induct)
  case Nil
  then show ?case by simp
next
  case (snoc i "is")
  have lt: "\<forall>j\<in>set is. 0 < j \<and> j < i" and i: "0 < i" "i < length xs" and s: "sorted_wrt (<) is"
    using snoc.prems by (auto simp: sorted_wrt_append)
  then have "\<forall>j\<in>set is. 0 < j \<and> j < length (erase_at i xs)" by (fastforce simp: length_erase_at)
  moreover have "erase_at i xs \<noteq> []" using length_erase_at [OF i(2)] i by (cases "erase_at i xs") auto
  ultimately show ?case using snoc.IH [OF s] erase_at_nth_below [OF i] by (simp add: erase_all_snoc)
qed

lemma length_erase_all_cong:
  "length xs = length ys \<Longrightarrow> length (erase_all is xs) = length (erase_all is ys)"
  by (induction "is" arbitrary: xs ys rule: rev_induct) (simp_all add: erase_all_snoc erase_at_def)

lemma set_erase_all: "set (erase_all is xs) \<subseteq> set xs"
proof (induction "is" arbitrary: xs rule: rev_induct)
  case (snoc i "is")
  have "set (erase_at i xs) \<subseteq> set xs"
    using set_take_subset [of i xs] set_drop_subset [of "Suc i" xs] by (auto simp: erase_at_def)
  then show ?case using snoc by (auto simp: erase_all_snoc)
qed simp

lemma erase_all_zip:
  "length xs = length ys \<Longrightarrow> erase_all is (zip xs ys) = zip (erase_all is xs) (erase_all is ys)"
proof (induction "is" arbitrary: xs ys rule: rev_induct)
  case (snoc i "is")
  have "length (erase_at i xs) = length (erase_at i ys)" using snoc.prems by (simp add: erase_at_def)
  then show ?case using snoc by (simp add: erase_all_snoc erase_at_zip)
qed simp


subsection \<open>The invariant\<close>

definition shape_ok :: "event_loop \<Rightarrow> bool" where
  "shape_ok l \<longleftrightarrow> length (waitValues l) = length (semaphores l) \<and> length (callbacks l) = length (semaphores l)
     \<and> semaphores l \<noteq> [] \<and> semaphores l ! 0 = 0 \<and> callbacks l ! 0 = None
     \<and> waitValues l ! 0 = Suc (counters l 0)"

text \<open>A snapshot is still the front of the lists, except for the value of the wakeup entry.\<close>

definition snapshot_ok :: "event_loop \<Rightarrow> nat list \<Rightarrow> nat list \<Rightarrow> bool" where
  "snapshot_ok l ss vs \<longleftrightarrow> length vs = length ss \<and> 0 < length ss \<and> length ss \<le> length (semaphores l)
     \<and> ss ! 0 = 0 \<and> vs ! 0 \<le> waitValues l ! 0
     \<and> (\<forall>j. 0 < j \<longrightarrow> j < length ss \<longrightarrow> ss ! j = semaphores l ! j \<and> vs ! j = waitValues l ! j)"

definition phase_ok :: "event_loop \<Rightarrow> bool" where
  "phase_ok l \<longleftrightarrow>
     (case phase l of
        Waiting ss vs \<Rightarrow> snapshot_ok l ss vs
      | Scanning ss vs i ready \<Rightarrow> snapshot_ok l ss vs \<and> 0 < i \<and> i \<le> length ss \<and> sorted_wrt (<) ready
          \<and> (\<forall>j\<in>set ready. 0 < j \<and> j < i \<and> vs ! j \<le> counters l (ss ! j))
      | _ \<Rightarrow> True)"

text \<open>Every entry but the first is a registration; what is being called or was called is a
  registration whose semaphore has reached its value.\<close>

definition in_calling :: "poll_phase \<Rightarrow> nat option list" where
  "in_calling p = (case p of Calling cs \<Rightarrow> cs | _ \<Rightarrow> [])"

definition listed :: "event_loop \<Rightarrow> nat \<Rightarrow> bool" where
  "listed l j \<longleftrightarrow> (\<exists>c. callbacks l ! j = Some c \<and> (semaphores l ! j, waitValues l ! j, c) \<in> set (registered l))"

definition reached :: "event_loop \<Rightarrow> nat option \<Rightarrow> bool" where
  "reached l oc \<longleftrightarrow> (\<exists>s v c. oc = Some c \<and> (s, v, c) \<in> set (registered l) \<and> v \<le> counters l s)"

definition entries_ok :: "event_loop \<Rightarrow> bool" where
  "entries_ok l \<longleftrightarrow> (\<forall>(s, v, c)\<in>set (registered l). s \<noteq> 0)
     \<and> (\<forall>j. 0 < j \<longrightarrow> j < length (semaphores l) \<longrightarrow> listed l j)
     \<and> (\<forall>oc\<in>set (in_calling (phase l)) \<union> Some ` set (called l). reached l oc)"

lemma reached_mono:
  assumes "reached l oc" "set (registered l) \<subseteq> set (registered l')" "\<And>s. counters l s \<le> counters l' s"
  shows "reached l' oc"
proof -
  obtain s v c where "oc = Some c" "(s, v, c) \<in> set (registered l)" "v \<le> counters l s"
    using assms(1) by (auto simp: reached_def)
  moreover have "v \<le> counters l' s" using \<open>v \<le> counters l s\<close> assms(3) [of s] by (rule order_trans)
  ultimately show ?thesis using assms(2) by (auto simp: reached_def)
qed

definition count_ok :: "event_loop \<Rightarrow> bool" where
  "count_ok l \<longleftrightarrow> mset (map Some (called l)) + mset (in_calling (phase l)) + mset (tl (callbacks l))
     = mset (map (\<lambda>(s, v, c). Some c) (registered l))"

definition sleep_ok :: "event_loop \<Rightarrow> bool" where
  "sleep_ok l \<longleftrightarrow> (loopWaiting l \<longrightarrow> phase l = Sleeping \<and> length (semaphores l) = 1 \<and> \<not> wakePending l)"

definition loop_inv :: "event_loop \<Rightarrow> bool" where
  "loop_inv l \<longleftrightarrow> shape_ok l \<and> phase_ok l \<and> entries_ok l \<and> count_ok l \<and> sleep_ok l"

lemmas loop_inv_defs = loop_inv_def shape_ok_def phase_ok_def entries_ok_def count_ok_def sleep_ok_def in_calling_def

lemma loop_inv_init: "loop_inv init_loop"
  by (simp add: loop_inv_defs init_loop_def)

lemma entries_mono:
  assumes "entries_ok l" "semaphores l' = semaphores l" "callbacks l' = callbacks l"
    "\<And>j. 0 < j \<Longrightarrow> waitValues l' ! j = waitValues l ! j" "registered l' = registered l"
    "\<And>s. counters l s \<le> counters l' s" "phase l' = phase l" "called l' = called l"
  shows "entries_ok l'"
  using assms reached_mono [of l _ l'] by (simp add: entries_ok_def listed_def)

lemma phase_mono:
  assumes ok: "phase_ok l" and p: "phase l' = phase l" and len: "length (semaphores l) \<le> length (semaphores l')"
    and same: "\<And>j. 0 < j \<Longrightarrow> j < length (semaphores l) \<Longrightarrow> semaphores l' ! j = semaphores l ! j"
      "\<And>j. 0 < j \<Longrightarrow> j < length (semaphores l) \<Longrightarrow> waitValues l' ! j = waitValues l ! j"
    and wake: "waitValues l ! 0 \<le> waitValues l' ! 0"
    and le: "\<And>s. counters l s \<le> counters l' s"
  shows "phase_ok l'"
proof -
  have snap: "snapshot_ok l ss vs \<Longrightarrow> snapshot_ok l' ss vs" for ss vs
    using len same wake by (simp add: snapshot_ok_def)
  show ?thesis
  proof (cases "phase l")
    case (Scanning ss vs i ready)
    then have "\<forall>j\<in>set ready. 0 < j \<and> j < i \<and> vs ! j \<le> counters l (ss ! j)"
      using ok by (simp add: phase_ok_def)
    then have "\<forall>j\<in>set ready. 0 < j \<and> j < i \<and> vs ! j \<le> counters l' (ss ! j)"
      using le order_trans by blast
    then show ?thesis using ok p snap Scanning by (simp add: phase_ok_def)
  qed (use ok p snap in \<open>simp_all add: phase_ok_def\<close>)
qed

lemma loop_invI: "shape_ok l \<Longrightarrow> phase_ok l \<Longrightarrow> entries_ok l \<Longrightarrow> count_ok l \<Longrightarrow> sleep_ok l \<Longrightarrow> loop_inv l"
  by (simp add: loop_inv_def)

lemma loop_invD:
  assumes "loop_inv l"
  shows "shape_ok l" "phase_ok l" "entries_ok l" "count_ok l" "sleep_ok l"
  using assms by (simp_all add: loop_inv_def)

lemma register_inv:
  assumes inv: "loop_inv l" and s: "s \<noteq> 0"
  shows "loop_inv (waitForSemaphore s v c l)" (is "loop_inv ?l")
proof (rule loop_invI)
  note I = loop_invD [OF inv]
  have len: "length (waitValues l) = length (semaphores l)" "length (callbacks l) = length (semaphores l)"
    using I(1) by (simp_all add: shape_ok_def)
  show "shape_ok ?l" using I(1) by (auto simp: shape_ok_def waitForSemaphore_def nth_append)
  show "phase_ok ?l" using len I(1) unfolding shape_ok_def
    by (intro phase_mono [OF I(2)]) (simp_all add: waitForSemaphore_def nth_append)
  have "listed ?l j" if "0 < j" "j < length (semaphores ?l)" for j
  proof (cases "j < length (semaphores l)")
    case True
    then have "listed l j" using I(3) that(1) by (simp add: entries_ok_def)
    then show ?thesis using True len by (auto simp: listed_def waitForSemaphore_def nth_append)
  next
    case False
    then have "j = length (semaphores l)" using that(2) by (simp add: waitForSemaphore_def)
    then show ?thesis using len by (simp add: listed_def waitForSemaphore_def nth_append)
  qed
  moreover have "reached ?l oc" if "reached l oc" for oc
    using that by (rule reached_mono) (auto simp: waitForSemaphore_def)
  ultimately show "entries_ok ?l" using I(3) s by (auto simp: entries_ok_def waitForSemaphore_def)
  have "callbacks l \<noteq> []" using I(1) by (auto simp: shape_ok_def)
  then show "count_ok ?l" using I(4) by (simp add: count_ok_def waitForSemaphore_def)
  show "sleep_ok ?l" by (simp add: sleep_ok_def waitForSemaphore_def)
qed

lemma counters_inv:
  assumes inv: "loop_inv l" and s: "s \<noteq> 0" "counters l s \<le> v"
  shows "loop_inv (l\<lparr>counters := (counters l)(s := v)\<rparr>)" (is "loop_inv ?l")
proof (rule loop_invI)
  note I = loop_invD [OF inv]
  have le: "counters l t \<le> counters ?l t" for t using s by simp
  show "shape_ok ?l" using I(1) s by (simp add: shape_ok_def)
  show "phase_ok ?l" by (rule phase_mono [OF I(2)]) (use le in simp_all)
  show "entries_ok ?l" by (rule entries_mono [OF I(3)]) (use le in simp_all)
  show "count_ok ?l" "sleep_ok ?l" using I(4,5) by (simp_all add: count_ok_def sleep_ok_def)
qed

lemma wakeup_inv:
  assumes inv: "loop_inv l"
  shows "loop_inv (snd (wakeupEventLoop l))" (is "loop_inv ?l")
proof -
  note I = loop_invD [OF inv]
  show ?thesis
  proof (cases "loopWaiting l")
    case True
    then have l: "?l = l\<lparr>wakePending := True, loopWaiting := False\<rparr>" by (simp add: wakeupEventLoop_def)
    show ?thesis unfolding l
    proof (rule loop_invI)
      show "shape_ok (l\<lparr>wakePending := True, loopWaiting := False\<rparr>)" using I(1) by (simp add: shape_ok_def)
      show "phase_ok (l\<lparr>wakePending := True, loopWaiting := False\<rparr>)" by (rule phase_mono [OF I(2)]) simp_all
      show "entries_ok (l\<lparr>wakePending := True, loopWaiting := False\<rparr>)" by (rule entries_mono [OF I(3)]) simp_all
    qed (use I(4) in \<open>simp_all add: count_ok_def sleep_ok_def\<close>)
  next
    case False
    have zero: "semaphores l ! 0 = 0" using I(1) by (simp add: shape_ok_def)
    have l: "?l = l\<lparr>wakePending := True, waitValues := (waitValues l)[0 := Suc (waitValues l ! 0)],
           counters := (counters l)(0 := waitValues l ! 0)\<rparr>" (is "_ = ?m")
      using False zero by (simp add: wakeupEventLoop_def Let_def)
    have le: "counters l t \<le> counters ?m t" for t using I(1) by (simp add: shape_ok_def)
    show ?thesis unfolding l
    proof (rule loop_invI)
      show "shape_ok ?m" using I(1) by (auto simp: shape_ok_def)
      have "waitValues l \<noteq> []" using I(1) by (auto simp: shape_ok_def)
      then show "phase_ok ?m" by (intro phase_mono [OF I(2)]) (use le in simp_all)
      show "entries_ok ?m" by (rule entries_mono [OF I(3)]) (use le in simp_all)
    qed (use I(4) False in \<open>simp_all add: count_ok_def sleep_ok_def\<close>)
  qed
qed


text \<open>The poller's steps that change its phase only.\<close>

lemma phase_change:
  assumes inv: "loop_inv l" and l': "l' = l\<lparr>loopWaiting := w, wakePending := p, phase := ph\<rparr>"
    and ph: "phase_ok l'" and none: "in_calling ph = []" "in_calling (phase l) = []"
    and sleep: "w \<Longrightarrow> ph = Sleeping \<and> length (semaphores l) = 1 \<and> \<not> p"
  shows "loop_inv l'"
proof (rule loop_invI)
  note I = loop_invD [OF inv]
  show "shape_ok l'" using I(1) by (simp add: l' shape_ok_def)
  have "reached l' oc" if "reached l oc" for oc using that by (simp add: reached_def l')
  then show "entries_ok l'" using I(3) none by (auto simp: entries_ok_def listed_def l')
  show "count_ok l'" using I(4) none by (simp add: count_ok_def l')
  show "sleep_ok l'" using sleep by (simp add: sleep_ok_def l')
  show "phase_ok l'" by (rule ph)
qed

lemma poll_begin_inv:
  assumes inv: "loop_inv l" and out: "phase l = Outside"
  shows "loop_inv (poll_begin l)"
proof -
  note I = loop_invD [OF inv]
  have nw: "\<not> loopWaiting l" using I(5) out by (auto simp: sleep_ok_def)
  have none: "in_calling (phase l) = []" by (simp add: out in_calling_def)
  show ?thesis
  proof (cases "wakePending l")
    case True
    then have "poll_begin l = l\<lparr>loopWaiting := False, wakePending := False, phase := Outside\<rparr>"
      using nw out by (simp add: poll_begin_def)
    then show ?thesis by (rule phase_change [OF inv]) (use none in \<open>simp_all add: phase_ok_def in_calling_def poll_begin_def True out\<close>)
  next
    case False
    note awake = False
    show ?thesis
    proof (cases "length (semaphores l) = 1")
      case True
      then have "poll_begin l = l\<lparr>loopWaiting := True, wakePending := False, phase := Sleeping\<rparr>"
        using awake by (simp add: poll_begin_def)
      then show ?thesis by (rule phase_change [OF inv])
          (use none True awake in \<open>simp_all add: phase_ok_def in_calling_def poll_begin_def\<close>)
    next
      case False
      then have p: "poll_begin l = l\<lparr>loopWaiting := False, wakePending := False, phase := Waiting (semaphores l) (waitValues l)\<rparr>"
        using awake nw by (simp add: poll_begin_def)
      have "phase_ok (poll_begin l)" using I(1) by (simp add: p phase_ok_def snapshot_ok_def shape_ok_def)
      then show ?thesis by (rule phase_change [OF inv p]) (use none in \<open>simp_all add: in_calling_def\<close>)
    qed
  qed
qed

lemma sleep_end_inv:
  assumes "loop_inv l" "phase l = Sleeping"
  shows "loop_inv (sleep_end l)"
  by (rule phase_change [OF assms(1) sleep_end_def]) (use assms(2) in \<open>simp_all add: phase_ok_def in_calling_def sleep_end_def\<close>)

lemma set_phase_inv:
  assumes inv: "loop_inv l" and ph: "phase_ok (l\<lparr>phase := ph\<rparr>)"
    and none: "in_calling ph = []" "in_calling (phase l) = []" "phase l \<noteq> Sleeping"
  shows "loop_inv (l\<lparr>phase := ph\<rparr>)"
proof -
  have "\<not> loopWaiting l" using loop_invD(5) [OF inv] none by (auto simp: sleep_ok_def)
  then have "l\<lparr>phase := ph\<rparr> = l\<lparr>loopWaiting := False, wakePending := wakePending l, phase := ph\<rparr>" by simp
  then show ?thesis by (rule phase_change [OF inv]) (use ph none in simp_all)
qed

lemma scan_entry_inv:
  assumes inv: "loop_inv l" and ph: "phase l = Scanning ss vs i ready" and i: "i < length ss"
  shows "loop_inv (scan_entry l)"
proof -
  note P = loop_invD(2) [OF inv]
  have "snapshot_ok l ss vs" "0 < i" "sorted_wrt (<) ready" "\<forall>j\<in>set ready. 0 < j \<and> j < i \<and> vs ! j \<le> counters l (ss ! j)"
    using P by (simp_all add: ph phase_ok_def)
  then have "phase_ok (scan_entry l)" using i
    by (auto simp: scan_entry_def ph phase_ok_def snapshot_ok_def sorted_wrt_append less_Suc_eq)
  then show ?thesis using set_phase_inv [OF inv] by (simp add: scan_entry_def ph in_calling_def)
qed

lemma mset_tl_erase_all:
  assumes "sorted_wrt (<) is" "\<forall>i\<in>set is. 0 < i \<and> i < length xs" "xs \<noteq> []"
  shows "mset (tl xs) = mset (map ((!) xs) is) + mset (tl (erase_all is xs))"
proof -
  have "mset xs = mset (map ((!) xs) is) + mset (erase_all is xs)"
    using assms by (intro mset_erase_all) simp_all
  moreover obtain y ys where "erase_all is xs = y # ys" "y = xs ! 0"
    using erase_all_keeps_front [OF assms] by (metis list.exhaust nth_Cons_0)
  moreover obtain z zs where "xs = z # zs" using assms(3) by (cases xs) simp_all
  ultimately show ?thesis by simp
qed

lemma take_ready_inv:
  assumes inv: "loop_inv l" and ph: "phase l = Scanning ss vs i ready" and i: "i = length ss"
  shows "loop_inv (take_ready l)" (is "loop_inv ?l")
proof (rule loop_invI)
  note I = loop_invD [OF inv]
  have len: "length (waitValues l) = length (semaphores l)" "length (callbacks l) = length (semaphores l)"
    and ne: "semaphores l \<noteq> []" using I(1) by (simp_all add: shape_ok_def)
  have snap: "snapshot_ok l ss vs" and srt: "sorted_wrt (<) ready"
    and r: "\<forall>j\<in>set ready. 0 < j \<and> j < i \<and> vs ! j \<le> counters l (ss ! j)"
    using I(2) by (simp_all add: ph phase_ok_def)
  then have rl: "\<forall>j\<in>set ready. 0 < j \<and> j < length (semaphores l)" using i by (fastforce simp: snapshot_ok_def)
  have l': "?l = l\<lparr>semaphores := erase_all ready (semaphores l), waitValues := erase_all ready (waitValues l),
        callbacks := erase_all ready (callbacks l), phase := Calling (map (\<lambda>j. callbacks l ! j) ready)\<rparr>"
    by (simp add: take_ready_def ph)
  have cne: "callbacks l \<noteq> []" "waitValues l \<noteq> []" using len ne by auto
  have front: "erase_all ready (semaphores l) \<noteq> []" "erase_all ready (semaphores l) ! 0 = semaphores l ! 0"
    "erase_all ready (waitValues l) ! 0 = waitValues l ! 0" "erase_all ready (callbacks l) ! 0 = callbacks l ! 0"
    using erase_all_keeps_front [OF srt rl ne] erase_all_keeps_front [OF srt rl [folded len(1)] cne(2)]
      erase_all_keeps_front [OF srt rl [folded len(2)] cne(1)] by blast+
  have lens: "length (erase_all ready (waitValues l)) = length (erase_all ready (semaphores l))"
    "length (erase_all ready (callbacks l)) = length (erase_all ready (semaphores l))"
    by (rule length_erase_all_cong [OF len(1)], rule length_erase_all_cong [OF len(2)])
  show "shape_ok ?l" using I(1) front lens by (simp add: l' shape_ok_def)
  show "phase_ok ?l" by (simp add: l' phase_ok_def)
  show "sleep_ok ?l" using I(5) ph by (simp add: l' sleep_ok_def)
  have "mset (tl (callbacks l)) = mset (map ((!) (callbacks l)) ready) + mset (tl (erase_all ready (callbacks l)))"
    using mset_tl_erase_all [OF srt _ cne(1)] rl len by simp
  then show "count_ok ?l" using I(4) by (simp add: count_ok_def l' in_calling_def ph add.assoc)
  let ?z = "zip (semaphores l) (zip (waitValues l) (callbacks l))"
  have zl: "length ?z = length (semaphores l)" using len by simp
  have "?z \<noteq> []" using zl ne by (metis length_0_conv)
  then have "mset (tl ?z) = mset (map ((!) ?z) ready) + mset (tl (erase_all ready ?z))"
    using rl zl by (intro mset_tl_erase_all [OF srt]) simp_all
  then have sub: "set (tl (erase_all ready ?z)) \<subseteq> set (tl ?z)"
    by (metis mset_subset_eq_add_right set_mset_mono set_mset_mset)
  have "listed ?l j" if "0 < j" "j < length (semaphores ?l)" for j
  proof -
    have z': "erase_all ready ?z = zip (semaphores ?l) (zip (waitValues ?l) (callbacks ?l))"
      using len by (simp add: erase_all_zip l')
    have "(semaphores ?l ! j, waitValues ?l ! j, callbacks ?l ! j) \<in> set (tl (erase_all ready ?z))"
      using that lens unfolding z' in_set_conv_nth
      by (intro exI [of _ "j - 1"]) (simp add: l' nth_tl)
    then have "(semaphores ?l ! j, waitValues ?l ! j, callbacks ?l ! j) \<in> set (tl ?z)"
      using sub by blast
    then obtain k where k: "k < length (tl ?z)" "tl ?z ! k = (semaphores ?l ! j, waitValues ?l ! j, callbacks ?l ! j)"
      unfolding in_set_conv_nth by blast
    then have "listed l (Suc k)" using I(3) zl by (simp add: entries_ok_def)
    moreover have "?z ! Suc k = (semaphores ?l ! j, waitValues ?l ! j, callbacks ?l ! j)"
      using k by (simp add: nth_tl)
    then have "semaphores l ! Suc k = semaphores ?l ! j \<and> waitValues l ! Suc k = waitValues ?l ! j
        \<and> callbacks l ! Suc k = callbacks ?l ! j"
      using k(1) len by simp
    ultimately show ?thesis by (simp add: listed_def l')
  qed
  moreover have "reached ?l (callbacks l ! j)" if j: "j \<in> set ready" for j
  proof -
    have "listed l j" using I(3) rl j by (simp add: entries_ok_def)
    moreover have "ss ! j = semaphores l ! j \<and> vs ! j = waitValues l ! j"
      using snap r j i by (simp add: snapshot_ok_def)
    moreover have "vs ! j \<le> counters l (ss ! j)" using r j by blast
    ultimately have "reached l (callbacks l ! j)" unfolding listed_def reached_def by metis
    then show ?thesis by (simp add: reached_def l')
  qed
  moreover have "reached ?l oc" if "reached l oc" for oc using that by (simp add: reached_def l')
  ultimately show "entries_ok ?l" using I(3) by (auto simp: entries_ok_def in_calling_def l')
qed

lemma call_next_inv:
  assumes inv: "loop_inv l" and ph: "phase l = Calling cs"
  shows "loop_inv (call_next l)"
proof (rule loop_invI)
  note I = loop_invD [OF inv]
  have nw: "\<not> loopWaiting l" using I(5) ph by (auto simp: sleep_ok_def)
  have r: "\<forall>oc\<in>set cs \<union> Some ` set (called l). reached l oc" using I(3) ph by (simp add: entries_ok_def in_calling_def)
  then have some: "\<exists>c. oc = Some c" if "oc \<in> set cs" for oc using that by (auto simp: reached_def)
  have mono: "reached l' oc" if "reached l oc" "registered l' = registered l" "counters l' = counters l" for l' oc
    using that by (simp add: reached_def)
  let ?l = "call_next l"
  show "shape_ok ?l" "phase_ok ?l" "sleep_ok ?l" using I(1) nw
    by (auto simp: call_next_def ph shape_ok_def phase_ok_def sleep_ok_def split: list.splits option.splits)
  show "count_ok ?l" using I(4) some
    by (cases cs; cases "hd cs") (auto simp: call_next_def ph count_ok_def in_calling_def)
  have "\<forall>oc\<in>set (in_calling (phase ?l)) \<union> Some ` set (called ?l). oc \<in> set cs \<union> Some ` set (called l)"
    by (cases cs; cases "hd cs") (auto simp: call_next_def ph in_calling_def)
  moreover have "registered ?l = registered l" "counters ?l = counters l" "semaphores ?l = semaphores l"
    "waitValues ?l = waitValues l" "callbacks ?l = callbacks l"
    by (simp_all add: call_next_def ph split: list.splits option.splits)
  ultimately show "entries_ok ?l" using I(3) r mono [of _ ?l] by (simp add: entries_ok_def listed_def)
qed

lemma loop_step_inv: "loop_step l l' \<Longrightarrow> loop_inv l \<Longrightarrow> loop_inv l'"
proof (induction rule: loop_step.induct)
  case (timeout l ss vs)
  then show ?case by (intro set_phase_inv) (simp_all add: in_calling_def phase_ok_def)
next
  case (signalled l ss vs)
  then have "phase_ok (l\<lparr>phase := Scanning ss vs 1 []\<rparr>)"
    using loop_invD(2) [of l] by (auto simp: phase_ok_def snapshot_ok_def)
  then show ?case using signalled by (intro set_phase_inv) (simp_all add: in_calling_def)
qed (simp_all add: register_inv wakeup_inv counters_inv poll_begin_inv sleep_end_inv scan_entry_inv take_ready_inv call_next_inv)

lemma loop_reachable_inv: "loop_reachable l \<Longrightarrow> loop_inv l"
  by (induction rule: loop_reachable.induct) (auto simp: loop_inv_init intro: loop_step_inv)


subsection \<open>Properties\<close>

text \<open>A concrete run: one wait is registered, the GPU signals it, the poller calls it.\<close>

definition wit_waiting :: event_loop where
  "wit_waiting = poll_begin (waitForSemaphore 5 3 42 init_loop)"

definition wit_called :: event_loop where
  "wit_called = call_next (take_ready (scan_entry ((wit_waiting\<lparr>counters := (counters wit_waiting)(5 := 3)\<rparr>)
     \<lparr>phase := Scanning [0, 5] [1, 3] 1 []\<rparr>)))"

lemma wit_waiting_reach: "loop_reachable wit_waiting"
proof -
  have "loop_reachable (waitForSemaphore 5 3 42 init_loop)"
    by (rule loop_next [OF loop_init register]) simp
  then show ?thesis
    unfolding wit_waiting_def by (rule loop_next [OF _ poll]) (simp add: waitForSemaphore_def init_loop_def)
qed

lemma wit_called_reach: "loop_reachable wit_called"
proof -
  let ?l1 = "wit_waiting\<lparr>counters := (counters wit_waiting)(5 := 3)\<rparr>"
  let ?l2 = "?l1\<lparr>phase := Scanning [0, 5] [1, 3] 1 []\<rparr>"
  note simps = wit_waiting_def waitForSemaphore_def init_loop_def poll_begin_def scan_entry_def take_ready_def
  have "loop_reachable ?l1" by (rule loop_next [OF wit_waiting_reach gpu]) (simp_all add: simps)
  then have "loop_reachable ?l2"
    by (rule loop_next [OF _ signalled [where ss = "[0, 5]" and vs = "[1, 3]"]])
      (auto simp: simps intro: exI [of _ "Suc 0"])
  then have "loop_reachable (scan_entry ?l2)" by (rule loop_next [OF _ scan]) (simp, simp)
  then have "loop_reachable (take_ready (scan_entry ?l2))"
    by (rule loop_next [OF _ scanned]) (simp add: simps, simp)
  then show ?thesis unfolding wit_called_def by (rule loop_next [OF _ call]) (simp add: simps)
qed

lemma wit_called_simps: "called wit_called = [42]" "registered wit_called = [(5, 3, 42)]" "callbacks wit_called = [None]"
  "phase wit_called = Calling []" "counters wit_called 5 = 3"
  by (simp_all add: wit_called_def wit_waiting_def waitForSemaphore_def init_loop_def poll_begin_def
      scan_entry_def take_ready_def call_next_def erase_all_def erase_at_def)

text \<open>
  C8: however registrations, wakeups, the GPU and the polling thread interleave, every registered
  callback is exactly once either called, about to be called, or still waiting: none is lost and
  none is called twice.
\<close>

theorem callbacks_exactly_once:
  assumes "loop_reachable l"
  shows "mset (map Some (called l)) + mset (in_calling (phase l)) + mset (tl (callbacks l))
     = mset (map (\<lambda>(s, v, c). Some c) (registered l))"
  using loop_invD(4) [OF loop_reachable_inv [OF assms]] by (simp add: count_ok_def)

theorem callbacks_exactly_once_witness: "mset (map Some (called wit_called)) = {#Some 42#}"
  using callbacks_exactly_once [OF wit_called_reach] by (simp add: wit_called_simps in_calling_def)

text \<open>
  a callback that was called had been registered for a semaphore that has reached the value
  it was registered with.
\<close>

theorem callbacks_after_signal:
  assumes "loop_reachable l" "c \<in> set (called l)"
  shows "\<exists>s v. (s, v, c) \<in> set (registered l) \<and> v \<le> counters l s"
proof -
  have "reached l (Some c)"
    using loop_invD(3) [OF loop_reachable_inv [OF assms(1)]] assms(2) by (simp add: entries_ok_def)
  then show ?thesis by (auto simp: reached_def)
qed

theorem callbacks_after_signal_witness: "\<exists>s v. (s, v, 42) \<in> set (registered wit_called) \<and> v \<le> counters wit_called s"
  by (rule callbacks_after_signal [OF wit_called_reach]) (simp add: wit_called_simps)

text \<open>
  C9: no wakeup is lost: after \<open>wakeupEventLoop\<close> a sleeping poller is no longer waiting, and a
  poller blocked in \<open>vkWaitSemaphores\<close> has a signalled entry in its snapshot; and while a poller
  does sleep, no GPU wait is registered and no wakeup is pending. The value signalled is always
  greater than the semaphore's current one, as Vulkan requires.
\<close>

theorem no_lost_wakeup:
  assumes "loop_reachable l" "wakeupEventLoop l = (sig, l')"
  shows "\<not> loopWaiting l' \<and> (\<forall>ss vs. phase l' = Waiting ss vs \<longrightarrow> vs ! 0 \<le> counters l' (ss ! 0))
    \<and> (loopWaiting l \<longrightarrow> length (semaphores l) = 1 \<and> \<not> wakePending l)
    \<and> (\<forall>v. sig = Some v \<longrightarrow> counters l 0 < v)"
proof -
  have inv: "loop_inv l" by (rule loop_reachable_inv [OF assms(1)])
  note I = loop_invD [OF inv]
  have "phase l' = phase l" "\<not> loopWaiting l'" using assms(2) by (auto simp: wakeupEventLoop_def Let_def split: if_splits)
  moreover have "vs ! 0 \<le> counters l' (ss ! 0)" if ph: "phase l = Waiting ss vs" for ss vs
  proof -
    have "\<not> loopWaiting l" using I(5) ph by (auto simp: sleep_ok_def)
    then have "counters l' (semaphores l ! 0) = waitValues l ! 0"
      using assms(2) by (auto simp: wakeupEventLoop_def Let_def)
    then show ?thesis using I(1,2) ph by (simp add: phase_ok_def snapshot_ok_def shape_ok_def)
  qed
  moreover have "counters l 0 < v" if "sig = Some v" for v
    using that assms(2) I(1) by (auto simp: wakeupEventLoop_def Let_def shape_ok_def split: if_splits)
  ultimately show ?thesis using I(5) by (simp add: sleep_ok_def)
qed

theorem no_lost_wakeup_witness:
  "phase (snd (wakeupEventLoop wit_waiting)) = Waiting [0, 5] [1, 3] \<and> 1 \<le> counters (snd (wakeupEventLoop wit_waiting)) 0"
proof -
  have ph: "phase (snd (wakeupEventLoop wit_waiting)) = Waiting [0, 5] [1, 3]"
    by (simp add: wit_waiting_def wakeupEventLoop_def poll_begin_def waitForSemaphore_def init_loop_def Let_def)
  then show ?thesis using no_lost_wakeup [OF wit_waiting_reach surjective_pairing] by fastforce
qed

lemma subseq_nth:
  assumes "sorted_wrt (<) is" "\<forall>i\<in>set is. i < length xs"
  shows "subseq (map ((!) xs) is) xs"
  using assms
proof (induction "is" arbitrary: xs rule: rev_induct)
  case (snoc i "is")
  have lt: "\<forall>j\<in>set is. j < i" and i: "i < length xs" and s: "sorted_wrt (<) is"
    using snoc.prems by (auto simp: sorted_wrt_append)
  have "subseq (map ((!) (take i xs)) is) (take i xs)" using snoc.IH [OF s] lt i by simp
  moreover have "map ((!) (take i xs)) is = map ((!) xs) is" using lt by simp
  moreover have "subseq [xs ! i] (drop i xs)" using i by (simp add: Cons_nth_drop_Suc [symmetric])
  ultimately have "subseq (map ((!) xs) is @ [xs ! i]) (take i xs @ drop i xs)"
    by (simp only: list_emb_append_mono)
  then show ?case by simp
qed simp

text \<open>
  The callbacks of one poll are called in the order in which their waits were registered.
\<close>

theorem callbacks_in_order:
  assumes "loop_reachable l" "phase l = Scanning ss vs (length ss) ready" "phase (take_ready l) = Calling cs"
  shows "subseq cs (callbacks l)"
proof -
  note I = loop_invD [OF loop_reachable_inv [OF assms(1)]]
  have "sorted_wrt (<) ready" "\<forall>j\<in>set ready. j < length (callbacks l)"
    using I(1,2) assms(2) by (auto simp: phase_ok_def snapshot_ok_def shape_ok_def)
  then have "subseq (map ((!) (callbacks l)) ready) (callbacks l)" by (rule subseq_nth)
  then show ?thesis using assms(2,3) by (simp add: take_ready_def)
qed

theorem callbacks_in_order_witness: "subseq [Some 42] [None, Some 42 :: nat option]"
proof -
  let ?l1 = "wit_waiting\<lparr>counters := (counters wit_waiting)(5 := 3)\<rparr>"
  let ?l2 = "?l1\<lparr>phase := Scanning [0, 5] [1, 3] 1 []\<rparr>"
  note simps = wit_waiting_def waitForSemaphore_def init_loop_def poll_begin_def scan_entry_def take_ready_def
  have "loop_reachable ?l1" by (rule loop_next [OF wit_waiting_reach gpu]) (simp_all add: simps)
  then have "loop_reachable ?l2"
    by (rule loop_next [OF _ signalled [where ss = "[0, 5]" and vs = "[1, 3]"]])
      (auto simp: simps intro: exI [of _ "Suc 0"])
  then have "loop_reachable (scan_entry ?l2)" by (rule loop_next [OF _ scan]) (simp, simp)
  from callbacks_in_order [OF this] show ?thesis by (simp add: simps)
qed

end
