(* ===== verification/HandlePools.thy ===== *)
theory HandlePools
  imports Prelude
begin

section \<open>Recycled driver handles\<close>

text \<open>
  The device keeps idle driver handles for reuse: command pools (\<open>recycledCommands\<close>), timeline
  semaphores with the value they have reached (\<open>recycledCompletionSemaphores\<close>) and timestamp
  query pools (\<open>timestampPools\<close>), in \<open>native/renderer/device.cpp\<close>, \<open>command-buffer.cpp\<close> and
  \<open>indium/gpu-timing.hpp\<close>. The locale \<open>recycler\<close> states what their users rely on, and its
  lemmas that a handle never has two owners and that a cache stays bounded; it is interpreted on
  the three caches.
\<close>

subsection \<open>Exclusive ownership\<close>

text \<open>The idle handles and the handles of the owners are pairwise different.\<close>

definition exclusive :: "('e \<Rightarrow> nat) \<Rightarrow> 'e list \<Rightarrow> ('c \<Rightarrow> 'e option) \<Rightarrow> bool" where
  "exclusive key idle owner \<longleftrightarrow> distinct (map key idle)
     \<and> (\<forall>c e. owner c = Some e \<longrightarrow> key e \<notin> key ` set idle)
     \<and> (\<forall>c c' e e'. owner c = Some e \<and> owner c' = Some e' \<and> key e = key e' \<longrightarrow> c = c')"

definition unowned :: "('e \<Rightarrow> nat) \<Rightarrow> 'e list \<Rightarrow> ('c \<Rightarrow> 'e option) \<Rightarrow> nat \<Rightarrow> bool" where
  "unowned key idle owner h \<longleftrightarrow> h \<notin> key ` set idle \<and> (\<forall>c e. owner c = Some e \<longrightarrow> key e \<noteq> h)"

lemma exclusiveD:
  assumes "exclusive key idle owner"
  shows "distinct (map key idle)" and "\<And>c e. owner c = Some e \<Longrightarrow> key e \<notin> key ` set idle"
    and "\<And>c c' e e'. owner c = Some e \<Longrightarrow> owner c' = Some e' \<Longrightarrow> key e = key e' \<Longrightarrow> c = c'"
  using assms unfolding exclusive_def by blast+

lemma exclusive_take:
  assumes ex: "exclusive key (xs @ [e]) owner" and c: "owner c = None"
  shows "exclusive key xs (owner(c \<mapsto> e))"
proof -
  note E = exclusiveD [OF ex]
  have new: "key e \<notin> key ` set xs" "distinct (map key xs)" using E(1) by auto
  have none: "owner c' = Some e' \<Longrightarrow> key e' \<noteq> key e" for c' e' using E(2) [of c' e'] by auto
  show ?thesis unfolding exclusive_def
  proof (intro conjI allI impI)
    show "distinct (map key xs)" by (rule new)
    show "key e' \<notin> key ` set xs" if "(owner(c \<mapsto> e)) c' = Some e'" for c' e'
      using that new E(2) [of c' e'] by (cases "c' = c") auto
    show "a = b" if "(owner(c \<mapsto> e)) a = Some x \<and> (owner(c \<mapsto> e)) b = Some y \<and> key x = key y" for a b x y
      using that none E(3) [of a x b y] by (cases "a = c"; cases "b = c") auto
  qed
qed

lemma exclusive_fresh:
  assumes ex: "exclusive key idle owner" and f: "unowned key idle owner (key e)"
  shows "exclusive key idle (owner(c \<mapsto> e))"
proof -
  note E = exclusiveD [OF ex]
  have f': "key e \<notin> key ` set idle" "\<And>c e'. owner c = Some e' \<Longrightarrow> key e' \<noteq> key e"
    using f by (auto simp: unowned_def)
  show ?thesis unfolding exclusive_def
  proof (intro conjI allI impI)
    show "distinct (map key idle)" by (rule E)
    show "key e' \<notin> key ` set idle" if "(owner(c \<mapsto> e)) c' = Some e'" for c' e'
      using that f' E(2) [of c' e'] by (cases "c' = c") auto
    show "a = b" if "(owner(c \<mapsto> e)) a = Some x \<and> (owner(c \<mapsto> e)) b = Some y \<and> key x = key y" for a b x y
      using that f'(2) [of a x] f'(2) [of b y] E(3) [of a x b y] by (cases "a = c"; cases "b = c") auto
  qed
qed

lemma exclusive_drop:
  assumes ex: "exclusive key idle owner"
  shows "exclusive key idle (owner(c := None))"
  using ex unfolding exclusive_def by (auto split: if_splits)

lemma exclusive_give:
  assumes ex: "exclusive key idle owner" and c: "owner c = Some e"
  shows "exclusive key (idle @ [e]) (owner(c := None))"
proof -
  note E = exclusiveD [OF ex]
  show ?thesis unfolding exclusive_def
  proof (intro conjI allI impI)
    show "distinct (map key (idle @ [e]))" using E(1,2) c by auto
    show "key x \<notin> key ` set (idle @ [e])" if "(owner(c := None)) a = Some x" for a x
      using that E(2) [of a x] E(3) [of a x c e] c by (cases "a = c") auto
    show "a = b" if "(owner(c := None)) a = Some x \<and> (owner(c := None)) b = Some y \<and> key x = key y" for a b x y
      using that E(3) [of a x b y] by (cases "a = c"; cases "b = c") auto
  qed
qed

lemma unowned_mono:
  "unowned key idle owner h \<Longrightarrow> set idle' \<subseteq> set idle \<Longrightarrow> (\<And>c e. owner' c = Some e \<Longrightarrow> owner c = Some e)
    \<Longrightarrow> unowned key idle' owner' h"
  unfolding unowned_def by blast

text \<open>A cache of at most \<open>cap\<close> idle handles, with all handles below \<open>n\<close>.\<close>

definition cache_ok :: "('e \<Rightarrow> nat) \<Rightarrow> nat \<Rightarrow> nat \<Rightarrow> 'e list \<Rightarrow> ('c \<Rightarrow> 'e option) \<Rightarrow> bool" where
  "cache_ok key cap n idle owner \<longleftrightarrow> exclusive key idle owner \<and> length idle \<le> cap
     \<and> (\<forall>e\<in>set idle. key e < n) \<and> (\<forall>c e. owner c = Some e \<longrightarrow> key e < n)"

lemma cache_ok_exclusive: "cache_ok key cap n idle owner \<Longrightarrow> exclusive key idle owner"
  by (simp add: cache_ok_def)

lemma cache_ok_mono: "cache_ok key cap n idle owner \<Longrightarrow> n \<le> m \<Longrightarrow> cache_ok key cap m idle owner"
  unfolding cache_ok_def by (blast intro: less_le_trans)

lemma cache_ok_drop: "cache_ok key cap n idle owner \<Longrightarrow> cache_ok key cap n idle (owner(c := None))"
  unfolding cache_ok_def by (simp add: exclusive_drop)

lemma cache_ok_unowned: "cache_ok key cap n idle owner \<Longrightarrow> n \<le> h \<Longrightarrow> unowned key idle owner h"
  unfolding cache_ok_def unowned_def by (blast dest: leD)

text \<open>Two owners of one handle are one owner.\<close>

lemma cache_ok_rekey:
  assumes ok: "cache_ok key cap n idle owner" and c: "owner c = Some e" and k: "key e' = key e"
  shows "cache_ok key cap n idle (owner(c \<mapsto> e'))"
proof -
  note E = exclusiveD [OF cache_ok_exclusive [OF ok]]
  have "exclusive key idle (owner(c \<mapsto> e'))" unfolding exclusive_def
  proof (intro conjI allI impI)
    show "distinct (map key idle)" by (rule E)
    show "key x \<notin> key ` set idle" if "(owner(c \<mapsto> e')) a = Some x" for a x
      using that E(2) [of a x] E(2) [OF c] k by (cases "a = c") auto
    show "a = b" if "(owner(c \<mapsto> e')) a = Some x \<and> (owner(c \<mapsto> e')) b = Some y \<and> key x = key y" for a b x y
    proof (cases "a = c \<or> b = c")
      case True
      have "a = c" if "owner a = Some x" "key x = key e" for a x by (rule E(3) [OF that(1) c that(2)])
      then show ?thesis using that True k by (auto split: if_splits)
    next
      case False
      then show ?thesis using that E(3) [of a x b y] by simp
    qed
  qed
  moreover have "key e' < n" using ok c k by (simp add: cache_ok_def)
  ultimately show ?thesis using ok by (auto simp: cache_ok_def)
qed

subsection \<open>The interface of a bounded cache\<close>

locale recycler =
  fixes key :: "'e \<Rightarrow> nat"
    and cap :: nat
    and idle :: "'s \<Rightarrow> 'e list"
    and acquire :: "'e \<Rightarrow> 's \<Rightarrow> 'e \<times> 's"
    and recycle :: "'e \<Rightarrow> 's \<Rightarrow> 's"
  assumes acquire_idle: "idle s = xs @ [e] \<Longrightarrow> fst (acquire f s) = e \<and> idle (snd (acquire f s)) = xs"
    and acquire_empty: "idle s = [] \<Longrightarrow> fst (acquire f s) = f \<and> idle (snd (acquire f s)) = []"
    and recycle_keeps: "idle (recycle e s) = idle s \<or> length (idle s) < cap \<and> idle (recycle e s) = idle s @ [e]"
begin

lemma acquire_exclusive:
  assumes ex: "exclusive key (idle s) owner" and c: "owner c = None"
    and f: "unowned key (idle s) owner (key f)"
  shows "exclusive key (idle (snd (acquire f s))) (owner(c \<mapsto> fst (acquire f s)))"
proof (cases "idle s" rule: rev_cases)
  case Nil
  then show ?thesis using acquire_empty [OF Nil, of f] exclusive_fresh [OF ex f, of c] by simp
next
  case (snoc xs e)
  then show ?thesis using acquire_idle [OF snoc, of f] exclusive_take [where key = key and xs = xs and e = e and owner = owner and c = c] ex c by simp
qed

lemma acquire_entry: "fst (acquire f s) = f \<or> fst (acquire f s) \<in> set (idle s)"
proof (cases "idle s" rule: rev_cases)
  case (snoc xs e)
  then show ?thesis using acquire_idle [OF snoc, of f] by simp
qed (use acquire_empty in simp)

lemma acquire_subset: "set (idle (snd (acquire f s))) \<subseteq> set (idle s)"
proof (cases "idle s" rule: rev_cases)
  case (snoc xs e)
  then show ?thesis using acquire_idle [OF snoc, of f] by auto
qed (use acquire_empty in simp)

lemma acquire_bound: "length (idle s) \<le> cap \<Longrightarrow> length (idle (snd (acquire f s))) \<le> cap"
proof (cases "idle s" rule: rev_cases)
  case (snoc xs e)
  then show "length (idle s) \<le> cap \<Longrightarrow> ?thesis" using acquire_idle [OF snoc, of f] by simp
qed (use acquire_empty in simp)

lemma recycle_exclusive:
  assumes "exclusive key (idle s) owner" "owner c = Some e"
  shows "exclusive key (idle (recycle e s)) (owner(c := None))"
  using recycle_keeps [of e s] exclusive_drop [OF assms(1), of c] exclusive_give [OF assms] by auto

lemma recycle_bound: "length (idle s) \<le> cap \<Longrightarrow> length (idle (recycle e s)) \<le> cap"
  using recycle_keeps [of e s] by auto

lemma recycle_subset: "set (idle (recycle e s)) \<subseteq> insert e (set (idle s))"
  using recycle_keeps [of e s] by auto

lemma acquire_cache:
  assumes ok: "cache_ok key cap n (idle s) owner" and c: "owner c = None" and f: "n \<le> key f" "key f < m"
  shows "cache_ok key cap m (idle (snd (acquire f s))) (owner(c \<mapsto> fst (acquire f s)))"
proof -
  have "exclusive key (idle (snd (acquire f s))) (owner(c \<mapsto> fst (acquire f s)))"
    by (rule acquire_exclusive [OF cache_ok_exclusive [OF ok] c cache_ok_unowned [OF ok f(1)]])
  moreover have "length (idle (snd (acquire f s))) \<le> cap" using ok by (simp add: cache_ok_def acquire_bound)
  moreover have lt: "key e < m" if "e \<in> set (idle s)" for e
    using that ok f unfolding cache_ok_def by (meson less_le_trans le_less_trans less_imp_le)
  then have "\<forall>e\<in>set (idle (snd (acquire f s))). key e < m" using acquire_subset by blast
  moreover have "key (fst (acquire f s)) < m" using acquire_entry [of f s] f(2) lt by auto
  moreover have "key e < m" if "owner c' = Some e" for c' e
    using that ok f unfolding cache_ok_def by (meson less_le_trans le_less_trans less_imp_le)
  ultimately show ?thesis by (simp add: cache_ok_def)
qed

lemma recycle_cache:
  assumes ok: "cache_ok key cap n (idle s) owner" and c: "owner c = Some e"
  shows "cache_ok key cap n (idle (recycle e s)) (owner(c := None))"
proof -
  have "exclusive key (idle (recycle e s)) (owner(c := None))"
    by (rule recycle_exclusive [OF cache_ok_exclusive [OF ok] c])
  moreover have "length (idle (recycle e s)) \<le> cap" using ok by (simp add: cache_ok_def recycle_bound)
  moreover have "\<forall>x\<in>set (idle (recycle e s)). key x < n"
    using recycle_subset [of e s] ok c by (auto simp: cache_ok_def)
  ultimately show ?thesis using ok by (auto simp: cache_ok_def)
qed

text \<open>What was recycled last is what is handed out next.\<close>

lemma acquire_recycle: "idle (recycle e s) \<noteq> idle s \<Longrightarrow> fst (acquire f (recycle e s)) = e"
  using recycle_keeps [of e s] acquire_idle [of "recycle e s" "idle s" e f] by auto

end

subsection \<open>The caches of the device\<close>

record driver_pools =
  recycledCommands :: "(nat \<times> nat) list"
  recycledCompletionSemaphores :: "(nat \<times> u64) list"
  timestampPools :: "nat list"

definition completionSemaphoreCapacity :: nat where "completionSemaphoreCapacity = 128"

text \<open>The caches of a new device: 128 semaphores \<open>base, base + 1, \<dots>\<close>, each at value zero.\<close>

definition init_pools :: "nat \<Rightarrow> driver_pools" where
  "init_pools base = \<lparr>recycledCommands = [],
     recycledCompletionSemaphores = map (\<lambda>i. (base + i, 0)) [0..<completionSemaphoreCapacity],
     timestampPools = []\<rparr>"

text \<open>A command pool with its command buffer: the last idle one, or the new one \<open>f\<close>.\<close>

definition acquireCommandPool :: "nat \<times> nat \<Rightarrow> driver_pools \<Rightarrow> (nat \<times> nat) \<times> driver_pools" where
  "acquireCommandPool f d =
     (if recycledCommands d \<noteq> []
      then (last (recycledCommands d), d\<lparr>recycledCommands := butlast (recycledCommands d)\<rparr>) else (f, d))"

definition recycleCommandPool :: "bool \<Rightarrow> nat \<times> nat \<Rightarrow> driver_pools \<Rightarrow> driver_pools" where
  "recycleCommandPool resetOk e d =
     (if resetOk \<and> length (recycledCommands d) < 32
      then d\<lparr>recycledCommands := recycledCommands d @ [e]\<rparr> else d)"

text \<open>A completion semaphore keeps its value while it is idle; one at \<open>UINT64_MAX\<close> is not kept.\<close>

definition getCompletionSemaphore :: "nat \<times> u64 \<Rightarrow> driver_pools \<Rightarrow> (nat \<times> u64) \<times> driver_pools" where
  "getCompletionSemaphore f d =
     (if recycledCompletionSemaphores d \<noteq> []
      then (last (recycledCompletionSemaphores d),
            d\<lparr>recycledCompletionSemaphores := butlast (recycledCompletionSemaphores d)\<rparr>)
      else (f, d))"

definition releaseCompletionSemaphore :: "nat \<times> u64 \<Rightarrow> driver_pools \<Rightarrow> driver_pools" where
  "releaseCompletionSemaphore e d =
     (if length (recycledCompletionSemaphores d) < completionSemaphoreCapacity \<and> snd e \<noteq> -1
      then d\<lparr>recycledCompletionSemaphores := recycledCompletionSemaphores d @ [e]\<rparr> else d)"

definition acquireTimestampPool :: "nat \<Rightarrow> driver_pools \<Rightarrow> nat \<times> driver_pools" where
  "acquireTimestampPool f d =
     (if timestampPools d \<noteq> []
      then (last (timestampPools d), d\<lparr>timestampPools := butlast (timestampPools d)\<rparr>) else (f, d))"

definition releaseTimestampPool :: "nat \<Rightarrow> driver_pools \<Rightarrow> driver_pools" where
  "releaseTimestampPool e d =
     (if length (timestampPools d) < 32 then d\<lparr>timestampPools := timestampPools d @ [e]\<rparr> else d)"

interpretation cmdpool: recycler fst 32 recycledCommands acquireCommandPool "recycleCommandPool ok"
  by unfold_locales (auto simp: acquireCommandPool_def recycleCommandPool_def)

interpretation sempool: recycler fst completionSemaphoreCapacity recycledCompletionSemaphores
    getCompletionSemaphore releaseCompletionSemaphore
  by unfold_locales (auto simp: getCompletionSemaphore_def releaseCompletionSemaphore_def)

interpretation tspool: recycler "\<lambda>h. h" 32 timestampPools acquireTimestampPool releaseTimestampPool
  by unfold_locales (auto simp: acquireTimestampPool_def releaseTimestampPool_def)

text \<open>The caches do not touch one another.\<close>

lemma pools_frame [simp]:
  "recycledCompletionSemaphores (snd (acquireCommandPool f d)) = recycledCompletionSemaphores d"
  "timestampPools (snd (acquireCommandPool f d)) = timestampPools d"
  "recycledCompletionSemaphores (recycleCommandPool ok e d) = recycledCompletionSemaphores d"
  "timestampPools (recycleCommandPool ok e d) = timestampPools d"
  "recycledCommands (snd (getCompletionSemaphore s d)) = recycledCommands d"
  "timestampPools (snd (getCompletionSemaphore s d)) = timestampPools d"
  "recycledCommands (releaseCompletionSemaphore s d) = recycledCommands d"
  "timestampPools (releaseCompletionSemaphore s d) = timestampPools d"
  "recycledCommands (snd (acquireTimestampPool t d)) = recycledCommands d"
  "recycledCompletionSemaphores (snd (acquireTimestampPool t d)) = recycledCompletionSemaphores d"
  "recycledCommands (releaseTimestampPool t d) = recycledCommands d"
  "recycledCompletionSemaphores (releaseTimestampPool t d) = recycledCompletionSemaphores d"
  by (simp_all add: acquireCommandPool_def recycleCommandPool_def getCompletionSemaphore_def
      releaseCompletionSemaphore_def acquireTimestampPool_def releaseTimestampPool_def)

text \<open>No idle semaphore is at the largest value, so the next value to wait for does not wrap.\<close>

definition values_ok :: "driver_pools \<Rightarrow> bool" where
  "values_ok d \<longleftrightarrow> (\<forall>e\<in>set (recycledCompletionSemaphores d). snd e \<noteq> -1)"

lemma getCompletionSemaphore_next:
  assumes "values_ok d" "snd f \<noteq> -1"
  shows "unat (snd (fst (getCompletionSemaphore f d)) + 1) = unat (snd (fst (getCompletionSemaphore f d))) + 1"
proof -
  have "snd (fst (getCompletionSemaphore f d)) \<noteq> -1"
    using sempool.acquire_entry [of f d] assms by (auto simp: values_ok_def)
  then have "snd (fst (getCompletionSemaphore f d)) + 1 \<noteq> 0" by (metis add.inverse_unique add.commute)
  then show ?thesis by (simp add: unatSuc add.commute)
qed

lemma values_ok_get: "values_ok d \<Longrightarrow> values_ok (snd (getCompletionSemaphore f d))"
  using sempool.acquire_subset [of f d] by (auto simp: values_ok_def)

lemma values_ok_release: "values_ok d \<Longrightarrow> values_ok (releaseCompletionSemaphore e d)"
  by (auto simp: values_ok_def releaseCompletionSemaphore_def)

end
