(* ===== verification/CommandBuffers.thy ===== *)
theory CommandBuffers
  imports HandlePools
begin

section \<open>Command buffers\<close>

text \<open>
  \<open>native/renderer/command-buffer.cpp\<close>: the life of a command buffer, from its command pool
  through encoding, \<open>commit\<close>, the application's scheduled and completed handlers, to the return
  of its pool; and the set of textures one submission acquires.

  Command buffers are objects named by numbers in \<open>cbufs\<close>. \<open>scheduledQueue\<close> is the serial queue
  of scheduled-handler work, \<open>gpuWaits\<close> the completions registered with the event loop,
  \<open>completedQueue\<close> the dispatched completed-handler work. \<open>callLog\<close> records the handler calls.
  The answers of Vulkan are the record \<open>cb_env\<close>. A semaphore wrapper is released when the
  completion callback is done: waits in \<open>waitForGPU\<close> are single steps here, they only delay that.
  A second \<open>commit\<close> ends a command buffer that is no longer recording, which Vulkan leaves undefined.
\<close>

subsection \<open>The textures of a submission\<close>

datatype texture = Concrete_texture nat | Drawable_texture nat | Texture_view nat texture

fun texture_image :: "texture \<Rightarrow> nat" where
  "texture_image (Concrete_texture im) = im"
| "texture_image (Drawable_texture im) = im"
| "texture_image (Texture_view im parent) = im"

fun usesGraphicsQueueOnly :: "texture \<Rightarrow> bool" where
  "usesGraphicsQueueOnly (Texture_view im parent) = usesGraphicsQueueOnly parent"
| "usesGraphicsQueueOnly (Concrete_texture im) = True"
| "usesGraphicsQueueOnly (Drawable_texture im) = False"

datatype encoder = Render "texture option list" "texture option list"
  | Blit "texture option list" "texture option list"
  | Compute "texture option list list"

text \<open>\<open>std::map::emplace\<close> on a map kept sorted by its key: an entry that exists is kept.\<close>

fun emplace :: "nat \<Rightarrow> 'v \<Rightarrow> (nat \<times> 'v) list \<Rightarrow> (nat \<times> 'v) list" where
  "emplace k v [] = [(k, v)]"
| "emplace k v ((j, w) # m) =
     (if k < j then (k, v) # (j, w) # m else if k = j then (j, w) # m else (j, w) # emplace k v m)"

definition addTextures :: "texture option list \<Rightarrow> (nat \<times> texture) list \<Rightarrow> (nat \<times> texture) list" where
  "addTextures ts target = fold (\<lambda>ot m. case ot of None \<Rightarrow> m | Some t \<Rightarrow> emplace (texture_image t) t m) ts target"

fun collect_encoder :: "encoder \<Rightarrow> (nat \<times> texture) list \<times> (nat \<times> texture) list \<Rightarrow>
    (nat \<times> texture) list \<times> (nat \<times> texture) list" where
  "collect_encoder (Render ro rw) (reads, writes) = (addTextures ro reads, addTextures rw writes)"
| "collect_encoder (Blit ro rw) (reads, writes) = (addTextures ro reads, addTextures rw writes)"
| "collect_encoder (Compute states) (reads, writes) = (reads, fold addTextures states writes)"

text \<open>The read-only and the read-write textures of a submission.\<close>

definition submission_textures :: "encoder list \<Rightarrow> texture list \<times> texture list" where
  "submission_textures encoders =
     (let (reads, writes) = fold collect_encoder encoders ([], []);
          reads = filter (\<lambda>p. fst p \<notin> set (map fst writes)) reads
      in (map snd reads, map snd writes))"

subsection \<open>Semaphores of a submission\<close>

record texture_sync =
  sync_semaphore :: nat
  sync_wait :: u64
  sync_extra :: "nat option"
  sync_signal :: u64

text \<open>\<open>handleTextureSemaphores\<close> for one texture, with what \<open>acquire\<close> of the texture answers: the
  waits and the signals appended.\<close>

definition handleTextureSemaphores :: "(texture \<Rightarrow> texture_sync) \<Rightarrow> texture \<Rightarrow>
    (nat \<times> u64) list \<times> (nat \<times> u64) list \<Rightarrow> (nat \<times> u64) list \<times> (nat \<times> u64) list" where
  "handleTextureSemaphores acquire t ws =
     (if usesGraphicsQueueOnly t then ws
      else let (waits, signals) = ws; a = acquire t in
        (waits @ (case sync_extra a of None \<Rightarrow> [] | Some x \<Rightarrow> [(x, 0)]) @ [(sync_semaphore a, sync_wait a)],
         signals @ (if sync_signal a \<noteq> 0 then [(sync_semaphore a, sync_signal a)] else [])))"

text \<open>All waits and signals; \<open>presentation\<close> gives the binary semaphore of an exported texture.\<close>

definition submission_semaphores :: "(texture \<Rightarrow> texture_sync) \<Rightarrow> (texture \<Rightarrow> nat option) \<Rightarrow> nat \<times> u64 \<Rightarrow>
    texture list \<Rightarrow> texture list \<Rightarrow> (nat \<times> u64) list \<times> (nat \<times> u64) list" where
  "submission_semaphores acquire presentation completion readOnly readWrite =
     fold (\<lambda>t (waits, signals). handleTextureSemaphores acquire t
             (waits, signals @ (case presentation t of None \<Rightarrow> [] | Some s \<Rightarrow> [(s, 0)])))
       readWrite (fold (handleTextureSemaphores acquire) readOnly ([], [completion]))"

subsection \<open>Command buffers and their device\<close>

datatype handler_call = Scheduled_call nat nat | Completed_call nat nat

record command_buffer =
  commandPool :: "(nat \<times> nat) option"
  timestampPool :: "nat option"
  recording :: bool
  commandEncoders :: "encoder list"
  drawablesToPresent :: "nat list"
  scheduledHandlers :: "nat list"
  completedHandlers :: "nat list"
  committed :: bool
  completed :: bool
  handlersCompleted :: bool
  completionSemaphore :: "(nat \<times> u64) option"

record command_device =
  pools :: driver_pools
  nextHandle :: nat
  cbufs :: "nat \<Rightarrow> command_buffer option"
  nextBuffer :: nat
  scheduledQueue :: "nat list"
  gpuWaits :: "nat list"
  completedQueue :: "nat list"
  callLog :: "handler_call list"
  submissions :: "((nat \<times> u64) list \<times> (nat \<times> u64) list) list"
  presented :: "nat list"

record cb_env =
  poolOk :: bool
  allocOk :: bool
  beginOk :: bool
  timingEnabled :: bool
  queryPoolOk :: bool
  uploadsOutcome :: "unit outcome"
  endOk :: bool
  submitOk :: bool
  resetOk :: bool
  waitOk :: bool
  textureAcquire :: "texture \<Rightarrow> texture_sync"
  presentationSemaphore :: "texture \<Rightarrow> nat option"

definition init_commands :: command_device where
  "init_commands = \<lparr>pools = init_pools 1, nextHandle = 1 + completionSemaphoreCapacity, cbufs = Map.empty,
     nextBuffer = 0, scheduledQueue = [], gpuWaits = [], completedQueue = [], callLog = [],
     submissions = [], presented = []\<rparr>"

definition update_cb :: "nat \<Rightarrow> command_buffer \<Rightarrow> command_device \<Rightarrow> command_device" where
  "update_cb c b d = d\<lparr>cbufs := (cbufs d)(c \<mapsto> b)\<rparr>"

text \<open>\<open>beginGpuTiming\<close>: no timestamps unless enabled, else an idle query pool or a new one.\<close>

definition beginGpuTiming :: "cb_env \<Rightarrow> nat \<Rightarrow> driver_pools \<Rightarrow> nat option \<times> driver_pools" where
  "beginGpuTiming env fresh p =
     (if \<not> timingEnabled env then (None, p)
      else if timestampPools p = [] \<and> \<not> queryPoolOk env then (None, p)
      else let (t, p') = acquireTimestampPool fresh p in (Some t, p'))"

text \<open>The constructor. New driver handles are numbered; three numbers are set aside for one buffer.\<close>

definition new_command_buffer :: "cb_env \<Rightarrow> command_device \<Rightarrow> nat outcome \<times> command_device" where
  "new_command_buffer env d =
     (let n = nextHandle d; c = nextBuffer d; none = (recycledCommands (pools d) = []) in
      if none \<and> \<not> poolOk env then (Inl (Throw ''Could not create command pool''), d)
      else if none \<and> \<not> allocOk env \<or> \<not> beginOk env then (Inl Abort, d)
      else let (entry, p1) = acquireCommandPool (n, n + 1) (pools d);
               (ts, p2) = beginGpuTiming env (n + 2) p1
           in (Inr c, d\<lparr>pools := p2, nextHandle := n + 3, nextBuffer := Suc c,
                cbufs := (cbufs d)(c \<mapsto> \<lparr>commandPool = Some entry, timestampPool = ts, recording = True,
                  commandEncoders = [], drawablesToPresent = [], scheduledHandlers = [], completedHandlers = [],
                  committed = False, completed = False, handlersCompleted = False, completionSemaphore = None\<rparr>)\<rparr>))"

text \<open>\<open>recycleCommandPool\<close> of a buffer.\<close>

definition recycle_buffer_pool :: "cb_env \<Rightarrow> command_buffer \<Rightarrow> driver_pools \<Rightarrow> command_buffer \<times> driver_pools" where
  "recycle_buffer_pool env b p =
     (case commandPool b of
        None \<Rightarrow> (b, p)
      | Some e \<Rightarrow> (b\<lparr>commandPool := None\<rparr>, recycleCommandPool (resetOk env) e p))"

text \<open>The destructor, for a buffer nothing refers to any more.\<close>

definition destroy_command_buffer :: "cb_env \<Rightarrow> nat \<Rightarrow> command_device \<Rightarrow> unit outcome \<times> command_device" where
  "destroy_command_buffer env c d =
     (case cbufs d c of
        None \<Rightarrow> (Inl Undefined, d)
      | Some b \<Rightarrow>
         (let p = (case timestampPool b of None \<Rightarrow> pools d | Some t \<Rightarrow> releaseTimestampPool t (pools d));
              p = snd (recycle_buffer_pool env b p)
          in (Inr (), d\<lparr>pools := p, cbufs := (cbufs d)(c := None)\<rparr>)))"

definition with_cb :: "nat \<Rightarrow> (command_buffer \<Rightarrow> unit outcome \<times> command_device) \<Rightarrow> command_device \<Rightarrow>
    unit outcome \<times> command_device" where
  "with_cb c f d = (case cbufs d c of None \<Rightarrow> (Inl Undefined, d) | Some b \<Rightarrow> f b)"

definition add_encoder :: "encoder \<Rightarrow> nat \<Rightarrow> command_device \<Rightarrow> unit outcome \<times> command_device" where
  "add_encoder e c d = with_cb c (\<lambda>b. (Inr (), update_cb c (b\<lparr>commandEncoders := commandEncoders b @ [e]\<rparr>) d)) d"

definition presentDrawable :: "nat \<Rightarrow> nat \<Rightarrow> command_device \<Rightarrow> unit outcome \<times> command_device" where
  "presentDrawable dr c d = with_cb c (\<lambda>b. if committed b then (Inl Abort, d)
     else (Inr (), update_cb c (b\<lparr>drawablesToPresent := drawablesToPresent b @ [dr]\<rparr>) d)) d"

definition addScheduledHandler :: "nat \<Rightarrow> nat \<Rightarrow> command_device \<Rightarrow> unit outcome \<times> command_device" where
  "addScheduledHandler h c d = with_cb c (\<lambda>b. if committed b then (Inl Abort, d)
     else (Inr (), update_cb c (b\<lparr>scheduledHandlers := scheduledHandlers b @ [h]\<rparr>) d)) d"

definition addCompletedHandler :: "nat \<Rightarrow> nat \<Rightarrow> command_device \<Rightarrow> unit outcome \<times> command_device" where
  "addCompletedHandler h c d = with_cb c (\<lambda>b. if committed b then (Inl Abort, d)
     else (Inr (), update_cb c (b\<lparr>completedHandlers := completedHandlers b @ [h]\<rparr>) d)) d"

text \<open>\<open>commit\<close>: flush the uploads, end the commands, take a completion semaphore, submit with the
  waits and signals of the textures, queue the scheduled handlers or register the completion, and
  present the drawables.\<close>

definition commit :: "cb_env \<Rightarrow> nat \<Rightarrow> command_device \<Rightarrow> unit outcome \<times> command_device" where
  "commit env c d = with_cb c (\<lambda>b.
     let b = b\<lparr>committed := True\<rparr>; d1 = update_cb c b d in
     case uploadsOutcome env of
       Inl e \<Rightarrow> (Inl e, d1)
     | Inr _ \<Rightarrow>
        if \<not> recording b then (Inl Undefined, d1)
        else if \<not> endOk env then (Inl Abort, d1)
        else let (sem, p) = getCompletionSemaphore (nextHandle d, 0) (pools d);
                 sem = (fst sem, snd sem + 1);
                 b = b\<lparr>recording := False, completionSemaphore := Some sem\<rparr>;
                 (readOnly, readWrite) = submission_textures (commandEncoders b);
                 s = submission_semaphores (textureAcquire env) (presentationSemaphore env) sem readOnly readWrite;
                 d2 = (update_cb c b d)\<lparr>pools := p, nextHandle := nextHandle d + 1\<rparr>;
                 d3 = d2\<lparr>submissions := submissions d @ [s], presented := presented d @ drawablesToPresent b\<rparr> in
          if \<not> submitOk env then (Inl Abort, d2)
          else if scheduledHandlers b = [] then (Inr (), d3\<lparr>gpuWaits := gpuWaits d @ [c]\<rparr>)
          else (Inr (), d3\<lparr>scheduledQueue := scheduledQueue d @ [c]\<rparr>)) d"

text \<open>The serial queue runs the scheduled handlers of its first buffer, then arms the completion.\<close>

definition run_scheduled :: "command_device \<Rightarrow> unit outcome \<times> command_device" where
  "run_scheduled d =
     (case scheduledQueue d of
        [] \<Rightarrow> (Inr (), d)
      | c # rest \<Rightarrow> with_cb c (\<lambda>b.
          (Inr (), (update_cb c (b\<lparr>scheduledHandlers := []\<rparr>) d)\<lparr>scheduledQueue := rest,
             gpuWaits := gpuWaits d @ [c], callLog := callLog d @ map (Scheduled_call c) (scheduledHandlers b)\<rparr>)) d)"

definition finishCompletedHandlers :: "nat \<Rightarrow> command_device \<Rightarrow> unit outcome \<times> command_device" where
  "finishCompletedHandlers c d = with_cb c (\<lambda>b.
     (Inr (), (update_cb c (b\<lparr>completedHandlers := [], handlersCompleted := True\<rparr>) d)
        \<lparr>callLog := callLog d @ map (Completed_call c) (completedHandlers b)\<rparr>)) d"

text \<open>The completion callback, called by the event loop for a registered buffer.\<close>

definition complete :: "cb_env \<Rightarrow> nat \<Rightarrow> command_device \<Rightarrow> unit outcome \<times> command_device" where
  "complete env c d = with_cb c (\<lambda>b0.
     let (b, p) = recycle_buffer_pool env b0 (pools d);
         p = (case completionSemaphore b of None \<Rightarrow> p | Some s \<Rightarrow> releaseCompletionSemaphore s p);
         encoders = commandEncoders b;
         b = b\<lparr>commandEncoders := [], completed := True, completionSemaphore := None\<rparr>;
         d = (update_cb c b d)\<lparr>pools := p, gpuWaits := remove1 c (gpuWaits d)\<rparr> in
     if completedHandlers b = [] \<and> encoders = [] then finishCompletedHandlers c d
     else (Inr (), d\<lparr>completedQueue := completedQueue d @ [c]\<rparr>)) d"

definition run_completed :: "nat \<Rightarrow> command_device \<Rightarrow> unit outcome \<times> command_device" where
  "run_completed c d = finishCompletedHandlers c (d\<lparr>completedQueue := remove1 c (completedQueue d)\<rparr>)"

text \<open>\<open>waitUntilCompleted\<close> returns when this holds.\<close>

definition wait_returns :: "nat \<Rightarrow> command_device \<Rightarrow> bool" where
  "wait_returns c d \<longleftrightarrow> (case cbufs d c of None \<Rightarrow> False | Some b \<Rightarrow> handlersCompleted b)"

definition waitForGPU :: "cb_env \<Rightarrow> nat \<Rightarrow> command_device \<Rightarrow> unit outcome" where
  "waitForGPU env c d =
     (case cbufs d c of
        None \<Rightarrow> Inl Undefined
      | Some b \<Rightarrow>
          if \<not> committed b then Inl (Throw ''Readback command has not been committed'')
          else if completed b then Inr ()
          else if completionSemaphore b = None then Inl Undefined
          else if waitOk env then Inr () else Inl (Throw ''Texture readback wait failed''))"

end
