(* ===== verification/CommandSafety.thy ===== *)
theory CommandSafety
  imports CommandBuffers
begin

section \<open>Command buffers own their pools and call their handlers once\<close>

text \<open>
  The invariant of the command buffers of a device over all their operations, and what follows
  for the pools, the handlers and the waits; the texture sets of a submission.
\<close>

subsection \<open>The invariant\<close>

definition owner_of :: "(command_buffer \<Rightarrow> 'e option) \<Rightarrow> command_device \<Rightarrow> nat \<Rightarrow> 'e option" where
  "owner_of g d c = (case cbufs d c of None \<Rightarrow> None | Some b \<Rightarrow> g b)"

lemma owner_of_update: "cbufs d' = (cbufs d)(c \<mapsto> b) \<Longrightarrow> owner_of g d' = (owner_of g d)(c := g b)"
  by (auto simp: owner_of_def fun_eq_iff)

lemma owner_of_remove: "cbufs d' = (cbufs d)(c := None) \<Longrightarrow> owner_of g d' = (owner_of g d)(c := None)"
  by (auto simp: owner_of_def fun_eq_iff)

lemma owner_of_cong: "cbufs d' = cbufs d \<Longrightarrow> owner_of g d' = owner_of g d"
  by (simp add: owner_of_def fun_eq_iff)

definition caches_ok :: "command_device \<Rightarrow> bool" where
  "caches_ok d \<longleftrightarrow>
     cache_ok fst 32 (nextHandle d) (recycledCommands (pools d)) (owner_of commandPool d)
     \<and> cache_ok fst completionSemaphoreCapacity (nextHandle d) (recycledCompletionSemaphores (pools d))
         (owner_of completionSemaphore d)
     \<and> cache_ok (\<lambda>h. h) 32 (nextHandle d) (timestampPools (pools d)) (owner_of timestampPool d)
     \<and> values_ok (pools d)"

text \<open>Where a buffer is on its way, seen from the buffer.\<close>

definition queued :: "command_device \<Rightarrow> nat \<Rightarrow> bool" where
  "queued d c \<longleftrightarrow> c \<in> set (scheduledQueue d) \<union> set (gpuWaits d)"

definition stage_at :: "bool \<Rightarrow> bool \<Rightarrow> bool \<Rightarrow> command_buffer \<Rightarrow> bool" where
  "stage_at q w dn b \<longleftrightarrow>
     (q \<longleftrightarrow> completionSemaphore b \<noteq> None)
     \<and> (q \<longrightarrow> committed b \<and> \<not> completed b)
     \<and> (w \<longrightarrow> scheduledHandlers b = [])
     \<and> (dn \<longleftrightarrow> completed b \<and> \<not> handlersCompleted b)
     \<and> (handlersCompleted b \<longrightarrow> completed b \<and> completedHandlers b = [] \<and> scheduledHandlers b = [])
     \<and> (completed b \<longrightarrow> committed b)
     \<and> (recording b \<or> q \<longrightarrow> commandPool b \<noteq> None)
     \<and> (recording b \<longrightarrow> \<not> q \<and> \<not> completed b)
     \<and> (\<not> recording b \<and> \<not> q \<longrightarrow> completed b)"

definition stage_ok :: "command_device \<Rightarrow> nat \<Rightarrow> command_buffer \<Rightarrow> bool" where
  "stage_ok d c b \<longleftrightarrow> stage_at (queued d c) (c \<in> set (gpuWaits d) \<union> set (completedQueue d))
     (c \<in> set (completedQueue d)) b"

lemma stage_at_frame [simp]:
  "stage_at q w dn (b\<lparr>commandEncoders := es\<rparr>) = stage_at q w dn b"
  "stage_at q w dn (b\<lparr>drawablesToPresent := ds\<rparr>) = stage_at q w dn b"
  by (simp_all add: stage_at_def)

definition queues_ok :: "command_device \<Rightarrow> bool" where
  "queues_ok d \<longleftrightarrow> distinct (scheduledQueue d @ gpuWaits d @ completedQueue d)
     \<and> (\<forall>c. queued d c \<or> c \<in> set (completedQueue d) \<longrightarrow> cbufs d c \<noteq> None)
     \<and> (\<forall>c b. cbufs d c = Some b \<longrightarrow> c < nextBuffer d \<and> stage_ok d c b)"

text \<open>The handlers given to a buffer are those called and, in order, those still to be called.\<close>

definition calls_of :: "nat \<Rightarrow> handler_call list \<Rightarrow> handler_call list" where
  "calls_of c = filter (\<lambda>x. case x of Scheduled_call k h \<Rightarrow> k = c | Completed_call k h \<Rightarrow> k = c)"

definition calls_ok :: "command_device \<Rightarrow> (nat \<Rightarrow> nat list) \<Rightarrow> (nat \<Rightarrow> nat list) \<Rightarrow> bool" where
  "calls_ok d sg cg \<longleftrightarrow>
     (\<forall>c b. cbufs d c = Some b \<longrightarrow>
        calls_of c (callLog d) @ map (Scheduled_call c) (scheduledHandlers b) @ map (Completed_call c) (completedHandlers b)
          = map (Scheduled_call c) (sg c) @ map (Completed_call c) (cg c)
        \<and> (\<not> committed b \<longrightarrow> calls_of c (callLog d) = []))
     \<and> (\<forall>c \<ge> nextBuffer d. calls_of c (callLog d) = [] \<and> sg c = [] \<and> cg c = [])"

definition commands_inv :: "command_device \<Rightarrow> (nat \<Rightarrow> nat list) \<Rightarrow> (nat \<Rightarrow> nat list) \<Rightarrow> bool" where
  "commands_inv d sg cg \<longleftrightarrow> caches_ok d \<and> queues_ok d \<and> calls_ok d sg cg"

lemma calls_of_append [simp]: "calls_of c (xs @ ys) = calls_of c xs @ calls_of c ys"
  by (simp add: calls_of_def)

lemma calls_of_own [simp]:
  "calls_of c (map (Scheduled_call k) hs) = (if k = c then map (Scheduled_call k) hs else [])"
  "calls_of c (map (Completed_call k) hs) = (if k = c then map (Completed_call k) hs else [])"
  by (induction hs) (auto simp: calls_of_def)

lemma calls_of_Nil [simp]: "calls_of c [] = []"
  by (simp add: calls_of_def)

lemma owner_of_init: "owner_of g init_commands = (\<lambda>_. None)"
  by (simp add: owner_of_def init_commands_def fun_eq_iff)

lemma init_caches_ok: "caches_ok init_commands"
  unfolding caches_ok_def owner_of_init
  by (auto simp: cache_ok_def exclusive_def init_commands_def init_pools_def values_ok_def
      comp_def distinct_map inj_on_def)

lemma init_commands_inv: "commands_inv init_commands (\<lambda>_. []) (\<lambda>_. [])"
  using init_caches_ok
  by (simp add: commands_inv_def queues_ok_def calls_ok_def queued_def init_commands_def)

subsection \<open>Updates of one buffer\<close>

text \<open>An update that keeps the handles keeps the caches.\<close>

lemma owner_of_same:
  assumes "cbufs d c = Some b" "cbufs d' = (cbufs d)(c \<mapsto> b')" "g b' = g b"
  shows "owner_of g d' = owner_of g d"
  using assms by (auto simp: owner_of_def fun_eq_iff)

lemma caches_ok_update:
  assumes "caches_ok d" "cbufs d c = Some b" "cbufs d' = (cbufs d)(c \<mapsto> b')" "pools d' = pools d" "nextHandle d' = nextHandle d"
    "commandPool b' = commandPool b" "timestampPool b' = timestampPool b" "completionSemaphore b' = completionSemaphore b"
  shows "caches_ok d'"
  using assms(1,4,5) owner_of_same [OF assms(2,3), of commandPool, OF assms(6)]
    owner_of_same [OF assms(2,3), of timestampPool, OF assms(7)]
    owner_of_same [OF assms(2,3), of completionSemaphore, OF assms(8)]
  by (simp add: caches_ok_def)

lemma queues_ok_update:
  assumes q: "queues_ok d" and b: "cbufs d c = Some b" and d': "cbufs d' = (cbufs d)(c \<mapsto> b')" "nextBuffer d' = nextBuffer d"
    and dist: "distinct (scheduledQueue d' @ gpuWaits d' @ completedQueue d')"
    and same: "\<And>k. k \<noteq> c \<Longrightarrow> (k \<in> set (scheduledQueue d') \<longleftrightarrow> k \<in> set (scheduledQueue d))
       \<and> (k \<in> set (gpuWaits d') \<longleftrightarrow> k \<in> set (gpuWaits d))
       \<and> (k \<in> set (completedQueue d') \<longleftrightarrow> k \<in> set (completedQueue d))"
    and ok: "stage_ok d' c b'"
  shows "queues_ok d'"
proof -
  have st: "stage_ok d' k x" if "k \<noteq> c" "cbufs d k = Some x" for k x
  proof -
    have "stage_ok d k x" using q that(2) by (simp add: queues_ok_def)
    moreover have "queued d' k = queued d k" "(k \<in> set (completedQueue d')) = (k \<in> set (completedQueue d))"
      "(k \<in> set (gpuWaits d') \<union> set (completedQueue d')) = (k \<in> set (gpuWaits d) \<union> set (completedQueue d))"
      using same [OF that(1)] by (simp_all add: queued_def)
    ultimately show ?thesis unfolding stage_ok_def by (simp only:)
  qed
  have "cbufs d' k \<noteq> None" if "queued d' k \<or> k \<in> set (completedQueue d')" for k
  proof (cases "k = c")
    case False
    then have "queued d k \<or> k \<in> set (completedQueue d)" using that same by (auto simp: queued_def)
    then have "cbufs d k \<noteq> None" using q unfolding queues_ok_def by blast
    then show ?thesis using False d' by simp
  qed (simp add: d')
  moreover have "k < nextBuffer d' \<and> stage_ok d' k x" if "cbufs d' k = Some x" for k x
    using that st [of k x] ok q b d' by (cases "k = c") (auto simp: queues_ok_def)
  ultimately show ?thesis using dist unfolding queues_ok_def by blast
qed

lemma calls_ok_update:
  assumes ok: "calls_ok d sg cg" and b: "cbufs d c = Some b" "c < nextBuffer d"
    and d': "cbufs d' = (cbufs d)(c \<mapsto> b')" "nextBuffer d' = nextBuffer d"
    and log: "callLog d' = callLog d @ l" "\<And>k. k \<noteq> c \<Longrightarrow> calls_of k l = []"
    and own: "calls_of c (callLog d @ l) @ map (Scheduled_call c) (scheduledHandlers b') @ map (Completed_call c) (completedHandlers b')
          = map (Scheduled_call c) (sg' c) @ map (Completed_call c) (cg' c)"
      "\<not> committed b' \<Longrightarrow> calls_of c (callLog d @ l) = []"
    and g: "\<And>k. k \<noteq> c \<Longrightarrow> sg' k = sg k \<and> cg' k = cg k"
  shows "calls_ok d' sg' cg'"
  unfolding calls_ok_def
proof (intro conjI allI impI)
  fix k x assume k: "cbufs d' k = Some x"
  show "calls_of k (callLog d') @ map (Scheduled_call k) (scheduledHandlers x) @ map (Completed_call k) (completedHandlers x)
      = map (Scheduled_call k) (sg' k) @ map (Completed_call k) (cg' k)"
    using k own(1) ok log g d' by (cases "k = c") (auto simp: calls_ok_def)
  show "calls_of k (callLog d') = []" if "\<not> committed x"
    using k that own(2) ok log d' by (cases "k = c") (auto simp: calls_ok_def)
next
  fix k assume "nextBuffer d' \<le> k"
  then show "calls_of k (callLog d') = []" "sg' k = []" "cg' k = []"
    using b(2) d'(2) ok log g by (auto simp: calls_ok_def)
qed


lemma commands_invD:
  assumes "commands_inv d sg cg"
  shows "caches_ok d" "queues_ok d" "calls_ok d sg cg"
    and "\<And>c b. cbufs d c = Some b \<Longrightarrow> stage_ok d c b \<and> c < nextBuffer d"
    and "distinct (scheduledQueue d @ gpuWaits d @ completedQueue d)"
    and "\<And>c b. cbufs d c = Some b \<Longrightarrow>
        calls_of c (callLog d) @ map (Scheduled_call c) (scheduledHandlers b) @ map (Completed_call c) (completedHandlers b)
          = map (Scheduled_call c) (sg c) @ map (Completed_call c) (cg c)"
    and "\<And>c b. cbufs d c = Some b \<Longrightarrow> \<not> committed b \<Longrightarrow> calls_of c (callLog d) = []"
  using assms unfolding commands_inv_def queues_ok_def calls_ok_def by blast+

text \<open>An update that moves the buffer to no other queue.\<close>

lemma commands_inv_update:
  assumes inv: "commands_inv d sg cg" and b: "cbufs d c = Some b" and d': "d' = update_cb c b' d"
    and h: "commandPool b' = commandPool b" "timestampPool b' = timestampPool b"
      "completionSemaphore b' = completionSemaphore b" and st: "stage_ok d c b'"
    and own: "calls_of c (callLog d) @ map (Scheduled_call c) (scheduledHandlers b') @ map (Completed_call c) (completedHandlers b')
          = map (Scheduled_call c) (sg' c) @ map (Completed_call c) (cg' c)"
      "\<not> committed b' \<Longrightarrow> \<not> committed b" and g: "\<And>k. k \<noteq> c \<Longrightarrow> sg' k = sg k \<and> cg' k = cg k"
  shows "commands_inv d' sg' cg'"
proof -
  note I = commands_invD [OF inv]
  have "caches_ok d'" by (rule caches_ok_update [OF I(1) b _ _ _ h]) (simp_all add: d' update_cb_def)
  moreover have "queues_ok d'"
    by (rule queues_ok_update [OF I(2) b, where b' = b'])
      (use I(5) st in \<open>simp_all add: d' update_cb_def queued_def stage_ok_def\<close>)
  moreover have "calls_ok d' sg' cg'"
    by (rule calls_ok_update [OF I(3) b, where b' = b' and l = "[]"])
      (use I(4,7) [OF b] own g in \<open>simp_all add: d' update_cb_def\<close>)
  ultimately show ?thesis by (simp add: commands_inv_def)
qed

lemma with_cb_Inr_iff: "with_cb c f d = (r, d') \<longleftrightarrow>
    (case cbufs d c of None \<Rightarrow> r = Inl Undefined \<and> d' = d | Some b \<Rightarrow> f b = (r, d'))"
  by (auto simp: with_cb_def split: option.splits)

lemma add_encoder_inv:
  assumes inv: "commands_inv d sg cg" and op: "add_encoder e c d = (Inr u, d')"
  shows "commands_inv d' sg cg"
proof -
  obtain b where b: "cbufs d c = Some b" and d': "d' = update_cb c (b\<lparr>commandEncoders := commandEncoders b @ [e]\<rparr>) d"
    using op by (auto simp: add_encoder_def with_cb_Inr_iff split: option.splits)
  note I = commands_invD [OF inv]
  have "stage_ok d c (b\<lparr>commandEncoders := commandEncoders b @ [e]\<rparr>)" using I(4) [OF b] by (simp add: stage_ok_def)
  then show ?thesis by (rule commands_inv_update [OF inv b d', rotated 3]) (use I(6) [OF b] in simp_all)
qed

lemma presentDrawable_inv:
  assumes inv: "commands_inv d sg cg" and op: "presentDrawable dr c d = (Inr u, d')"
  shows "commands_inv d' sg cg"
proof -
  obtain b where b: "cbufs d c = Some b" and d': "d' = update_cb c (b\<lparr>drawablesToPresent := drawablesToPresent b @ [dr]\<rparr>) d"
    using op by (auto simp: presentDrawable_def with_cb_Inr_iff split: option.splits if_splits)
  note I = commands_invD [OF inv]
  have "stage_ok d c (b\<lparr>drawablesToPresent := drawablesToPresent b @ [dr]\<rparr>)" using I(4) [OF b] by (simp add: stage_ok_def)
  then show ?thesis by (rule commands_inv_update [OF inv b d', rotated 3]) (use I(6) [OF b] in simp_all)
qed

lemma not_committed_stage:
  assumes "stage_ok d c b" "\<not> committed b"
  shows "\<not> queued d c" "c \<notin> set (gpuWaits d)" "c \<notin> set (completedQueue d)" "\<not> completed b" "\<not> handlersCompleted b"
  using assms unfolding stage_ok_def stage_at_def queued_def by blast+

lemma handlers_before_commit:
  assumes inv: "commands_inv d sg cg" and b: "cbufs d c = Some b" "\<not> committed b"
  shows "scheduledHandlers b = sg c \<and> completedHandlers b = cg c"
proof -
  note I = commands_invD [OF inv]
  have e: "map (Scheduled_call c) (scheduledHandlers b) @ map (Completed_call c) (completedHandlers b)
      = map (Scheduled_call c) (sg c) @ map (Completed_call c) (cg c)"
    using I(6,7) b by fastforce
  have "filter (\<lambda>x. case x of Scheduled_call _ _ \<Rightarrow> True | _ \<Rightarrow> False) (map (Scheduled_call c) hs) = map (Scheduled_call c) hs"
    "filter (\<lambda>x. case x of Scheduled_call _ _ \<Rightarrow> True | _ \<Rightarrow> False) (map (Completed_call c) hs) = []"
    "filter (\<lambda>x. case x of Completed_call _ _ \<Rightarrow> True | _ \<Rightarrow> False) (map (Completed_call c) hs) = map (Completed_call c) hs"
    "filter (\<lambda>x. case x of Completed_call _ _ \<Rightarrow> True | _ \<Rightarrow> False) (map (Scheduled_call c) hs) = []" for hs
    by (induction hs) simp_all
  with arg_cong [OF e, of "filter (\<lambda>x. case x of Scheduled_call _ _ \<Rightarrow> True | _ \<Rightarrow> False)"]
    arg_cong [OF e, of "filter (\<lambda>x. case x of Completed_call _ _ \<Rightarrow> True | _ \<Rightarrow> False)"]
  have "map (Scheduled_call c) (scheduledHandlers b) = map (Scheduled_call c) (sg c)"
    "map (Completed_call c) (completedHandlers b) = map (Completed_call c) (cg c)" by simp_all
  then show ?thesis by (auto simp: inj_map_eq_map inj_on_def)
qed

lemma addScheduledHandler_inv:
  assumes inv: "commands_inv d sg cg" and op: "addScheduledHandler h c d = (Inr u, d')"
  shows "commands_inv d' (sg(c := sg c @ [h])) cg"
proof -
  obtain b where b: "cbufs d c = Some b" "\<not> committed b"
    and d': "d' = update_cb c (b\<lparr>scheduledHandlers := scheduledHandlers b @ [h]\<rparr>) d"
    using op by (auto simp: addScheduledHandler_def with_cb_Inr_iff split: option.splits if_splits)
  note I = commands_invD [OF inv]
  have s: "stage_ok d c b" using I(4) [OF b(1)] by simp
  have "stage_ok d c (b\<lparr>scheduledHandlers := scheduledHandlers b @ [h]\<rparr>)"
    using s not_committed_stage [OF s b(2)] by (simp add: stage_ok_def stage_at_def)
  then show ?thesis
    by (rule commands_inv_update [OF inv b(1) d', rotated 3])
      (use I(7) [OF b] handlers_before_commit [OF inv b] in simp_all)
qed

lemma addCompletedHandler_inv:
  assumes inv: "commands_inv d sg cg" and op: "addCompletedHandler h c d = (Inr u, d')"
  shows "commands_inv d' sg (cg(c := cg c @ [h]))"
proof -
  obtain b where b: "cbufs d c = Some b" "\<not> committed b"
    and d': "d' = update_cb c (b\<lparr>completedHandlers := completedHandlers b @ [h]\<rparr>) d"
    using op by (auto simp: addCompletedHandler_def with_cb_Inr_iff split: option.splits if_splits)
  note I = commands_invD [OF inv]
  have s: "stage_ok d c b" using I(4) [OF b(1)] by simp
  have "stage_ok d c (b\<lparr>completedHandlers := completedHandlers b @ [h]\<rparr>)"
    using s not_committed_stage [OF s b(2)] by (simp add: stage_ok_def stage_at_def)
  then show ?thesis
    by (rule commands_inv_update [OF inv b(1) d', rotated 3])
      (use I(7) [OF b] handlers_before_commit [OF inv b] in simp_all)
qed


subsection \<open>Creation and destruction\<close>

lemma caches_okD:
  assumes "caches_ok d"
  shows "cache_ok fst 32 (nextHandle d) (recycledCommands (pools d)) (owner_of commandPool d)"
    "cache_ok fst completionSemaphoreCapacity (nextHandle d) (recycledCompletionSemaphores (pools d))
         (owner_of completionSemaphore d)"
    "cache_ok (\<lambda>h. h) 32 (nextHandle d) (timestampPools (pools d)) (owner_of timestampPool d)"
    "values_ok (pools d)"
  using assms by (simp_all add: caches_ok_def)

lemma owner_of_None: "cbufs d c = None \<Longrightarrow> owner_of g d c = None"
  by (simp add: owner_of_def)

lemma beginGpuTiming_cache:
  assumes ok: "cache_ok (\<lambda>h. h) 32 n (timestampPools p) owner" and c: "owner c = None"
    and f: "n \<le> f" "f < m" and b: "beginGpuTiming env f p = (ts, p')"
  shows "cache_ok (\<lambda>h. h) 32 m (timestampPools p') (owner(c := ts))"
    and "recycledCommands p' = recycledCommands p" "recycledCompletionSemaphores p' = recycledCompletionSemaphores p"
proof -
  have m: "cache_ok (\<lambda>h. h) 32 m (timestampPools p) owner" using ok f by (elim cache_ok_mono) simp
  have own: "owner(c := None) = owner" using c by (simp add: fun_upd_idem)
  have acq: "cache_ok (\<lambda>h. h) 32 m (timestampPools (snd (acquireTimestampPool f p)))
      (owner(c \<mapsto> fst (acquireTimestampPool f p)))"
    by (rule tspool.acquire_cache [OF ok c f])
  show "cache_ok (\<lambda>h. h) 32 m (timestampPools p') (owner(c := ts))"
    using b m acq own by (auto simp: beginGpuTiming_def split: if_splits prod.splits)
  show "recycledCommands p' = recycledCommands p" "recycledCompletionSemaphores p' = recycledCompletionSemaphores p"
    using b by (auto simp: beginGpuTiming_def acquireTimestampPool_def split: if_splits)
qed

lemma new_command_buffer_inv:
  assumes inv: "commands_inv d sg cg" and op: "new_command_buffer env d = (Inr c, d')"
  shows "commands_inv d' sg cg"
proof -
  note I = commands_invD [OF inv]
  note C = caches_okD [OF I(1)]
  let ?n = "nextHandle d"
  obtain e p1 where a: "acquireCommandPool (?n, ?n + 1) (pools d) = (e, p1)" by fastforce
  obtain ts p2 where t: "beginGpuTiming env (?n + 2) p1 = (ts, p2)" by fastforce
  define b where "b = \<lparr>commandPool = Some e, timestampPool = ts, recording = True,
      commandEncoders = [], drawablesToPresent = [], scheduledHandlers = [], completedHandlers = [],
      committed = False, completed = False, handlersCompleted = False, completionSemaphore = None\<rparr>"
  have c: "c = nextBuffer d" and d': "d' = d\<lparr>pools := p2, nextHandle := ?n + 3, nextBuffer := Suc c,
      cbufs := (cbufs d)(c \<mapsto> b)\<rparr>"
    using op a t by (auto simp: new_command_buffer_def Let_def b_def split: if_splits)
  have fresh: "cbufs d c = None"
  proof (rule ccontr)
    assume "cbufs d c \<noteq> None"
    then show False using I(4) c by fastforce
  qed
  have own: "owner_of g d' = (owner_of g d)(c := g b)" for g :: "command_buffer \<Rightarrow> nat option"
    by (rule owner_of_update) (simp add: d')
  have p1: "cache_ok fst 32 (?n + 3) (recycledCommands p1) ((owner_of commandPool d)(c \<mapsto> e))"
    "timestampPools p1 = timestampPools (pools d)"
    "recycledCompletionSemaphores p1 = recycledCompletionSemaphores (pools d)"
    using cmdpool.acquire_cache [OF C(1) owner_of_None [OF fresh], of "(?n, ?n + 1)" "?n + 3"] a pools_frame(1,2) [of "(?n, ?n + 1)" "pools d"]
    by simp_all
  have t3: "cache_ok (\<lambda>h. h) 32 ?n (timestampPools p1) (owner_of timestampPool d)" using C(3) p1(2) by simp
  note p2 = beginGpuTiming_cache [OF t3 owner_of_None [OF fresh] _ _ t, of "?n + 3"]
  have "caches_ok d'"
    unfolding caches_ok_def
  proof (intro conjI)
    show "cache_ok fst 32 (nextHandle d') (recycledCommands (pools d')) (owner_of commandPool d')"
      using p1(1) p2(2) owner_of_update [of d' d c b commandPool] by (simp add: d' b_def)
    have "(owner_of completionSemaphore d)(c := None) = owner_of completionSemaphore d"
      by (simp add: fun_upd_idem owner_of_None [OF fresh])
    then show "cache_ok fst completionSemaphoreCapacity (nextHandle d') (recycledCompletionSemaphores (pools d'))
        (owner_of completionSemaphore d')"
      using cache_ok_mono [OF C(2), of "?n + 3"] p2(3) p1(3) owner_of_update [of d' d c b completionSemaphore]
      by (simp add: d' b_def)
    show "cache_ok (\<lambda>h. h) 32 (nextHandle d') (timestampPools (pools d')) (owner_of timestampPool d')"
      using p2(1) owner_of_update [of d' d c b timestampPool] by (simp add: d' b_def)
    show "values_ok (pools d')" using C(4) p1(3) p2(3) by (simp add: d' values_ok_def)
  qed
  moreover have "queues_ok d'"
  proof -
    have q: "queues_ok d" by (rule I(2))
    then have nq: "\<not> queued d c" "c \<notin> set (completedQueue d)" using fresh unfolding queues_ok_def by blast+
    have "stage_ok d' k x" if "cbufs d' k = Some x" for k x
    proof (cases "k = c")
      case True
      then have "x = b" using that by (simp add: d')
      then show ?thesis using True nq by (simp add: stage_ok_def stage_at_def queued_def d' b_def)
    next
      case False
      then have "stage_ok d k x" using that I(4) by (simp add: d')
      then show ?thesis by (simp add: stage_ok_def queued_def d')
    qed
    then show ?thesis using q c I(4) by (auto simp: queues_ok_def queued_def d' less_Suc_eq)
  qed
  moreover have "calls_ok d' sg cg"
    using I(3) c by (auto simp: calls_ok_def d' b_def split: if_splits)
  ultimately show ?thesis by (simp add: commands_inv_def)
qed

lemma recycle_buffer_pool_ok:
  assumes r: "recycle_buffer_pool env b p = (b', p')"
    and ok: "cache_ok fst 32 n (recycledCommands p) owner" and c: "owner c = commandPool b"
  shows "cache_ok fst 32 n (recycledCommands p') (owner(c := None))"
    and "b' = b\<lparr>commandPool := None\<rparr>" "timestampPools p' = timestampPools p"
    and "recycledCompletionSemaphores p' = recycledCompletionSemaphores p"
proof -
  have "cache_ok fst 32 n (recycledCommands p') (owner(c := None)) \<and> b' = b\<lparr>commandPool := None\<rparr>
      \<and> timestampPools p' = timestampPools p \<and> recycledCompletionSemaphores p' = recycledCompletionSemaphores p"
  proof (cases "commandPool b")
    case None
    then show ?thesis using r ok c by (simp add: recycle_buffer_pool_def cache_ok_drop)
  next
    case (Some e)
    then show ?thesis using r cmdpool.recycle_cache [OF ok, of c e "resetOk env"] c
      by (auto simp: recycle_buffer_pool_def)
  qed
  then show "cache_ok fst 32 n (recycledCommands p') (owner(c := None))" "b' = b\<lparr>commandPool := None\<rparr>"
    "timestampPools p' = timestampPools p" "recycledCompletionSemaphores p' = recycledCompletionSemaphores p" by simp_all
qed

lemma destroy_command_buffer_inv:
  assumes inv: "commands_inv d sg cg" and op: "destroy_command_buffer env c d = (Inr u, d')"
    and idle: "\<not> queued d c" "c \<notin> set (completedQueue d)"
  shows "commands_inv d' sg cg"
proof -
  note I = commands_invD [OF inv]
  note C = caches_okD [OF I(1)]
  obtain b where b: "cbufs d c = Some b"
    using op by (cases "cbufs d c") (simp_all add: destroy_command_buffer_def)
  define p where "p = (case timestampPool b of None \<Rightarrow> pools d | Some t \<Rightarrow> releaseTimestampPool t (pools d))"
  obtain b' p' where r: "recycle_buffer_pool env b p = (b', p')" by fastforce
  have d': "d' = d\<lparr>pools := p', cbufs := (cbufs d)(c := None)\<rparr>"
    using op b r by (simp add: destroy_command_buffer_def Let_def p_def)
  have ts: "cache_ok (\<lambda>h. h) 32 (nextHandle d) (timestampPools p) ((owner_of timestampPool d)(c := None))"
  proof (cases "timestampPool b")
    case None
    then show ?thesis using cache_ok_drop [OF C(3)] by (simp add: p_def)
  next
    case (Some t)
    then have "owner_of timestampPool d c = Some t" using b by (simp add: owner_of_def)
    from tspool.recycle_cache [OF C(3) this] Some show ?thesis by (simp add: p_def)
  qed
  have p: "recycledCommands p = recycledCommands (pools d)"
    "recycledCompletionSemaphores p = recycledCompletionSemaphores (pools d)"
    by (simp_all add: p_def split: option.splits)
  have "owner_of commandPool d c = commandPool b" using b by (simp add: owner_of_def)
  note R = recycle_buffer_pool_ok [OF r C(1) [folded p] this]
  have rem: "cbufs d' = (cbufs d)(c := None)" by (simp add: d')
  have "completionSemaphore b = None" using I(4) [OF b] idle unfolding stage_ok_def stage_at_def by blast
  then have sem: "(owner_of completionSemaphore d)(c := None) = owner_of completionSemaphore d"
    using b by (intro fun_upd_idem) (simp add: owner_of_def)
  have "caches_ok d'"
    using R ts p sem C(2,4) unfolding caches_ok_def owner_of_remove [OF rem]
    by (simp add: d' values_ok_def)
  moreover have "queues_ok d'"
  proof -
    have "stage_ok d' k x" if "k \<noteq> c" "cbufs d k = Some x" for k x
      using that I(4) by (simp add: stage_ok_def queued_def d')
    moreover have "queued d' k = queued d k" for k by (simp add: queued_def d')
    moreover have "completedQueue d' = completedQueue d" "nextBuffer d' = nextBuffer d" by (simp_all add: d')
    ultimately show ?thesis using I(2,5) idle unfolding queues_ok_def by (auto simp: d' split: if_splits)
  qed
  moreover have "calls_ok d' sg cg" using I(3) by (auto simp: calls_ok_def d' split: if_splits)
  ultimately show ?thesis by (simp add: commands_inv_def)
qed

subsection \<open>Submission and completion\<close>

lemma run_scheduled_inv:
  assumes inv: "commands_inv d sg cg" and op: "run_scheduled d = (Inr u, d')"
  shows "commands_inv d' sg cg"
proof (cases "scheduledQueue d")
  case Nil
  then show ?thesis using op inv by (simp add: run_scheduled_def)
next
  case (Cons c rest)
  note I = commands_invD [OF inv]
  obtain b where b: "cbufs d c = Some b" using op Cons
    by (auto simp: run_scheduled_def with_cb_Inr_iff split: option.splits)
  let ?b = "b\<lparr>scheduledHandlers := []\<rparr>"
  have d': "d' = (update_cb c ?b d)\<lparr>scheduledQueue := rest,
      gpuWaits := gpuWaits d @ [c], callLog := callLog d @ map (Scheduled_call c) (scheduledHandlers b)\<rparr>"
    using op Cons b by (simp add: run_scheduled_def with_cb_def)
  have st: "stage_ok d c b" "c < nextBuffer d" using I(4) [OF b] by simp_all
  have q: "queued d c" using Cons by (simp add: queued_def)
  have nc: "c \<notin> set (completedQueue d)" "c \<notin> set (gpuWaits d)" "c \<notin> set rest" using I(5) Cons by auto
  have log: "calls_of c (callLog d) @ map (Scheduled_call c) (scheduledHandlers b) @ map (Completed_call c) (completedHandlers b)
          = map (Scheduled_call c) (sg c) @ map (Completed_call c) (cg c)" by (rule I(6) [OF b])
  have com: "committed b" using st(1) q by (simp add: stage_ok_def stage_at_def)
  have "caches_ok d'" by (rule caches_ok_update [OF I(1) b, where b' = ?b]) (simp_all add: d' update_cb_def)
  moreover have "queues_ok d'"
  proof (rule queues_ok_update [OF I(2) b, where b' = ?b])
    show "stage_ok d' c ?b" using st(1) q nc
      by (auto simp: stage_ok_def stage_at_def queued_def d' update_cb_def)
  qed (use I(5) Cons nc in \<open>auto simp: d' update_cb_def\<close>)
  moreover have "calls_ok d' sg cg"
    by (rule calls_ok_update [OF I(3) b st(2), where b' = ?b and l = "map (Scheduled_call c) (scheduledHandlers b)"])
      (use log com in \<open>simp_all add: d' update_cb_def\<close>)
  ultimately show ?thesis by (simp add: commands_inv_def)
qed

lemma commit_cases:
  assumes op: "commit env c d = (r, d')" and r: "r \<noteq> Inl Abort" "r \<noteq> Inl Undefined"
  obtains (thrown) b e where "cbufs d c = Some b" "r = Inl e" "uploadsOutcome env = Inl e"
      "d' = update_cb c (b\<lparr>committed := True\<rparr>) d"
  | (submitted) b sem p b' s d3 where "cbufs d c = Some b" "recording b" "r = Inr ()"
      "getCompletionSemaphore (nextHandle d, 0) (pools d) = (sem, p)"
      "b' = b\<lparr>committed := True, recording := False, completionSemaphore := Some (fst sem, snd sem + 1)\<rparr>"
      "s = (case submission_textures (commandEncoders b) of (ro, rw) \<Rightarrow>
         submission_semaphores (textureAcquire env) (presentationSemaphore env) (fst sem, snd sem + 1) ro rw)"
      "d3 = (update_cb c b' d)\<lparr>pools := p, nextHandle := nextHandle d + 1, submissions := submissions d @ [s],
         presented := presented d @ drawablesToPresent b\<rparr>"
      "d' = (if scheduledHandlers b = [] then d3\<lparr>gpuWaits := gpuWaits d @ [c]\<rparr>
             else d3\<lparr>scheduledQueue := scheduledQueue d @ [c]\<rparr>)"
proof -
  obtain b where b: "cbufs d c = Some b"
    using op r by (auto simp: commit_def with_cb_Inr_iff split: option.splits)
  show thesis
  proof (cases "uploadsOutcome env")
    case (Inl e)
    then show thesis using op b by (intro thrown [OF b, of e]) (simp_all add: commit_def with_cb_def)
  next
    case (Inr u)
    obtain sem p where g: "getCompletionSemaphore (nextHandle d, 0) (pools d) = (sem, p)" by fastforce
    obtain ro rw where t: "submission_textures (commandEncoders b) = (ro, rw)" by fastforce
    have ok: "recording b" "endOk env" "submitOk env"
      using op r b Inr g t by (auto simp: commit_def with_cb_def Let_def split: if_splits)
    show thesis
      using op b Inr g ok t
      by (intro submitted [OF b ok(1) _ g refl refl refl])
        (auto simp: commit_def with_cb_def Let_def update_cb_def split: if_splits)
  qed
qed

lemma commit_submitted_caches:
  assumes ok: "caches_ok d" and b: "cbufs d c = Some b" "completionSemaphore b = None"
    and g: "getCompletionSemaphore (nextHandle d, 0) (pools d) = (sem, p)"
    and b': "b' = b\<lparr>committed := True, recording := False, completionSemaphore := Some (fst sem, snd sem + 1)\<rparr>"
    and d': "cbufs d' = (cbufs d)(c \<mapsto> b')" "pools d' = p" "nextHandle d' = nextHandle d + 1"
  shows "caches_ok d'"
proof -
  note C = caches_okD [OF ok]
  have n: "owner_of completionSemaphore d c = None" using b by (simp add: owner_of_def)
  have "cache_ok fst completionSemaphoreCapacity (nextHandle d + 1) (recycledCompletionSemaphores p)
      ((owner_of completionSemaphore d)(c \<mapsto> sem))"
    using sempool.acquire_cache [OF C(2) n, of "(nextHandle d, 0)" "nextHandle d + 1"] g by simp
  from cache_ok_rekey [OF this, of c sem "(fst sem, snd sem + 1)"]
  have sem: "cache_ok fst completionSemaphoreCapacity (nextHandle d + 1) (recycledCompletionSemaphores p)
      (owner_of completionSemaphore d')"
    by (simp add: owner_of_update [OF d'(1)] b')
  have p: "recycledCommands p = recycledCommands (pools d)" "timestampPools p = timestampPools (pools d)"
    using g pools_frame(5,6) [of "(nextHandle d, 0)" "pools d"] by simp_all
  have "owner_of commandPool d' = owner_of commandPool d" "owner_of timestampPool d' = owner_of timestampPool d"
    using owner_of_same [OF b(1) d'(1), of commandPool] owner_of_same [OF b(1) d'(1), of timestampPool]
    by (simp_all add: b')
  then show ?thesis
    using sem p cache_ok_mono [OF C(1), of "nextHandle d + 1"] cache_ok_mono [OF C(3), of "nextHandle d + 1"]
      values_ok_get [OF C(4), of "(nextHandle d, 0)"] g d'
    by (simp add: caches_ok_def)
qed

lemma recording_stage:
  assumes "stage_ok d c b" "recording b"
  shows "\<not> queued d c" "c \<notin> set (completedQueue d)" "\<not> completed b" "\<not> handlersCompleted b"
    "completionSemaphore b = None" "commandPool b \<noteq> None"
  using assms unfolding stage_ok_def stage_at_def by blast+

lemma commit_inv:
  assumes inv: "commands_inv d sg cg" and op: "commit env c d = (r, d')" and r: "r \<noteq> Inl Abort" "r \<noteq> Inl Undefined"
  shows "commands_inv d' sg cg"
  using op r
proof (cases rule: commit_cases)
  case (thrown b e)
  note I = commands_invD [OF inv]
  have "stage_ok d c (b\<lparr>committed := True\<rparr>)" using I(4) [OF thrown(1)] by (auto simp: stage_ok_def stage_at_def)
  then show ?thesis
    by (rule commands_inv_update [OF inv thrown(1,4), rotated 3]) (use I(6) [OF thrown(1)] in simp_all)
next
  case (submitted b sem p b' s d3)
  note I = commands_invD [OF inv] and b = submitted(1)
  note R = recording_stage [OF conjunct1 [OF I(4) [OF b]] submitted(2)]
  have cb: "cbufs d' = (cbufs d)(c \<mapsto> b')" "nextBuffer d' = nextBuffer d" "pools d' = p" "nextHandle d' = nextHandle d + 1"
    "callLog d' = callLog d @ []" "completedQueue d' = completedQueue d"
    using submitted(7,8) by (simp_all add: update_cb_def)
  have q: "scheduledQueue d' = (if scheduledHandlers b = [] then scheduledQueue d else scheduledQueue d @ [c])"
    "gpuWaits d' = (if scheduledHandlers b = [] then gpuWaits d @ [c] else gpuWaits d)"
    using submitted(7,8) by (simp_all add: update_cb_def)
  have nq: "c \<notin> set (scheduledQueue d)" "c \<notin> set (gpuWaits d)" using R(1) by (simp_all add: queued_def)
  have "caches_ok d'"
    by (rule commit_submitted_caches [OF I(1) b R(5) submitted(4,5) cb(1,3,4)])
  moreover have "queues_ok d'"
  proof (rule queues_ok_update [OF I(2) b cb(1,2)])
    show "stage_ok d' c b'" using R nq by (simp add: stage_ok_def stage_at_def queued_def q cb submitted(5))
  qed (use I(5) nq R(2) in \<open>auto simp: q cb\<close>)
  moreover have "calls_ok d' sg cg"
    by (rule calls_ok_update [OF I(3) b _ cb(1,2,5)]) (use I(4,6) [OF b] submitted(5) in simp_all)
  ultimately show ?thesis by (simp add: commands_inv_def)
qed

text \<open>The completion callback queues the completed handlers; with nothing to do it runs them itself.\<close>

definition complete_queued :: "cb_env \<Rightarrow> nat \<Rightarrow> command_buffer \<Rightarrow> command_device \<Rightarrow> command_device" where
  "complete_queued env c b0 d =
     (let (b, p) = recycle_buffer_pool env b0 (pools d);
          p = (case completionSemaphore b of None \<Rightarrow> p | Some s \<Rightarrow> releaseCompletionSemaphore s p);
          b = b\<lparr>commandEncoders := [], completed := True, completionSemaphore := None\<rparr>
      in (update_cb c b d)\<lparr>pools := p, gpuWaits := remove1 c (gpuWaits d), completedQueue := completedQueue d @ [c]\<rparr>)"

lemma complete_cases:
  assumes op: "complete env c d = (Inr u, d')" and nc: "c \<notin> set (completedQueue d)"
  obtains b0 where "cbufs d c = Some b0"
    "d' = complete_queued env c b0 d \<or> run_completed c (complete_queued env c b0 d) = (Inr u, d')"
proof -
  obtain b0 where b0: "cbufs d c = Some b0"
    using op by (auto simp: complete_def with_cb_Inr_iff split: option.splits)
  obtain b p where r: "recycle_buffer_pool env b0 (pools d) = (b, p)" by fastforce
  have "remove1 c (completedQueue d @ [c]) = completedQueue d" using nc by (simp add: remove1_append)
  then have "d' = complete_queued env c b0 d \<or> run_completed c (complete_queued env c b0 d) = (Inr u, d')"
    using op b0 r
    by (auto simp: complete_def with_cb_def complete_queued_def Let_def run_completed_def update_cb_def
        finishCompletedHandlers_def split: if_splits)
  then show thesis by (rule that [OF b0])
qed

lemma complete_queued_inv:
  assumes inv: "commands_inv d sg cg" and b: "cbufs d c = Some b" and c: "c \<in> set (gpuWaits d)"
  shows "commands_inv (complete_queued env c b d) sg cg"
proof -
  note I = commands_invD [OF inv]
  note C = caches_okD [OF I(1)]
  have st: "stage_ok d c b" using I(4) [OF b] by simp
  obtain s where s: "completionSemaphore b = Some s"
    using st c unfolding stage_ok_def stage_at_def queued_def by auto
  obtain x p where r: "recycle_buffer_pool env b (pools d) = (x, p)" by fastforce
  have "owner_of commandPool d c = commandPool b" using b by (simp add: owner_of_def)
  note R = recycle_buffer_pool_ok [OF r C(1) this]
  define b' where "b' = b\<lparr>commandPool := None, commandEncoders := [], completed := True, completionSemaphore := None\<rparr>"
  define d' where "d' = complete_queued env c b d"
  have d: "cbufs d' = (cbufs d)(c \<mapsto> b')" "nextBuffer d' = nextBuffer d" "nextHandle d' = nextHandle d"
    "callLog d' = callLog d @ []" "pools d' = releaseCompletionSemaphore s p" "scheduledQueue d' = scheduledQueue d"
    "gpuWaits d' = remove1 c (gpuWaits d)" "completedQueue d' = completedQueue d @ [c]"
    using s R(2) by (simp_all add: d'_def complete_queued_def r Let_def update_cb_def b'_def)
  have dist: "distinct (gpuWaits d)" "c \<notin> set (scheduledQueue d)" "c \<notin> set (completedQueue d)" using I(5) c by auto
  have "owner_of completionSemaphore d c = Some s" using b s by (simp add: owner_of_def)
  then have "cache_ok fst completionSemaphoreCapacity (nextHandle d)
      (recycledCompletionSemaphores (releaseCompletionSemaphore s p)) ((owner_of completionSemaphore d)(c := None))"
    using sempool.recycle_cache [of "nextHandle d" p "owner_of completionSemaphore d" c s] C(2) R(4) by simp
  moreover have "owner_of timestampPool d' = owner_of timestampPool d"
    using owner_of_same [OF b d(1), of timestampPool] by (simp add: b'_def)
  moreover have "values_ok p" using C(4) R(4) by (simp add: values_ok_def)
  ultimately have "caches_ok d'"
    using R(1,3) C(3) values_ok_release [of p s]
    by (simp add: caches_ok_def d owner_of_update [OF d(1)] b'_def)
  moreover have "queues_ok d'"
  proof (rule queues_ok_update [OF I(2) b d(1,2)])
    show "stage_ok d' c b'" using st c dist by (auto simp: stage_ok_def stage_at_def queued_def d b'_def)
  qed (use I(5) dist in \<open>auto simp: d\<close>)
  moreover have "calls_ok d' sg cg"
    by (rule calls_ok_update [OF I(3) b _ d(1,2,4)]) (use I(4,6,7) [OF b] in \<open>simp_all add: b'_def\<close>)
  ultimately show ?thesis by (simp add: commands_inv_def d'_def)
qed

lemma run_completed_inv:
  assumes inv: "commands_inv d sg cg" and op: "run_completed c d = (Inr u, d')" and c: "c \<in> set (completedQueue d)"
  shows "commands_inv d' sg cg"
proof -
  note I = commands_invD [OF inv]
  obtain b where b: "cbufs d c = Some b"
    using op by (auto simp: run_completed_def finishCompletedHandlers_def with_cb_Inr_iff split: option.splits)
  define b' where "b' = b\<lparr>completedHandlers := [], handlersCompleted := True\<rparr>"
  have d: "cbufs d' = (cbufs d)(c \<mapsto> b')" "nextBuffer d' = nextBuffer d" "nextHandle d' = nextHandle d"
    "callLog d' = callLog d @ map (Completed_call c) (completedHandlers b)" "pools d' = pools d"
    "scheduledQueue d' = scheduledQueue d" "gpuWaits d' = gpuWaits d" "completedQueue d' = remove1 c (completedQueue d)"
    using op b by (auto simp: run_completed_def finishCompletedHandlers_def with_cb_def update_cb_def b'_def)
  have st: "stage_ok d c b" "c < nextBuffer d" using I(4) [OF b] by simp_all
  then have w: "scheduledHandlers b = []" "completed b" "committed b"
    using c unfolding stage_ok_def stage_at_def by blast+
  have dist: "distinct (completedQueue d)" "c \<notin> set (scheduledQueue d)" "c \<notin> set (gpuWaits d)" using I(5) c by auto
  have "caches_ok d'" by (rule caches_ok_update [OF I(1) b d(1,5,3)]) (simp_all add: b'_def)
  moreover have "queues_ok d'"
  proof (rule queues_ok_update [OF I(2) b d(1,2)])
    show "stage_ok d' c b'" using st w dist by (auto simp: stage_ok_def stage_at_def queued_def d b'_def)
  qed (use I(5) dist in \<open>auto simp: d\<close>)
  moreover have "calls_ok d' sg cg"
    by (rule calls_ok_update [OF I(3) b st(2) d(1,2,4)]) (use I(6) [OF b] w in \<open>simp_all add: b'_def\<close>)
  ultimately show ?thesis by (simp add: commands_inv_def)
qed

lemma complete_inv:
  assumes inv: "commands_inv d sg cg" and op: "complete env c d = (Inr u, d')" and c: "c \<in> set (gpuWaits d)"
  shows "commands_inv d' sg cg"
proof -
  have "c \<notin> set (completedQueue d)" using commands_invD(5) [OF inv] c by auto
  from complete_cases [OF op this] obtain b where b: "cbufs d c = Some b"
    and d': "d' = complete_queued env c b d \<or> run_completed c (complete_queued env c b d) = (Inr u, d')" .
  note q = complete_queued_inv [OF inv b c, of env]
  have "c \<in> set (completedQueue (complete_queued env c b d))" by (simp add: complete_queued_def Let_def split: prod.splits)
  then show ?thesis using d' q run_completed_inv [OF q] by blast
qed

subsection \<open>Completion signals\<close>

text \<open>The semaphore and value a submission signals when it is done.\<close>

definition completion_signals :: "command_device \<Rightarrow> (nat \<times> u64) list" where
  "completion_signals d = map (\<lambda>s. hd (snd s)) (submissions d)"

lemma handleTextureSemaphores_signals:
  "\<exists>l. snd (handleTextureSemaphores acq t ws) = snd ws @ l"
  by (auto simp: handleTextureSemaphores_def Let_def split: prod.splits)

lemma fold_signals:
  assumes "\<And>t ws. \<exists>l. snd (f t ws) = snd ws @ l"
  shows "\<exists>l. snd (fold f ts ws) = snd ws @ l"
proof (induction ts arbitrary: ws)
  case (Cons t ts)
  obtain l where "snd (f t ws) = snd ws @ l" using assms by blast
  moreover obtain m where "snd (fold f ts (f t ws)) = snd (f t ws) @ m" using Cons by blast
  ultimately show ?case by simp
qed simp

lemma submission_signal: "hd (snd (submission_semaphores acq pr completion ro rw)) = completion"
proof -
  let ?f = "\<lambda>t (waits, signals). handleTextureSemaphores acq t
             (waits, signals @ (case pr t of None \<Rightarrow> [] | Some s \<Rightarrow> [(s, 0)]))"
  obtain l where l: "snd (fold (handleTextureSemaphores acq) ro ([], [completion])) = [completion] @ l"
    using fold_signals [of "handleTextureSemaphores acq", OF handleTextureSemaphores_signals] by (metis snd_conv)
  have "\<exists>m. snd (?f t ws) = snd ws @ m" for t ws
    using handleTextureSemaphores_signals [of acq t "(fst ws, snd ws @ (case pr t of None \<Rightarrow> [] | Some s \<Rightarrow> [(s, 0)]))"]
    by (auto simp: case_prod_beta)
  from fold_signals [of ?f, OF this] obtain m where
    "snd (fold ?f rw (fold (handleTextureSemaphores acq) ro ([], [completion])))
      = snd (fold (handleTextureSemaphores acq) ro ([], [completion])) @ m" by blast
  then show ?thesis unfolding submission_semaphores_def l by simp
qed

definition known_semaphores :: "command_device \<Rightarrow> (nat \<times> u64) set" where
  "known_semaphores d = set (recycledCompletionSemaphores (pools d)) \<union> {e. \<exists>c. owner_of completionSemaphore d c = Some e}"

definition signals_ok :: "command_device \<Rightarrow> bool" where
  "signals_ok d \<longleftrightarrow> sorted_wrt (\<lambda>x y. fst x = fst y \<longrightarrow> snd x < snd y) (completion_signals d)
     \<and> (\<forall>x\<in>set (completion_signals d). fst x < nextHandle d
          \<and> (\<forall>e\<in>known_semaphores d. fst e = fst x \<longrightarrow> snd x \<le> snd e))"

lemma signals_ok_frame:
  assumes "signals_ok d" "submissions d' = submissions d" "nextHandle d \<le> nextHandle d'"
    "known_semaphores d' \<subseteq> known_semaphores d"
  shows "signals_ok d'"
proof -
  have "completion_signals d' = completion_signals d" using assms(2) by (simp add: completion_signals_def)
  then show ?thesis using assms(1,3,4) unfolding signals_ok_def by (auto dest: less_le_trans)
qed

lemma known_sub:
  assumes "\<And>k e. owner_of completionSemaphore d' k = Some e \<Longrightarrow> owner_of completionSemaphore d k = Some e"
    "set (recycledCompletionSemaphores (pools d')) \<subseteq> known_semaphores d"
  shows "known_semaphores d' \<subseteq> known_semaphores d"
  using assms unfolding known_semaphores_def by blast

lemma known_idle: "set (recycledCompletionSemaphores (pools d)) \<subseteq> known_semaphores d"
  by (simp add: known_semaphores_def)

lemma signals_ok_update:
  assumes "signals_ok d" "cbufs d c = Some b" "cbufs d' = (cbufs d)(c \<mapsto> b')" "completionSemaphore b' = completionSemaphore b"
    "pools d' = pools d" "submissions d' = submissions d" "nextHandle d' = nextHandle d"
  shows "signals_ok d'"
proof (rule signals_ok_frame [OF assms(1,6)])
  show "known_semaphores d' \<subseteq> known_semaphores d"
    using known_idle owner_of_same [where g = completionSemaphore, OF assms(2,3,4)]
    by (intro known_sub) (simp_all add: assms(5))
qed (simp add: assms)

lemma new_command_buffer_signals:
  assumes inv: "commands_inv d sg cg" and ok: "signals_ok d" and op: "new_command_buffer env d = (Inr c, d')"
  shows "signals_ok d'"
proof -
  obtain e p1 where a: "acquireCommandPool (nextHandle d, nextHandle d + 1) (pools d) = (e, p1)" by fastforce
  obtain ts p2 where t: "beginGpuTiming env (nextHandle d + 2) p1 = (ts, p2)" by fastforce
  have d': "submissions d' = submissions d" "nextHandle d \<le> nextHandle d'" "pools d' = p2"
    and cb: "owner_of completionSemaphore d' k = Some e \<Longrightarrow> owner_of completionSemaphore d k = Some e" for k e
    using op a t by (auto simp: new_command_buffer_def Let_def owner_of_def split: if_splits)
  have "recycledCompletionSemaphores p2 = recycledCompletionSemaphores p1"
    using t by (auto simp: beginGpuTiming_def acquireTimestampPool_def split: if_splits)
  moreover have "recycledCompletionSemaphores p1 = recycledCompletionSemaphores (pools d)"
    using a pools_frame(1) by (metis snd_conv)
  ultimately have "known_semaphores d' \<subseteq> known_semaphores d"
    using cb known_idle [of d] by (intro known_sub) (simp_all add: d')
  then show ?thesis by (rule signals_ok_frame [OF ok d'(1,2)])
qed

lemma destroy_command_buffer_signals:
  assumes ok: "signals_ok d" and op: "destroy_command_buffer env c d = (Inr u, d')"
  shows "signals_ok d'"
proof -
  obtain b where b: "cbufs d c = Some b"
    using op by (cases "cbufs d c") (simp_all add: destroy_command_buffer_def)
  have d': "submissions d' = submissions d" "nextHandle d \<le> nextHandle d'" "cbufs d' = (cbufs d)(c := None)"
    "recycledCompletionSemaphores (pools d') = recycledCompletionSemaphores (pools d)"
    using op b by (auto simp: destroy_command_buffer_def Let_def recycle_buffer_pool_def split: option.splits)
  have "known_semaphores d' \<subseteq> known_semaphores d"
    by (auto simp: known_semaphores_def d'(4) owner_of_remove [OF d'(3)] split: if_splits)
  then show ?thesis by (rule signals_ok_frame [OF ok d'(1,2)])
qed

lemma complete_queued_signals:
  assumes ok: "signals_ok d" and b: "cbufs d c = Some b"
  shows "signals_ok (complete_queued env c b d)"
proof -
  define d' where "d' = complete_queued env c b d"
  have x: "recycledCompletionSemaphores (snd (recycle_buffer_pool env b (pools d))) = recycledCompletionSemaphores (pools d)"
    "completionSemaphore (fst (recycle_buffer_pool env b (pools d))) = completionSemaphore b"
    by (simp_all add: recycle_buffer_pool_def split: option.splits)
  have cb: "owner_of completionSemaphore d' k = Some e \<Longrightarrow> owner_of completionSemaphore d k = Some e"
    and d': "submissions d' = submissions d" "nextHandle d \<le> nextHandle d'" for k e
    by (auto simp: d'_def complete_queued_def Let_def update_cb_def owner_of_def split: prod.splits if_splits)
  have "set (recycledCompletionSemaphores (pools d')) \<subseteq> known_semaphores d"
  proof (cases "completionSemaphore b")
    case None
    then have "recycledCompletionSemaphores (pools d') = recycledCompletionSemaphores (pools d)"
      using x by (cases "recycle_buffer_pool env b (pools d)") (simp add: d'_def complete_queued_def Let_def)
    then show ?thesis using known_idle [of d] by simp
  next
    case (Some s)
    then have "owner_of completionSemaphore d c = Some s" using b by (simp add: owner_of_def)
    then have "s \<in> known_semaphores d" by (auto simp: known_semaphores_def)
    moreover have "recycledCompletionSemaphores (pools d') =
        recycledCompletionSemaphores (releaseCompletionSemaphore s (snd (recycle_buffer_pool env b (pools d))))"
      using x(2) Some by (cases "recycle_buffer_pool env b (pools d)") (simp add: d'_def complete_queued_def Let_def)
    ultimately show ?thesis
      using sempool.recycle_subset [of s "snd (recycle_buffer_pool env b (pools d))"] x(1)
      by (auto simp: known_semaphores_def)
  qed
  then have "known_semaphores d' \<subseteq> known_semaphores d" using cb by (intro known_sub)
  then have "signals_ok d'" by (rule signals_ok_frame [OF ok d'])
  then show ?thesis by (simp add: d'_def)
qed

lemma run_completed_signals:
  assumes ok: "signals_ok d" and op: "run_completed c d = (Inr u, d')"
  shows "signals_ok d'"
proof -
  obtain b where b: "cbufs d c = Some b"
    using op by (auto simp: run_completed_def finishCompletedHandlers_def with_cb_Inr_iff split: option.splits)
  then show ?thesis
    using op by (intro signals_ok_update [OF ok b, where b' = "b\<lparr>completedHandlers := [], handlersCompleted := True\<rparr>"])
      (auto simp: run_completed_def finishCompletedHandlers_def with_cb_def update_cb_def)
qed

lemma complete_signals:
  assumes inv: "commands_inv d sg cg" and ok: "signals_ok d" and op: "complete env c d = (Inr u, d')"
    and c: "c \<in> set (gpuWaits d)"
  shows "signals_ok d'"
proof -
  have "c \<notin> set (completedQueue d)" using commands_invD(5) [OF inv] c by auto
  from complete_cases [OF op this] show ?thesis
    using complete_queued_signals [OF ok] run_completed_signals by metis
qed

lemma commit_signals:
  assumes inv: "commands_inv d sg cg" and ok: "signals_ok d"
    and op: "commit env c d = (r, d')" and r: "r \<noteq> Inl Abort" "r \<noteq> Inl Undefined"
  shows "signals_ok d'"
  using op r
proof (cases rule: commit_cases)
  case (thrown b e)
  then show ?thesis
    by (intro signals_ok_update [OF ok thrown(1), where b' = "b\<lparr>committed := True\<rparr>"]) (simp_all add: update_cb_def)
next
  case (submitted b sem p b' s d3)
  let ?x = "(fst sem, snd sem + 1)"
  have d: "cbufs d' = (cbufs d)(c \<mapsto> b')" "pools d' = p" "nextHandle d' = nextHandle d + 1"
    "submissions d' = submissions d @ [s]"
    using submitted(7,8) by (simp_all add: update_cb_def)
  have x: "hd (snd s) = ?x" using submitted(6) by (simp add: submission_signal split: prod.splits)
  have S: "completion_signals d' = completion_signals d @ [?x]" by (simp add: completion_signals_def d x)
  have vals: "values_ok (pools d)" using commands_invD(1) [OF inv] by (simp add: caches_ok_def)
  have step: "unat (snd sem + 1) = unat (snd sem) + 1"
    using getCompletionSemaphore_next [OF vals, of "(nextHandle d, 0)"] submitted(4) by simp
  then have lt: "snd sem < snd sem + 1" by (simp add: word_less_nat_alt)
  have old: "snd y \<le> snd sem" if "y \<in> set (completion_signals d)" "fst y = fst sem" for y
  proof -
    have "sem = (nextHandle d, 0) \<or> sem \<in> known_semaphores d"
      using sempool.acquire_entry [of "(nextHandle d, 0)" "pools d"] submitted(4) by (auto simp: known_semaphores_def)
    then show ?thesis using that ok by (auto simp: signals_ok_def)
  qed
  have sort: "sorted_wrt (\<lambda>x y. fst x = fst y \<longrightarrow> snd x < snd y) (completion_signals d')"
    using ok old lt unfolding S sorted_wrt_append signals_ok_def by (auto intro: le_less_trans)
  have b': "completionSemaphore b' = Some ?x" by (simp add: submitted(5))
  have C: "cache_ok fst completionSemaphoreCapacity (nextHandle d') (recycledCompletionSemaphores (pools d'))
        (owner_of completionSemaphore d')"
    using commands_invD(1) [OF commit_inv [OF inv op r]] by (simp add: caches_ok_def)
  note E = exclusiveD [OF cache_ok_exclusive [OF C]]
  have own: "owner_of completionSemaphore d' c = Some ?x" by (simp add: owner_of_update [OF d(1)] b')
  have known: "e \<in> known_semaphores d \<or> e = ?x" if "e \<in> known_semaphores d'" for e
    using that sempool.acquire_subset [of "(nextHandle d, 0)" "pools d"] submitted(4)
    by (auto simp: known_semaphores_def d(2) owner_of_update [OF d(1)] b' split: if_splits)
  have only: "e = ?x" if e: "e \<in> known_semaphores d'" "fst e = fst sem" for e
  proof -
    have "e \<notin> set (recycledCompletionSemaphores (pools d'))" using E(2) [OF own] e(2) by (auto simp: image_iff)
    then obtain k where k: "owner_of completionSemaphore d' k = Some e"
      using e(1) by (auto simp: known_semaphores_def)
    have "k = c" by (rule E(3) [OF k own]) (simp add: e)
    then show ?thesis using k own by simp
  qed
  have "fst y < nextHandle d' \<and> (\<forall>e\<in>known_semaphores d'. fst e = fst y \<longrightarrow> snd y \<le> snd e)"
    if y: "y \<in> set (completion_signals d)" for y
  proof (intro conjI ballI impI)
    show "fst y < nextHandle d'" using y ok d(3) by (auto simp: signals_ok_def)
    show "snd y \<le> snd e" if e: "e \<in> known_semaphores d'" "fst e = fst y" for e
    proof (cases "e = ?x")
      case True
      then have "snd y \<le> snd sem" using old [OF y] e(2) by simp
      then show ?thesis using True lt by (simp add: le_less_trans less_imp_le)
    next
      case False
      then show ?thesis using known [OF e(1)] e(2) y ok by (simp add: signals_ok_def)
    qed
  qed
  moreover have "fst ?x < nextHandle d'" using C own by (auto simp: cache_ok_def)
  ultimately show ?thesis using sort only unfolding signals_ok_def S by auto
qed

subsection \<open>Every history of a device\<close>

type_synonym cb_history = "command_device \<times> (nat \<Rightarrow> nat list) \<times> (nat \<Rightarrow> nat list)"

text \<open>A device with the handlers each buffer was given: the scheduled and the completed ones. The
  event loop calls the completion of a registered buffer once; a buffer is destroyed when no queue
  and no callback holds it.\<close>

inductive cb_step :: "cb_history \<Rightarrow> cb_history \<Rightarrow> bool" where
  create: "new_command_buffer env d = (Inr c, d') \<Longrightarrow> cb_step (d, sg, cg) (d', sg, cg)"
| destroy: "destroy_command_buffer env c d = (Inr u, d') \<Longrightarrow> \<not> queued d c \<Longrightarrow> c \<notin> set (completedQueue d) \<Longrightarrow>
    cb_step (d, sg, cg) (d', sg, cg)"
| encode: "add_encoder e c d = (Inr u, d') \<Longrightarrow> cb_step (d, sg, cg) (d', sg, cg)"
| present: "presentDrawable dr c d = (Inr u, d') \<Longrightarrow> cb_step (d, sg, cg) (d', sg, cg)"
| on_scheduled: "addScheduledHandler h c d = (Inr u, d') \<Longrightarrow> cb_step (d, sg, cg) (d', sg(c := sg c @ [h]), cg)"
| on_completed: "addCompletedHandler h c d = (Inr u, d') \<Longrightarrow> cb_step (d, sg, cg) (d', sg, cg(c := cg c @ [h]))"
| submit: "commit env c d = (r, d') \<Longrightarrow> r \<noteq> Inl Abort \<Longrightarrow> r \<noteq> Inl Undefined \<Longrightarrow> cb_step (d, sg, cg) (d', sg, cg)"
| scheduled: "run_scheduled d = (Inr u, d') \<Longrightarrow> cb_step (d, sg, cg) (d', sg, cg)"
| signalled: "complete env c d = (Inr u, d') \<Longrightarrow> c \<in> set (gpuWaits d) \<Longrightarrow> cb_step (d, sg, cg) (d', sg, cg)"
| finished: "run_completed c d = (Inr u, d') \<Longrightarrow> c \<in> set (completedQueue d) \<Longrightarrow> cb_step (d, sg, cg) (d', sg, cg)"

inductive cb_reach :: "cb_history \<Rightarrow> bool" where
  start: "cb_reach (init_commands, \<lambda>_. [], \<lambda>_. [])"
| step: "cb_reach s \<Longrightarrow> cb_step s s' \<Longrightarrow> cb_reach s'"

lemma run_scheduled_signals:
  assumes ok: "signals_ok d" and op: "run_scheduled d = (Inr u, d')"
  shows "signals_ok d'"
proof (cases "scheduledQueue d")
  case Nil
  then show ?thesis using op ok by (simp add: run_scheduled_def)
next
  case (Cons c rest)
  obtain b where b: "cbufs d c = Some b" using op Cons
    by (auto simp: run_scheduled_def with_cb_Inr_iff split: option.splits)
  show ?thesis
    using op Cons b by (intro signals_ok_update [OF ok b, where b' = "b\<lparr>scheduledHandlers := []\<rparr>"])
      (auto simp: run_scheduled_def with_cb_def update_cb_def)
qed

lemma cb_update_signals:
  assumes ok: "signals_ok d"
    and "\<exists>b b'. cbufs d c = Some b \<and> d' = update_cb c b' d \<and> completionSemaphore b' = completionSemaphore b"
  shows "signals_ok d'"
proof -
  obtain b b' where b: "cbufs d c = Some b" "d' = update_cb c b' d" "completionSemaphore b' = completionSemaphore b"
    using assms(2) by blast
  show ?thesis by (rule signals_ok_update [OF ok b(1), where b' = b']) (simp_all add: b update_cb_def)
qed

lemma add_update:
  "add_encoder e c d = (Inr u, d') \<Longrightarrow>
     \<exists>b b'. cbufs d c = Some b \<and> d' = update_cb c b' d \<and> completionSemaphore b' = completionSemaphore b"
  "presentDrawable dr c d = (Inr u, d') \<Longrightarrow>
     \<exists>b b'. cbufs d c = Some b \<and> d' = update_cb c b' d \<and> completionSemaphore b' = completionSemaphore b"
  "addScheduledHandler h c d = (Inr u, d') \<Longrightarrow>
     \<exists>b b'. cbufs d c = Some b \<and> d' = update_cb c b' d \<and> completionSemaphore b' = completionSemaphore b"
  "addCompletedHandler h c d = (Inr u, d') \<Longrightarrow>
     \<exists>b b'. cbufs d c = Some b \<and> d' = update_cb c b' d \<and> completionSemaphore b' = completionSemaphore b"
  unfolding add_encoder_def presentDrawable_def addScheduledHandler_def addCompletedHandler_def with_cb_Inr_iff
  by (force split: option.splits if_splits)+

lemma cb_step_inv:
  assumes "cb_step (d, sg, cg) (d', sg', cg')" "commands_inv d sg cg" "signals_ok d"
  shows "commands_inv d' sg' cg' \<and> signals_ok d'"
  using assms(1)
proof (cases rule: cb_step.cases)
  case (create env c)
  then show ?thesis using new_command_buffer_inv new_command_buffer_signals assms by blast
next
  case (destroy env c u)
  then show ?thesis using destroy_command_buffer_inv destroy_command_buffer_signals assms by blast
next
  case (encode e c u)
  then show ?thesis using add_encoder_inv cb_update_signals [OF assms(3) add_update(1)] assms by blast
next
  case (present dr c u)
  then show ?thesis using presentDrawable_inv cb_update_signals [OF assms(3) add_update(2)] assms by blast
next
  case (on_scheduled h c u)
  then show ?thesis using addScheduledHandler_inv cb_update_signals [OF assms(3) add_update(3)] assms by blast
next
  case (on_completed h c u)
  then show ?thesis using addCompletedHandler_inv cb_update_signals [OF assms(3) add_update(4)] assms by blast
next
  case (submit env c r)
  then show ?thesis using commit_inv commit_signals assms by blast
next
  case (scheduled u)
  then show ?thesis using run_scheduled_inv run_scheduled_signals assms by blast
next
  case (signalled env c u)
  then show ?thesis using complete_inv complete_signals assms by blast
next
  case (finished c u)
  then show ?thesis using run_completed_inv run_completed_signals assms by blast
qed

lemma init_signals: "signals_ok init_commands"
  by (simp add: signals_ok_def completion_signals_def init_commands_def)

lemma cb_reach_inv: "cb_reach (d, sg, cg) \<Longrightarrow> commands_inv d sg cg \<and> signals_ok d"
proof (induction "(d, sg, cg)" arbitrary: d sg cg rule: cb_reach.induct)
  case start
  show ?case by (simp add: init_commands_inv init_signals)
next
  case (step s)
  then show ?case by (metis cb_step_inv prod_cases3)
qed

lemmas cb_reachD = cb_reach_inv [THEN conjunct1]

end
