(* ===== verification/CommandProperties.thy ===== *)
theory CommandProperties
  imports CommandSafety
begin

section \<open>Properties of the command buffers\<close>

text \<open>
  What holds of the command buffers of a device in every history: ownership of the driver handles,
  the calls of the handlers, the end of all submitted work, the order of the completion signals
  and the textures of a submission.
\<close>

subsection \<open>All submitted work finishes\<close>

definition submitted_buffer :: "command_device \<Rightarrow> nat \<Rightarrow> bool" where
  "submitted_buffer d c \<longleftrightarrow> (\<exists>b. cbufs d c = Some b \<and> \<not> recording b)"

definition pending_work :: "command_device \<Rightarrow> nat" where
  "pending_work d = 3 * length (scheduledQueue d) + 2 * length (gpuWaits d) + length (completedQueue d)"

lemma pending_work_zero: "pending_work d = 0 \<longleftrightarrow> scheduledQueue d = [] \<and> gpuWaits d = [] \<and> completedQueue d = []"
  by (auto simp: pending_work_def)

lemma idle_wait_returns:
  assumes inv: "commands_inv d sg cg" and p: "pending_work d = 0" and c: "submitted_buffer d c"
  shows "wait_returns c d"
proof -
  obtain b where b: "cbufs d c = Some b" "\<not> recording b" using c by (auto simp: submitted_buffer_def)
  have "stage_ok d c b" using commands_invD(4) [OF inv b(1)] by simp
  then have "handlersCompleted b"
    using b(2) p unfolding stage_ok_def stage_at_def queued_def pending_work_zero by auto
  then show ?thesis by (simp add: wait_returns_def b)
qed

lemma run_scheduled_progress:
  assumes inv: "commands_inv d sg cg" and q: "scheduledQueue d = c # rest"
  shows "\<exists>d'. run_scheduled d = (Inr (), d') \<and> pending_work d' < pending_work d
    \<and> (\<forall>c. submitted_buffer d c \<longrightarrow> submitted_buffer d' c)"
proof -
  have "queued d c" using q by (simp add: queued_def)
  then obtain b where "cbufs d c = Some b" using commands_invD(2) [OF inv] unfolding queues_ok_def by blast
  then show ?thesis using q by (simp add: run_scheduled_def with_cb_def pending_work_def submitted_buffer_def update_cb_def)
qed

lemma run_completed_progress:
  assumes inv: "commands_inv d sg cg" and q: "c \<in> set (completedQueue d)"
  shows "\<exists>d'. run_completed c d = (Inr (), d') \<and> pending_work d' < pending_work d
    \<and> (\<forall>c. submitted_buffer d c \<longrightarrow> submitted_buffer d' c)"
proof -
  obtain b where b: "cbufs d c = Some b" using q commands_invD(2) [OF inv] unfolding queues_ok_def by blast
  have "length (remove1 c (completedQueue d)) < length (completedQueue d)"
    using q length_pos_if_in_set [OF q] by (simp add: length_remove1)
  then show ?thesis using b
    by (simp add: run_completed_def finishCompletedHandlers_def with_cb_def pending_work_def submitted_buffer_def update_cb_def)
qed

lemma complete_progress:
  assumes inv: "commands_inv d sg cg" and q: "c \<in> set (gpuWaits d)"
  shows "\<exists>d'. complete env c d = (Inr (), d') \<and> pending_work d' < pending_work d
    \<and> (\<forall>c. submitted_buffer d c \<longrightarrow> submitted_buffer d' c)"
proof -
  have "queued d c" using q by (simp add: queued_def)
  then obtain b where b: "cbufs d c = Some b" using commands_invD(2) [OF inv] unfolding queues_ok_def by blast
  have "stage_ok d c b" using commands_invD(4) [OF inv b] by simp
  then have r: "\<not> recording b" using \<open>queued d c\<close> unfolding stage_ok_def stage_at_def by blast
  obtain x p where x: "recycle_buffer_pool env b (pools d) = (x, p)" by fastforce
  then have rx: "\<not> recording x" using r by (auto simp: recycle_buffer_pool_def split: option.splits)
  have "2 * length (remove1 c (gpuWaits d)) + 1 < 2 * length (gpuWaits d)"
    using q length_pos_if_in_set [OF q] by (cases "length (gpuWaits d)") (simp_all add: length_remove1)
  then show ?thesis using b x rx
    by (auto simp: complete_def finishCompletedHandlers_def with_cb_def pending_work_def submitted_buffer_def
        update_cb_def Let_def)
qed

lemma drain_step:
  assumes inv: "commands_inv d sg cg" and p: "pending_work d \<noteq> 0"
  shows "\<exists>d'. cb_step (d, sg, cg) (d', sg, cg) \<and> pending_work d' < pending_work d
    \<and> (\<forall>c. submitted_buffer d c \<longrightarrow> submitted_buffer d' c)"
proof -
  consider c rest where "scheduledQueue d = c # rest" | c where "c \<in> set (gpuWaits d)" | c where "c \<in> set (completedQueue d)"
    using p unfolding pending_work_zero by (metis list.exhaust list.set_intros(1))
  then show ?thesis
  proof cases
    case 1
    then show ?thesis using run_scheduled_progress [OF inv] cb_step.scheduled by meson
  next
    case 2
    then show ?thesis using complete_progress [OF inv] cb_step.signalled by meson
  next
    case 3
    then show ?thesis using run_completed_progress [OF inv] cb_step.finished by meson
  qed
qed

lemma drains:
  assumes "cb_reach (d, sg, cg)"
  shows "\<exists>d'. cb_step\<^sup>*\<^sup>* (d, sg, cg) (d', sg, cg) \<and> cb_reach (d', sg, cg) \<and> pending_work d' = 0
    \<and> (\<forall>c. submitted_buffer d c \<longrightarrow> submitted_buffer d' c)"
  using assms
proof (induction "pending_work d" arbitrary: d rule: less_induct)
  case less
  show ?case
  proof (cases "pending_work d = 0")
    case True
    then show ?thesis using less.prems by blast
  next
    case False
    obtain d1 where d1: "cb_step (d, sg, cg) (d1, sg, cg)" "pending_work d1 < pending_work d"
      "\<And>c. submitted_buffer d c \<Longrightarrow> submitted_buffer d1 c"
      using drain_step [OF cb_reachD [OF less.prems] False] by blast
    obtain d' where d': "cb_step\<^sup>*\<^sup>* (d1, sg, cg) (d', sg, cg)" "cb_reach (d', sg, cg)" "pending_work d' = 0"
      "\<And>c. submitted_buffer d1 c \<Longrightarrow> submitted_buffer d' c"
      using less.hyps [OF d1(2) cb_reach.step [OF less.prems d1(1)]] by blast
    show ?thesis using d' d1 by (meson converse_rtranclp_into_rtranclp)
  qed
qed

subsection \<open>The textures of a submission\<close>

lemma emplace_keys: "fst ` set (emplace k v m) = insert k (fst ` set m)"
  by (induction k v m rule: emplace.induct) (auto simp: insert_commute)

lemma emplace_values: "set (emplace k v m) \<subseteq> insert (k, v) (set m)"
  by (induction k v m rule: emplace.induct) (auto split: if_splits)

lemma emplace_sorted: "sorted_wrt (<) (map fst m) \<Longrightarrow> sorted_wrt (<) (map fst (emplace k v m))"
proof (induction m)
  case (Cons p m)
  then show ?case using emplace_keys [of k v m] by (cases p) (auto simp flip: set_map)
qed simp

definition texture_map_ok :: "(nat \<times> texture) list \<Rightarrow> bool" where
  "texture_map_ok m \<longleftrightarrow> sorted_wrt (<) (map fst m) \<and> (\<forall>(k, t)\<in>set m. k = texture_image t)"

lemma addTextures_Cons: "addTextures (ot # ts) m = addTextures ts (case ot of None \<Rightarrow> m | Some t \<Rightarrow> emplace (texture_image t) t m)"
  by (simp add: addTextures_def)

lemma texture_map_ok_emplace: "texture_map_ok m \<Longrightarrow> texture_map_ok (emplace (texture_image t) t m)"
  using emplace_values [of "texture_image t" t m] by (auto simp: texture_map_ok_def emplace_sorted)

definition images :: "texture option list \<Rightarrow> nat set" where
  "images ts = {texture_image t | t. Some t \<in> set ts}"

lemma addTextures_ok:
  "texture_map_ok m \<Longrightarrow> texture_map_ok (addTextures ts m) \<and> fst ` set (addTextures ts m) = fst ` set m \<union> images ts"
proof (induction ts arbitrary: m)
  case Nil
  then show ?case by (simp add: addTextures_def images_def)
next
  case (Cons ot ts)
  show ?case
  proof (cases ot)
    case None
    then show ?thesis using Cons by (simp add: addTextures_Cons images_def)
  next
    case (Some t)
    have "images (ot # ts) = insert (texture_image t) (images ts)" using Some by (auto simp: images_def)
    then show ?thesis
      using Some Cons.IH [OF texture_map_ok_emplace [OF Cons.prems, of t]] by (auto simp: addTextures_Cons emplace_keys)
  qed
qed

fun read_images :: "encoder \<Rightarrow> nat set" where
  "read_images (Render ro rw) = images ro"
| "read_images (Blit ro rw) = images ro"
| "read_images (Compute states) = {}"

fun written_images :: "encoder \<Rightarrow> nat set" where
  "written_images (Render ro rw) = images rw"
| "written_images (Blit ro rw) = images rw"
| "written_images (Compute states) = \<Union> (images ` set states)"

lemma fold_addTextures_ok:
  "texture_map_ok m \<Longrightarrow> texture_map_ok (fold addTextures tss m)
    \<and> fst ` set (fold addTextures tss m) = fst ` set m \<union> \<Union> (images ` set tss)"
proof (induction tss arbitrary: m)
  case (Cons ts tss)
  then show ?case using addTextures_ok [OF Cons.prems, of ts] by (simp add: Un_assoc)
qed simp

lemma collect_ok:
  "texture_map_ok r \<Longrightarrow> texture_map_ok w \<Longrightarrow> fold collect_encoder es (r, w) = (r', w') \<Longrightarrow>
   texture_map_ok r' \<and> texture_map_ok w' \<and> fst ` set r' = fst ` set r \<union> \<Union> (read_images ` set es)
     \<and> fst ` set w' = fst ` set w \<union> \<Union> (written_images ` set es)"
proof (induction es arbitrary: r w)
  case (Cons e es)
  obtain r1 w1 where e: "collect_encoder e (r, w) = (r1, w1)" by fastforce
  have "texture_map_ok r1 \<and> texture_map_ok w1 \<and> fst ` set r1 = fst ` set r \<union> read_images e
     \<and> fst ` set w1 = fst ` set w \<union> written_images e"
  proof -
    have "r1 = fst (collect_encoder e (r, w))" "w1 = snd (collect_encoder e (r, w))" using e by simp_all
    then show ?thesis
      using Cons.prems(1,2) by (cases e) (simp_all add: addTextures_ok fold_addTextures_ok)
  qed
  moreover have "fold collect_encoder es (r1, w1) = (r', w')" using Cons.prems e by simp
  ultimately show ?case using Cons.IH [of r1 w1] by (simp add: Un_assoc)
qed simp

lemma texture_map_images: "texture_map_ok m \<Longrightarrow> map texture_image (map snd m) = map fst m"
  by (auto simp: texture_map_ok_def)

lemma texture_map_distinct: "texture_map_ok m \<Longrightarrow> distinct (map fst m)"
  unfolding texture_map_ok_def using strict_sorted_iff by blast

lemma submission_textures_ok:
  assumes s: "submission_textures es = (ro, rw)"
  shows "distinct (map texture_image (ro @ rw))" "texture_image ` set rw = \<Union> (written_images ` set es)"
    "texture_image ` set ro = \<Union> (read_images ` set es) - \<Union> (written_images ` set es)"
proof -
  obtain r w where f: "fold collect_encoder es ([], []) = (r, w)" by fastforce
  let ?r = "filter (\<lambda>p. fst p \<notin> set (map fst w)) r"
  have e: "ro = map snd ?r" "rw = map snd w"
    using s f by (simp_all add: submission_textures_def Let_def)
  have ok: "texture_map_ok r" "texture_map_ok w" "fst ` set r = \<Union> (read_images ` set es)"
    "fst ` set w = \<Union> (written_images ` set es)"
    using collect_ok [OF _ _ f] by (auto simp: texture_map_ok_def)
  have r: "texture_map_ok ?r"
    using ok(1) by (auto simp: texture_map_ok_def sorted_wrt_map sorted_wrt_filter)
  have m: "map texture_image ro = map fst ?r" "map texture_image rw = map fst w"
    using texture_map_images [OF r] texture_map_images [OF ok(2)] by (simp_all add: e)
  show "distinct (map texture_image (ro @ rw))"
    using texture_map_distinct [OF r] texture_map_distinct [OF ok(2)] by (auto simp: m)
  show "texture_image ` set rw = \<Union> (written_images ` set es)" using m(2) ok(4) by (metis set_map)
  have "texture_image ` set ro = fst ` set ?r" using m(1) by (metis set_map)
  moreover have "fst ` set ?r = fst ` set r - fst ` set w" by auto
  ultimately show "texture_image ` set ro = \<Union> (read_images ` set es) - \<Union> (written_images ` set es)"
    using ok(3,4) by simp
qed

subsection \<open>The properties\<close>

text \<open>A device with one buffer submitted with handlers, for the witnesses.\<close>

definition good_env :: cb_env where
  "good_env = \<lparr>poolOk = True, allocOk = True, beginOk = True, timingEnabled = False, queryPoolOk = True,
     uploadsOutcome = Inr (), endOk = True, submitOk = True, resetOk = True, waitOk = True,
     textureAcquire = (\<lambda>t. \<lparr>sync_semaphore = 0, sync_wait = 0, sync_extra = None, sync_signal = 0\<rparr>),
     presentationSemaphore = (\<lambda>t. None)\<rparr>"

definition new_buffer :: command_buffer where
  "new_buffer = \<lparr>commandPool = Some (129, 130), timestampPool = None, recording = True,
     commandEncoders = [], drawablesToPresent = [], scheduledHandlers = [], completedHandlers = [],
     committed = False, completed = False, handlersCompleted = False, completionSemaphore = None\<rparr>"

definition created_device :: command_device where
  "created_device = init_commands\<lparr>nextHandle := 132, nextBuffer := 1, cbufs := [0 \<mapsto> new_buffer]\<rparr>"

lemma created_device_step: "new_command_buffer good_env init_commands = (Inr 0, created_device)"
  by (simp add: new_command_buffer_def init_commands_def init_pools_def good_env_def beginGpuTiming_def
      acquireCommandPool_def created_device_def new_buffer_def completionSemaphoreCapacity_def)

lemma created_reach: "cb_reach (created_device, \<lambda>_. [], \<lambda>_. [])"
  by (rule cb_reach.step [OF cb_reach.start cb_step.create [OF created_device_step]])

definition committed_device :: command_device where
  "committed_device = snd (commit good_env 0 created_device)"

lemma committed_device_step: "commit good_env 0 created_device = (Inr (), committed_device)"
  by (simp add: committed_device_def commit_def with_cb_def created_device_def new_buffer_def good_env_def
      Let_def getCompletionSemaphore_def init_commands_def init_pools_def completionSemaphoreCapacity_def
      submission_textures_def)

lemma committed_reach: "cb_reach (committed_device, \<lambda>_. [], \<lambda>_. [])"
  by (rule cb_reach.step [OF created_reach cb_step.submit [OF committed_device_step]]) simp_all

definition finished_device :: command_device where
  "finished_device = snd (complete good_env 0 committed_device)"

lemma committed_device_fields:
  "gpuWaits committed_device = [0]" "cbufs committed_device = [0 \<mapsto> new_buffer\<lparr>committed := True, recording := False,
     completionSemaphore := Some (128, 1)\<rparr>]" "callLog committed_device = []" "completion_signals committed_device = [(128, 1)]"
  by (simp_all add: committed_device_def commit_def with_cb_def created_device_def new_buffer_def good_env_def update_cb_def
      Let_def getCompletionSemaphore_def init_commands_def init_pools_def completionSemaphoreCapacity_def
      submission_textures_def submission_semaphores_def completion_signals_def last_map)

lemma finished_device_step: "complete good_env 0 committed_device = (Inr (), finished_device)"
  by (simp add: finished_device_def complete_def with_cb_def committed_device_fields finishCompletedHandlers_def
      recycle_buffer_pool_def new_buffer_def update_cb_def Let_def)

lemma finished_reach: "cb_reach (finished_device, \<lambda>_. [], \<lambda>_. [])"
  by (rule cb_reach.step [OF committed_reach cb_step.signalled [OF finished_device_step]])
    (simp add: committed_device_fields)

lemma finished_wait: "wait_returns 0 finished_device"
  by (simp add: finished_device_def complete_def with_cb_def committed_device_fields finishCompletedHandlers_def
      recycle_buffer_pool_def new_buffer_def update_cb_def Let_def wait_returns_def)

text \<open>A second buffer takes over the pool and the semaphore of the first.\<close>

definition resubmitted_device :: command_device where
  "resubmitted_device = snd (commit good_env 1 (snd (new_command_buffer good_env finished_device)))"

lemma committed_pools:
  "pools committed_device = (init_pools 1)\<lparr>recycledCompletionSemaphores := butlast (recycledCompletionSemaphores (init_pools 1))\<rparr>"
  "nextBuffer committed_device = 1" "completedQueue committed_device = []"
  by (simp_all add: committed_device_def commit_def with_cb_def created_device_def new_buffer_def good_env_def update_cb_def
      Let_def getCompletionSemaphore_def init_commands_def init_pools_def completionSemaphoreCapacity_def submission_textures_def)

lemma finished_device_fields:
  "recycledCommands (pools finished_device) = [(129, 130)]" "nextBuffer finished_device = 1"
  "recycledCompletionSemaphores (pools finished_device) = butlast (recycledCompletionSemaphores (init_pools 1)) @ [(128, 1)]"
  "submissions finished_device = submissions committed_device"
  by (simp_all add: finished_device_def complete_def with_cb_def committed_device_fields finishCompletedHandlers_def
      recycle_buffer_pool_def new_buffer_def update_cb_def Let_def committed_pools recycleCommandPool_def
      releaseCompletionSemaphore_def good_env_def init_pools_def completionSemaphoreCapacity_def)

lemma resubmitted_step:
  "new_command_buffer good_env finished_device = (Inr 1, snd (new_command_buffer good_env finished_device))"
  "commit good_env 1 (snd (new_command_buffer good_env finished_device)) = (Inr (), resubmitted_device)"
  by (simp_all add: resubmitted_device_def new_command_buffer_def commit_def with_cb_def finished_device_fields good_env_def
      beginGpuTiming_def acquireCommandPool_def Let_def getCompletionSemaphore_def submission_textures_def)

lemma resubmitted_reach: "cb_reach (resubmitted_device, \<lambda>_. [], \<lambda>_. [])"
  by (rule cb_reach.step [OF cb_reach.step [OF finished_reach cb_step.create [OF resubmitted_step(1)]]
        cb_step.submit [OF resubmitted_step(2)]]) simp_all

lemma resubmitted_signals: "completion_signals resubmitted_device = [(128, 1), (128, 2)]"
proof -
  have "completion_signals resubmitted_device = completion_signals committed_device @ [(128, 2)]"
    by (simp add: resubmitted_device_def new_command_buffer_def commit_def with_cb_def finished_device_fields good_env_def
        beginGpuTiming_def acquireCommandPool_def Let_def getCompletionSemaphore_def submission_textures_def
        completion_signals_def submission_semaphores_def)
  then show ?thesis by (simp add: committed_device_fields)
qed



text \<open>
  C10: Each command pool, timestamp query pool and completion semaphore has one holder: no two live
  command buffers share one, no live buffer holds one that is idle in its cache, and the caches
  keep at most 32, 32 and 128 idle handles.
\<close>

theorem driver_handles_exclusive:
  assumes "cb_reach (d, sg, cg)" "cbufs d a = Some x"
  shows "(\<forall>p. commandPool x = Some p \<longrightarrow> fst p \<notin> fst ` set (recycledCommands (pools d))
            \<and> (\<forall>b y q. cbufs d b = Some y \<and> b \<noteq> a \<and> commandPool y = Some q \<longrightarrow> fst q \<noteq> fst p))
    \<and> (\<forall>s. completionSemaphore x = Some s \<longrightarrow> fst s \<notin> fst ` set (recycledCompletionSemaphores (pools d))
            \<and> (\<forall>b y q. cbufs d b = Some y \<and> b \<noteq> a \<and> completionSemaphore y = Some q \<longrightarrow> fst q \<noteq> fst s))
    \<and> (\<forall>t. timestampPool x = Some t \<longrightarrow> t \<notin> set (timestampPools (pools d))
            \<and> (\<forall>b y q. cbufs d b = Some y \<and> b \<noteq> a \<and> timestampPool y = Some q \<longrightarrow> q \<noteq> t))
    \<and> length (recycledCommands (pools d)) \<le> 32 \<and> length (timestampPools (pools d)) \<le> 32
    \<and> length (recycledCompletionSemaphores (pools d)) \<le> completionSemaphoreCapacity"
proof -
  note C = caches_okD [OF commands_invD(1) [OF cb_reachD [OF assms(1)]]]
  have own: "cbufs d k = Some y \<Longrightarrow> owner_of commandPool d k = commandPool y"
    "cbufs d k = Some y \<Longrightarrow> owner_of completionSemaphore d k = completionSemaphore y"
    "cbufs d k = Some y \<Longrightarrow> owner_of timestampPool d k = timestampPool y" for k y
    by (simp_all add: owner_of_def)
  note E = exclusiveD(2,3) [OF cache_ok_exclusive [OF C(1)]] exclusiveD(2,3) [OF cache_ok_exclusive [OF C(2)]]
    exclusiveD(2,3) [OF cache_ok_exclusive [OF C(3)]]
  have "length (recycledCommands (pools d)) \<le> 32" "length (timestampPools (pools d)) \<le> 32"
    "length (recycledCompletionSemaphores (pools d)) \<le> completionSemaphoreCapacity"
    using C by (simp_all add: cache_ok_def)
  moreover have "fst p \<notin> fst ` set (recycledCommands (pools d))
            \<and> (\<forall>b y q. cbufs d b = Some y \<and> b \<noteq> a \<and> commandPool y = Some q \<longrightarrow> fst q \<noteq> fst p)"
    if "commandPool x = Some p" for p
    using E(1,2) own(1) assms(2) that by metis
  moreover have "fst s \<notin> fst ` set (recycledCompletionSemaphores (pools d))
            \<and> (\<forall>b y q. cbufs d b = Some y \<and> b \<noteq> a \<and> completionSemaphore y = Some q \<longrightarrow> fst q \<noteq> fst s)"
    if "completionSemaphore x = Some s" for s
    using E(3,4) own(2) assms(2) that by metis
  moreover have "t \<notin> set (timestampPools (pools d))
            \<and> (\<forall>b y q. cbufs d b = Some y \<and> b \<noteq> a \<and> timestampPool y = Some q \<longrightarrow> q \<noteq> t)"
    if "timestampPool x = Some t" for t
    using E(5,6) own(3) assms(2) that by (metis image_ident)
  ultimately show ?thesis by blast
qed

lemma driver_handles_exclusive_witness: "(129::nat) \<notin> fst ` set (recycledCommands (pools created_device))"
  using driver_handles_exclusive [OF created_reach, of 0 new_buffer] by (simp add: created_device_def new_buffer_def)





text \<open>
  For a submitted command buffer \<open>waitForGPU\<close> finds a semaphore to wait for or the buffer
  complete: it never dereferences a null semaphore, and fails only when the driver's wait fails.
\<close>

theorem waitForGPU_has_semaphore:
  assumes "cb_reach (d, sg, cg)" "cbufs d c = Some b" "\<not> recording b"
  shows "waitForGPU env c d = (if completed b \<or> waitOk env then Inr () else Inl (Throw ''Texture readback wait failed''))"
proof -
  have "stage_ok d c b" using commands_invD(4) [OF cb_reachD [OF assms(1)] assms(2)] by simp
  then have "committed b \<and> (completed b \<or> completionSemaphore b \<noteq> None)"
    using assms(3) unfolding stage_ok_def stage_at_def by blast
  then show ?thesis using assms(2) by (auto simp: waitForGPU_def)
qed

lemma waitForGPU_has_semaphore_witness: "waitForGPU good_env 0 committed_device = Inr ()"
  using waitForGPU_has_semaphore [OF committed_reach, of 0 _ good_env] by (simp add: committed_device_fields good_env_def)

text \<open>
  One submission acquires each image once: the images of its read-only and read-write textures
  are all different, the read-write ones are exactly the images some encoder writes, and the
  read-only ones exactly those read and not written.
\<close>

theorem submission_acquires_once:
  "case submission_textures es of (ro, rw) \<Rightarrow>
     distinct (map texture_image (ro @ rw))
     \<and> texture_image ` set rw = \<Union> (written_images ` set es)
     \<and> texture_image ` set ro = \<Union> (read_images ` set es) - \<Union> (written_images ` set es)"
  using submission_textures_ok [of es] by (auto split: prod.splits)

text \<open>
  When the flush of the uploads throws out of \<open>commit\<close>, the buffer stays marked committed with
  no completion semaphore: a later \<open>waitForGPU\<close> dereferences a null semaphore, and
  \<open>waitUntilCompleted\<close> does not return until a second \<open>commit\<close>.
\<close>

theorem failed_commit_strands:
  assumes "cb_reach (d, sg, cg)" "cbufs d c = Some b" "recording b" "uploadsOutcome env = Inl e"
    "commit env c d = (r, d')"
  shows "r = Inl e \<and> waitForGPU env' c d' = Inl Undefined \<and> \<not> wait_returns c d'
    \<and> addCompletedHandler h c d' = (Inl Abort, d')"
proof -
  have "stage_ok d c b" using commands_invD(4) [OF cb_reachD [OF assms(1)] assms(2)] by simp
  note R = recording_stage [OF this assms(3)]
  have "d' = update_cb c (b\<lparr>committed := True\<rparr>) d" "r = Inl e"
    using assms(2,4,5) by (simp_all add: commit_def with_cb_def)
  then show ?thesis using R by (simp add: waitForGPU_def wait_returns_def update_cb_def addCompletedHandler_def with_cb_def)
qed

lemma failed_commit_strands_witness:
  "waitForGPU good_env 0 (snd (commit (good_env\<lparr>uploadsOutcome := Inl (Throw ''uploads'')\<rparr>) 0 created_device)) = Inl Undefined"
  using failed_commit_strands [OF created_reach, of 0 new_buffer "good_env\<lparr>uploadsOutcome := Inl (Throw ''uploads'')\<rparr>"
      "Throw ''uploads''", OF _ _ _ surjective_pairing]
  by (simp add: created_device_def new_buffer_def)

end
