(* ===== verification/DeviceSetup.thy ===== *)
theory DeviceSetup
  imports Prelude
begin

section \<open>Device selection and setup\<close>

text \<open>
  \<open>native/renderer/device.cpp\<close>: which physical devices are used, the choice of the queue families,
  the queues requested and obtained, the extensions enabled, the layout of descriptor set 0, and
  the pipeline cache file. Strings of the environment are options, the file system is a map from
  paths to bytes. What Vulkan reports about a device is the record \<open>device_info\<close>.
\<close>

subsection \<open>Usable devices\<close>

record physical_device =
  apiVersion :: u32
  timelineSemaphore :: bool

definition usable_device :: "physical_device \<Rightarrow> bool" where
  "usable_device d \<longleftrightarrow> drop_bit 29 (apiVersion d) = 0 \<and> apiVersion d \<ge> 4206592 \<and> timelineSemaphore d"

definition initGlobalDeviceList :: "physical_device list outcome \<Rightarrow> physical_device list" where
  "initGlobalDeviceList devices = (case devices of Inl _ \<Rightarrow> [] | Inr ds \<Rightarrow> filter usable_device ds)"

definition createSystemDefaultDevice :: "physical_device list \<Rightarrow> physical_device option" where
  "createSystemDefaultDevice ds = (if ds = [] then None else Some (hd ds))"

subsection \<open>Queue families\<close>

record queue_family =
  queueFlags :: u32
  queueCount :: nat
  timestampValidBits :: nat

record families =
  graphicsFamily :: "nat option"
  computeFamily :: "nat option"
  transferFamily :: "nat option"
  maxSupportedSame :: nat

definition no_families :: families where
  "no_families = \<lparr>graphicsFamily = None, computeFamily = None, transferFamily = None, maxSupportedSame = 0\<rparr>"

definition supports :: "u32 \<Rightarrow> queue_family \<Rightarrow> bool" where
  "supports flag q \<longleftrightarrow> queueFlags q AND flag \<noteq> 0"

abbreviation "graphics_bit \<equiv> 1 :: u32"
abbreviation "compute_bit \<equiv> 2 :: u32"
abbreviation "transfer_bit \<equiv> 4 :: u32"

definition supported :: "queue_family \<Rightarrow> nat" where
  "supported q = of_bool (supports graphics_bit q) + of_bool (supports compute_bit q) + of_bool (supports transfer_bit q)"

text \<open>One family for one kind of operation: the first that has it, or a family that does more
  kinds of operations than all before it.\<close>

definition choose_family :: "bool \<Rightarrow> bool \<Rightarrow> nat \<Rightarrow> nat option \<Rightarrow> nat option" where
  "choose_family has better i old =
     (let old = (if has \<and> old = None then Some i else old) in if better \<and> has then Some i else old)"

definition consider_family :: "nat \<Rightarrow> queue_family \<Rightarrow> families \<Rightarrow> families" where
  "consider_family i q s =
     (let better = supported q > maxSupportedSame s in
      \<lparr>graphicsFamily = choose_family (supports graphics_bit q) better i (graphicsFamily s),
       computeFamily = choose_family (supports compute_bit q) better i (computeFamily s),
       transferFamily = choose_family (supports transfer_bit q) better i (transferFamily s),
       maxSupportedSame = (if better then supported q else maxSupportedSame s)\<rparr>)"

fun select_families :: "nat \<Rightarrow> queue_family list \<Rightarrow> families \<Rightarrow> families" where
  "select_families i [] s = s"
| "select_families i (q # qs) s =
     (let s = consider_family i q s in if supported q = 3 then s else select_families (Suc i) qs s)"

definition separatePresentQueue :: "queue_family list \<Rightarrow> families \<Rightarrow> bool" where
  "separatePresentQueue qs s =
     (case graphicsFamily s of None \<Rightarrow> False | Some g \<Rightarrow> queueCount (qs ! g) \<ge> 2)"

definition option_list :: "'a option \<Rightarrow> 'a list" where
  "option_list x = (case x of None \<Rightarrow> [] | Some y \<Rightarrow> [y])"

text \<open>The ordered set of the families used.\<close>

definition queueFamilyIndices :: "families \<Rightarrow> nat list" where
  "queueFamilyIndices s =
     remdups (sort (option_list (graphicsFamily s) @ option_list (computeFamily s) @ option_list (transferFamily s)))"

definition queueCreateInfos :: "queue_family list \<Rightarrow> families \<Rightarrow> (nat \<times> nat) list" where
  "queueCreateInfos qs s =
     map (\<lambda>i. (i, if separatePresentQueue qs s \<and> graphicsFamily s = Some i then 2 else 1)) (queueFamilyIndices s)"

text \<open>The queues, named by family and number.\<close>

record device_queues =
  graphicsQueue :: "(nat \<times> nat) option"
  computeQueue :: "(nat \<times> nat) option"
  transferQueue :: "(nat \<times> nat) option"
  presentQueue :: "(nat \<times> nat) option"

definition get_queues :: "queue_family list \<Rightarrow> families \<Rightarrow> device_queues" where
  "get_queues qs s =
     (let found = fold (\<lambda>i d. \<lparr>
         graphicsQueue = (if graphicsFamily s = Some i then Some (i, 0) else graphicsQueue d),
         computeQueue = (if computeFamily s = Some i then Some (i, 0) else computeQueue d),
         transferQueue = (if transferFamily s = Some i then Some (i, 0) else transferQueue d),
         presentQueue = presentQueue d\<rparr>) (queueFamilyIndices s)
         \<lparr>graphicsQueue = None, computeQueue = None, transferQueue = None, presentQueue = None\<rparr>
      in if separatePresentQueue qs s then found\<lparr>presentQueue := map_option (\<lambda>g. (g, 1)) (graphicsFamily s)\<rparr> else found)"

subsection \<open>Extensions\<close>

datatype feature = Swapchain | ExternalMemoryFD | ExternalSemaphoreFD | NonSemanticInfo

definition optionalExtensions :: "(string \<times> feature) list" where
  "optionalExtensions = [(''VK_KHR_swapchain'', Swapchain), (''VK_KHR_external_memory_fd'', ExternalMemoryFD),
     (''VK_KHR_external_semaphore_fd'', ExternalSemaphoreFD), (''VK_KHR_shader_non_semantic_info'', NonSemanticInfo)]"

record device_info =
  extProps :: "string list"
  depthClampState3 :: bool
  depthClamp :: bool
  maxPush :: u32
  graphicsPipelineLibrary :: bool
  fastLinking :: bool
  noPipelineLibraries :: bool

record device_setup =
  enabledExtensions :: "string list"
  pushDescriptors :: bool
  maxPushDescriptors :: u32
  dynamicDepthClamp :: bool
  pipelineLibraries :: bool
  deviceFeatures :: "feature list"

definition hasExtension :: "string list \<Rightarrow> string \<Rightarrow> bool" where
  "hasExtension available name \<longleftrightarrow> list_ex (\<lambda>e. e = name) available"

text \<open>A property of an extension is filled in only when its structure was chained.\<close>

definition setup_device :: "device_info \<Rightarrow> device_setup" where
  "setup_device d =
     (let state3 = hasExtension (extProps d) ''VK_EXT_extended_dynamic_state3'';
          libraries = hasExtension (extProps d) ''VK_EXT_graphics_pipeline_library''
            \<and> hasExtension (extProps d) ''VK_KHR_pipeline_library'';
          clamp = (state3 \<and> depthClampState3 d) \<and> depthClamp d;
          push = hasExtension (extProps d) ''VK_KHR_push_descriptor'' \<and> maxPush d \<ge> 2 * 16;
          optional = concat (map (\<lambda>e. filter (\<lambda>(name, f). e = name) optionalExtensions) (extProps d))
      in \<lparr>enabledExtensions = (if push then [''VK_KHR_push_descriptor''] else [])
              @ (if state3 then [''VK_EXT_extended_dynamic_state3''] else [])
              @ (if libraries then [''VK_KHR_pipeline_library'', ''VK_EXT_graphics_pipeline_library''] else [])
              @ map fst optional,
            pushDescriptors = push,
            maxPushDescriptors = (if push then maxPush d else 0),
            dynamicDepthClamp = state3 \<and> clamp,
            pipelineLibraries = libraries \<and> graphicsPipelineLibrary d \<and> fastLinking d \<and> \<not> noPipelineLibraries d,
            deviceFeatures = map snd optional\<rparr>)"

definition pushedBuffersPerStage :: nat where "pushedBuffersPerStage = 16"

datatype shader_stage = Vertex_stage | Fragment_stage

text \<open>The bindings of descriptor set 0.\<close>

definition set0_bindings :: "bool \<Rightarrow> (nat \<times> shader_stage) list" where
  "set0_bindings push =
     map (\<lambda>i. (i, if i < pushedBuffersPerStage then Vertex_stage else Fragment_stage))
       [0..<(if push then 2 * pushedBuffersPerStage else 0)]"

subsection \<open>The pipeline cache file\<close>

text \<open>A trailing slash is dropped, unless the directory is the root.\<close>

fun strip_slashes_rev :: "string \<Rightarrow> string" where
  "strip_slashes_rev (c # d # cs) = (if c = CHR ''/'' then strip_slashes_rev (d # cs) else c # d # cs)"
| "strip_slashes_rev cs = cs"

definition pipelineCachePath :: "string option \<Rightarrow> string option \<Rightarrow> string" where
  "pipelineCachePath env_cache env_shaders =
     (case env_cache of
        Some path \<Rightarrow> path
      | None \<Rightarrow>
         (case env_shaders of
            None \<Rightarrow> ''''
          | Some shaders \<Rightarrow>
             if shaders = '''' then ''''
             else let up = dropWhile (\<lambda>c. c \<noteq> CHR ''/'') (strip_slashes_rev (rev shaders)) in
               if up = [] then '''' else rev up @ ''vk-pipeline-cache-v1.bin''))"

record device_identity =
  vendorID :: u32
  deviceID :: u32
  pipelineCacheUUID :: "u8 list"

definition le32 :: "u8 list \<Rightarrow> nat \<Rightarrow> u32" where
  "le32 bs i = ucast (bs ! i) OR push_bit 8 (ucast (bs ! (i + 1))) OR push_bit 16 (ucast (bs ! (i + 2)))
     OR push_bit 24 (ucast (bs ! (i + 3)))"

text \<open>The 32 bytes of \<open>VkPipelineCacheHeaderVersionOne\<close>: size, version, vendor, device, UUID.\<close>

definition header_matches :: "device_identity \<Rightarrow> u8 list \<Rightarrow> bool" where
  "header_matches d bs \<longleftrightarrow> length bs \<ge> 32 \<and> le32 bs 0 \<ge> 32 \<and> le32 bs 4 = 1
     \<and> le32 bs 8 = vendorID d \<and> le32 bs 12 = deviceID d \<and> take 16 (drop 16 bs) = pipelineCacheUUID d"

type_synonym files = "string \<Rightarrow> u8 list option"

text \<open>The initial data for the pipeline cache; when the driver refuses it, an empty cache or none.\<close>

definition cache_file_data :: "device_identity \<Rightarrow> files \<Rightarrow> string \<Rightarrow> u8 list" where
  "cache_file_data d fs path =
     (let bs = (if path = '''' then [] else case fs path of None \<Rightarrow> [] | Some bs \<Rightarrow> bs)
      in if header_matches d bs then bs else [])"

definition loadPipelineCache :: "device_identity \<Rightarrow> (u8 list \<Rightarrow> bool) \<Rightarrow> files \<Rightarrow> string \<Rightarrow> u8 list option" where
  "loadPipelineCache d create fs path =
     (let bs = cache_file_data d fs path in
      if create bs then Some bs else if create [] then Some [] else None)"

text \<open>Saving: the states of the file system that other processes can see, in order. \<open>written\<close> bytes
  reach the temporary file before writing stops; \<open>closed\<close> and \<open>renamed\<close> are the answers of
  \<open>fclose\<close> and \<open>rename\<close>.\<close>

record save_env =
  lock_free :: bool
  now :: int
  dataOk :: bool
  opened :: bool
  written :: nat
  closed :: bool
  renamed :: bool

definition temporary :: "string \<Rightarrow> string" where "temporary path = path @ ''.tmp''"

definition write_states :: "files \<Rightarrow> string \<Rightarrow> u8 list \<Rightarrow> nat \<Rightarrow> files list" where
  "write_states fs tmp bs n = map (\<lambda>k. fs(tmp \<mapsto> take k bs)) [0..<Suc n]"

definition save_files :: "save_env \<Rightarrow> string \<Rightarrow> u8 list \<Rightarrow> files \<Rightarrow> files list" where
  "save_files env path bs fs =
     (if \<not> opened env then []
      else let n = min (written env) (length bs); tmp = temporary path; full = fs(tmp \<mapsto> take n bs) in
        write_states fs tmp bs n
        @ [if closed env \<and> n = length bs
           then (if renamed env then full(path := Some (take n bs), tmp := None) else full)
           else full(tmp := None)])"

text \<open>The whole operation; times are in nanoseconds.\<close>

definition savePipelineCache :: "save_env \<Rightarrow> bool \<Rightarrow> bool \<Rightarrow> string \<Rightarrow> u8 list \<Rightarrow> int \<times> files \<Rightarrow> int \<times> files list" where
  "savePipelineCache env force hasCache path bs s =
     (let (saved, fs) = s in
      if \<not> hasCache \<or> path = '''' then (saved, [])
      else if \<not> lock_free env \<and> \<not> force then (saved, [])
      else if \<not> force \<and> now env - saved < 10 * 1000000000 then (saved, [])
      else if \<not> dataOk env \<or> bs = [] then (now env, [])
      else (now env, save_files env path bs fs))"

end
