(* ===== verification/DeviceProperties.thy ===== *)
theory DeviceProperties
  imports DeviceSetup
begin

section \<open>Properties of the device setup\<close>

text \<open>
  The queue families chosen, the queues requested and obtained, the extensions enabled, and what a
  reader of the pipeline cache file can see.
\<close>

subsection \<open>Queue families\<close>

definition family_ok :: "u32 \<Rightarrow> queue_family list \<Rightarrow> nat option \<Rightarrow> bool" where
  "family_ok flag qs f \<longleftrightarrow>
     (case f of None \<Rightarrow> \<forall>q\<in>set qs. \<not> supports flag q | Some i \<Rightarrow> i < length qs \<and> supports flag (qs ! i))"

lemma family_ok_choose:
  "family_ok flag pre old \<Longrightarrow> family_ok flag (pre @ [q]) (choose_family (supports flag q) better (length pre) old)"
  by (auto simp: family_ok_def choose_family_def nth_append split: option.splits)

lemma family_ok_append: "family_ok flag pre f \<Longrightarrow> f \<noteq> None \<Longrightarrow> family_ok flag (pre @ qs) f"
  by (auto simp: family_ok_def nth_append)

definition families_ok :: "queue_family list \<Rightarrow> families \<Rightarrow> bool" where
  "families_ok qs s \<longleftrightarrow> family_ok graphics_bit qs (graphicsFamily s) \<and> family_ok compute_bit qs (computeFamily s)
     \<and> family_ok transfer_bit qs (transferFamily s)"

definition all_at :: "families \<Rightarrow> nat \<Rightarrow> bool" where
  "all_at s i \<longleftrightarrow> graphicsFamily s = Some i \<and> computeFamily s = Some i \<and> transferFamily s = Some i"

lemma supported_bound: "supported q \<le> 3"
  by (simp add: supported_def of_bool_def)

lemma supported_all: "supported q = 3 \<Longrightarrow> supports graphics_bit q \<and> supports compute_bit q \<and> supports transfer_bit q"
  by (auto simp: supported_def of_bool_def split: if_splits)

lemma consider_family_ok: "families_ok pre s \<Longrightarrow> families_ok (pre @ [q]) (consider_family (length pre) q s)"
  by (simp add: families_ok_def consider_family_def Let_def family_ok_choose)

lemma consider_family_best:
  "supported q = 3 \<Longrightarrow> maxSupportedSame s < 3 \<Longrightarrow> all_at (consider_family i q s) i"
  by (simp add: consider_family_def all_at_def choose_family_def Let_def supported_all)

lemma consider_family_max:
  "supported q \<noteq> 3 \<Longrightarrow> maxSupportedSame s < 3 \<Longrightarrow> maxSupportedSame (consider_family i q s) < 3"
  using supported_bound [of q] by (simp add: consider_family_def Let_def)

lemma families_ok_append: "families_ok pre s \<Longrightarrow> all_at s i \<Longrightarrow> families_ok (pre @ qs) s"
  by (simp add: families_ok_def all_at_def family_ok_append)

lemma select_families_inv:
  assumes "families_ok pre s" "maxSupportedSame s < 3" "\<forall>q\<in>set pre. supported q \<noteq> 3"
  shows "families_ok (pre @ qs) (select_families (length pre) qs s)
    \<and> (\<forall>i<length (pre @ qs). supported ((pre @ qs) ! i) = 3 \<and> (\<forall>j<i. supported ((pre @ qs) ! j) \<noteq> 3)
         \<longrightarrow> all_at (select_families (length pre) qs s) i)"
  using assms
proof (induction qs arbitrary: pre s)
  case Nil
  then show ?case by auto
next
  case (Cons q qs)
  let ?s = "consider_family (length pre) q s"
  have ok: "families_ok (pre @ [q]) ?s" using Cons.prems(1) by (rule consider_family_ok)
  show ?case
  proof (cases "supported q = 3")
    case True
    then have best: "all_at ?s (length pre)" using consider_family_best Cons.prems(2) by blast
    have "i = length pre" if "supported ((pre @ q # qs) ! i) = 3" "\<forall>j<i. supported ((pre @ q # qs) ! j) \<noteq> 3" for i
    proof -
      have "\<not> i < length pre" using that(1) Cons.prems(3) by (auto simp: nth_append)
      moreover have "\<not> length pre < i" using that(2) True by (metis nth_append_length)
      ultimately show ?thesis by simp
    qed
    then show ?thesis using True best families_ok_append [OF ok best, of qs] by auto
  next
    case False
    then show ?thesis
      using Cons.IH [OF ok consider_family_max [OF False Cons.prems(2)]] Cons.prems(3) by simp
  qed
qed

text \<open>
  A family is chosen for an operation exactly when some family supports it, the chosen family
  exists and supports it, and when some family supports graphics, compute and transfer, the first
  such family is chosen for all three.
\<close>

theorem queue_families_chosen:
  "families_ok qs (select_families 0 qs no_families)
   \<and> (\<forall>i<length qs. supported (qs ! i) = 3 \<and> (\<forall>j<i. supported (qs ! j) \<noteq> 3)
        \<longrightarrow> all_at (select_families 0 qs no_families) i)"
proof -
  have "families_ok [] no_families" by (simp add: families_ok_def no_families_def family_ok_def)
  from select_families_inv [OF this, of qs] show ?thesis by (simp add: no_families_def)
qed

lemma queue_families_chosen_witness:
  "all_at (select_families 0 [\<lparr>queueFlags = 4, queueCount = 1, timestampValidBits = 0\<rparr>,
     \<lparr>queueFlags = 7, queueCount = 16, timestampValidBits = 64\<rparr>] no_families) 1"
  using queue_families_chosen [of "[\<lparr>queueFlags = 4, queueCount = 1, timestampValidBits = 0\<rparr>,
     \<lparr>queueFlags = 7, queueCount = 16, timestampValidBits = 64\<rparr>]"]
  by (auto simp: supported_def supports_def dest: spec [of _ 1])

subsection \<open>Queues\<close>

lemma queueFamilyIndices_set:
  "set (queueFamilyIndices s) = {i. graphicsFamily s = Some i \<or> computeFamily s = Some i \<or> transferFamily s = Some i}"
  by (auto simp: queueFamilyIndices_def option_list_def split: option.splits)

lemma get_queues_fold:
  assumes "set is \<subseteq> F"
  shows "fold (\<lambda>i d. \<lparr>
         graphicsQueue = (if graphicsFamily s = Some i then Some (i, 0) else graphicsQueue d),
         computeQueue = (if computeFamily s = Some i then Some (i, 0) else computeQueue d),
         transferQueue = (if transferFamily s = Some i then Some (i, 0) else transferQueue d),
         presentQueue = presentQueue d\<rparr>) is d =
    \<lparr>graphicsQueue = (case graphicsFamily s of Some i \<Rightarrow> if i \<in> set is then Some (i, 0) else graphicsQueue d | None \<Rightarrow> graphicsQueue d),
     computeQueue = (case computeFamily s of Some i \<Rightarrow> if i \<in> set is then Some (i, 0) else computeQueue d | None \<Rightarrow> computeQueue d),
     transferQueue = (case transferFamily s of Some i \<Rightarrow> if i \<in> set is then Some (i, 0) else transferQueue d | None \<Rightarrow> transferQueue d),
     presentQueue = presentQueue d\<rparr>"
  by (induction "is" arbitrary: d) (auto split: option.splits)

lemma get_queues_eq:
  "get_queues qs s = \<lparr>graphicsQueue = map_option (\<lambda>i. (i, 0)) (graphicsFamily s),
     computeQueue = map_option (\<lambda>i. (i, 0)) (computeFamily s), transferQueue = map_option (\<lambda>i. (i, 0)) (transferFamily s),
     presentQueue = (if separatePresentQueue qs s then map_option (\<lambda>g. (g, 1)) (graphicsFamily s) else None)\<rparr>"
  unfolding get_queues_def Let_def get_queues_fold [OF subset_UNIV] queueFamilyIndices_set
  by (auto split: option.splits)

text \<open>
  When every family has a queue, the device is created with each family named once and no more
  queues of a family than it has; every queue obtained afterwards is one of those requested, each
  chosen operation gets a queue of its family, and the presentation queue is no other queue.
\<close>

theorem queues_requested:
  assumes "\<forall>q\<in>set qs. queueCount q \<ge> 1" "s = select_families 0 qs no_families" "d = get_queues qs s"
  shows "distinct (map fst (queueCreateInfos qs s))
    \<and> (\<forall>(i, n)\<in>set (queueCreateInfos qs s). i < length qs \<and> n \<le> queueCount (qs ! i))
    \<and> (\<forall>i k. Some (i, k) \<in> {graphicsQueue d, computeQueue d, transferQueue d, presentQueue d} \<longrightarrow>
         (\<exists>n. (i, n) \<in> set (queueCreateInfos qs s) \<and> k < n))
    \<and> (\<forall>q. presentQueue d = Some q \<longrightarrow> Some q \<notin> {graphicsQueue d, computeQueue d, transferQueue d})"
proof (intro conjI)
  have ok: "families_ok qs s" using queue_families_chosen [of qs] assms(2) by simp
  have lt: "i < length qs" if "i \<in> set (queueFamilyIndices s)" for i
    using that ok unfolding queueFamilyIndices_set families_ok_def family_ok_def by auto
  show "distinct (map fst (queueCreateInfos qs s))"
    by (simp add: queueCreateInfos_def queueFamilyIndices_def comp_def)
  show "\<forall>(i, n)\<in>set (queueCreateInfos qs s). i < length qs \<and> n \<le> queueCount (qs ! i)"
    using lt assms(1) by (auto simp: queueCreateInfos_def separatePresentQueue_def)
  show "\<forall>i k. Some (i, k) \<in> {graphicsQueue d, computeQueue d, transferQueue d, presentQueue d} \<longrightarrow>
         (\<exists>n. (i, n) \<in> set (queueCreateInfos qs s) \<and> k < n)"
  proof (intro allI impI)
    fix i k assume q: "Some (i, k) \<in> {graphicsQueue d, computeQueue d, transferQueue d, presentQueue d}"
    have i: "i \<in> set (queueFamilyIndices s)"
      using q by (auto simp: assms(3) get_queues_eq queueFamilyIndices_set eq_commute [of "Some _"] split: if_splits)
    have "k = 0 \<or> k = 1 \<and> separatePresentQueue qs s \<and> graphicsFamily s = Some i"
      using q by (auto simp: assms(3) get_queues_eq eq_commute [of "Some _"] split: if_splits)
    then show "\<exists>n. (i, n) \<in> set (queueCreateInfos qs s) \<and> k < n"
      using i by (intro exI [of _ "if separatePresentQueue qs s \<and> graphicsFamily s = Some i then 2 else 1"])
        (auto simp: queueCreateInfos_def)
  qed
  show "\<forall>q. presentQueue d = Some q \<longrightarrow> Some q \<notin> {graphicsQueue d, computeQueue d, transferQueue d}"
    by (auto simp: assms(3) get_queues_eq eq_commute [of "Some _"] split: if_splits)
qed

lemma queues_requested_witness:
  "presentQueue (get_queues [\<lparr>queueFlags = 7, queueCount = 2, timestampValidBits = 64\<rparr>]
     (select_families 0 [\<lparr>queueFlags = 7, queueCount = 2, timestampValidBits = 64\<rparr>] no_families)) = Some (0, 1)
   \<and> distinct (map fst (queueCreateInfos [\<lparr>queueFlags = 7, queueCount = 2, timestampValidBits = 64\<rparr>]
     (select_families 0 [\<lparr>queueFlags = 7, queueCount = 2, timestampValidBits = 64\<rparr>] no_families)))"
  using queues_requested [of "[\<lparr>queueFlags = 7, queueCount = 2, timestampValidBits = 64\<rparr>]", OF _ refl refl]
  by (simp add: get_queues_eq consider_family_def no_families_def choose_family_def supported_def supports_def
      separatePresentQueue_def Let_def)

subsection \<open>Extensions\<close>

lemma optional_set:
  "set (concat (map (\<lambda>e. filter (\<lambda>(name, f). e = name) ps) es)) = {(name, f). (name, f) \<in> set ps \<and> name \<in> set es}"
  by auto

lemma setup_features: "set (deviceFeatures (setup_device d)) =
    {f. \<exists>name. (name, f) \<in> set optionalExtensions \<and> name \<in> set (extProps d)}"
  by (simp add: setup_device_def Let_def optional_set del: set_concat) force

lemma setup_optional: "fst ` {(name, f). (name, f) \<in> set ps \<and> name \<in> A} \<subseteq> A"
  by auto

lemma setup_enabled: "set (enabledExtensions (setup_device d)) \<subseteq> set (extProps d)"
  using setup_optional [of optionalExtensions "set (extProps d)"]
  by (simp add: setup_device_def Let_def optional_set hasExtension_def list_ex_iff del: set_concat) blast

text \<open>
  Only extensions the device reports are enabled; a feature is reported exactly when its
  extension is available, push descriptors only with room for the 32 buffers of both stages, and
  pipeline libraries and the dynamic depth clamp only with their extensions enabled.
\<close>

theorem extensions_available:
  "set (enabledExtensions (setup_device d)) \<subseteq> set (extProps d)
   \<and> (\<forall>(name, f)\<in>set optionalExtensions. f \<in> set (deviceFeatures (setup_device d)) \<longleftrightarrow> name \<in> set (extProps d))
   \<and> (pushDescriptors (setup_device d) \<longrightarrow> ''VK_KHR_push_descriptor'' \<in> set (enabledExtensions (setup_device d))
        \<and> length (set0_bindings True) \<le> unat (maxPushDescriptors (setup_device d)))
   \<and> (pipelineLibraries (setup_device d) \<longrightarrow>
        {''VK_KHR_pipeline_library'', ''VK_EXT_graphics_pipeline_library''} \<subseteq> set (enabledExtensions (setup_device d)))
   \<and> (dynamicDepthClamp (setup_device d) \<longrightarrow>
        ''VK_EXT_extended_dynamic_state3'' \<in> set (enabledExtensions (setup_device d)) \<and> depthClamp d)"
proof (intro conjI)
  show "set (enabledExtensions (setup_device d)) \<subseteq> set (extProps d)" by (rule setup_enabled)
  show "\<forall>(name, f)\<in>set optionalExtensions. f \<in> set (deviceFeatures (setup_device d)) \<longleftrightarrow> name \<in> set (extProps d)"
    by (simp add: setup_features optionalExtensions_def)
  show "pushDescriptors (setup_device d) \<longrightarrow> ''VK_KHR_push_descriptor'' \<in> set (enabledExtensions (setup_device d))
        \<and> length (set0_bindings True) \<le> unat (maxPushDescriptors (setup_device d))"
    by (simp add: setup_device_def Let_def set0_bindings_def pushedBuffersPerStage_def word_le_nat_alt)
  show "pipelineLibraries (setup_device d) \<longrightarrow>
        {''VK_KHR_pipeline_library'', ''VK_EXT_graphics_pipeline_library''} \<subseteq> set (enabledExtensions (setup_device d))"
    by (simp add: setup_device_def Let_def)
  show "dynamicDepthClamp (setup_device d) \<longrightarrow>
        ''VK_EXT_extended_dynamic_state3'' \<in> set (enabledExtensions (setup_device d)) \<and> depthClamp d"
    by (simp add: setup_device_def Let_def)
qed

lemma extensions_available_witness:
  "enabledExtensions (setup_device \<lparr>extProps = [''VK_KHR_swapchain'', ''VK_KHR_push_descriptor''], depthClampState3 = False,
      depthClamp = True, maxPush = 32, graphicsPipelineLibrary = False, fastLinking = False, noPipelineLibraries = False\<rparr>)
     = [''VK_KHR_push_descriptor'', ''VK_KHR_swapchain'']
   \<and> (32::nat) \<le> unat (32 :: u32)"
  using extensions_available [of "\<lparr>extProps = [''VK_KHR_swapchain'', ''VK_KHR_push_descriptor''], depthClampState3 = False,
      depthClamp = True, maxPush = 32, graphicsPipelineLibrary = False, fastLinking = False, noPipelineLibraries = False\<rparr>"]
  by (simp add: setup_device_def Let_def hasExtension_def optionalExtensions_def)

subsection \<open>The pipeline cache file\<close>

lemma temporary_other: "temporary path \<noteq> path"
  by (simp add: temporary_def)

text \<open>
  C13: At every moment of a save, also one that is cut short by a crash, a full disk or a failed
  rename, a reader finds at the cache path either the file that was there before or the whole new
  file; and loading what a completed save left gives the saved bytes back, or nothing if they were
  not written by this device and driver.
\<close>

theorem pipeline_cache_atomic:
  assumes "savePipelineCache env force hasCache path bs (saved, fs) = (saved', states)" "fs' \<in> set states"
  shows "(fs' path = fs path \<or> fs' path = Some bs)
    \<and> (fs' path = Some bs \<longrightarrow> cache_file_data d fs' path = (if header_matches d bs then bs else []))"
proof
  have ne: "path \<noteq> ''''" and fs': "fs' \<in> set (save_files env path bs fs)"
    using assms by (auto simp: savePipelineCache_def split: if_splits)
  show "fs' path = fs path \<or> fs' path = Some bs"
    using fs' temporary_other [of path]
    by (auto simp: save_files_def write_states_def Let_def split: if_splits)
  show "fs' path = Some bs \<longrightarrow> cache_file_data d fs' path = (if header_matches d bs then bs else [])"
    using ne by (simp add: cache_file_data_def)
qed

definition wit_save :: save_env where
  "wit_save = \<lparr>lock_free = True, now = 20000000000, dataOk = True, opened = True, written = 2, closed = True, renamed = True\<rparr>"

lemma pipeline_cache_atomic_witness:
  "let fs = Map.empty(''c'' := Some [9 :: u8]); states = snd (savePipelineCache wit_save False True ''c'' [1, 2] (0, fs))
   in map (\<lambda>f. f ''c'') states = [Some [9], Some [9], Some [9], Some [1, 2]]
    \<and> cache_file_data \<lparr>vendorID = 1, deviceID = 2, pipelineCacheUUID = []\<rparr> (last states) ''c'' = []"
proof -
  let ?fs = "Map.empty(''c'' := Some [9 :: u8])"
  let ?states = "snd (savePipelineCache wit_save False True ''c'' [1, 2] (0, ?fs))"
  have st: "map (\<lambda>f. f ''c'') ?states = [Some [9], Some [9], Some [9], Some [1, 2]]"
    by (simp add: savePipelineCache_def wit_save_def save_files_def write_states_def Let_def temporary_def upt_rec)
  then have "?states \<noteq> []" "last ?states ''c'' = Some [1, 2]" by (auto simp flip: last_map)
  then show ?thesis
    using st pipeline_cache_atomic [OF prod.collapse [symmetric], of "last ?states" wit_save False True "''c''" "[1, 2]" 0 ?fs
        "\<lparr>vendorID = 1, deviceID = 2, pipelineCacheUUID = []\<rparr>"]
    by (simp add: header_matches_def)
qed

text \<open>What is offered to the driver was written by the same device and driver.\<close>

lemma cache_file_data_matches: "cache_file_data d fs path \<noteq> [] \<Longrightarrow> header_matches d (cache_file_data d fs path)"
  by (auto simp: cache_file_data_def Let_def split: if_splits)

text \<open>The cache lies beside the shader cache directory.\<close>

lemma strip_slashes_rev_suffix: "\<exists>p. cs = p @ strip_slashes_rev cs"
proof (induction cs rule: strip_slashes_rev.induct)
  case (1 c d cs)
  then obtain p where "c = CHR ''/'' \<longrightarrow> d # cs = p @ strip_slashes_rev (d # cs)" by blast
  then show ?case by (cases "c = CHR ''/''") (auto intro: exI [of _ "c # p"] exI [of _ "[]"])
qed simp_all

lemma dropWhile_split: "dropWhile P xs \<noteq> [] \<Longrightarrow> \<exists>q y ys. xs = q @ y # ys \<and> \<not> P y \<and> dropWhile P xs = y # ys"
proof (induction xs)
  case (Cons x xs)
  show ?case
  proof (cases "P x")
    case True
    then obtain q y ys where "xs = q @ y # ys" "\<not> P y" "dropWhile P xs = y # ys" using Cons by auto
    then show ?thesis using True by (intro exI [of _ "x # q"]) simp
  next
    case False
    then show ?thesis by (intro exI [of _ "[]"]) simp
  qed
qed simp

lemma pipelineCachePath_shaders:
  assumes "pipelineCachePath None (Some shaders) = path" "path \<noteq> ''''"
  shows "\<exists>dir rest. shaders = dir @ ''/'' @ rest \<and> path = dir @ ''/vk-pipeline-cache-v1.bin''"
proof -
  define up where "up = dropWhile (\<lambda>c. c \<noteq> CHR ''/'') (strip_slashes_rev (rev shaders))"
  have up: "up \<noteq> []" "path = rev up @ ''vk-pipeline-cache-v1.bin''"
    using assms by (auto simp: pipelineCachePath_def Let_def up_def split: if_splits)
  obtain p where p: "rev shaders = p @ strip_slashes_rev (rev shaders)" using strip_slashes_rev_suffix by blast
  obtain q ys where q: "strip_slashes_rev (rev shaders) = q @ CHR ''/'' # ys" "up = CHR ''/'' # ys"
    using dropWhile_split [of "\<lambda>c. c \<noteq> CHR ''/''" "strip_slashes_rev (rev shaders)"] up(1) by (auto simp: up_def)
  have "rev shaders = (p @ q) @ CHR ''/'' # ys" using p q(1) by simp
  then have "shaders = rev ((p @ q) @ CHR ''/'' # ys)" by (metis rev_rev_ident)
  then have "shaders = rev ys @ ''/'' @ rev (p @ q)" by simp
  moreover have "path = rev ys @ ''/vk-pipeline-cache-v1.bin''" using up(2) q(2) by simp
  ultimately show ?thesis by blast
qed

end
