(* ===== verification/RenderState.thy ===== *)
theory RenderState
  imports Prelude Complex_Main
begin

section \<open>Dynamic state of a render command encoder\<close>

text \<open>
  The state setters of \<open>native/renderer/render-command-encoder.cpp\<close>. The encoder remembers the value
  it set last and records no Vulkan command for a call that would not change it. An operation
  gives the commands it records and the new caches; \<open>exec\<close> is what Vulkan makes of the commands.
  The conversions of Metal enumerations to Vulkan ones are in a submodule: an enumeration value is
  a number and the conversions are the record \<open>vk_conversions\<close>. Floating-point numbers are reals:
  rounding and NaN are not modelled.
\<close>

subsection \<open>Commands and the state they set\<close>

datatype face = Front | Back

record vk_viewport =
  vp_x :: real
  vp_y :: real
  vp_width :: real
  vp_height :: real
  vp_minDepth :: real
  vp_maxDepth :: real

record vk_rect =
  rect_x :: int
  rect_y :: int
  rect_width :: nat
  rect_height :: nat

datatype cmd =
    CmdSetFrontFace nat
  | CmdSetCullMode nat
  | CmdSetDepthBiasEnable bool
  | CmdSetDepthBias real real real
  | CmdSetDepthClampEnable bool
  | CmdSetViewportWithCount "vk_viewport list"
  | CmdSetScissorWithCount "vk_rect list"
  | CmdSetBlendConstants "real list"
  | CmdSetDepthWriteEnable bool
  | CmdSetDepthCompareOp nat
  | CmdSetDepthTestEnable bool
  | CmdSetDepthBoundsTestEnable bool
  | CmdSetRasterizerDiscardEnable bool
  | CmdSetStencilTestEnable bool
  | CmdSetStencilCompareMask face u32
  | CmdSetStencilWriteMask face u32
  | CmdSetStencilOp face nat nat nat nat
  | CmdSetStencilReference "face set" u32
  | CmdBindPipeline nat
  | CmdSetPrimitiveTopology nat
  | CmdBindIndexBuffer nat u64 nat

record gpu_state =
  g_frontFace :: "nat option"
  g_cullMode :: "nat option"
  g_depthBiasEnable :: bool
  g_depthBias :: "(real \<times> real \<times> real) option"
  g_depthClamp :: "bool option"
  g_viewports :: "vk_viewport list"
  g_scissors :: "vk_rect list"
  g_blend :: "real list option"
  g_depthWrite :: bool
  g_depthCompare :: nat
  g_depthTest :: bool
  g_stencilTest :: bool
  g_compareMask :: "face \<Rightarrow> u32 option"
  g_writeMask :: "face \<Rightarrow> u32 option"
  g_stencilOp :: "face \<Rightarrow> (nat \<times> nat \<times> nat \<times> nat) option"
  g_reference :: "face \<Rightarrow> u32 option"
  g_pipeline :: "nat option"
  g_topology :: "nat option"
  g_index :: "(nat \<times> u64 \<times> nat) option"

fun exec_cmd :: "cmd \<Rightarrow> gpu_state \<Rightarrow> gpu_state" where
  "exec_cmd (CmdSetFrontFace v) g = g\<lparr>g_frontFace := Some v\<rparr>"
| "exec_cmd (CmdSetCullMode v) g = g\<lparr>g_cullMode := Some v\<rparr>"
| "exec_cmd (CmdSetDepthBiasEnable b) g = g\<lparr>g_depthBiasEnable := b\<rparr>"
| "exec_cmd (CmdSetDepthBias a b c) g = g\<lparr>g_depthBias := Some (a, b, c)\<rparr>"
| "exec_cmd (CmdSetDepthClampEnable b) g = g\<lparr>g_depthClamp := Some b\<rparr>"
| "exec_cmd (CmdSetViewportWithCount vs) g = g\<lparr>g_viewports := vs\<rparr>"
| "exec_cmd (CmdSetScissorWithCount rs) g = g\<lparr>g_scissors := rs\<rparr>"
| "exec_cmd (CmdSetBlendConstants c) g = g\<lparr>g_blend := Some c\<rparr>"
| "exec_cmd (CmdSetDepthWriteEnable b) g = g\<lparr>g_depthWrite := b\<rparr>"
| "exec_cmd (CmdSetDepthCompareOp v) g = g\<lparr>g_depthCompare := v\<rparr>"
| "exec_cmd (CmdSetDepthTestEnable b) g = g\<lparr>g_depthTest := b\<rparr>"
| "exec_cmd (CmdSetDepthBoundsTestEnable b) g = g"
| "exec_cmd (CmdSetRasterizerDiscardEnable b) g = g"
| "exec_cmd (CmdSetStencilTestEnable b) g = g\<lparr>g_stencilTest := b\<rparr>"
| "exec_cmd (CmdSetStencilCompareMask f v) g = g\<lparr>g_compareMask := (g_compareMask g)(f \<mapsto> v)\<rparr>"
| "exec_cmd (CmdSetStencilWriteMask f v) g = g\<lparr>g_writeMask := (g_writeMask g)(f \<mapsto> v)\<rparr>"
| "exec_cmd (CmdSetStencilOp f a b c d) g = g\<lparr>g_stencilOp := (g_stencilOp g)(f \<mapsto> (a, b, c, d))\<rparr>"
| "exec_cmd (CmdSetStencilReference fs v) g =
     g\<lparr>g_reference := (\<lambda>f. if f \<in> fs then Some v else g_reference g f)\<rparr>"
| "exec_cmd (CmdBindPipeline p) g = g\<lparr>g_pipeline := Some p\<rparr>"
| "exec_cmd (CmdSetPrimitiveTopology t) g = g\<lparr>g_topology := Some t\<rparr>"
| "exec_cmd (CmdBindIndexBuffer b i t) g = g\<lparr>g_index := Some (b, i, t)\<rparr>"

definition exec :: "cmd list \<Rightarrow> gpu_state \<Rightarrow> gpu_state" where
  "exec cs g = fold exec_cmd cs g"

subsection \<open>The caches\<close>

record dyn_state =
  frontFace :: "nat option"
  cullMode :: "nat option"
  depthBias :: "(real \<times> real \<times> real) option"
  wantedClamp :: bool
  boundDepthClamp :: bool
  viewports :: "vk_viewport list"
  scissors :: "vk_rect list"
  blendColor :: "real list option"
  stencilReference :: "(u32 \<times> u32) option"
  depthStencilState :: "nat option"
  boundPipeline :: nat
  boundTopology :: "nat option"
  indexBuffer :: nat
  indexOffset :: u64
  indexType :: "nat option"

record metal_viewport =
  originX :: real
  originY :: real
  mv_width :: real
  mv_height :: real
  znear :: real
  zfar :: real

record metal_scissor =
  ms_x :: u64
  ms_y :: u64
  ms_width :: u64
  ms_height :: u64

record stencil_desc =
  readMask :: u32
  writeMask :: u32
  stencilFailureOperation :: nat
  depthFailureOperation :: nat
  depthStencilPassOperation :: nat
  stencilCompareFunction :: nat

record depth_stencil_desc =
  depthCompareFunction :: nat
  depthWriteEnabled :: bool
  frontFaceStencil :: "stencil_desc option"
  backFaceStencil :: "stencil_desc option"

text \<open>Conversions, the immutable descriptors of depth-stencil state objects, the pipelines of a
  pipeline state, and whether the device has a dynamic depth clamp.\<close>

record vk_conversions =
  windingToVk :: "nat \<Rightarrow> nat"
  cullModeToVk :: "nat \<Rightarrow> nat"
  compareToVk :: "nat \<Rightarrow> nat"
  stencilOpToVk :: "nat \<Rightarrow> nat"
  topologyToVk :: "nat \<Rightarrow> nat"
  indexTypeToVk :: "nat \<Rightarrow> nat"
  stateDescriptor :: "nat \<Rightarrow> depth_stencil_desc"
  defaultDepthStencil :: depth_stencil_desc
  pipelineFor :: "nat \<Rightarrow> nat \<Rightarrow> bool \<Rightarrow> nat"
  hasDynamicClamp :: bool

type_synonym emitted = "cmd list \<times> dyn_state"

definition setFrontFacingWinding :: "vk_conversions \<Rightarrow> nat \<Rightarrow> dyn_state \<Rightarrow> emitted" where
  "setFrontFacingWinding env w s =
     (let v = windingToVk env w in
      if frontFace s = Some v then ([], s) else ([CmdSetFrontFace v], s\<lparr>frontFace := Some v\<rparr>))"

definition setCullMode :: "vk_conversions \<Rightarrow> nat \<Rightarrow> dyn_state \<Rightarrow> emitted" where
  "setCullMode env m s =
     (let v = cullModeToVk env m in
      if cullMode s = Some v then ([], s) else ([CmdSetCullMode v], s\<lparr>cullMode := Some v\<rparr>))"

definition setDepthBias :: "real \<Rightarrow> real \<Rightarrow> real \<Rightarrow> dyn_state \<Rightarrow> emitted" where
  "setDepthBias bias slope clamp s =
     (let v = (bias, slope, clamp) in
      if depthBias s = Some v then ([], s)
      else ((if depthBias s = None then [CmdSetDepthBiasEnable True] else []) @ [CmdSetDepthBias bias clamp slope],
            s\<lparr>depthBias := Some v\<rparr>))"

text \<open>Metal has two clip modes: clip is 0, clamp is 1.\<close>

definition setDepthClipMode :: "nat \<Rightarrow> dyn_state \<Rightarrow> unit outcome \<times> dyn_state" where
  "setDepthClipMode m s =
     (if m \<noteq> 0 \<and> m \<noteq> 1 then (Inl (Throw ''BadEnumValue''), s) else (Inr (), s\<lparr>wantedClamp := (m = 1)\<rparr>))"

definition clamp01 :: "real \<Rightarrow> real" where
  "clamp01 x = (if x < 0 then 0 else if 1 < x then 1 else x)"

text \<open>Metal's viewports are flipped.\<close>

definition viewportToVk :: "metal_viewport \<Rightarrow> vk_viewport" where
  "viewportToVk v = \<lparr>vp_x = originX v, vp_y = originY v + mv_height v, vp_width = mv_width v, vp_height = - mv_height v,
     vp_minDepth = clamp01 (znear v), vp_maxDepth = clamp01 (zfar v)\<rparr>"

definition setViewports :: "metal_viewport list \<Rightarrow> dyn_state \<Rightarrow> emitted" where
  "setViewports vs s =
     (let tmp = map viewportToVk vs in
      if viewports s \<noteq> [] \<and> length (viewports s) = length vs \<and> list_all2 (=) tmp (viewports s) then ([], s)
      else ([CmdSetViewportWithCount tmp], s\<lparr>viewports := tmp\<rparr>))"

text \<open>Scissor coordinates are cut to 32 bits.\<close>

definition scissorToVk :: "metal_scissor \<Rightarrow> vk_rect" where
  "scissorToVk r = \<lparr>rect_x = sint (ucast (ms_x r) :: u32), rect_y = sint (ucast (ms_y r) :: u32),
     rect_width = unat (ucast (ms_width r) :: u32), rect_height = unat (ucast (ms_height r) :: u32)\<rparr>"

definition setScissorRects :: "metal_scissor list \<Rightarrow> dyn_state \<Rightarrow> emitted" where
  "setScissorRects rs s =
     (let tmp = map scissorToVk rs in
      if scissors s \<noteq> [] \<and> length (scissors s) = length rs \<and> list_all2 (=) tmp (scissors s) then ([], s)
      else ([CmdSetScissorWithCount tmp], s\<lparr>scissors := tmp\<rparr>))"

definition setBlendColor :: "real list \<Rightarrow> dyn_state \<Rightarrow> emitted" where
  "setBlendColor c s =
     (if blendColor s = Some c then ([], s) else ([CmdSetBlendConstants c], s\<lparr>blendColor := Some c\<rparr>))"

text \<open>The commands of one face: its masks and operations, or an operation that keeps everything.\<close>

definition stencil_face :: "vk_conversions \<Rightarrow> face \<Rightarrow> stencil_desc option \<Rightarrow> cmd list" where
  "stencil_face env f sd =
     (case sd of
        Some d \<Rightarrow> [CmdSetStencilCompareMask f (readMask d), CmdSetStencilWriteMask f (writeMask d),
          CmdSetStencilOp f (stencilOpToVk env (stencilFailureOperation d)) (stencilOpToVk env (depthStencilPassOperation d))
            (stencilOpToVk env (depthFailureOperation d)) (compareToVk env (stencilCompareFunction d))]
      | None \<Rightarrow> [CmdSetStencilOp f 0 0 0 7])"

definition depth_stencil_commands :: "vk_conversions \<Rightarrow> depth_stencil_desc \<Rightarrow> cmd list" where
  "depth_stencil_commands env d =
     [CmdSetDepthWriteEnable (depthWriteEnabled d), CmdSetDepthCompareOp (compareToVk env (depthCompareFunction d)),
      CmdSetDepthTestEnable True,
      CmdSetStencilTestEnable (frontFaceStencil d \<noteq> None \<or> backFaceStencil d \<noteq> None)]
     @ (if frontFaceStencil d \<noteq> None \<or> backFaceStencil d \<noteq> None
        then stencil_face env Front (frontFaceStencil d) @ stencil_face env Back (backFaceStencil d) else [])"

definition setDepthStencilState :: "vk_conversions \<Rightarrow> nat option \<Rightarrow> dyn_state \<Rightarrow> emitted" where
  "setDepthStencilState env state s =
     (if state \<noteq> None \<and> state = depthStencilState s then ([], s)
      else let d = (case state of None \<Rightarrow> defaultDepthStencil env | Some i \<Rightarrow> stateDescriptor env i)
           in (depth_stencil_commands env d, s\<lparr>depthStencilState := state\<rparr>))"

definition setStencilReferenceValue :: "u32 \<Rightarrow> dyn_state \<Rightarrow> emitted" where
  "setStencilReferenceValue v s =
     (if stencilReference s = Some (v, v) then ([], s)
      else ([CmdSetStencilReference {Front, Back} v], s\<lparr>stencilReference := Some (v, v)\<rparr>))"

definition setStencilReferenceValues :: "u32 \<Rightarrow> u32 \<Rightarrow> dyn_state \<Rightarrow> emitted" where
  "setStencilReferenceValues front back s =
     (if front = back then setStencilReferenceValue front s
      else if stencilReference s = Some (front, back) then ([], s)
      else ((case stencilReference s of None \<Rightarrow> [CmdSetStencilReference {Front} front]
               | Some (f, b) \<Rightarrow> if f \<noteq> front then [CmdSetStencilReference {Front} front] else [])
            @ (case stencilReference s of None \<Rightarrow> [CmdSetStencilReference {Back} back]
               | Some (f, b) \<Rightarrow> if b \<noteq> back then [CmdSetStencilReference {Back} back] else []),
            s\<lparr>stencilReference := Some (front, back)\<rparr>))"

text \<open>The start of a draw: pipeline, topology and depth clamp.\<close>

definition prepare_draw :: "vk_conversions \<Rightarrow> nat \<Rightarrow> nat \<Rightarrow> dyn_state \<Rightarrow> emitted" where
  "prepare_draw env pso prim s =
     (let pipeline = pipelineFor env pso prim (wantedClamp s);
          (c1, s) = (if boundPipeline s \<noteq> pipeline then ([CmdBindPipeline pipeline], s\<lparr>boundPipeline := pipeline\<rparr>) else ([], s));
          topology = topologyToVk env prim;
          (c2, s) = (if boundTopology s \<noteq> Some topology
                     then ([CmdSetPrimitiveTopology topology], s\<lparr>boundTopology := Some topology\<rparr>) else ([], s));
          (c3, s) = (if hasDynamicClamp env \<and> boundDepthClamp s \<noteq> wantedClamp s
                     then ([CmdSetDepthClampEnable (wantedClamp s)], s\<lparr>boundDepthClamp := wantedClamp s\<rparr>) else ([], s))
      in (c1 @ c2 @ c3, s))"

definition bind_index_buffer :: "vk_conversions \<Rightarrow> nat \<Rightarrow> u64 \<Rightarrow> nat \<Rightarrow> dyn_state \<Rightarrow> emitted" where
  "bind_index_buffer env buffer offset type s =
     (let vk = indexTypeToVk env type in
      if indexBuffer s \<noteq> buffer \<or> indexOffset s \<noteq> offset \<or> indexType s \<noteq> Some vk
      then ([CmdBindIndexBuffer buffer offset vk], s\<lparr>indexBuffer := buffer, indexOffset := offset, indexType := Some vk\<rparr>)
      else ([], s))"

subsection \<open>A new encoder\<close>

definition new_dyn :: dyn_state where
  "new_dyn = \<lparr>frontFace = None, cullMode = None, depthBias = None, wantedClamp = False, boundDepthClamp = False,
     viewports = [], scissors = [], blendColor = None, stencilReference = None, depthStencilState = None,
     boundPipeline = 0, boundTopology = None, indexBuffer = 0, indexOffset = 0, indexType = None\<rparr>"

definition and_emit :: "emitted \<Rightarrow> (dyn_state \<Rightarrow> emitted) \<Rightarrow> emitted" where
  "and_emit r f = (let (cs, s) = r; (cs', s') = f s in (cs @ cs', s'))"

text \<open>The default state the constructor sets for a target of the given size: no culling is 0,
  clockwise is 0, \<open>VK_COMPARE_OP_ALWAYS\<close> is 7.\<close>

definition default_state :: "vk_conversions \<Rightarrow> nat \<Rightarrow> nat \<Rightarrow> emitted" where
  "default_state env width height =
     and_emit (and_emit (and_emit (and_emit (and_emit
       (setViewports [\<lparr>originX = 0, originY = 0, mv_width = of_nat width, mv_height = of_nat height, znear = 0, zfar = 1\<rparr>] new_dyn)
       (setScissorRects [\<lparr>ms_x = 0, ms_y = 0, ms_width = of_nat width, ms_height = of_nat height\<rparr>]))
       (setCullMode env 0))
       (setFrontFacingWinding env 0))
       (\<lambda>s. ([CmdSetDepthCompareOp 7, CmdSetDepthBiasEnable False, CmdSetDepthTestEnable False,
              CmdSetDepthWriteEnable False, CmdSetDepthBoundsTestEnable False, CmdSetStencilTestEnable False], s)))
       (\<lambda>s. and_emit (setBlendColor [0, 0, 0, 0] s)
         (\<lambda>s. (CmdSetRasterizerDiscardEnable False #
                (if hasDynamicClamp env then [CmdSetDepthClampEnable False] else []), s)))"

end
