(* ===== verification/RenderRefinement.thy ===== *)
theory RenderRefinement
  imports RenderState
begin

section \<open>Skipped commands do not change what a draw sees\<close>

text \<open>
  The reference is an encoder without caches: every call sets the state it names, and a draw sets
  its pipeline, topology, depth clamp and index buffer. The commands the caching encoder records
  leave Vulkan in exactly the reference's state, after every sequence of calls.
\<close>

datatype dyn_call =
    Set_winding nat
  | Set_cull nat
  | Set_bias real real real
  | Set_clip nat
  | Set_viewports "metal_viewport list"
  | Set_scissors "metal_scissor list"
  | Set_blend "real list"
  | Set_depth_stencil "nat option"
  | Set_reference u32
  | Set_references u32 u32
  | Draw nat nat "(nat \<times> u64 \<times> nat) option"

fun call_emit :: "vk_conversions \<Rightarrow> dyn_call \<Rightarrow> dyn_state \<Rightarrow> emitted" where
  "call_emit env (Set_winding w) s = setFrontFacingWinding env w s"
| "call_emit env (Set_cull m) s = setCullMode env m s"
| "call_emit env (Set_bias a b c) s = setDepthBias a b c s"
| "call_emit env (Set_clip m) s = ([], snd (setDepthClipMode m s))"
| "call_emit env (Set_viewports vs) s = setViewports vs s"
| "call_emit env (Set_scissors rs) s = setScissorRects rs s"
| "call_emit env (Set_blend c) s = setBlendColor c s"
| "call_emit env (Set_depth_stencil d) s = setDepthStencilState env d s"
| "call_emit env (Set_reference v) s = setStencilReferenceValue v s"
| "call_emit env (Set_references f b) s = setStencilReferenceValues f b s"
| "call_emit env (Draw pso prim ib) s =
     and_emit (prepare_draw env pso prim s)
       (\<lambda>s. case ib of None \<Rightarrow> ([], s) | Some (b, off, t) \<Rightarrow> bind_index_buffer env b off t s)"

definition run_dyn :: "vk_conversions \<Rightarrow> dyn_call list \<Rightarrow> emitted \<Rightarrow> emitted" where
  "run_dyn env calls start = fold (\<lambda>c r. and_emit r (call_emit env c)) calls start"

subsection \<open>The reference\<close>

fun ref_call :: "vk_conversions \<Rightarrow> dyn_call \<Rightarrow> bool \<times> gpu_state \<Rightarrow> bool \<times> gpu_state" where
  "ref_call env (Set_winding w) (c, g) = (c, g\<lparr>g_frontFace := Some (windingToVk env w)\<rparr>)"
| "ref_call env (Set_cull m) (c, g) = (c, g\<lparr>g_cullMode := Some (cullModeToVk env m)\<rparr>)"
| "ref_call env (Set_bias bias slope clamp) (c, g) =
     (c, g\<lparr>g_depthBiasEnable := True, g_depthBias := Some (bias, clamp, slope)\<rparr>)"
| "ref_call env (Set_clip m) (c, g) = (if m \<le> 1 then m = 1 else c, g)"
| "ref_call env (Set_viewports vs) (c, g) = (c, g\<lparr>g_viewports := map viewportToVk vs\<rparr>)"
| "ref_call env (Set_scissors rs) (c, g) = (c, g\<lparr>g_scissors := map scissorToVk rs\<rparr>)"
| "ref_call env (Set_blend col) (c, g) = (c, g\<lparr>g_blend := Some col\<rparr>)"
| "ref_call env (Set_depth_stencil d) (c, g) =
     (c, exec (depth_stencil_commands env (case d of None \<Rightarrow> defaultDepthStencil env | Some i \<Rightarrow> stateDescriptor env i)) g)"
| "ref_call env (Set_reference v) (c, g) = (c, g\<lparr>g_reference := (\<lambda>_. Some v)\<rparr>)"
| "ref_call env (Set_references f b) (c, g) = (c, g\<lparr>g_reference := (\<lambda>x. Some (case x of Front \<Rightarrow> f | Back \<Rightarrow> b))\<rparr>)"
| "ref_call env (Draw pso prim ib) (c, g) =
     (c, g\<lparr>g_pipeline := Some (pipelineFor env pso prim c), g_topology := Some (topologyToVk env prim),
            g_depthClamp := (if hasDynamicClamp env then Some c else g_depthClamp g),
            g_index := (case ib of None \<Rightarrow> g_index g | Some (b, off, t) \<Rightarrow> Some (b, off, indexTypeToVk env t))\<rparr>)"

subsection \<open>Agreement of the caches with Vulkan\<close>

definition face_fixed :: "vk_conversions \<Rightarrow> face \<Rightarrow> stencil_desc option \<Rightarrow> gpu_state \<Rightarrow> bool" where
  "face_fixed env f sd g \<longleftrightarrow>
     (case sd of
        Some d \<Rightarrow> g_compareMask g f = Some (readMask d) \<and> g_writeMask g f = Some (writeMask d)
          \<and> g_stencilOp g f = Some (stencilOpToVk env (stencilFailureOperation d), stencilOpToVk env (depthStencilPassOperation d),
              stencilOpToVk env (depthFailureOperation d), compareToVk env (stencilCompareFunction d))
      | None \<Rightarrow> g_stencilOp g f = Some (0, 0, 0, 7))"

definition ds_fixed :: "vk_conversions \<Rightarrow> depth_stencil_desc \<Rightarrow> gpu_state \<Rightarrow> bool" where
  "ds_fixed env d g \<longleftrightarrow> g_depthWrite g = depthWriteEnabled d \<and> g_depthCompare g = compareToVk env (depthCompareFunction d)
     \<and> g_depthTest g \<and> g_stencilTest g = (frontFaceStencil d \<noteq> None \<or> backFaceStencil d \<noteq> None)
     \<and> (frontFaceStencil d \<noteq> None \<or> backFaceStencil d \<noteq> None \<longrightarrow>
          face_fixed env Front (frontFaceStencil d) g \<and> face_fixed env Back (backFaceStencil d) g)"

lemma exec_Nil [simp]: "exec [] g = g" by (simp add: exec_def)
lemma exec_Cons [simp]: "exec (c # cs) g = exec cs (exec_cmd c g)" by (simp add: exec_def)
lemma exec_append [simp]: "exec (cs @ cs') g = exec cs' (exec cs g)" by (simp add: exec_def)

lemma fun_upd_same: "f x = Some y \<Longrightarrow> f(x \<mapsto> y) = f"
  by auto

lemma exec_face_fixed: "face_fixed env f sd g \<Longrightarrow> exec (stencil_face env f sd) g = g"
  by (cases sd) (simp_all add: face_fixed_def stencil_face_def fun_upd_same)

lemma exec_face: "face_fixed env f sd (exec (stencil_face env f sd) g)"
  by (cases sd) (simp_all add: face_fixed_def stencil_face_def)

lemma exec_face_frame:
  "g_depthWrite (exec (stencil_face env f sd) g) = g_depthWrite g" "g_depthCompare (exec (stencil_face env f sd) g) = g_depthCompare g"
  "g_depthTest (exec (stencil_face env f sd) g) = g_depthTest g" "g_stencilTest (exec (stencil_face env f sd) g) = g_stencilTest g"
  by (cases sd, simp_all add: stencil_face_def)+

lemma exec_face_other: "face_fixed env Front sd g \<Longrightarrow> face_fixed env Front sd (exec (stencil_face env Back sd') g)"
  by (cases sd'; cases sd) (simp_all add: face_fixed_def stencil_face_def)

lemma gpu_same_ds:
  "g_depthWrite g = v1 \<Longrightarrow> g\<lparr>g_depthWrite := v1\<rparr> = g" "g_depthCompare g = v2 \<Longrightarrow> g\<lparr>g_depthCompare := v2\<rparr> = g"
  "g_depthTest g = v3 \<Longrightarrow> g\<lparr>g_depthTest := v3\<rparr> = g" "g_stencilTest g = v4 \<Longrightarrow> g\<lparr>g_stencilTest := v4\<rparr> = g"
  by auto

lemma exec_ds_fixed:
  assumes "ds_fixed env d g"
  shows "exec (depth_stencil_commands env d) g = g"
proof -
  note A = assms [unfolded ds_fixed_def]
  have base: "exec [CmdSetDepthWriteEnable (depthWriteEnabled d), CmdSetDepthCompareOp (compareToVk env (depthCompareFunction d)),
      CmdSetDepthTestEnable True, CmdSetStencilTestEnable (frontFaceStencil d \<noteq> None \<or> backFaceStencil d \<noteq> None)] g = g"
    using A by (simp add: gpu_same_ds)
  show ?thesis
  proof (cases "frontFaceStencil d \<noteq> None \<or> backFaceStencil d \<noteq> None")
    case True
    then have "exec (stencil_face env Front (frontFaceStencil d) @ stencil_face env Back (backFaceStencil d)) g = g"
      using A by (simp add: exec_face_fixed)
    then show ?thesis unfolding depth_stencil_commands_def exec_append base using True by (simp only: if_True exec_append)
  next
    case False
    then show ?thesis unfolding depth_stencil_commands_def exec_append base by simp
  qed
qed

lemma exec_ds: "ds_fixed env d (exec (depth_stencil_commands env d) g)"
  by (simp add: ds_fixed_def depth_stencil_commands_def exec_face exec_face_other exec_face_frame)

definition caches_agree :: "vk_conversions \<Rightarrow> dyn_state \<Rightarrow> gpu_state \<Rightarrow> bool" where
  "caches_agree env s g \<longleftrightarrow>
     (frontFace s \<noteq> None \<longrightarrow> g_frontFace g = frontFace s)
     \<and> (cullMode s \<noteq> None \<longrightarrow> g_cullMode g = cullMode s)
     \<and> (\<forall>a b c. depthBias s = Some (a, b, c) \<longrightarrow> g_depthBias g = Some (a, c, b) \<and> g_depthBiasEnable g)
     \<and> (viewports s \<noteq> [] \<longrightarrow> g_viewports g = viewports s)
     \<and> (scissors s \<noteq> [] \<longrightarrow> g_scissors g = scissors s)
     \<and> (blendColor s \<noteq> None \<longrightarrow> g_blend g = blendColor s)
     \<and> (\<forall>f b. stencilReference s = Some (f, b) \<longrightarrow> g_reference g Front = Some f \<and> g_reference g Back = Some b)
     \<and> (\<forall>i. depthStencilState s = Some i \<longrightarrow> ds_fixed env (stateDescriptor env i) g)
     \<and> (boundPipeline s \<noteq> 0 \<longrightarrow> g_pipeline g = Some (boundPipeline s))
     \<and> (boundTopology s \<noteq> None \<longrightarrow> g_topology g = boundTopology s)
     \<and> (hasDynamicClamp env \<longrightarrow> g_depthClamp g = Some (boundDepthClamp s))
     \<and> (\<forall>t. indexType s = Some t \<longrightarrow> g_index g = Some (indexBuffer s, indexOffset s, t))"

definition sim :: "vk_conversions \<Rightarrow> dyn_state \<Rightarrow> gpu_state \<Rightarrow> bool \<times> gpu_state \<Rightarrow> bool" where
  "sim env s g r \<longleftrightarrow> caches_agree env s g \<and> r = (wantedClamp s, g)"

text \<open>The depth-stencil part is not touched by the other commands.\<close>

lemma ds_frame [simp]:
  "ds_fixed env d (g\<lparr>g_frontFace := v1\<rparr>) = ds_fixed env d g" "ds_fixed env d (g\<lparr>g_cullMode := v1\<rparr>) = ds_fixed env d g"
  "ds_fixed env d (g\<lparr>g_depthBiasEnable := v2\<rparr>) = ds_fixed env d g" "ds_fixed env d (g\<lparr>g_depthBias := v3\<rparr>) = ds_fixed env d g"
  "ds_fixed env d (g\<lparr>g_viewports := v4\<rparr>) = ds_fixed env d g" "ds_fixed env d (g\<lparr>g_scissors := v5\<rparr>) = ds_fixed env d g"
  "ds_fixed env d (g\<lparr>g_blend := v6\<rparr>) = ds_fixed env d g" "ds_fixed env d (g\<lparr>g_reference := v7\<rparr>) = ds_fixed env d g"
  "ds_fixed env d (g\<lparr>g_pipeline := v8\<rparr>) = ds_fixed env d g" "ds_fixed env d (g\<lparr>g_topology := v8\<rparr>) = ds_fixed env d g"
  "ds_fixed env d (g\<lparr>g_depthClamp := v9\<rparr>) = ds_fixed env d g" "ds_fixed env d (g\<lparr>g_index := v10\<rparr>) = ds_fixed env d g"
  by (auto simp: ds_fixed_def face_fixed_def split: option.splits)

lemma exec_face_outside:
  "g_frontFace (exec (stencil_face env f sd) g) = g_frontFace g" "g_cullMode (exec (stencil_face env f sd) g) = g_cullMode g"
  "g_depthBiasEnable (exec (stencil_face env f sd) g) = g_depthBiasEnable g" "g_depthBias (exec (stencil_face env f sd) g) = g_depthBias g"
  "g_viewports (exec (stencil_face env f sd) g) = g_viewports g" "g_scissors (exec (stencil_face env f sd) g) = g_scissors g"
  "g_blend (exec (stencil_face env f sd) g) = g_blend g" "g_reference (exec (stencil_face env f sd) g) = g_reference g"
  "g_pipeline (exec (stencil_face env f sd) g) = g_pipeline g" "g_topology (exec (stencil_face env f sd) g) = g_topology g"
  "g_depthClamp (exec (stencil_face env f sd) g) = g_depthClamp g" "g_index (exec (stencil_face env f sd) g) = g_index g"
  by (cases sd, simp_all add: stencil_face_def)+

lemma exec_ds_outside:
  "g_frontFace (exec (depth_stencil_commands env d) g) = g_frontFace g" "g_cullMode (exec (depth_stencil_commands env d) g) = g_cullMode g"
  "g_depthBiasEnable (exec (depth_stencil_commands env d) g) = g_depthBiasEnable g" "g_depthBias (exec (depth_stencil_commands env d) g) = g_depthBias g"
  "g_viewports (exec (depth_stencil_commands env d) g) = g_viewports g" "g_scissors (exec (depth_stencil_commands env d) g) = g_scissors g"
  "g_blend (exec (depth_stencil_commands env d) g) = g_blend g" "g_reference (exec (depth_stencil_commands env d) g) = g_reference g"
  "g_pipeline (exec (depth_stencil_commands env d) g) = g_pipeline g" "g_topology (exec (depth_stencil_commands env d) g) = g_topology g"
  "g_depthClamp (exec (depth_stencil_commands env d) g) = g_depthClamp g" "g_index (exec (depth_stencil_commands env d) g) = g_index g"
  by (simp_all add: depth_stencil_commands_def exec_face_outside)

subsection \<open>Each call\<close>

lemma gpu_same:
  "g_frontFace g = v1 \<Longrightarrow> g\<lparr>g_frontFace := v1\<rparr> = g" "g_cullMode g = v1 \<Longrightarrow> g\<lparr>g_cullMode := v1\<rparr> = g"
  "g_viewports g = v4 \<Longrightarrow> g\<lparr>g_viewports := v4\<rparr> = g" "g_scissors g = v5 \<Longrightarrow> g\<lparr>g_scissors := v5\<rparr> = g"
  "g_blend g = v6 \<Longrightarrow> g\<lparr>g_blend := v6\<rparr> = g" "g_reference g = v7 \<Longrightarrow> g\<lparr>g_reference := v7\<rparr> = g"
  "g_depthBiasEnable g = v2 \<Longrightarrow> g_depthBias g = v3 \<Longrightarrow> g\<lparr>g_depthBiasEnable := v2, g_depthBias := v3\<rparr> = g"
  by auto

definition emit_sim :: "vk_conversions \<Rightarrow> dyn_call \<Rightarrow> emitted \<Rightarrow> gpu_state \<Rightarrow> bool \<times> gpu_state \<Rightarrow> bool" where
  "emit_sim env call e g r \<longleftrightarrow> sim env (snd e) (exec (fst e) g) (ref_call env call r)"

lemmas sim_defs = emit_sim_def sim_def caches_agree_def Let_def gpu_same

lemma sim_winding: "sim env s g r \<Longrightarrow> emit_sim env (Set_winding w) (setFrontFacingWinding env w s) g r"
  by (cases "frontFace s = Some (windingToVk env w)") (simp_all add: setFrontFacingWinding_def sim_defs)

lemma sim_cull: "sim env s g r \<Longrightarrow> emit_sim env (Set_cull m) (setCullMode env m s) g r"
  by (cases "cullMode s = Some (cullModeToVk env m)") (simp_all add: setCullMode_def sim_defs)

lemma sim_bias: "sim env s g r \<Longrightarrow> emit_sim env (Set_bias a b c) (setDepthBias a b c s) g r"
proof (cases "depthBias s = Some (a, b, c)")
  case True
  then show "sim env s g r \<Longrightarrow> ?thesis" by (simp add: setDepthBias_def sim_defs)
next
  case False
  then show "sim env s g r \<Longrightarrow> ?thesis"
    by (cases "depthBias s") (simp_all add: setDepthBias_def sim_defs split_paired_all)
qed

lemma sim_clip: "sim env s g r \<Longrightarrow> emit_sim env (Set_clip m) ([], snd (setDepthClipMode m s)) g r"
  by (cases "m = 0"; cases "m = 1") (simp_all add: setDepthClipMode_def sim_defs)

lemma sim_viewports: "sim env s g r \<Longrightarrow> emit_sim env (Set_viewports vs) (setViewports vs s) g r"
  by (cases "viewports s \<noteq> [] \<and> map viewportToVk vs = viewports s")
    (auto simp add: setViewports_def sim_defs list.rel_eq simp del: gpu_same dest: arg_cong [of _ _ length])

lemma sim_scissors: "sim env s g r \<Longrightarrow> emit_sim env (Set_scissors rs) (setScissorRects rs s) g r"
  by (cases "scissors s \<noteq> [] \<and> map scissorToVk rs = scissors s") (auto simp: setScissorRects_def sim_defs list.rel_eq Let_def)

lemma sim_blend: "sim env s g r \<Longrightarrow> emit_sim env (Set_blend c) (setBlendColor c s) g r"
  by (cases "blendColor s = Some c") (simp_all add: setBlendColor_def sim_defs)

lemma sim_depth_stencil:
  assumes "sim env s g r"
  shows "emit_sim env (Set_depth_stencil d) (setDepthStencilState env d s) g r"
proof (cases "d \<noteq> None \<and> d = depthStencilState s")
  case True
  then obtain i where "d = Some i" "depthStencilState s = Some i" by auto
  then show ?thesis using assms
    by (simp add: emit_sim_def sim_def setDepthStencilState_def caches_agree_def exec_ds_fixed)
next
  case False
  let ?d = "case d of None \<Rightarrow> defaultDepthStencil env | Some i \<Rightarrow> stateDescriptor env i"
  have c: "setDepthStencilState env d s = (depth_stencil_commands env ?d, s\<lparr>depthStencilState := d\<rparr>)"
    using False by (auto simp: setDepthStencilState_def Let_def)
  have "ds_fixed env ?d (exec (depth_stencil_commands env ?d) g)" by (rule exec_ds)
  then have "caches_agree env (s\<lparr>depthStencilState := d\<rparr>) (exec (depth_stencil_commands env ?d) g)"
    using assms by (simp add: sim_def caches_agree_def exec_ds_outside exec_ds)
  then show ?thesis using assms by (simp add: c emit_sim_def sim_def)
qed

lemma face_fun_eq: "h Front = h' Front \<Longrightarrow> h Back = h' Back \<Longrightarrow> h = h'"
  by (rule ext) (metis face.exhaust)

lemma sim_reference:
  assumes "sim env s g r"
  shows "emit_sim env (Set_reference v) (setStencilReferenceValue v s) g r"
proof (cases "stencilReference s = Some (v, v)")
  case True
  then have "g_reference g = (\<lambda>_. Some v)" using assms by (intro face_fun_eq) (simp_all add: sim_def caches_agree_def)
  then show ?thesis using assms True by (simp add: setStencilReferenceValue_def sim_defs)
next
  case False
  have "(\<lambda>f. if f = Front \<or> f = Back then Some v else g_reference g f) = (\<lambda>_. Some v)" by (rule face_fun_eq) simp_all
  then show ?thesis using assms False by (simp add: setStencilReferenceValue_def sim_defs)
qed

lemma reference_cmds:
  "exec [CmdSetStencilReference {Front} f, CmdSetStencilReference {Back} b] g =
     g\<lparr>g_reference := (\<lambda>x. Some (case x of Front \<Rightarrow> f | Back \<Rightarrow> b))\<rparr>"
  "g_reference g Back = Some b \<Longrightarrow> exec [CmdSetStencilReference {Front} f] g =
     g\<lparr>g_reference := (\<lambda>x. Some (case x of Front \<Rightarrow> f | Back \<Rightarrow> b))\<rparr>"
  "g_reference g Front = Some f \<Longrightarrow> exec [CmdSetStencilReference {Back} b] g =
     g\<lparr>g_reference := (\<lambda>x. Some (case x of Front \<Rightarrow> f | Back \<Rightarrow> b))\<rparr>"
  by (rule gpu_state.equality; simp add: face_fun_eq)+

lemma sim_references:
  assumes "sim env s g r"
  shows "emit_sim env (Set_references f b) (setStencilReferenceValues f b s) g r"
proof -
  let ?R = "\<lambda>x. Some (case x of Front \<Rightarrow> f | Back \<Rightarrow> b)"
  have r: "r = (wantedClamp s, g)" using assms by (simp add: sim_def)
  consider "f = b" | "f \<noteq> b" "stencilReference s = Some (f, b)" | "f \<noteq> b" "stencilReference s \<noteq> Some (f, b)" by blast
  then show ?thesis
  proof cases
    case 1
    then have "?R = (\<lambda>_. Some f)" by (intro face_fun_eq) simp_all
    then have "ref_call env (Set_references f b) r = ref_call env (Set_reference f) r" by (simp add: r)
    then show ?thesis using sim_reference [OF assms, of f] 1 by (simp add: emit_sim_def setStencilReferenceValues_def)
  next
    case 2
    then have "g_reference g = ?R" using assms by (intro face_fun_eq) (simp_all add: sim_def caches_agree_def)
    then show ?thesis using assms 2 by (simp add: setStencilReferenceValues_def sim_defs)
  next
    case 3
    have e: "exec (fst (setStencilReferenceValues f b s)) g = g\<lparr>g_reference := ?R\<rparr>"
    proof (cases "stencilReference s")
      case None
      then have "fst (setStencilReferenceValues f b s) = [CmdSetStencilReference {Front} f, CmdSetStencilReference {Back} b]"
        using 3 by (simp add: setStencilReferenceValues_def)
      then show ?thesis by (simp only: reference_cmds)
    next
      case (Some p)
      obtain pf pb where p: "p = (pf, pb)" by fastforce
      have g: "g_reference g Front = Some pf" "g_reference g Back = Some pb"
        using assms Some p by (simp_all add: sim_def caches_agree_def)
      have c: "fst (setStencilReferenceValues f b s) = (if pf \<noteq> f then [CmdSetStencilReference {Front} f] else [])
          @ (if pb \<noteq> b then [CmdSetStencilReference {Back} b] else [])"
        using 3 Some p by (auto simp: setStencilReferenceValues_def)
      consider "pf = f" "pb \<noteq> b" | "pf \<noteq> f" "pb = b" | "pf \<noteq> f" "pb \<noteq> b" using Some p 3 by auto
      then show ?thesis
        by cases (use c g in \<open>simp_all only: reference_cmds if_True if_False append_Nil append_Nil2 append.simps simp_thms\<close>)
    qed
    have "snd (setStencilReferenceValues f b s) = s\<lparr>stencilReference := Some (f, b)\<rparr>"
      using 3 by (simp add: setStencilReferenceValues_def)
    then show ?thesis using assms unfolding emit_sim_def e by (simp add: sim_def caches_agree_def)
  qed
qed

lemma gpu_same_draw:
  "g_pipeline g = v \<Longrightarrow> g\<lparr>g_pipeline := v\<rparr> = g" "g_topology g = v \<Longrightarrow> g\<lparr>g_topology := v\<rparr> = g"
  "g_depthClamp g = w \<Longrightarrow> g\<lparr>g_depthClamp := w\<rparr> = g" "g_index g = i \<Longrightarrow> g\<lparr>g_index := i\<rparr> = g"
  by auto

lemma sim_draw:
  assumes "sim env s g r" "\<forall>pso prim clamp. pipelineFor env pso prim clamp \<noteq> 0"
  shows "emit_sim env (Draw pso prim None) (prepare_draw env pso prim s) g r"
proof -
  have r: "r = (wantedClamp s, g)" using assms by (simp add: sim_def)
  let ?p = "pipelineFor env pso prim (wantedClamp s)" and ?t = "topologyToVk env prim"
  have s': "snd (prepare_draw env pso prim s) = s\<lparr>boundPipeline := ?p, boundTopology := Some ?t,
      boundDepthClamp := (if hasDynamicClamp env then wantedClamp s else boundDepthClamp s)\<rparr>"
    by (simp add: prepare_draw_def Let_def)
  have e: "exec (fst (prepare_draw env pso prim s)) g = g\<lparr>g_pipeline := Some ?p, g_topology := Some ?t,
      g_depthClamp := (if hasDynamicClamp env then Some (wantedClamp s) else g_depthClamp g)\<rparr>"
    using assms
    by (cases "boundPipeline s = ?p"; cases "boundTopology s = Some ?t"; cases "hasDynamicClamp env \<and> boundDepthClamp s \<noteq> wantedClamp s")
      (simp_all add: prepare_draw_def sim_def caches_agree_def Let_def gpu_same_draw)
  show ?thesis using assms unfolding emit_sim_def e s' by (simp add: sim_def caches_agree_def r)
qed

lemma and_emit_simps [simp]:
  "fst (and_emit r f) = fst r @ fst (f (snd r))" "snd (and_emit r f) = snd (f (snd r))"
  by (simp_all add: and_emit_def Let_def split_def)

lemma sim_index:
  assumes "sim env s g r"
  shows "sim env (snd (bind_index_buffer env b off t s)) (exec (fst (bind_index_buffer env b off t s)) g)
     (wantedClamp s, g\<lparr>g_index := Some (b, off, indexTypeToVk env t)\<rparr>)"
  using assms by (auto simp: bind_index_buffer_def Let_def sim_def caches_agree_def gpu_same_draw)

lemma sim_call:
  assumes "sim env s g r" "\<forall>pso prim clamp. pipelineFor env pso prim clamp \<noteq> 0"
  shows "emit_sim env c (call_emit env c s) g r"
proof (cases c)
  case (Draw pso prim ib)
  have d: "emit_sim env (Draw pso prim None) (prepare_draw env pso prim s) g r" by (rule sim_draw [OF assms])
  show ?thesis
  proof (cases ib)
    case None
    then show ?thesis using d Draw by (simp add: emit_sim_def)
  next
    case (Some q)
    obtain b off t where q: "q = (b, off, t)" using prod_cases3 by blast
    let ?s = "snd (prepare_draw env pso prim s)" and ?g = "exec (fst (prepare_draw env pso prim s)) g"
    have 1: "sim env ?s ?g (ref_call env (Draw pso prim None) r)" using d by (simp add: emit_sim_def)
    have r: "ref_call env (Draw pso prim None) r = (wantedClamp ?s, ?g)" using 1 by (simp add: sim_def)
    have "ref_call env c r = (fst (ref_call env (Draw pso prim None) r),
        snd (ref_call env (Draw pso prim None) r)\<lparr>g_index := Some (b, off, indexTypeToVk env t)\<rparr>)"
      by (cases r) (simp add: Draw Some q)
    then show ?thesis using sim_index [OF 1, of b off t] Draw Some q r
      by (simp add: emit_sim_def)
  qed
qed (simp_all add: sim_winding sim_cull sim_bias sim_clip sim_viewports sim_scissors sim_blend sim_depth_stencil
    sim_reference sim_references assms)

lemma run_dyn_Nil: "run_dyn env [] start = start" by (simp add: run_dyn_def)

lemma run_dyn_snoc: "run_dyn env (calls @ [c]) start = and_emit (run_dyn env calls start) (call_emit env c)"
  by (simp add: run_dyn_def)

lemma run_dyn_sim:
  assumes "sim env (snd start) (exec (fst start) g) r" "\<forall>pso prim clamp. pipelineFor env pso prim clamp \<noteq> 0"
  shows "sim env (snd (run_dyn env calls start)) (exec (fst (run_dyn env calls start)) g) (fold (ref_call env) calls r)"
proof (induction calls rule: rev_induct)
  case Nil
  then show ?case using assms by (simp add: run_dyn_Nil)
next
  case (snoc c calls)
  obtain cs s where e: "run_dyn env calls start = (cs, s)" by fastforce
  then show ?case using sim_call [OF snoc assms(2), of c]
    by (simp add: run_dyn_snoc emit_sim_def)
qed

lemma default_sim: "sim env (snd (default_state env w h)) (exec (fst (default_state env w h)) g)
    (False, exec (fst (default_state env w h)) g)"
  by (simp add: sim_def caches_agree_def default_state_def and_emit_def new_dyn_def setViewports_def setScissorRects_def Let_def
      setCullMode_def setFrontFacingWinding_def setBlendColor_def Let_def)

text \<open>
  C15: The commands an encoder records, skipping those that would repeat a state, leave Vulkan at
  every draw with exactly the dynamic state, pipeline, depth clamp and index buffer that setting
  everything on every call would: no skipped command was needed.
\<close>

theorem skipped_commands_redundant:
  assumes "\<forall>pso prim clamp. pipelineFor env pso prim clamp \<noteq> 0"
  shows "exec (fst (run_dyn env calls (default_state env w h))) g =
    snd (fold (ref_call env) calls (False, exec (fst (default_state env w h)) g))"
  using run_dyn_sim [OF default_sim assms] by (metis sim_def snd_conv)

definition wit_conv :: vk_conversions where
  "wit_conv = \<lparr>windingToVk = (\<lambda>w. w), cullModeToVk = (\<lambda>m. m), compareToVk = (\<lambda>c. c), stencilOpToVk = (\<lambda>s. s),
     topologyToVk = (\<lambda>t. t), indexTypeToVk = (\<lambda>t. t),
     stateDescriptor = (\<lambda>i. \<lparr>depthCompareFunction = i, depthWriteEnabled = True, frontFaceStencil = None, backFaceStencil = None\<rparr>),
     defaultDepthStencil = \<lparr>depthCompareFunction = 7, depthWriteEnabled = False, frontFaceStencil = None, backFaceStencil = None\<rparr>,
     pipelineFor = (\<lambda>pso prim clamp. 1 + pso), hasDynamicClamp = True\<rparr>"

lemma skipped_commands_redundant_witness:
  "let calls = [Set_cull 2, Set_depth_stencil (Some 3), Set_clip 1, Draw 4 3 None, Set_cull 2, Set_depth_stencil (Some 3), Draw 4 3 None];
       start = default_state wit_conv 8 8
   in fst (run_dyn wit_conv calls start) = fst start @ [CmdSetCullMode 2, CmdSetDepthWriteEnable True, CmdSetDepthCompareOp 3,
        CmdSetDepthTestEnable True, CmdSetStencilTestEnable False, CmdBindPipeline 5, CmdSetPrimitiveTopology 3, CmdSetDepthClampEnable True]
    \<and> (\<forall>g. exec (fst (run_dyn wit_conv calls start)) g = snd (fold (ref_call wit_conv) calls (False, exec (fst start) g)))"
proof -
  let ?calls = "[Set_cull 2, Set_depth_stencil (Some 3), Set_clip 1, Draw 4 3 None, Set_cull 2, Set_depth_stencil (Some 3), Draw 4 3 None]"
  have "\<forall>pso prim clamp. pipelineFor wit_conv pso prim clamp \<noteq> 0" by (simp add: wit_conv_def)
  note same = skipped_commands_redundant [OF this, of ?calls 8 8]
  have "fst (run_dyn wit_conv ?calls (default_state wit_conv 8 8)) = fst (default_state wit_conv 8 8) @
      [CmdSetCullMode 2, CmdSetDepthWriteEnable True, CmdSetDepthCompareOp 3,
        CmdSetDepthTestEnable True, CmdSetStencilTestEnable False, CmdBindPipeline 5, CmdSetPrimitiveTopology 3, CmdSetDepthClampEnable True]"
    by (simp add: run_dyn_def and_emit_def default_state_def new_dyn_def setViewports_def setScissorRects_def Let_def setCullMode_def
        setFrontFacingWinding_def setBlendColor_def setDepthStencilState_def depth_stencil_commands_def setDepthClipMode_def
        prepare_draw_def wit_conv_def Let_def)
  then show ?thesis using same by (simp add: Let_def)
qed

end
