(* ===== verification/Descriptors.thy ===== *)
theory Descriptors
  imports Prelude
begin

section \<open>Resource bindings and descriptor sets\<close>

text \<open>
  \<open>updateBindings\<close> of \<open>native/renderer/render-command-encoder.cpp\<close> with the helpers it uses
  (\<open>command-encoder.private.hpp\<close>, \<open>pipeline.private.hpp\<close>, \<open>dynamic-buffer.hpp\<close>,
  \<open>renderer-cache.hpp\<close>): the resources bound to the two graphics stages, the descriptor sets made
  for them, and the arena that caches the sets by a key of resource addresses.

  A resource object has an identity, a number that is never used again, and an address, which
  another object may have after it is freed: \<open>live\<close> says which objects exist at a draw. Stage 0 is
  the vertex stage, stage 1 the fragment stage. \<open>contents\<close> of the arena is what Vulkan holds in
  each descriptor set. The fixed facts about objects, pipeline states and the device are the
  record \<open>render_env\<close>.
\<close>

subsection \<open>Functions and their resources\<close>

text \<open>A sampled texture has access \<open>True\<close>; a sampler with no Metal index is embedded in the function.\<close>

datatype binding_type = Buffer_binding | Texture_binding bool | Sampler_binding | Vertex_input_binding

record binding =
  bind_type :: binding_type
  bind_index :: "nat option"
  internalIndex :: u64
  embeddedSamplerIndex :: nat

datatype function_type = Vertex_function | Fragment_function | Kernel_function

record function_info =
  functionType :: function_type
  bindings :: "binding list"
  embeddedSamplerStates :: "nat option list"

record FunctionResources =
  buffers :: "(nat option \<times> u64) list"
  textures :: "nat option list"
  samplers :: "nat option list"

record render_env =
  address :: "nat \<Rightarrow> u64"
  bufferLength :: "nat \<Rightarrow> u64"
  bufferHandle :: "nat \<Rightarrow> nat"
  imageView :: "nat \<Rightarrow> nat"
  samplerHandle :: "nat \<Rightarrow> nat"
  stageInfo :: "nat \<Rightarrow> nat \<Rightarrow> function_info"
  setLayout :: "nat \<Rightarrow> nat \<Rightarrow> nat"
  vertexInputBindings :: "nat \<Rightarrow> nat list"
  layoutHash :: "nat \<Rightarrow> u64"
  minStorageBufferOffsetAlignment :: u64
  minUniformBufferOffsetAlignment :: u64
  maxStorageBufferRange :: u64
  maxDynamicStorageBuffers :: nat
  pushDescriptorsEnabled :: bool

text \<open>\<open>resize\<close> fills with null.\<close>

definition resized :: "'a \<Rightarrow> nat \<Rightarrow> 'a list \<Rightarrow> 'a list" where
  "resized z i xs = (if length xs \<le> i then xs @ replicate (i + 1 - length xs) z else xs)"

definition setBuffer :: "nat option \<Rightarrow> u64 \<Rightarrow> nat \<Rightarrow> FunctionResources \<Rightarrow> FunctionResources" where
  "setBuffer b offset i r = r\<lparr>buffers := (resized (None, 0) i (buffers r))[i := (b, offset)]\<rparr>"

text \<open>No check of the index: past the end of the table it is undefined.\<close>

definition setBufferOffset :: "u64 \<Rightarrow> nat \<Rightarrow> FunctionResources \<Rightarrow> FunctionResources option" where
  "setBufferOffset offset i r =
     (if i < length (buffers r) then Some (r\<lparr>buffers := (buffers r)[i := (fst (buffers r ! i), offset)]\<rparr>) else None)"

definition setSamplerState :: "nat option \<Rightarrow> nat \<Rightarrow> FunctionResources \<Rightarrow> FunctionResources" where
  "setSamplerState s i r = r\<lparr>samplers := (resized None i (samplers r))[i := s]\<rparr>"

definition setTexture :: "nat option \<Rightarrow> nat \<Rightarrow> FunctionResources \<Rightarrow> FunctionResources" where
  "setTexture t i r = r\<lparr>textures := (resized None i (textures r))[i := t]\<rparr>"

subsection \<open>Where a buffer is bound\<close>

definition dynamicBufferBinding :: "render_env \<Rightarrow> function_info \<Rightarrow> binding \<Rightarrow> bool" where
  "dynamicBufferBinding env info b \<longleftrightarrow>
     length (filter (\<lambda>o'. bind_type o' = Buffer_binding \<and> internalIndex o' < internalIndex b) (bindings info))
       < maxDynamicStorageBuffers env div 2"

definition isGraphicsStage :: "function_type \<Rightarrow> bool" where
  "isGraphicsStage t \<longleftrightarrow> t = Vertex_function \<or> t = Fragment_function"

definition pushesBuffers :: "render_env \<Rightarrow> function_info \<Rightarrow> bool" where
  "pushesBuffers env info \<longleftrightarrow>
     pushDescriptorsEnabled env \<and> isGraphicsStage (functionType info)
     \<and> list_all (\<lambda>b. bind_type b = Buffer_binding \<longrightarrow> internalIndex b < 16) (bindings info)"

definition pushedBufferBinding :: "function_info \<Rightarrow> binding \<Rightarrow> u64" where
  "pushedBufferBinding info b = (if functionType info = Fragment_function then 16 else 0) + internalIndex b"

subsection \<open>Reading the bindings of a stage\<close>

record dirty_bits =
  buffersDirty :: bool
  texturesDirty :: bool
  samplersDirty :: bool

text \<open>The state of one stage: current and bound resources, the set bound with its key and offsets,
  and the slices \<open>setBytes\<close> bound, by address.\<close>

record stage_state =
  res :: FunctionResources
  boundRes :: FunctionResources
  boundSet :: "nat option"
  descKey :: "u64 list"
  dynOffsets :: "u64 list"
  dirty :: dirty_bits
  inlineRanges :: "(u64 \<times> u64 \<times> u64) list"

record bind_scan =
  key :: "u64 list"
  ranges :: "u64 list"
  stageOffsets :: "(u64 \<times> u64) list"
  pushWrites :: "(u64 \<times> nat \<times> u64 \<times> u64) list"
  ownSet :: bool

definition buffer_size :: "render_env \<Rightarrow> stage_state \<Rightarrow> nat \<Rightarrow> nat \<Rightarrow> u64 \<Rightarrow> u64" where
  "buffer_size env st i b offset =
     (if i < length (inlineRanges st) \<and> fst (inlineRanges st ! i) = address env b \<and> fst (snd (inlineRanges st ! i)) = offset
      then snd (snd (inlineRanges st ! i)) else bufferLength env b - offset)"

definition scan_buffer :: "render_env \<Rightarrow> function_info \<Rightarrow> bool \<Rightarrow> stage_state \<Rightarrow> binding \<Rightarrow> nat \<Rightarrow> bind_scan \<Rightarrow> bind_scan outcome" where
  "scan_buffer env info pushed st b i sc =
     (if i \<ge> length (buffers (res st)) then Inl (Throw ''Missing Metal buffer binding'')
      else case buffers (res st) ! i of
        (None, offset) \<Rightarrow> Inl (Throw ''Invalid Metal buffer offset'')
      | (Some x, offset) \<Rightarrow>
         if offset \<ge> bufferLength env x then Inl (Throw ''Invalid Metal buffer offset'')
         else let size' = buffer_size env st i x offset;
                  dynamic = (\<not> pushed \<and> dynamicBufferBinding env info b) in
           if offset mod minStorageBufferOffsetAlignment env \<noteq> 0 \<or> size' > maxStorageBufferRange env \<or> (dynamic \<and> offset > 0xFFFFFFFF)
           then Inl (Throw ''Unsupported Metal storage buffer range/alignment'')
           else if pushed
           then Inr (sc\<lparr>pushWrites := pushWrites sc @ [(pushedBufferBinding info b, bufferHandle env x, offset, size')]\<rparr>)
           else Inr (sc\<lparr>ranges := (ranges sc)[i := size'],
                      key := key sc @ [internalIndex b, address env x, if dynamic then 0 else offset, size'],
                      stageOffsets := stageOffsets sc @ (if dynamic then [(internalIndex b, offset)] else []),
                      ownSet := True\<rparr>))"

text \<open>The sampler of a binding; an index past the end throws.\<close>

definition bound_sampler :: "function_info \<Rightarrow> FunctionResources \<Rightarrow> binding \<Rightarrow> nat option outcome" where
  "bound_sampler info r b =
     (case bind_index b of
        None \<Rightarrow> if embeddedSamplerIndex b < length (embeddedSamplerStates info)
                then Inr (embeddedSamplerStates info ! embeddedSamplerIndex b) else Inl (Throw ''out_of_range'')
      | Some i \<Rightarrow> if i < length (samplers r) then Inr (samplers r ! i) else Inl (Throw ''out_of_range''))"

text \<open>A missing Metal index (\<open>SIZE_MAX\<close>) is past the end of every table.\<close>

definition scan_binding :: "render_env \<Rightarrow> function_info \<Rightarrow> bool \<Rightarrow> bool \<Rightarrow> stage_state \<Rightarrow> binding \<Rightarrow> bind_scan \<Rightarrow> bind_scan outcome" where
  "scan_binding env info pushed updateSet st b sc =
     (case bind_type b of
        Buffer_binding \<Rightarrow>
          if pushed \<and> \<not> buffersDirty (dirty st) then Inr sc
          else (case bind_index b of None \<Rightarrow> Inl (Throw ''Missing Metal buffer binding'')
                | Some i \<Rightarrow> scan_buffer env info pushed st b i sc)
      | Texture_binding sampled \<Rightarrow>
          if \<not> updateSet then Inr sc
          else (case bind_index b of None \<Rightarrow> Inl (Throw ''Missing Metal texture binding'')
                | Some i \<Rightarrow>
                   if i \<ge> length (textures (res st)) then Inl (Throw ''Missing Metal texture binding'')
                   else case textures (res st) ! i of
                     None \<Rightarrow> Inl (Throw ''Missing Metal texture binding'')
                   | Some t \<Rightarrow> Inr (sc\<lparr>key := key sc @ [internalIndex b, address env t], ownSet := True\<rparr>))
      | Sampler_binding \<Rightarrow>
          if \<not> updateSet then Inr sc
          else (case bound_sampler info (res st) b of
                  Inl e \<Rightarrow> Inl e
                | Inr None \<Rightarrow> Inl (Throw ''Missing Metal sampler binding'')
                | Inr (Some s) \<Rightarrow> Inr (sc\<lparr>key := key sc @ [internalIndex b, address env s], ownSet := True\<rparr>))
      | Vertex_input_binding \<Rightarrow> Inr sc)"

fun scan_bindings :: "render_env \<Rightarrow> function_info \<Rightarrow> bool \<Rightarrow> bool \<Rightarrow> stage_state \<Rightarrow> binding list \<Rightarrow> bind_scan \<Rightarrow> bind_scan outcome" where
  "scan_bindings env info pushed updateSet st [] sc = Inr sc"
| "scan_bindings env info pushed updateSet st (b # bs) sc =
     (case scan_binding env info pushed updateSet st b sc of
        Inl e \<Rightarrow> Inl e | Inr sc \<Rightarrow> scan_bindings env info pushed updateSet st bs sc)"

definition empty_scan :: "stage_state \<Rightarrow> bind_scan" where
  "empty_scan st = \<lparr>key = [], ranges = replicate (length (buffers (res st))) 0, stageOffsets = [], pushWrites = [], ownSet = False\<rparr>"

subsection \<open>The arena\<close>

datatype descriptor = Buffer_desc nat u64 u64 bool | Image_desc nat bool | Sampler_desc nat

record arena_entry =
  e_set :: "nat option"
  e_layout :: nat
  e_pso :: nat
  e_key :: "u64 list"
  e_resources :: "nat list"
  e_used :: bool
  e_hash :: u64

record arena =
  entries :: "arena_entry list"
  lookup :: "(u64 \<times> nat) list"
  available :: "nat \<Rightarrow> nat list"
  hits :: nat
  allocations :: nat
  setRewrites :: nat
  fullPools :: nat
  poolExists :: bool
  nextSet :: nat
  contents :: "nat \<Rightarrow> u64 \<Rightarrow> descriptor option"

definition keyHash :: "render_env \<Rightarrow> nat \<Rightarrow> u64 list \<Rightarrow> u64" where
  "keyHash env layout ks =
     (let hash = fold (\<lambda>value hash. (hash XOR value) * 1099511628211) ks (layoutHash env layout);
          hash = (hash XOR drop_bit 30 hash) * 0xbf58476d1ce4e5b9;
          hash = (hash XOR drop_bit 27 hash) * 0x94d049bb133111eb
      in hash XOR drop_bit 31 hash)"

text \<open>The first entry of the bucket with the same layout, pipeline state and key, all of whose
  resources still exist.\<close>

definition entry_matches :: "(nat \<Rightarrow> bool) \<Rightarrow> nat \<Rightarrow> nat \<Rightarrow> u64 list \<Rightarrow> arena_entry \<Rightarrow> bool" where
  "entry_matches live layout pso ks e \<longleftrightarrow>
     e_layout e = layout \<and> e_pso e = pso \<and> e_key e = ks \<and> list_all live (e_resources e)"

definition find_entry :: "(nat \<Rightarrow> bool) \<Rightarrow> nat \<Rightarrow> nat \<Rightarrow> u64 list \<Rightarrow> u64 \<Rightarrow> arena \<Rightarrow> nat option" where
  "find_entry live layout pso ks hash a =
     map_option snd (List.find (\<lambda>(h, i). h = hash \<and> entry_matches live layout pso ks (entries a ! i)) (lookup a))"

text \<open>The free sets of a layout, from the back: those of other pipeline states are passed over.\<close>

fun take_available :: "arena_entry list \<Rightarrow> nat \<Rightarrow> nat list \<Rightarrow> nat option \<times> nat list" where
  "take_available es pso [] = (None, [])"
| "take_available es pso (i # is) =
     (if \<not> e_used (es ! i) \<and> e_pso (es ! i) = pso then (Some i, is) else take_available es pso is)"

text \<open>\<open>createDescriptorSets\<close> for one set: allocation, from a new pool when the pool is full, and the
  descriptors written. \<open>alloc\<close> holds the answers of the first allocation, of creating a pool and of
  the second allocation.\<close>

definition pool_full :: "VkResult \<Rightarrow> bool" where
  "pool_full r \<longleftrightarrow> r = VK_ERROR 1000069000 \<or> r = VK_ERROR 12"

definition allocate_set :: "VkResult \<times> VkResult \<times> VkResult \<Rightarrow> arena \<Rightarrow> nat outcome \<times> arena" where
  "allocate_set alloc a =
     (let (first, pool, second) = alloc in
      if pool_full first
      then (if pool \<noteq> VK_SUCCESS
            then (Inl (Throw ''Vulkan descriptor allocation failed''), a\<lparr>fullPools := Suc (fullPools a), poolExists := False\<rparr>)
            else if second \<noteq> VK_SUCCESS
            then (Inl (Throw ''Vulkan descriptor allocation failed''), a\<lparr>fullPools := Suc (fullPools a)\<rparr>)
            else (Inr (nextSet a), a\<lparr>fullPools := Suc (fullPools a), nextSet := Suc (nextSet a)\<rparr>))
      else if first \<noteq> VK_SUCCESS then (Inl (Throw ''Vulkan descriptor allocation failed''), a)
      else (Inr (nextSet a), a\<lparr>nextSet := Suc (nextSet a)\<rparr>))"

definition buffer_write :: "render_env \<Rightarrow> function_info \<Rightarrow> FunctionResources \<Rightarrow> u64 list \<Rightarrow> binding \<Rightarrow> (u64 \<times> descriptor) outcome" where
  "buffer_write env info r rs b =
     (case bind_index b of
        None \<Rightarrow> Inl (Throw ''Missing Metal buffer binding'')
      | Some i \<Rightarrow>
         if i \<ge> length (buffers r) then Inl (Throw ''Missing Metal buffer binding'')
         else case buffers r ! i of
           (None, offset) \<Rightarrow> Inl (Throw ''Invalid Metal buffer binding or offset'')
         | (Some x, offset) \<Rightarrow>
            if offset \<ge> bufferLength env x then Inl (Throw ''Invalid Metal buffer binding or offset'')
            else let dynamic = dynamicBufferBinding env info b in
              Inr (internalIndex b, Buffer_desc (bufferHandle env x) (if dynamic then 0 else offset)
                (if i < length rs \<and> rs ! i \<noteq> 0 then rs ! i else bufferLength env x - offset) dynamic))"

fun buffer_writes :: "render_env \<Rightarrow> function_info \<Rightarrow> bool \<Rightarrow> FunctionResources \<Rightarrow> u64 list \<Rightarrow> binding list \<Rightarrow>
    (u64 \<times> descriptor) list outcome" where
  "buffer_writes env info pushed r rs [] = Inr []"
| "buffer_writes env info pushed r rs (b # bs) =
     (if bind_type b \<noteq> Buffer_binding \<or> pushed then buffer_writes env info pushed r rs bs
      else case buffer_write env info r rs b of
        Inl e \<Rightarrow> Inl e
      | Inr w \<Rightarrow> (case buffer_writes env info pushed r rs bs of Inl e \<Rightarrow> Inl e | Inr ws \<Rightarrow> Inr (w # ws)))"

text \<open>A texture or sampler past its table is skipped; a null one in the table is dereferenced.\<close>

definition image_write :: "render_env \<Rightarrow> function_info \<Rightarrow> FunctionResources \<Rightarrow> binding \<Rightarrow> (u64 \<times> descriptor) list outcome" where
  "image_write env info r b =
     (case bind_type b of
        Texture_binding sampled \<Rightarrow>
          (case bind_index b of
             None \<Rightarrow> Inr []
           | Some i \<Rightarrow> if i \<ge> length (textures r) then Inr []
               else case textures r ! i of None \<Rightarrow> Inl Undefined
                 | Some t \<Rightarrow> Inr [(internalIndex b, Image_desc (imageView env t) sampled)])
      | Sampler_binding \<Rightarrow>
          (case bind_index b of
             None \<Rightarrow> (if embeddedSamplerIndex b < length (embeddedSamplerStates info)
                then case embeddedSamplerStates info ! embeddedSamplerIndex b of None \<Rightarrow> Inl Undefined
                  | Some s \<Rightarrow> Inr [(internalIndex b, Sampler_desc (samplerHandle env s))]
                else Inl Undefined)
           | Some i \<Rightarrow> if i \<ge> length (samplers r) then Inr []
               else case samplers r ! i of None \<Rightarrow> Inl Undefined
                 | Some s \<Rightarrow> Inr [(internalIndex b, Sampler_desc (samplerHandle env s))])
      | _ \<Rightarrow> Inr [])"

fun image_writes :: "render_env \<Rightarrow> function_info \<Rightarrow> FunctionResources \<Rightarrow> binding list \<Rightarrow> (u64 \<times> descriptor) list outcome" where
  "image_writes env info r [] = Inr []"
| "image_writes env info r (b # bs) =
     (case image_write env info r b of
        Inl e \<Rightarrow> Inl e
      | Inr w \<Rightarrow> (case image_writes env info r bs of Inl e \<Rightarrow> Inl e | Inr ws \<Rightarrow> Inr (w @ ws)))"

text \<open>\<open>vkUpdateDescriptorSets\<close>.\<close>

fun apply_writes :: "(u64 \<times> descriptor) list \<Rightarrow> (u64 \<Rightarrow> descriptor option) \<Rightarrow> u64 \<Rightarrow> descriptor option" where
  "apply_writes [] m = m"
| "apply_writes ((i, d) # ws) m = apply_writes ws (m(i \<mapsto> d))"

definition createDescriptorSets :: "render_env \<Rightarrow> VkResult \<times> VkResult \<times> VkResult \<Rightarrow> function_info \<Rightarrow> bool \<Rightarrow> FunctionResources \<Rightarrow>
    u64 list \<Rightarrow> nat option \<Rightarrow> arena \<Rightarrow> nat outcome \<times> arena" where
  "createDescriptorSets env alloc info pushed r rs existing a =
     and_then (case existing of Some s \<Rightarrow> (Inr s, a) | None \<Rightarrow> allocate_set alloc a) (\<lambda>s a.
       case buffer_writes env info pushed r rs (bindings info) of
         Inl e \<Rightarrow> (Inl e, a)
       | Inr ws \<Rightarrow>
          (case image_writes env info r (bindings info) of
             Inl e \<Rightarrow> (Inl e, a)
           | Inr ws' \<Rightarrow> (Inr s, a\<lparr>contents := (contents a)(s := apply_writes (ws @ ws') (contents a s))\<rparr>)))"

end
