(* ===== verification/RenderBindings.thy ===== *)
theory RenderBindings
  imports Descriptors
begin

section \<open>Binding the resources of a draw\<close>

text \<open>
  The rest of \<open>updateBindings\<close>: choosing or making the descriptor set of a stage, pushing buffers,
  keeping replaced resources, tracking textures for the submission, and the vertex buffers; then
  the setters of both stages and the inline data of \<open>setVertexBytes\<close> and \<open>setFragmentBytes\<close>.
\<close>

datatype bind_cmd =
    CmdPushDescriptorSet "(u64 \<times> nat \<times> u64 \<times> u64) list"
  | CmdBindDescriptorSet nat "nat option" "u64 list"
  | CmdBindVertexBuffers "(nat \<times> u64) list"

record bind_state =
  stages :: "nat \<Rightarrow> stage_state"
  pso :: "nat option"
  descriptorPSO :: "nat option"
  savedPipelineStates :: "nat list"
  descriptorArena :: arena
  saved :: FunctionResources
  readOnlyTextures :: "nat list"
  readWriteTextures :: "nat list"
  vertexBuffers :: "(nat \<times> u64) list"
  retain :: bool
  inlineBuffer :: "nat option"
  inlineOffset :: u64
  keepAliveBuffers :: "nat list"
  inlineWrites :: "(nat \<times> u64 \<times> u64) list"
  bindCommands :: "bind_cmd list"

definition emit :: "bind_cmd \<Rightarrow> bind_state \<Rightarrow> bind_state" where
  "emit c bs = bs\<lparr>bindCommands := bindCommands bs @ [c]\<rparr>"

definition put_stage :: "nat \<Rightarrow> stage_state \<Rightarrow> bind_state \<Rightarrow> bind_state" where
  "put_stage k st bs = bs\<lparr>stages := (stages bs)(k := st)\<rparr>"

subsection \<open>Selecting a descriptor set\<close>

text \<open>The resources an entry watches, in the order of the bindings.\<close>

definition option_ids :: "'a option \<Rightarrow> 'a list" where
  "option_ids x = (case x of None \<Rightarrow> [] | Some y \<Rightarrow> [y])"

definition binding_resource :: "function_info \<Rightarrow> bool \<Rightarrow> FunctionResources \<Rightarrow> binding \<Rightarrow> nat list" where
  "binding_resource info pushed r b =
     (case bind_type b of
        Buffer_binding \<Rightarrow> if pushed then [] else (case bind_index b of
            Some i \<Rightarrow> if i < length (buffers r) then option_ids (fst (buffers r ! i)) else [] | None \<Rightarrow> [])
      | Texture_binding _ \<Rightarrow> (case bind_index b of
            Some i \<Rightarrow> if i < length (textures r) then option_ids (textures r ! i) else [] | None \<Rightarrow> [])
      | Sampler_binding \<Rightarrow> (case bound_sampler info r b of Inr s \<Rightarrow> option_ids s | Inl _ \<Rightarrow> [])
      | Vertex_input_binding \<Rightarrow> [])"

definition null_entry :: arena_entry where
  "null_entry = \<lparr>e_set = None, e_layout = 0, e_pso = 0, e_key = [], e_resources = [], e_used = False, e_hash = 0\<rparr>"

text \<open>A set to write: a free one of the same layout and pipeline state, or a new entry.\<close>

definition claim_entry :: "nat \<Rightarrow> nat \<Rightarrow> arena \<Rightarrow> nat \<times> arena" where
  "claim_entry layout p a =
     (let (sel, rest) = take_available (entries a) p (rev (available a layout));
          a = a\<lparr>available := (available a)(layout := rev rest)\<rparr>
      in case sel of Some i \<Rightarrow> (i, a) | None \<Rightarrow> (length (entries a), a\<lparr>entries := entries a @ [null_entry]\<rparr>))"

definition write_entry :: "render_env \<Rightarrow> VkResult \<times> VkResult \<times> VkResult \<Rightarrow> function_info \<Rightarrow> bool \<Rightarrow> FunctionResources \<Rightarrow>
    u64 list \<Rightarrow> nat \<Rightarrow> nat \<Rightarrow> u64 list \<Rightarrow> nat \<Rightarrow> arena \<Rightarrow> nat option outcome \<times> arena" where
  "write_entry env alloc info pushed r rs layout p ks i a =
     (let old = entries a ! i; hash = keyHash env layout ks;
          a = (if e_set old = None then a\<lparr>allocations := Suc (allocations a)\<rparr> else a\<lparr>setRewrites := Suc (setRewrites a)\<rparr>) in
      and_then (createDescriptorSets env alloc info pushed r rs (e_set old) a) (\<lambda>s a.
        (Inr (Some s), a\<lparr>entries := (entries a)[i := \<lparr>e_set = Some s, e_layout = layout, e_pso = p, e_key = ks,
             e_resources = concat (map (binding_resource info pushed r) (bindings info)), e_used = True, e_hash = hash\<rparr>],
           lookup := (if e_set old = None then lookup a else remove1 (e_hash old, i) (lookup a)) @ [(hash, i)]\<rparr>)))"

definition select_set :: "render_env \<Rightarrow> (nat \<Rightarrow> bool) \<Rightarrow> VkResult \<times> VkResult \<times> VkResult \<Rightarrow> function_info \<Rightarrow> bool \<Rightarrow> FunctionResources \<Rightarrow>
    u64 list \<Rightarrow> nat \<Rightarrow> nat \<Rightarrow> u64 list \<Rightarrow> arena \<Rightarrow> nat option outcome \<times> arena" where
  "select_set env live alloc info pushed r rs layout p ks a =
     (case find_entry live layout p ks (keyHash env layout ks) a of
        Some i \<Rightarrow> (Inr (e_set (entries a ! i)), a\<lparr>hits := Suc (hits a), entries := (entries a)[i := (entries a ! i)\<lparr>e_used := True\<rparr>]\<rparr>)
      | None \<Rightarrow> (let (i, a) = claim_entry layout p a in write_entry env alloc info pushed r rs layout p ks i a))"

text \<open>Dynamic offsets go to Vulkan in the order of the binding numbers.\<close>

definition sorted_offsets :: "bind_scan \<Rightarrow> u64 list" where
  "sorted_offsets sc = map snd (sort_key fst (stageOffsets sc))"

definition bind_set :: "render_env \<Rightarrow> (nat \<Rightarrow> bool) \<Rightarrow> VkResult \<times> VkResult \<times> VkResult \<Rightarrow> function_info \<Rightarrow> bool \<Rightarrow> bool \<Rightarrow> nat \<Rightarrow>
    nat \<Rightarrow> bind_scan \<Rightarrow> bind_state \<Rightarrow> unit outcome \<times> bind_state" where
  "bind_set env live alloc info pushed psoChanged p k sc bs =
     (let st = stages bs k; offsets = sorted_offsets sc;
          bind = (psoChanged \<or> length offsets \<noteq> length (dynOffsets st) \<or> offsets \<noteq> dynOffsets st);
          layout = setLayout env p k; st = st\<lparr>dynOffsets := offsets\<rparr>; bs = put_stage k st bs in
      and_then (if boundSet st = None \<or> psoChanged \<or> key sc \<noteq> descKey st
        then (let (result, a) = select_set env live alloc info pushed (res st) (ranges sc) layout p (key sc) (descriptorArena bs);
                  bs = bs\<lparr>descriptorArena := a\<rparr> in
              case result of
                Inl e \<Rightarrow> (Inl e, bs)
              | Inr s \<Rightarrow> (Inr (bind \<or> boundSet st \<noteq> s), put_stage k (st\<lparr>boundSet := s, descKey := key sc\<rparr>) bs))
        else (Inr bind, bs))
      (\<lambda>bind bs. (Inr (), if bind then emit (CmdBindDescriptorSet (1 + k) (boundSet (stages bs k)) offsets) bs else bs)))"

subsection \<open>Keeping resources and tracking textures\<close>

text \<open>The tables only grow: \<open>old\<close> becomes \<open>next\<close>, and what it loses may be kept.\<close>

definition retainChanges :: "bool \<Rightarrow> 'a list \<Rightarrow> 'a list \<Rightarrow> 'a list \<Rightarrow> 'a list \<times> 'a list" where
  "retainChanges keep old next kept =
     (map snd (zip old next) @ drop (length old) next,
      kept @ (if keep then map fst (filter (\<lambda>(o', n). o' \<noteq> n) (zip old next)) else []))"

definition retain_resources :: "nat \<Rightarrow> bind_state \<Rightarrow> bind_state" where
  "retain_resources k bs =
     (let st = stages bs k; cur = res st; prev = boundRes st;
          sameBuffers = (map fst (buffers cur) = map fst (buffers prev)) in
      if sameBuffers \<and> textures cur = textures prev \<and> samplers cur = samplers prev then bs
      else let (b, sb) = retainChanges (retain bs) (buffers prev) (buffers cur) (buffers (saved bs));
               (t, stx) = retainChanges (retain bs) (textures prev) (textures cur) (textures (saved bs));
               (s, ss) = retainChanges True (samplers prev) (samplers cur) (samplers (saved bs))
           in (put_stage k (st\<lparr>boundRes := \<lparr>buffers = b, textures = t, samplers = s\<rparr>\<rparr>) bs)
                \<lparr>saved := \<lparr>buffers = sb, textures = stx, samplers = ss\<rparr>\<rparr>)"

definition trackTexture :: "nat option \<Rightarrow> bool \<Rightarrow> bind_state \<Rightarrow> bind_state" where
  "trackTexture ot write bs =
     (case ot of
        None \<Rightarrow> bs
      | Some t \<Rightarrow>
          if write then (if t \<in> set (readWriteTextures bs) then bs else bs\<lparr>readWriteTextures := readWriteTextures bs @ [t]\<rparr>)
          else (if t \<in> set (readOnlyTextures bs) then bs else bs\<lparr>readOnlyTextures := readOnlyTextures bs @ [t]\<rparr>))"

fun track_bindings :: "FunctionResources \<Rightarrow> binding list \<Rightarrow> bind_state \<Rightarrow> unit outcome \<times> bind_state" where
  "track_bindings r [] bs = (Inr (), bs)"
| "track_bindings r (b # rest) bs =
     (case bind_type b of
        Texture_binding sampled \<Rightarrow>
          (case bind_index b of
             None \<Rightarrow> (Inl Undefined, bs)
           | Some i \<Rightarrow> if i < length (textures r) then track_bindings r rest (trackTexture (textures r ! i) (\<not> sampled) bs)
                       else (Inl Undefined, bs))
      | _ \<Rightarrow> track_bindings r rest bs)"

subsection \<open>One stage\<close>

definition any_dirty :: "dirty_bits \<Rightarrow> bool" where
  "any_dirty d \<longleftrightarrow> buffersDirty d \<or> texturesDirty d \<or> samplersDirty d"

definition update_set :: "bool \<Rightarrow> bool \<Rightarrow> stage_state \<Rightarrow> bool" where
  "update_set pushed psoChanged st \<longleftrightarrow> \<not> pushed \<or> psoChanged \<or> texturesDirty (dirty st) \<or> samplersDirty (dirty st)"

definition update_stage :: "render_env \<Rightarrow> (nat \<Rightarrow> bool) \<Rightarrow> VkResult \<times> VkResult \<times> VkResult \<Rightarrow> nat \<Rightarrow> bool \<Rightarrow> nat \<Rightarrow>
    bind_state \<Rightarrow> unit outcome \<times> bind_state" where
  "update_stage env live alloc p psoChanged k bs =
     (let st = stages bs k; info = stageInfo env p k; pushed = pushesBuffers env info in
      if \<not> any_dirty (dirty st) then (Inr (), bs)
      else case scan_bindings env info pushed (update_set pushed psoChanged st) st (bindings info) (empty_scan st) of
        Inl e \<Rightarrow> (Inl e, bs)
      | Inr sc \<Rightarrow>
         and_then (let bs = (if pushWrites sc \<noteq> [] then emit (CmdPushDescriptorSet (pushWrites sc)) bs else bs) in
                   if ownSet sc then bind_set env live alloc info pushed psoChanged p k sc bs else (Inr (), bs)) (\<lambda>_ bs.
           let texturesChanged = (textures (res (stages bs k)) \<noteq> textures (boundRes (stages bs k)));
               bs = retain_resources k bs
           in if psoChanged \<or> texturesChanged then track_bindings (res st) (bindings info) bs else (Inr (), bs)))"

subsection \<open>All bindings of a draw\<close>

fun vertex_bindings :: "render_env \<Rightarrow> (nat option \<times> u64) list \<Rightarrow> nat list \<Rightarrow> (nat \<times> u64) list outcome" where
  "vertex_bindings env bufs [] = Inr []"
| "vertex_bindings env bufs (i # is) =
     (case (if i \<ge> length bufs then Inr (0, 0)
            else case bufs ! i of (None, _) \<Rightarrow> Inl Undefined | (Some x, offset) \<Rightarrow> Inr (bufferHandle env x, offset)) of
        Inl e \<Rightarrow> Inl e
      | Inr v \<Rightarrow> (case vertex_bindings env bufs is of Inl e \<Rightarrow> Inl e | Inr vs \<Rightarrow> Inr (v # vs)))"

definition bind_vertex_buffers :: "render_env \<Rightarrow> nat \<Rightarrow> bind_state \<Rightarrow> unit outcome \<times> bind_state" where
  "bind_vertex_buffers env p bs =
     (if buffersDirty (dirty (stages bs 0)) \<and> vertexInputBindings env p \<noteq> []
      then (case vertex_bindings env (buffers (res (stages bs 0))) (vertexInputBindings env p) of
              Inl e \<Rightarrow> (Inl e, bs)
            | Inr vs \<Rightarrow> (Inr (), if vs \<noteq> vertexBuffers bs then emit (CmdBindVertexBuffers vs) (bs\<lparr>vertexBuffers := vs\<rparr>) else bs))
      else (Inr (), bs))"

definition clean :: dirty_bits where "clean = \<lparr>buffersDirty = False, texturesDirty = False, samplersDirty = False\<rparr>"

definition all_dirty :: dirty_bits where "all_dirty = \<lparr>buffersDirty = True, texturesDirty = True, samplersDirty = True\<rparr>"

definition mark_clean :: "nat \<Rightarrow> bind_state \<Rightarrow> bind_state" where
  "mark_clean k bs = put_stage k ((stages bs k)\<lparr>dirty := clean\<rparr>) bs"

definition mark_dirty :: "nat \<Rightarrow> bind_state \<Rightarrow> bind_state" where
  "mark_dirty k bs = put_stage k ((stages bs k)\<lparr>dirty := all_dirty\<rparr>) bs"

definition updateBindings :: "render_env \<Rightarrow> (nat \<Rightarrow> bool) \<Rightarrow> (nat \<Rightarrow> VkResult \<times> VkResult \<times> VkResult) \<Rightarrow> bind_state \<Rightarrow>
    unit outcome \<times> bind_state" where
  "updateBindings env live alloc bs =
     (if \<not> any_dirty (dirty (stages bs 0)) \<and> \<not> any_dirty (dirty (stages bs 1)) then (Inr (), bs)
      else case pso bs of
        None \<Rightarrow> (Inl Undefined, bs)
      | Some p \<Rightarrow>
         (let psoChanged = (descriptorPSO bs \<noteq> pso bs) in
          and_then (update_stage env live (alloc 0) p psoChanged 0 bs) (\<lambda>_ bs.
          and_then (update_stage env live (alloc 1) p psoChanged 1 bs) (\<lambda>_ bs.
          and_then (bind_vertex_buffers env p (bs\<lparr>descriptorPSO := Some p\<rparr>)) (\<lambda>_ bs.
            (Inr (), mark_clean 1 (mark_clean 0 bs)))))))"

subsection \<open>Setters\<close>

definition setRenderPipelineState :: "nat option \<Rightarrow> bind_state \<Rightarrow> bind_state" where
  "setRenderPipelineState p bs =
     (if pso bs = p then bs
      else let bs = (case pso bs of None \<Rightarrow> bs | Some old \<Rightarrow> bs\<lparr>savedPipelineStates := savedPipelineStates bs @ [old]\<rparr>)
           in mark_dirty 1 (mark_dirty 0 (bs\<lparr>pso := p\<rparr>)))"

definition setStageBuffer :: "nat \<Rightarrow> nat option \<Rightarrow> u64 \<Rightarrow> nat \<Rightarrow> bind_state \<Rightarrow> bind_state" where
  "setStageBuffer k b offset i bs =
     (let st = stages bs k in
      if i < length (buffers (res st)) \<and> buffers (res st) ! i = (b, offset) then bs
      else put_stage k (st\<lparr>res := setBuffer b offset i (res st), dirty := (dirty st)\<lparr>buffersDirty := True\<rparr>\<rparr>) bs)"

definition setStageBufferOffset :: "nat \<Rightarrow> u64 \<Rightarrow> nat \<Rightarrow> bind_state \<Rightarrow> unit outcome \<times> bind_state" where
  "setStageBufferOffset k offset i bs =
     (let st = stages bs k in
      if i < length (buffers (res st)) \<and> snd (buffers (res st) ! i) = offset then (Inr (), bs)
      else case setBufferOffset offset i (res st) of
        None \<Rightarrow> (Inl Undefined, bs)
      | Some r \<Rightarrow> (Inr (), put_stage k (st\<lparr>res := r, dirty := (dirty st)\<lparr>buffersDirty := True\<rparr>\<rparr>) bs))"

text \<open>With level-of-detail clamps, \<open>s\<close> is the clone of the state object.\<close>

definition setStageSampler :: "nat \<Rightarrow> bool \<Rightarrow> nat option \<Rightarrow> nat \<Rightarrow> bind_state \<Rightarrow> bind_state" where
  "setStageSampler k clamped s i bs =
     (let st = stages bs k in
      if \<not> clamped \<and> i < length (samplers (res st)) \<and> samplers (res st) ! i = s then bs
      else put_stage k (st\<lparr>res := setSamplerState s i (res st), dirty := (dirty st)\<lparr>samplersDirty := True\<rparr>\<rparr>) bs)"

definition setStageTexture :: "nat \<Rightarrow> nat option \<Rightarrow> nat \<Rightarrow> bind_state \<Rightarrow> bind_state" where
  "setStageTexture k t i bs =
     (let st = stages bs k in
      if i < length (textures (res st)) \<and> textures (res st) ! i = t then bs
      else put_stage k (st\<lparr>res := setTexture t i (res st), dirty := (dirty st)\<lparr>texturesDirty := True\<rparr>\<rparr>) bs)"

text \<open>The plural setters set a range, one after another.\<close>

definition setStageBuffers :: "nat \<Rightarrow> (nat option \<times> u64) list \<Rightarrow> nat \<Rightarrow> bind_state \<Rightarrow> bind_state" where
  "setStageBuffers k bufs start bs =
     fold (\<lambda>(i, b, offset) bs. setStageBuffer k b offset (start + i) bs) (zip [0..<length bufs] bufs) bs"

definition setStageTextures :: "nat \<Rightarrow> nat option list \<Rightarrow> nat \<Rightarrow> bind_state \<Rightarrow> bind_state" where
  "setStageTextures k ts start bs = fold (\<lambda>(i, t) bs. setStageTexture k t (start + i) bs) (zip [0..<length ts] ts) bs"

definition setStageSamplers :: "nat \<Rightarrow> bool \<Rightarrow> nat option list \<Rightarrow> nat \<Rightarrow> bind_state \<Rightarrow> bind_state" where
  "setStageSamplers k clamped ss start bs =
     fold (\<lambda>(i, s) bs. setStageSampler k clamped s (start + i) bs) (zip [0..<length ss] ss) bs"

text \<open>Inline data: an aligned slice of the current inline buffer, or of a new one.\<close>

definition inline_alignment :: "render_env \<Rightarrow> u64" where
  "inline_alignment env = max 16 (max (minStorageBufferOffsetAlignment env) (minUniformBufferOffsetAlignment env))"

definition setInlineBytes :: "render_env \<Rightarrow> nat outcome \<Rightarrow> nat \<Rightarrow> bool \<Rightarrow> u64 \<Rightarrow> nat \<Rightarrow> bind_state \<Rightarrow> unit outcome \<times> bind_state" where
  "setInlineBytes env fresh k nonNull len i bs =
     (if \<not> nonNull \<or> len = 0 then (Inl (Throw ''Empty Metal inline data''), bs)
      else let offset = align_up (inlineOffset bs) (inline_alignment env);
               full = (case inlineBuffer bs of None \<Rightarrow> True
                 | Some x \<Rightarrow> offset > bufferLength env x \<or> len > bufferLength env x - offset) in
        and_then (if full
          then (case fresh of Inl e \<Rightarrow> (Inl e, bs)
                | Inr x \<Rightarrow> (Inr x, bs\<lparr>inlineBuffer := Some x, keepAliveBuffers := keepAliveBuffers bs @ [x], inlineOffset := 0\<rparr>))
          else (case inlineBuffer bs of None \<Rightarrow> (Inl Undefined, bs) | Some x \<Rightarrow> (Inr x, bs\<lparr>inlineOffset := offset\<rparr>)))
        (\<lambda>x bs.
          let st = stages bs k; o' = inlineOffset bs;
              st = st\<lparr>res := setBuffer (Some x) o' i (res st), dirty := (dirty st)\<lparr>buffersDirty := True\<rparr>,
                      inlineRanges := (resized (0, 0, 0) i (inlineRanges st))[i := (address env x, o', len)]\<rparr>
          in (Inr (), (put_stage k st bs)\<lparr>inlineOffset := o' + len, inlineWrites := inlineWrites bs @ [(x, o', len)]\<rparr>)))"

text \<open>The setters of the fragment stage are those of the vertex stage on the other stage.\<close>

definition setFragmentBuffer :: "nat option \<Rightarrow> u64 \<Rightarrow> nat \<Rightarrow> bind_state \<Rightarrow> bind_state" where
  "setFragmentBuffer = setStageBuffer 1"

definition setFragmentBuffers :: "(nat option \<times> u64) list \<Rightarrow> nat \<Rightarrow> bind_state \<Rightarrow> bind_state" where
  "setFragmentBuffers = setStageBuffers 1"

definition setFragmentBufferOffset :: "u64 \<Rightarrow> nat \<Rightarrow> bind_state \<Rightarrow> unit outcome \<times> bind_state" where
  "setFragmentBufferOffset = setStageBufferOffset 1"

definition setFragmentSamplerState :: "bool \<Rightarrow> nat option \<Rightarrow> nat \<Rightarrow> bind_state \<Rightarrow> bind_state" where
  "setFragmentSamplerState = setStageSampler 1"

definition setFragmentSamplerStates :: "bool \<Rightarrow> nat option list \<Rightarrow> nat \<Rightarrow> bind_state \<Rightarrow> bind_state" where
  "setFragmentSamplerStates = setStageSamplers 1"

definition setFragmentTexture :: "nat option \<Rightarrow> nat \<Rightarrow> bind_state \<Rightarrow> bind_state" where
  "setFragmentTexture = setStageTexture 1"

definition setFragmentTextures :: "nat option list \<Rightarrow> nat \<Rightarrow> bind_state \<Rightarrow> bind_state" where
  "setFragmentTextures = setStageTextures 1"

end
