(* ===== verification/EncoderCaches.thy ===== *)
theory EncoderCaches
  imports RenderBindings
begin

section \<open>What a render encoder takes from the device's caches\<close>

text \<open>
  The constructor of \<open>native/renderer/render-command-encoder.cpp\<close>, as far as it uses the caches of
  \<open>renderer-cache.hpp\<close>: the attachment views of a render target, cached by a key of texture
  addresses, and the descriptor arena, taken from the completed encoders' arenas. The destructor
  gives the arena back.
\<close>

subsection \<open>Render targets\<close>

record attachment =
  att_texture :: "nat option"
  att_level :: u64
  att_slice :: u64

record texture_facts =
  textureWidth :: "nat \<Rightarrow> u64"
  textureHeight :: "nat \<Rightarrow> u64"
  textureImage :: "nat \<Rightarrow> nat"
  mipmapLevelCount :: "nat \<Rightarrow> u64"
  vulkanArrayLength :: "nat \<Rightarrow> u64"
  parentOffsets :: "nat \<Rightarrow> (u64 \<times> u64) list"
  textureAddress :: "nat \<Rightarrow> u64"

text \<open>A view: the texture, its first level and slice, the number of layers and whether it is an array.\<close>

record view_info =
  v_texture :: nat
  baseMipLevel :: u64
  baseArrayLayer :: u64
  layerCount :: u64
  isArray :: bool

record render_target =
  t_key :: "u64 list"
  t_textures :: "nat option list"
  t_views :: "view_info list"

text \<open>The attachments of a pass in the order of the views, the depth or stencil attachment last.\<close>

record pass_descriptor =
  colorAttachments :: "attachment list"
  depthAttachment :: "attachment option"
  stencilAttachment :: "attachment option"
  renderTargetWidth :: u64
  renderTargetHeight :: u64
  renderTargetArrayLength :: u64

text \<open>The first colour attachment with a texture, else depth, else stencil, gives the extent.\<close>

definition first_attachment :: "pass_descriptor \<Rightarrow> attachment option" where
  "first_attachment d =
     (case List.find (\<lambda>a. att_texture a \<noteq> None) (colorAttachments d) of
        Some a \<Rightarrow> Some a
      | None \<Rightarrow> (case depthAttachment d of Some a \<Rightarrow> Some a | None \<Rightarrow> stencilAttachment d))"

definition targetExtent :: "texture_facts \<Rightarrow> pass_descriptor \<Rightarrow> (u64 \<times> u64) outcome" where
  "targetExtent f d =
     (case first_attachment d of
        None \<Rightarrow> if renderTargetWidth d = 0 \<or> renderTargetHeight d = 0 then Inl (Throw ''Render pass has no extent'')
                else Inr (renderTargetWidth d, renderTargetHeight d)
      | Some a \<Rightarrow>
         (case att_texture a of
            None \<Rightarrow> Inl Undefined
          | Some t \<Rightarrow> Inr (max 1 (drop_bit (unat (att_level a)) (textureWidth f t)),
                            max 1 (drop_bit (unat (att_level a)) (textureHeight f t)))))"

definition targetLayers :: "pass_descriptor \<Rightarrow> u64" where
  "targetLayers d = max 1 (renderTargetArrayLength d)"

text \<open>Depth and stencil attachments must be the same part of the same image.\<close>

definition separate_depth_stencil :: "texture_facts \<Rightarrow> pass_descriptor \<Rightarrow> bool" where
  "separate_depth_stencil f d =
     (case (depthAttachment d, stencilAttachment d) of
        (Some a, Some b) \<Rightarrow> map_option (textureImage f) (att_texture a) \<noteq> map_option (textureImage f) (att_texture b)
          \<or> att_level a \<noteq> att_level b \<or> att_slice a \<noteq> att_slice b
      | _ \<Rightarrow> False)"

definition depthStencil :: "pass_descriptor \<Rightarrow> attachment option" where
  "depthStencil d = (case depthAttachment d of Some a \<Rightarrow> Some a | None \<Rightarrow> stencilAttachment d)"

definition attachments_of :: "pass_descriptor \<Rightarrow> attachment list" where
  "attachments_of d = colorAttachments d @ (case depthStencil d of None \<Rightarrow> [] | Some a \<Rightarrow> [a])"

definition texture_address :: "texture_facts \<Rightarrow> nat option \<Rightarrow> u64" where
  "texture_address f x = (case x of None \<Rightarrow> 0 | Some t \<Rightarrow> textureAddress f t)"

definition keyAttachment :: "texture_facts \<Rightarrow> attachment \<Rightarrow> u64 list" where
  "keyAttachment f a = [texture_address f (att_texture a), att_level a, att_slice a]"

definition targetKey :: "texture_facts \<Rightarrow> u64 \<times> u64 \<Rightarrow> pass_descriptor \<Rightarrow> u64 list" where
  "targetKey f extent d = [fst extent, snd extent, targetLayers d, of_nat (length (colorAttachments d)),
      if depthStencil d = None then 0 else 1] @ concat (map (keyAttachment f) (attachments_of d))"

text \<open>The view of an attachment; \<open>create\<close> is the answer of \<open>vkCreateImageView\<close>. A null texture is
  dereferenced.\<close>

definition attachmentView :: "texture_facts \<Rightarrow> u64 \<Rightarrow> (view_info \<Rightarrow> VkResult) \<Rightarrow> attachment \<Rightarrow> view_info outcome" where
  "attachmentView f layers create a =
     (case att_texture a of
        None \<Rightarrow> Inl Undefined
      | Some t \<Rightarrow>
         if att_level a \<ge> mipmapLevelCount f t \<or> att_slice a \<ge> vulkanArrayLength f t
           \<or> layers > vulkanArrayLength f t - att_slice a
         then Inl (Throw ''Render attachment mip or slice out of range'')
         else let info = \<lparr>v_texture = t, baseMipLevel = fold (\<lambda>(l, s) n. n + l) (parentOffsets f t) (att_level a),
                baseArrayLayer = fold (\<lambda>(l, s) n. n + s) (parentOffsets f t) (att_slice a),
                layerCount = layers, isArray = (layers > 1)\<rparr> in
              if create info \<noteq> VK_SUCCESS then Inl (Throw ''Could not create render attachment view'') else Inr info)"

fun attachmentViews :: "texture_facts \<Rightarrow> u64 \<Rightarrow> (view_info \<Rightarrow> VkResult) \<Rightarrow> attachment list \<Rightarrow> view_info list outcome" where
  "attachmentViews f layers create [] = Inr []"
| "attachmentViews f layers create (a # as) =
     (case attachmentView f layers create a of
        Inl e \<Rightarrow> Inl e
      | Inr v \<Rightarrow> (case attachmentViews f layers create as of Inl e \<Rightarrow> Inl e | Inr vs \<Rightarrow> Inr (v # vs)))"

text \<open>An expired texture: freed, or never there.\<close>

definition expired :: "(nat \<Rightarrow> bool) \<Rightarrow> nat option \<Rightarrow> bool" where
  "expired live x \<longleftrightarrow> (case x of None \<Rightarrow> True | Some t \<Rightarrow> \<not> live t)"

definition acquireTarget :: "texture_facts \<Rightarrow> (nat \<Rightarrow> bool) \<Rightarrow> (view_info \<Rightarrow> VkResult) \<Rightarrow> u64 \<times> u64 \<Rightarrow> pass_descriptor \<Rightarrow>
    render_target list \<Rightarrow> render_target outcome \<times> render_target list" where
  "acquireTarget f live create extent d cache =
     (let cache = filter (\<lambda>e. \<not> list_ex (expired live) (t_textures e)) cache in
      case List.find (\<lambda>e. t_key e = targetKey f extent d) cache of
        Some e \<Rightarrow> (Inr e, cache)
      | None \<Rightarrow>
         (case attachmentViews f (targetLayers d) create (attachments_of d) of
            Inl e \<Rightarrow> (Inl e, cache)
          | Inr vs \<Rightarrow>
             (let t = \<lparr>t_key = targetKey f extent d, t_textures = map att_texture (attachments_of d), t_views = vs\<rparr>
              in (Inr t, (if length cache \<ge> 128 then tl cache else cache) @ [t]))))"

definition beginTarget :: "texture_facts \<Rightarrow> (nat \<Rightarrow> bool) \<Rightarrow> (view_info \<Rightarrow> VkResult) \<Rightarrow> pass_descriptor \<Rightarrow>
    render_target list \<Rightarrow> render_target outcome \<times> render_target list" where
  "beginTarget f live create d cache =
     (case targetExtent f d of
        Inl e \<Rightarrow> (Inl e, cache)
      | Inr extent \<Rightarrow>
         if separate_depth_stencil f d then (Inl (Throw ''Separate depth and stencil images are not supported''), cache)
         else acquireTarget f live create extent d cache)"

subsection \<open>Descriptor arenas\<close>

text \<open>The arenas of completed encoders, each with the render target it was used for.\<close>

type_synonym arena_cache = "(nat \<times> arena) list"

fun find_index :: "('a \<Rightarrow> bool) \<Rightarrow> 'a list \<Rightarrow> nat option" where
  "find_index P [] = None"
| "find_index P (x # xs) = (if P x then Some 0 else map_option Suc (find_index P xs))"

text \<open>The arena of the same target, else one whose target is gone, else the oldest of a full cache.\<close>

definition pick_arena :: "(nat \<Rightarrow> bool) \<Rightarrow> nat \<Rightarrow> arena_cache \<Rightarrow> nat option" where
  "pick_arena targetLive target arenas =
     (case find_index (\<lambda>(t, a). t = target) arenas of
        Some i \<Rightarrow> Some i
      | None \<Rightarrow> (case find_index (\<lambda>(t, a). \<not> targetLive t) arenas of
           Some i \<Rightarrow> Some i
         | None \<Rightarrow> if length arenas \<ge> 160 then Some 0 else None))"

definition new_arena :: "nat \<Rightarrow> arena" where
  "new_arena s = \<lparr>entries = [], lookup = [], available = (\<lambda>l. []), hits = 0, allocations = 0, setRewrites = 0,
     fullPools = 0, poolExists = False, nextSet = s, contents = (\<lambda>s i. None)\<rparr>"

text \<open>Every set is free again and indexed by its layout.\<close>

definition recycle :: "arena \<Rightarrow> arena" where
  "recycle a = a\<lparr>available := (\<lambda>l. filter (\<lambda>i. e_layout (entries a ! i) = l) [0..<length (entries a)]),
     entries := map (\<lambda>e. e\<lparr>e_used := False\<rparr>) (entries a), hits := 0, allocations := 0, setRewrites := 0\<rparr>"

definition open_arena :: "(nat \<Rightarrow> bool) \<Rightarrow> nat \<Rightarrow> VkResult \<Rightarrow> arena_cache \<Rightarrow> arena outcome \<times> arena_cache" where
  "open_arena targetLive target create arenas =
     (let (found, arenas) = (case pick_arena targetLive target arenas of
            None \<Rightarrow> (None, arenas) | Some i \<Rightarrow> (Some (snd (arenas ! i)), take i arenas @ drop (Suc i) arenas));
          a = (case found of None \<Rightarrow> new_arena 0 | Some a \<Rightarrow> if length (entries a) > 2048 then new_arena 0 else a);
          a = recycle a
      in if poolExists a then (Inr a, arenas)
         else if create \<noteq> VK_SUCCESS then (Inl (Throw ''Could not create render descriptor pool''), arenas)
         else (Inr (a\<lparr>poolExists := True\<rparr>), arenas))"

definition close_arena :: "nat \<Rightarrow> arena \<Rightarrow> arena_cache \<Rightarrow> arena_cache" where
  "close_arena target a arenas = (if length arenas < 160 then arenas @ [(target, a)] else arenas)"

subsection \<open>A new encoder's bindings\<close>

definition no_resources :: FunctionResources where
  "no_resources = \<lparr>buffers = [], textures = [], samplers = []\<rparr>"

definition new_stage :: stage_state where
  "new_stage = \<lparr>res = no_resources, boundRes = no_resources, boundSet = None, descKey = [], dynOffsets = [],
     dirty = all_dirty, inlineRanges = []\<rparr>"

definition new_bindings :: "bool \<Rightarrow> arena \<Rightarrow> bind_state" where
  "new_bindings keep a = \<lparr>stages = (\<lambda>k. new_stage), pso = None, descriptorPSO = None, savedPipelineStates = [],
     descriptorArena = a, saved = no_resources, readOnlyTextures = [], readWriteTextures = [], vertexBuffers = [],
     retain = keep, inlineBuffer = None, inlineOffset = 0, keepAliveBuffers = [], inlineWrites = [], bindCommands = []\<rparr>"

end
