(* ===== verification/RenderTargets.thy ===== *)
theory RenderTargets
  imports EncoderCaches
begin

section \<open>Cached render targets\<close>

text \<open>
  The cache of attachment views, over the life of a device: an entry is used only for the attachments
  it was made for, although its key has addresses that later textures may have, and the cache never
  has more than 128 entries.
\<close>

definition views_of :: "texture_facts \<Rightarrow> u64 \<Rightarrow> attachment list \<Rightarrow> view_info list \<Rightarrow> bool" where
  "views_of f layers as vs \<longleftrightarrow> list_all2 (\<lambda>a v. attachmentView f layers (\<lambda>i. VK_SUCCESS) a = Inr v) as vs"

lemma attachmentView_create: "attachmentView f layers create a = Inr v \<Longrightarrow> attachmentView f layers (\<lambda>i. VK_SUCCESS) a = Inr v"
  by (auto simp: attachmentView_def Let_def split: option.splits if_splits)

lemma attachmentViews_of: "attachmentViews f layers create as = Inr vs \<Longrightarrow> views_of f layers as vs"
proof (induction as arbitrary: vs)
  case (Cons a as)
  then obtain v vs' where v: "attachmentView f layers create a = Inr v" "attachmentViews f layers create as = Inr vs'" "vs = v # vs'"
    by (auto split: sum.splits)
  show ?case using Cons.IH [OF v(2)] attachmentView_create [OF v(1)] v(3) by (simp add: views_of_def)
qed (simp add: views_of_def)

text \<open>An entry as it was made.\<close>

definition target_ok :: "texture_facts \<Rightarrow> render_target \<Rightarrow> bool" where
  "target_ok f t \<longleftrightarrow> (\<exists>extent d. t_key t = targetKey f extent d \<and> t_textures t = map att_texture (attachments_of d)
     \<and> views_of f (targetLayers d) (attachments_of d) (t_views t))"

text \<open>The cache over the life of a device: every pass may find different textures alive.\<close>

inductive target_cache :: "texture_facts \<Rightarrow> render_target list \<Rightarrow> bool" for f where
  start: "target_cache f []"
| begin_pass: "target_cache f cache \<Longrightarrow> beginTarget f live create d cache = (r, cache') \<Longrightarrow> target_cache f cache'"

lemma beginTarget_cases:
  assumes "beginTarget f live create d cache = (r, cache')"
  obtains (failed) e where "r = Inl e" "cache' = cache \<or> cache' = filter (\<lambda>e. \<not> list_ex (expired live) (t_textures e)) cache"
  | (hit) t extent where "r = Inr t" "cache' = filter (\<lambda>e. \<not> list_ex (expired live) (t_textures e)) cache" "t \<in> set cache'"
      "t_key t = targetKey f extent d"
  | (new) t extent where "r = Inr t" "set cache' \<subseteq> insert t (set cache)" "length cache \<le> 128 \<Longrightarrow> length cache' \<le> 128"
      "t_key t = targetKey f extent d"
      "t_textures t = map att_texture (attachments_of d)" "views_of f (targetLayers d) (attachments_of d) (t_views t)"
proof (cases "targetExtent f d")
  case (Inl e)
  then have "r = Inl e" "cache' = cache" using assms by (simp_all add: beginTarget_def)
  then show thesis using failed by simp
next
  case (Inr extent)
  let ?c = "filter (\<lambda>e. \<not> list_ex (expired live) (t_textures e)) cache"
  show thesis
  proof (cases "separate_depth_stencil f d")
    case True
    then have "r = Inl (Throw ''Separate depth and stencil images are not supported'')" "cache' = cache"
      using assms Inr by (simp_all add: beginTarget_def)
    then show thesis using failed by simp
  next
    case False
    then have a: "acquireTarget f live create extent d cache = (r, cache')" using assms Inr by (simp add: beginTarget_def)
    show thesis
    proof (cases "List.find (\<lambda>e. t_key e = targetKey f extent d) ?c")
      case (Some t)
      then have "r = Inr t" "cache' = ?c" using a by (simp_all add: acquireTarget_def)
      then show thesis using hit [of t extent] find_SomeD [OF Some] by simp
    next
      case None
      show thesis
      proof (cases "attachmentViews f (targetLayers d) create (attachments_of d)")
        case (Inl e)
        then have "r = Inl e" "cache' = ?c" using a None by (simp_all add: acquireTarget_def)
        then show thesis using failed by simp
      next
        case (Inr vs)
        let ?t = "\<lparr>t_key = targetKey f extent d, t_textures = map att_texture (attachments_of d), t_views = vs\<rparr>"
        have c: "r = Inr ?t" "cache' = (if length ?c \<ge> 128 then tl ?c else ?c) @ [?t]"
          using a None Inr by (simp_all add: acquireTarget_def Let_def)
        have "set cache' \<subseteq> insert ?t (set cache)"
        proof -
          have "set (tl ?c) \<subseteq> set ?c" by (cases ?c) auto
          moreover have "set ?c \<subseteq> set cache" by auto
          ultimately show ?thesis using c(2) by auto
        qed
        moreover have "length cache \<le> 128 \<Longrightarrow> length cache' \<le> 128"
        proof -
          assume "length cache \<le> 128"
          then have "length ?c \<le> 128" using length_filter_le order_trans by blast
          then show ?thesis using c(2) by (simp split: if_splits)
        qed
        ultimately show thesis using new [of ?t extent] c(1) attachmentViews_of [OF Inr] by simp
      qed
    qed
  qed
qed

lemma target_cache_ok:
  assumes "target_cache f cache"
  shows "(\<forall>t\<in>set cache. target_ok f t) \<and> length cache \<le> 128"
  using assms
proof induction
  case (begin_pass cache live create d r cache')
  note ih = begin_pass.IH
  show ?case using begin_pass.hyps(2)
  proof (cases rule: beginTarget_cases)
    case (failed e)
    then have "set cache' \<subseteq> set cache" "length cache' \<le> length cache" by auto
    then show ?thesis using ih by auto
  next
    case (hit t extent)
    then have "set cache' \<subseteq> set cache" "length cache' \<le> length cache" by auto
    then show ?thesis using ih by auto
  next
    case (new t extent)
    then have "target_ok f t" unfolding target_ok_def by blast
    then show ?thesis using new(2,3) ih by blast
  qed
qed simp

subsection \<open>Keys determine attachments\<close>

text \<open>A texture address: 0 only for no texture, and different for live textures.\<close>

definition addresses_ok :: "texture_facts \<Rightarrow> (nat \<Rightarrow> bool) \<Rightarrow> bool" where
  "addresses_ok f live \<longleftrightarrow> inj_on (textureAddress f) {x. live x} \<and> (\<forall>x. textureAddress f x \<noteq> 0)"

lemma keyAttachment_inject:
  assumes "addresses_ok f live" "keyAttachment f a = keyAttachment f b" "\<forall>x. att_texture a = Some x \<longrightarrow> live x"
    "\<forall>x. att_texture b = Some x \<longrightarrow> live x"
  shows "a = b"
proof -
  have "texture_address f (att_texture a) = texture_address f (att_texture b)" "att_level a = att_level b" "att_slice a = att_slice b"
    using assms(2) by (simp_all add: keyAttachment_def)
  moreover from this(1) have "att_texture a = att_texture b"
    using assms(1,3,4) unfolding texture_address_def addresses_ok_def
    by (auto split: option.splits dest: inj_onD)
  ultimately show ?thesis by simp
qed

lemma keyAttachments_inject:
  assumes "addresses_ok f live" "concat (map (keyAttachment f) as) = concat (map (keyAttachment f) bs)"
    "\<forall>a\<in>set as. \<forall>x. att_texture a = Some x \<longrightarrow> live x" "\<forall>b\<in>set bs. \<forall>x. att_texture b = Some x \<longrightarrow> live x"
  shows "as = bs"
  using assms(2-4)
proof (induction as arbitrary: bs)
  case Nil
  then show ?case by (cases bs) (auto simp: keyAttachment_def)
next
  case (Cons a as)
  then obtain b bs' where bs: "bs = b # bs'" by (cases bs) (auto simp: keyAttachment_def)
  have "keyAttachment f a @ concat (map (keyAttachment f) as) = keyAttachment f b @ concat (map (keyAttachment f) bs')"
    using Cons.prems(1) bs by simp
  moreover have "length (keyAttachment f a) = length (keyAttachment f b)" by (simp add: keyAttachment_def)
  ultimately have "keyAttachment f a = keyAttachment f b" "concat (map (keyAttachment f) as) = concat (map (keyAttachment f) bs')"
    by simp_all
  moreover from this(1) have "a = b"
    using Cons.prems(2,3) bs by (intro keyAttachment_inject [OF assms(1)]) simp_all
  ultimately show ?case using Cons.IH [of bs'] Cons.prems(2,3) bs by simp
qed

text \<open>
  C16: A cached render target fits its pass. Whatever passes came before it and whatever textures
  were freed between them, when the constructor of a render encoder gets a render target, from the cache
  or new, the views of the target are those of the attachments of this pass, in their order: the
  right texture, level, slice and number of layers. The cache keeps at most 128 targets.
\<close>

theorem render_target_fits_pass:
  assumes "target_cache f cache" "beginTarget f live create d cache = (Inr t, cache')" "addresses_ok f live"
    and "\<forall>a\<in>set (attachments_of d). \<forall>x. att_texture a = Some x \<longrightarrow> live x"
  shows "list_all2 (\<lambda>a v. attachmentView f (targetLayers d) (\<lambda>i. VK_SUCCESS) a = Inr v) (attachments_of d) (t_views t)
    \<and> length cache' \<le> 128"
proof -
  have len': "length cache' \<le> 128" using target_cache_ok [OF target_cache.begin_pass [OF assms(1,2)]] by simp
  have "views_of f (targetLayers d) (attachments_of d) (t_views t)"
    using assms(2)
  proof (cases rule: beginTarget_cases)
    case (hit t' extent)
    then have t: "t \<in> set cache" "\<not> list_ex (expired live) (t_textures t)" "t_key t = targetKey f extent d" by auto
    then obtain e2 d2 where o': "t_key t = targetKey f e2 d2" "t_textures t = map att_texture (attachments_of d2)"
      "views_of f (targetLayers d2) (attachments_of d2) (t_views t)"
      using target_cache_ok [OF assms(1)] unfolding target_ok_def by blast
    have live: "\<forall>a\<in>set (attachments_of d2). \<forall>x. att_texture a = Some x \<longrightarrow> live x"
      using t(2) o'(2) by (auto simp: list_ex_iff expired_def)
    have k: "targetLayers d = targetLayers d2" "concat (map (keyAttachment f) (attachments_of d)) = concat (map (keyAttachment f) (attachments_of d2))"
      using t(3) o'(1) by (simp_all add: targetKey_def)
    have "attachments_of d = attachments_of d2" by (rule keyAttachments_inject [OF assms(3) k(2) assms(4) live])
    then show ?thesis using o'(3) k(1) by simp
  qed simp_all
  then show ?thesis using len' by (simp add: views_of_def)
qed

definition example_facts :: texture_facts where
  "example_facts = \<lparr>textureWidth = (\<lambda>t. 256), textureHeight = (\<lambda>t. 128), textureImage = id, mipmapLevelCount = (\<lambda>t. 4),
     vulkanArrayLength = (\<lambda>t. 2), parentOffsets = (\<lambda>t. if t = 1 then [(0, 1)] else []), textureAddress = (\<lambda>t. 4096)\<rparr>"

definition example_pass :: "nat \<Rightarrow> pass_descriptor" where
  "example_pass t = \<lparr>colorAttachments = [\<lparr>att_texture = Some t, att_level = 1, att_slice = 0\<rparr>], depthAttachment = None,
     stencilAttachment = None, renderTargetWidth = 0, renderTargetHeight = 0, renderTargetArrayLength = 0\<rparr>"

text \<open>The second pass renders to a texture at the address of the first one's, which is gone: a new view.\<close>

theorem render_target_fits_pass_witness:
  "\<exists>cache t. target_cache example_facts cache \<and> map t_views cache = [[\<lparr>v_texture = 0, baseMipLevel = 1, baseArrayLayer = 0, layerCount = 1, isArray = False\<rparr>]]
    \<and> fst (beginTarget example_facts (\<lambda>x. x = 1) (\<lambda>i. VK_SUCCESS) (example_pass 1) cache) = Inr t
    \<and> list_all2 (\<lambda>a v. attachmentView example_facts 1 (\<lambda>i. VK_SUCCESS) a = Inr v) (attachments_of (example_pass 1)) (t_views t)
    \<and> t_views t = [\<lparr>v_texture = 1, baseMipLevel = 1, baseArrayLayer = 1, layerCount = 1, isArray = False\<rparr>]"
proof -
  note d = beginTarget_def targetExtent_def first_attachment_def separate_depth_stencil_def acquireTarget_def attachmentView_def
    targetLayers_def attachments_of_def depthStencil_def example_facts_def example_pass_def targetKey_def expired_def
  let ?t0 = "\<lparr>t_key = targetKey example_facts (128, 64) (example_pass 0), t_textures = [Some 0],
      t_views = [\<lparr>v_texture = 0, baseMipLevel = 1, baseArrayLayer = 0, layerCount = 1, isArray = False\<rparr>]\<rparr>"
  let ?t1 = "\<lparr>t_key = targetKey example_facts (128, 64) (example_pass 1), t_textures = [Some 1],
      t_views = [\<lparr>v_texture = 1, baseMipLevel = 1, baseArrayLayer = 1, layerCount = 1, isArray = False\<rparr>]\<rparr>"
  have n: "\<not> (4 :: u64) \<le> 1" "\<not> (2 :: u64) < 1" "max 1 (drop_bit (Suc 0) 256) = (128 :: u64)" "max 1 (drop_bit (Suc 0) 128) = (64 :: u64)"
    by (simp_all add: word_le_nat_alt word_less_nat_alt max_def)
  have "beginTarget example_facts (\<lambda>x. x = 0) (\<lambda>i. VK_SUCCESS) (example_pass 0) [] = (Inr ?t0, [?t0])"
    by (simp add: d n Let_def)
  then have 0: "target_cache example_facts [?t0]" by (rule target_cache.begin_pass [OF target_cache.start])
  have 1: "beginTarget example_facts (\<lambda>x. x = 1) (\<lambda>i. VK_SUCCESS) (example_pass 1) [?t0] = (Inr ?t1, [?t1])"
    by (simp add: d n Let_def)
  have ok: "addresses_ok example_facts (\<lambda>x. x = 1)" by (simp add: addresses_ok_def example_facts_def)
  have live: "\<forall>a\<in>set (attachments_of (example_pass 1)). \<forall>x. att_texture a = Some x \<longrightarrow> x = 1"
    by (simp add: attachments_of_def depthStencil_def example_pass_def)
  show ?thesis using render_target_fits_pass [OF 0 1 ok live] 0 1
    by (intro exI [of _ "[?t0]"] exI [of _ ?t1]) (simp add: targetLayers_def example_pass_def)
qed

end
