(* ===== verification/DescriptorLemmas.thy ===== *)
theory DescriptorLemmas
  imports RenderBindings
begin

section \<open>Keys and contents of descriptor sets\<close>

text \<open>
  What a stage's bindings mean: the value bound to each binding, the key and the descriptors made
  from the values. A successful scan computes the key of the current values, writing a set stores
  their descriptors, and a key determines the values while the objects are alive.
\<close>

subsection \<open>Values of bindings\<close>

datatype bound_value = Buf_value nat u64 u64 bool | Img_value nat bool | Samp_value nat

fun value_id :: "bound_value \<Rightarrow> nat" where
  "value_id (Buf_value x offset z dynamic) = x"
| "value_id (Img_value x sampled) = x"
| "value_id (Samp_value x) = x"

text \<open>The bindings whose descriptors are in the stage's own set.\<close>

definition own_binding :: "bool \<Rightarrow> binding \<Rightarrow> bool" where
  "own_binding pushed b \<longleftrightarrow> (case bind_type b of Buffer_binding \<Rightarrow> \<not> pushed | Vertex_input_binding \<Rightarrow> False | _ \<Rightarrow> True)"

definition own_bindings :: "bool \<Rightarrow> function_info \<Rightarrow> binding list" where
  "own_bindings pushed info = filter (own_binding pushed) (bindings info)"

text \<open>The value of a binding in the current resources; a dynamic buffer's offset is kept apart.\<close>

definition current_value :: "render_env \<Rightarrow> function_info \<Rightarrow> stage_state \<Rightarrow> binding \<Rightarrow> bound_value option" where
  "current_value env info st b =
     (case bind_type b of
        Buffer_binding \<Rightarrow> (case bind_index b of
            None \<Rightarrow> None
          | Some i \<Rightarrow> if i < length (buffers (res st)) then (case buffers (res st) ! i of
                (None, offset) \<Rightarrow> None
              | (Some x, offset) \<Rightarrow> Some (Buf_value x (if dynamicBufferBinding env info b then 0 else offset)
                  (buffer_size env st i x offset) (dynamicBufferBinding env info b))) else None)
      | Texture_binding sampled \<Rightarrow> (case bind_index b of
            None \<Rightarrow> None
          | Some i \<Rightarrow> if i < length (textures (res st)) then map_option (\<lambda>t. Img_value t sampled) (textures (res st) ! i) else None)
      | Sampler_binding \<Rightarrow> (case bound_sampler info (res st) b of Inl e \<Rightarrow> None | Inr s \<Rightarrow> map_option Samp_value s)
      | Vertex_input_binding \<Rightarrow> None)"

definition current_values :: "render_env \<Rightarrow> function_info \<Rightarrow> stage_state \<Rightarrow> binding list \<Rightarrow> bound_value list \<Rightarrow> bool" where
  "current_values env info st bs vs \<longleftrightarrow> list_all2 (\<lambda>b v. current_value env info st b = Some v) bs vs"

text \<open>The offset Vulkan is to add for a dynamic binding.\<close>

definition current_offset :: "render_env \<Rightarrow> function_info \<Rightarrow> stage_state \<Rightarrow> binding \<Rightarrow> (u64 \<times> u64) list" where
  "current_offset env info st b =
     (case bind_type b of
        Buffer_binding \<Rightarrow> (case bind_index b of
            None \<Rightarrow> []
          | Some i \<Rightarrow> if i < length (buffers (res st)) \<and> dynamicBufferBinding env info b
              then [(internalIndex b, snd (buffers (res st) ! i))] else [])
      | _ \<Rightarrow> [])"

definition current_offsets :: "render_env \<Rightarrow> function_info \<Rightarrow> stage_state \<Rightarrow> binding list \<Rightarrow> (u64 \<times> u64) list" where
  "current_offsets env info st bs = concat (map (current_offset env info st) bs)"

fun fits :: "render_env \<Rightarrow> function_info \<Rightarrow> binding \<Rightarrow> bound_value \<Rightarrow> bool" where
  "fits env info b (Buf_value x offset z dynamic) \<longleftrightarrow> bind_type b = Buffer_binding \<and> dynamic = dynamicBufferBinding env info b"
| "fits env info b (Img_value x sampled) \<longleftrightarrow> bind_type b = Texture_binding sampled"
| "fits env info b (Samp_value x) \<longleftrightarrow> bind_type b = Sampler_binding"

lemma current_value_fits: "current_value env info st b = Some v \<Longrightarrow> fits env info b v"
  by (auto simp: current_value_def split: binding_type.splits option.splits prod.splits if_splits sum.splits)

subsection \<open>Keys\<close>

fun key_part :: "render_env \<Rightarrow> binding \<Rightarrow> bound_value \<Rightarrow> u64 list" where
  "key_part env b (Buf_value x offset z dynamic) = [internalIndex b, address env x, offset, z]"
| "key_part env b (Img_value x sampled) = [internalIndex b, address env x]"
| "key_part env b (Samp_value x) = [internalIndex b, address env x]"

definition key_of :: "render_env \<Rightarrow> binding list \<Rightarrow> bound_value list \<Rightarrow> u64 list" where
  "key_of env bs vs = concat (map2 (key_part env) bs vs)"

lemma key_of_Cons: "key_of env (b # bs) (v # vs) = key_part env b v @ key_of env bs vs"
  by (simp add: key_of_def)

lemma key_of_Nil [simp]: "key_of env [] [] = []"
  by (simp add: key_of_def)

lemma key_part_eq:
  assumes "fits env info b v" "fits env info b w" "key_part env b v @ ks = key_part env b w @ ls"
    "inj_on (address env) {x. live x}" "live (value_id v)" "live (value_id w)"
  shows "v = w \<and> ks = ls"
proof (cases v)
  case (Buf_value x offset z dynamic)
  then show ?thesis using assms by (cases w) (auto simp: inj_on_def)
next
  case (Img_value x sampled)
  then show ?thesis using assms by (cases w) (auto simp: inj_on_def)
next
  case (Samp_value x)
  then show ?thesis using assms by (cases w) (auto simp: inj_on_def)
qed

text \<open>Equal keys of live objects are keys of the same values.\<close>

lemma key_of_inject:
  assumes "list_all2 (fits env info) bs vs" "list_all2 (fits env info) bs ws" "key_of env bs vs = key_of env bs ws"
    "inj_on (address env) {x. live x}" "\<forall>v\<in>set vs. live (value_id v)" "\<forall>w\<in>set ws. live (value_id w)"
  shows "vs = ws"
  using assms(1,2,3,5,6)
proof (induction bs arbitrary: vs ws)
  case (Cons b bs)
  obtain v vs' w ws' where vw: "vs = v # vs'" "ws = w # ws'" "fits env info b v" "fits env info b w"
    "list_all2 (fits env info) bs vs'" "list_all2 (fits env info) bs ws'"
    using Cons.prems by (auto simp: list_all2_Cons1)
  have "v = w \<and> key_of env bs vs' = key_of env bs ws'"
    using Cons.prems vw by (intro key_part_eq [OF vw(3,4) _ assms(4)]) (simp_all add: key_of_Cons)
  then show ?case using Cons.IH [OF vw(5,6)] Cons.prems vw by simp
qed simp

subsection \<open>A successful scan\<close>

text \<open>The size of a bound buffer as the scan stores it under its index.\<close>

definition size_at :: "render_env \<Rightarrow> stage_state \<Rightarrow> nat \<Rightarrow> u64" where
  "size_at env st i =
     (case buffers (res st) ! i of (None, offset) \<Rightarrow> 0 | (Some x, offset) \<Rightarrow> buffer_size env st i x offset)"

definition scan_upto :: "render_env \<Rightarrow> function_info \<Rightarrow> bool \<Rightarrow> stage_state \<Rightarrow> binding list \<Rightarrow> bind_scan \<Rightarrow> bind_scan \<Rightarrow> bool" where
  "scan_upto env info pushed st bs sc sc' \<longleftrightarrow>
     (\<exists>vs. current_values env info st (filter (own_binding pushed) bs) vs
        \<and> key sc' = key sc @ key_of env (filter (own_binding pushed) bs) vs)
     \<and> stageOffsets sc' = stageOffsets sc @ current_offsets env info st (filter (own_binding pushed) bs)
     \<and> ownSet sc' = (ownSet sc \<or> filter (own_binding pushed) bs \<noteq> [])
     \<and> length (ranges sc') = length (ranges sc)
     \<and> (\<forall>i. (ranges sc' ! i = ranges sc ! i \<or> i < length (ranges sc) \<and> ranges sc' ! i = size_at env st i)
          \<and> (i < length (ranges sc) \<and> (\<exists>b\<in>set bs. own_binding pushed b \<and> bind_type b = Buffer_binding \<and> bind_index b = Some i)
             \<longrightarrow> ranges sc' ! i = size_at env st i))"

lemma scan_binding_step:
  assumes "scan_binding env info pushed True st b sc = Inr sc'" "length (ranges sc) = length (buffers (res st))"
  shows "scan_upto env info pushed st [b] sc sc'"
proof (cases "bind_type b")
  case Buffer_binding
  show ?thesis
  proof (cases "pushed")
    case True
    then show ?thesis using assms Buffer_binding
      by (auto simp: scan_binding_def scan_buffer_def scan_upto_def own_binding_def current_values_def current_offsets_def Let_def
          split: if_splits option.splits prod.splits)
  next
    case False
    then obtain i x offset where i: "bind_index b = Some i" "i < length (buffers (res st))" "buffers (res st) ! i = (Some x, offset)"
      using assms(1) Buffer_binding
      by (auto simp: scan_binding_def scan_buffer_def split: if_splits option.splits prod.splits)
    then have sc': "sc' = sc\<lparr>ranges := (ranges sc)[i := buffer_size env st i x offset],
        key := key sc @ [internalIndex b, address env x, if dynamicBufferBinding env info b then 0 else offset, buffer_size env st i x offset],
        stageOffsets := stageOffsets sc @ (if dynamicBufferBinding env info b then [(internalIndex b, offset)] else []), ownSet := True\<rparr>"
      using assms(1) Buffer_binding False by (auto simp: scan_binding_def scan_buffer_def Let_def split: if_splits)
    have "current_value env info st b = Some (Buf_value x (if dynamicBufferBinding env info b then 0 else offset)
        (buffer_size env st i x offset) (dynamicBufferBinding env info b))"
      using i Buffer_binding by (simp add: current_value_def)
    then have "\<exists>vs. current_values env info st [b] vs \<and> key sc' = key sc @ key_of env [b] vs"
      by (intro exI [of _ "[Buf_value x (if dynamicBufferBinding env info b then 0 else offset)
        (buffer_size env st i x offset) (dynamicBufferBinding env info b)]"]) (simp add: current_values_def key_of_def sc')
    moreover have "current_offsets env info st [b] = (if dynamicBufferBinding env info b then [(internalIndex b, offset)] else [])"
      using i Buffer_binding by (simp add: current_offsets_def current_offset_def)
    moreover have "own_binding pushed b" using Buffer_binding False by (simp add: own_binding_def)
    ultimately show ?thesis using i assms(2) by (auto simp: scan_upto_def sc' size_at_def nth_list_update)
  qed
next
  case (Texture_binding sampled)
  then obtain i t where i: "bind_index b = Some i" "i < length (textures (res st))" "textures (res st) ! i = Some t"
    "sc' = sc\<lparr>key := key sc @ [internalIndex b, address env t], ownSet := True\<rparr>"
    using assms(1) by (auto simp: scan_binding_def split: if_splits option.splits)
  then have "current_values env info st [b] [Img_value t sampled]"
    using Texture_binding by (simp add: current_values_def current_value_def)
  then show ?thesis using i Texture_binding
    by (auto simp: scan_upto_def own_binding_def current_offsets_def current_offset_def key_of_def)
next
  case Sampler_binding
  then obtain s where s: "bound_sampler info (res st) b = Inr (Some s)"
    "sc' = sc\<lparr>key := key sc @ [internalIndex b, address env s], ownSet := True\<rparr>"
    using assms(1) by (auto simp: scan_binding_def split: if_splits option.splits sum.splits)
  then have "current_values env info st [b] [Samp_value s]"
    using Sampler_binding by (simp add: current_values_def current_value_def)
  then show ?thesis using s Sampler_binding
    by (auto simp: scan_upto_def own_binding_def current_offsets_def current_offset_def key_of_def)
next
  case Vertex_input_binding
  then show ?thesis using assms
    by (auto simp: scan_binding_def scan_upto_def own_binding_def current_values_def current_offsets_def)
qed

lemma scan_upto_trans:
  assumes "scan_upto env info pushed st [b] sc sc1" "scan_upto env info pushed st bs sc1 sc2"
  shows "scan_upto env info pushed st (b # bs) sc sc2"
proof -
  let ?own = "filter (own_binding pushed)"
  obtain vs where vs: "current_values env info st (?own [b]) vs" "key sc1 = key sc @ key_of env (?own [b]) vs"
    using assms(1) unfolding scan_upto_def by blast
  obtain ws where ws: "current_values env info st (?own bs) ws" "key sc2 = key sc1 @ key_of env (?own bs) ws"
    using assms(2) unfolding scan_upto_def by blast
  have l: "length vs = length (?own [b])" using vs(1) by (simp add: current_values_def list_all2_lengthD)
  have own: "?own (b # bs) = ?own [b] @ ?own bs" by simp
  have "current_values env info st (?own (b # bs)) (vs @ ws) \<and> key sc2 = key sc @ key_of env (?own (b # bs)) (vs @ ws)"
    unfolding own using vs ws l by (simp add: current_values_def list_all2_appendI key_of_def zip_append)
  moreover have "stageOffsets sc2 = stageOffsets sc @ current_offsets env info st (?own (b # bs))"
    using assms unfolding scan_upto_def own by (simp add: current_offsets_def)
  moreover have "ownSet sc2 = (ownSet sc \<or> ?own (b # bs) \<noteq> [])"
    using assms unfolding scan_upto_def own by (metis append_is_Nil_conv)
  moreover have "length (ranges sc2) = length (ranges sc)" using assms unfolding scan_upto_def by simp
  moreover have "(ranges sc2 ! i = ranges sc ! i \<or> i < length (ranges sc) \<and> ranges sc2 ! i = size_at env st i)
          \<and> (i < length (ranges sc) \<and> (\<exists>c\<in>set (b # bs). own_binding pushed c \<and> bind_type c = Buffer_binding \<and> bind_index c = Some i)
             \<longrightarrow> ranges sc2 ! i = size_at env st i)" for i
    using assms unfolding scan_upto_def by (metis list.set_intros(1) set_ConsD)
  ultimately show ?thesis unfolding scan_upto_def by blast
qed

lemma scan_bindings_upto:
  assumes "scan_bindings env info pushed True st bs sc = Inr sc'" "length (ranges sc) = length (buffers (res st))"
  shows "scan_upto env info pushed st bs sc sc'"
  using assms
proof (induction bs arbitrary: sc)
  case Nil
  then show ?case by (auto simp: scan_upto_def current_values_def current_offsets_def)
next
  case (Cons b bs)
  obtain sc1 where 1: "scan_binding env info pushed True st b sc = Inr sc1" "scan_bindings env info pushed True st bs sc1 = Inr sc'"
    using Cons.prems by (auto split: sum.splits)
  note s = scan_binding_step [OF 1(1) Cons.prems(2)]
  then have "length (ranges sc1) = length (buffers (res st))" using Cons.prems(2) by (simp add: scan_upto_def)
  from scan_upto_trans [OF s Cons.IH [OF 1(2) this]] show ?case .
qed

text \<open>Without an update of the set, only pushed buffers are read.\<close>

lemma scan_bindings_pushed:
  assumes "scan_bindings env info True False st bs sc = Inr sc'"
  shows "ownSet sc' = ownSet sc"
  using assms
proof (induction bs arbitrary: sc)
  case (Cons b bs)
  obtain sc1 where 1: "scan_binding env info True False st b sc = Inr sc1" "scan_bindings env info True False st bs sc1 = Inr sc'"
    using Cons.prems by (auto split: sum.splits)
  have "ownSet sc1 = ownSet sc"
    using 1(1) by (cases "bind_type b") (auto simp: scan_binding_def scan_buffer_def Let_def split: if_splits option.splits prod.splits)
  then show ?case using Cons.IH [OF 1(2)] by simp
qed simp

end
