(* ===== verification/DescriptorArena.thy ===== *)
theory DescriptorArena
  imports DescriptorLemmas
begin

section \<open>The arena of descriptor sets\<close>

text \<open>
  The invariant of the arena: every entry's set holds the descriptors of the values its key was made
  from. Selecting a set gives one that holds the descriptors of the current values, and does not
  write to any set in use.
\<close>

subsection \<open>Descriptors written\<close>

fun desc_of :: "render_env \<Rightarrow> bound_value \<Rightarrow> descriptor" where
  "desc_of env (Buf_value x offset z dynamic) = Buffer_desc (bufferHandle env x) offset z dynamic"
| "desc_of env (Img_value x sampled) = Image_desc (imageView env x) sampled"
| "desc_of env (Samp_value x) = Sampler_desc (samplerHandle env x)"

text \<open>Distinct bindings have distinct numbers.\<close>

definition numbers_distinct :: "function_info \<Rightarrow> bool" where
  "numbers_distinct info \<longleftrightarrow> distinct (map internalIndex (bindings info))"

definition holds_values :: "render_env \<Rightarrow> (u64 \<Rightarrow> descriptor option) \<Rightarrow> binding list \<Rightarrow> bound_value list \<Rightarrow> bool" where
  "holds_values env m bs vs \<longleftrightarrow> list_all2 (\<lambda>b v. m (internalIndex b) = Some (desc_of env v)) bs vs"

lemma apply_writes_append: "apply_writes (ws @ ws') m = apply_writes ws' (apply_writes ws m)"
  by (induction ws arbitrary: m) (simp, simp add: split_paired_all)

lemma apply_writes_functional:
  "(i, d) \<in> set l \<Longrightarrow> (\<forall>d'. (i, d') \<in> set l \<longrightarrow> d' = d) \<Longrightarrow> apply_writes l m i = Some d"
proof (induction l rule: rev_induct)
  case (snoc p l)
  obtain j e where p: "p = (j, e)" by fastforce
  show ?case
  proof (cases "j = i")
    case True
    then have "(i, e) \<in> set (l @ [p])" using p by simp
    then have "e = d" using snoc.prems(2) by blast
    then show ?thesis using True p by (simp add: apply_writes_append)
  next
    case False
    then have "(i, d) \<in> set l" using snoc.prems(1) p by simp
    moreover have "\<forall>d'. (i, d') \<in> set l \<longrightarrow> d' = d" using snoc.prems(2) by simp
    ultimately have "apply_writes l m i = Some d" by (rule snoc.IH)
    then show ?thesis using False p by (simp add: apply_writes_append)
  qed
qed simp

text \<open>Sizes as the scan computed them, none zero.\<close>

definition sizes_ok :: "render_env \<Rightarrow> bool \<Rightarrow> stage_state \<Rightarrow> u64 list \<Rightarrow> binding list \<Rightarrow> bool" where
  "sizes_ok env pushed st rs bs \<longleftrightarrow> length rs = length (buffers (res st))
     \<and> (\<forall>b\<in>set bs. \<forall>i. own_binding pushed b \<and> bind_type b = Buffer_binding \<and> bind_index b = Some i \<and> i < length rs
          \<longrightarrow> rs ! i = size_at env st i \<and> rs ! i \<noteq> 0)"

lemma buffer_write_current:
  assumes "buffer_write env info (res st) rs b = Inr w" "bind_type b = Buffer_binding" "\<not> pushed"
    "sizes_ok env pushed st rs bs" "b \<in> set bs"
  shows "\<exists>v. current_value env info st b = Some v \<and> w = (internalIndex b, desc_of env v)"
proof -
  obtain i x offset where i: "bind_index b = Some i" "i < length (buffers (res st))" "buffers (res st) ! i = (Some x, offset)"
    using assms(1) by (auto simp: buffer_write_def split: if_splits option.splits prod.splits)
  have "own_binding pushed b" using assms(2,3) by (simp add: own_binding_def)
  then have "i < length rs" "rs ! i = size_at env st i" "rs ! i \<noteq> 0"
    using assms(2,4,5) i by (auto simp: sizes_ok_def)
  then show ?thesis
    using assms(1,2) i by (auto simp: buffer_write_def current_value_def size_at_def Let_def split: if_splits)
qed

lemma buffer_writes_current:
  assumes "buffer_writes env info pushed (res st) rs bs = Inr ws" "sizes_ok env pushed st rs bs"
  shows "set ws = {(internalIndex b, desc_of env v) | b v. b \<in> set bs \<and> bind_type b = Buffer_binding \<and> \<not> pushed
           \<and> current_value env info st b = Some v}"
  using assms
proof (induction bs arbitrary: ws)
  case (Cons b bs)
  have ok: "sizes_ok env pushed st rs bs" using Cons.prems(2) unfolding sizes_ok_def by (meson list.set_intros(2))
  show ?case
  proof (cases "bind_type b \<noteq> Buffer_binding \<or> pushed")
    case True
    then show ?thesis using Cons.IH [OF _ ok] Cons.prems(1) by auto
  next
    case False
    then obtain w ws' where w: "buffer_write env info (res st) rs b = Inr w" "buffer_writes env info pushed (res st) rs bs = Inr ws'"
      "ws = w # ws'"
      using Cons.prems(1) by (auto split: sum.splits)
    obtain v where v: "current_value env info st b = Some v" "w = (internalIndex b, desc_of env v)"
      using buffer_write_current [OF w(1) _ _ Cons.prems(2)] False by auto
    show ?thesis using Cons.IH [OF w(2) ok] w(3) v False by auto
  qed
qed simp

lemma image_write_current:
  assumes "image_write env info (res st) b = Inr w"
  shows "set w = {(internalIndex b, desc_of env v) | v. bind_type b \<noteq> Buffer_binding \<and> current_value env info st b = Some v}"
  using assms
  by (auto simp: image_write_def current_value_def bound_sampler_def split: binding_type.splits option.splits if_splits)

lemma image_writes_current:
  assumes "image_writes env info (res st) bs = Inr ws"
  shows "set ws = {(internalIndex b, desc_of env v) | b v. b \<in> set bs \<and> bind_type b \<noteq> Buffer_binding
           \<and> current_value env info st b = Some v}"
  using assms
proof (induction bs arbitrary: ws)
  case (Cons b bs)
  then obtain w ws' where w: "image_write env info (res st) b = Inr w" "image_writes env info (res st) bs = Inr ws'" "ws = w @ ws'"
    by (auto split: sum.splits)
  show ?case using Cons.IH [OF w(2)] image_write_current [OF w(1)] w(3) by auto
qed simp

lemma current_value_own: "current_value env info st b = Some v \<Longrightarrow> bind_type b = Buffer_binding \<and> pushed \<or> own_binding pushed b"
  by (auto simp: current_value_def own_binding_def split: binding_type.splits)

lemma createDescriptorSets_InrE:
  assumes "createDescriptorSets env alloc info pushed r rs existing a = (Inr s, a')"
  obtains a1 ws ws' where "(case existing of Some s \<Rightarrow> (Inr s, a) | None \<Rightarrow> allocate_set alloc a) = (Inr s, a1)"
    "buffer_writes env info pushed r rs (bindings info) = Inr ws" "image_writes env info r (bindings info) = Inr ws'"
    "a' = a1\<lparr>contents := (contents a1)(s := apply_writes (ws @ ws') (contents a1 s))\<rparr>"
proof -
  from assms [unfolded createDescriptorSets_def] obtain s1 a1 where
    1: "(case existing of Some s \<Rightarrow> (Inr s, a) | None \<Rightarrow> allocate_set alloc a) = (Inr s1, a1)"
    and 2: "(case buffer_writes env info pushed r rs (bindings info) of
         Inl e \<Rightarrow> (Inl e, a1)
       | Inr ws \<Rightarrow> (case image_writes env info r (bindings info) of
             Inl e \<Rightarrow> (Inl e, a1)
           | Inr ws' \<Rightarrow> (Inr s1, a1\<lparr>contents := (contents a1)(s1 := apply_writes (ws @ ws') (contents a1 s1))\<rparr>)))
         = (Inr s, a')" by (elim and_then_InrE)
  show thesis
  proof (cases "buffer_writes env info pushed r rs (bindings info)")
    case (Inr ws)
    show thesis
    proof (cases "image_writes env info r (bindings info)")
      case inr: (Inr ws')
      have "s1 = s" using 2 Inr inr by simp
      with 1 2 Inr inr show thesis by (intro that [of a1 ws ws']) simp_all
    qed (use 2 Inr in simp)
  qed (use 2 in simp)
qed

text \<open>Writing a set makes it hold the current values.\<close>

lemma createDescriptorSets_holds:
  assumes c: "createDescriptorSets env alloc info pushed (res st) rs existing a = (Inr s, a')"
    and sz: "sizes_ok env pushed st rs (bindings info)" and d: "numbers_distinct info"
    and v: "current_values env info st (own_bindings pushed info) vs"
  shows "holds_values env (contents a' s) (own_bindings pushed info) vs"
proof -
  obtain a1 ws ws' where w: "buffer_writes env info pushed (res st) rs (bindings info) = Inr ws"
    "image_writes env info (res st) (bindings info) = Inr ws'"
    "a' = a1\<lparr>contents := (contents a1)(s := apply_writes (ws @ ws') (contents a1 s))\<rparr>"
    using createDescriptorSets_InrE [OF c] by metis
  have S: "set (ws @ ws') = {(internalIndex b, desc_of env v) | b v. b \<in> set (bindings info)
      \<and> (bind_type b = Buffer_binding \<longrightarrow> \<not> pushed) \<and> current_value env info st b = Some v}"
    unfolding set_append buffer_writes_current [OF w(1) sz] image_writes_current [OF w(2)] by blast
  have "contents a' s (internalIndex b) = Some (desc_of env v)"
    if b: "b \<in> set (own_bindings pushed info)" "current_value env info st b = Some v" for b v
  proof -
    have m: "(internalIndex b, desc_of env v) \<in> set (ws @ ws')"
      using b unfolding S own_bindings_def own_binding_def by (auto split: binding_type.splits)
    have "d' = desc_of env v" if "(internalIndex b, d') \<in> set (ws @ ws')" for d'
    proof -
      obtain c v' where c: "internalIndex b = internalIndex c" "d' = desc_of env v'" "c \<in> set (bindings info)"
        "current_value env info st c = Some v'" using \<open>(internalIndex b, d') \<in> set (ws @ ws')\<close> unfolding S by auto
      have "b = c" using d c(1,3) b(1) by (auto simp: numbers_distinct_def own_bindings_def distinct_map inj_on_def)
      then show ?thesis using c b by simp
    qed
    then have "apply_writes (ws @ ws') (contents a1 s) (internalIndex b) = Some (desc_of env v)"
      using apply_writes_functional [OF m] by blast
    then show ?thesis by (simp add: w(3))
  qed
  then show ?thesis using v unfolding holds_values_def current_values_def
    by (simp add: list_all2_conv_all_nth)
qed

lemma allocate_set_frame:
  assumes "allocate_set alloc a = (r, a')"
  shows "entries a' = entries a" "lookup a' = lookup a" "available a' = available a" "contents a' = contents a"
    "nextSet a \<le> nextSet a'" "r = Inr s \<Longrightarrow> s = nextSet a \<and> nextSet a' = Suc s"
  using assms by (auto simp: allocate_set_def Let_def split: prod.splits if_splits)

lemma createDescriptorSets_frame:
  assumes "createDescriptorSets env alloc info pushed r rs existing a = (Inr s, a')"
  shows "entries a' = entries a \<and> lookup a' = lookup a \<and> available a' = available a"
    and "\<And>s'. s' \<noteq> s \<Longrightarrow> contents a' s' = contents a s'"
    and "existing = Some t \<Longrightarrow> s = t \<and> nextSet a' = nextSet a"
    and "existing = None \<Longrightarrow> s = nextSet a \<and> nextSet a' = Suc s"
proof -
  obtain a1 ws ws' where 1: "(case existing of Some s \<Rightarrow> (Inr s, a) | None \<Rightarrow> allocate_set alloc a) = (Inr s, a1)"
    and a': "a' = a1\<lparr>contents := (contents a1)(s := apply_writes (ws @ ws') (contents a1 s))\<rparr>"
    using createDescriptorSets_InrE [OF assms] by metis
  have fr: "entries a1 = entries a" "lookup a1 = lookup a" "available a1 = available a" "contents a1 = contents a"
  proof -
    have "existing = None \<Longrightarrow> allocate_set alloc a = (Inr s, a1)" "existing \<noteq> None \<Longrightarrow> a1 = a"
      using 1 by auto
    note c = this
    show "entries a1 = entries a" using c allocate_set_frame(1) by metis
    show "lookup a1 = lookup a" using c allocate_set_frame(2) by metis
    show "available a1 = available a" using c allocate_set_frame(3) by metis
    show "contents a1 = contents a" using c allocate_set_frame(4) by metis
  qed
  show "entries a' = entries a \<and> lookup a' = lookup a \<and> available a' = available a" by (simp add: a' fr)
  show "contents a' s' = contents a s'" if "s' \<noteq> s" for s' using that by (simp add: a' fr)
  show "existing = Some t \<Longrightarrow> s = t \<and> nextSet a' = nextSet a" using 1 by (simp add: a')
  show "existing = None \<Longrightarrow> s = nextSet a \<and> nextSet a' = Suc s"
    using 1 allocate_set_frame(6) [of alloc a "Inr s" a1 s] a' by simp
qed

subsection \<open>The invariant\<close>

definition entry_ok :: "render_env \<Rightarrow> arena \<Rightarrow> arena_entry \<Rightarrow> bool" where
  "entry_ok env a e \<longleftrightarrow>
     (\<forall>s. e_set e = Some s \<longrightarrow> s < nextSet a \<and>
       (\<exists>k\<in>{0, 1}. \<exists>vs. let info = stageInfo env (e_pso e) k; own = own_bindings (pushesBuffers env info) info in
          e_layout e = setLayout env (e_pso e) k \<and> list_all2 (fits env info) own vs
          \<and> e_key e = key_of env own vs \<and> e_resources e = map value_id vs \<and> holds_values env (contents a s) own vs))"

definition arena_ok :: "render_env \<Rightarrow> arena \<Rightarrow> bool" where
  "arena_ok env a \<longleftrightarrow>
     (\<forall>e\<in>set (entries a). entry_ok env a e)
     \<and> (\<forall>(h, i)\<in>set (lookup a). i < length (entries a) \<and> e_set (entries a ! i) \<noteq> None)
     \<and> (\<forall>i<length (entries a). \<forall>j<length (entries a). \<forall>s.
          e_set (entries a ! i) = Some s \<and> e_set (entries a ! j) = Some s \<longrightarrow> i = j)
     \<and> (\<forall>l. \<forall>i\<in>set (available a l). i < length (entries a) \<and> e_layout (entries a ! i) = l)"

definition in_use :: "arena \<Rightarrow> nat \<Rightarrow> bool" where
  "in_use a s \<longleftrightarrow> (\<exists>e\<in>set (entries a). e_used e \<and> e_set e = Some s)"

text \<open>Sets in use stay in use with the contents they have.\<close>

definition keeps_used :: "arena \<Rightarrow> arena \<Rightarrow> bool" where
  "keeps_used a a' \<longleftrightarrow> (\<forall>s. in_use a s \<longrightarrow> in_use a' s \<and> contents a' s = contents a s)"

definition env_ok :: "render_env \<Rightarrow> bool" where
  "env_ok env \<longleftrightarrow> (\<forall>p. setLayout env p 0 \<noteq> setLayout env p 1) \<and> (\<forall>p k. numbers_distinct (stageInfo env p k))
     \<and> (\<forall>x. address env x \<noteq> 0)"

lemma take_available_spec:
  assumes "take_available es p is = (sel, rest)"
  shows "set rest \<subseteq> set is" "sel = Some i \<Longrightarrow> i \<in> set is \<and> \<not> e_used (es ! i) \<and> e_pso (es ! i) = p"
  using assms by (induction "is") (auto split: if_splits)

text \<open>A hit: the set's descriptors are those of the current values.\<close>

lemma find_entry_spec:
  assumes ok: "arena_ok env a" and eok: "env_ok env" and f: "find_entry live (setLayout env p k) p ks hash a = Some i"
    and k: "k \<in> {0, 1}" and info: "info = stageInfo env p k" "own = own_bindings (pushesBuffers env info) info"
    and vs: "list_all2 (fits env info) own vs" "ks = key_of env own vs" "\<forall>v\<in>set vs. live (value_id v)"
    and inj: "inj_on (address env) {x. live x}"
  shows "i < length (entries a)" "\<exists>s. e_set (entries a ! i) = Some s \<and> holds_values env (contents a s) own vs"
proof -
  obtain h where h: "(h, i) \<in> set (lookup a)" "entry_matches live (setLayout env p k) p ks (entries a ! i)"
    using f unfolding find_entry_def by (auto dest!: find_SomeD)
  show i: "i < length (entries a)" using h(1) ok by (auto simp: arena_ok_def)
  obtain s where s: "e_set (entries a ! i) = Some s" using h(1) ok by (fastforce simp: arena_ok_def)
  let ?e = "entries a ! i"
  have "entry_ok env a ?e" using ok i by (simp add: arena_ok_def)
  then obtain k' ws where k': "k' \<in> {0, 1}" "e_layout ?e = setLayout env (e_pso ?e) k'"
    and ws: "list_all2 (fits env (stageInfo env (e_pso ?e) k')) (own_bindings (pushesBuffers env (stageInfo env (e_pso ?e) k')) (stageInfo env (e_pso ?e) k')) ws"
      "e_key ?e = key_of env (own_bindings (pushesBuffers env (stageInfo env (e_pso ?e) k')) (stageInfo env (e_pso ?e) k')) ws"
      "e_resources ?e = map value_id ws"
      "holds_values env (contents a s) (own_bindings (pushesBuffers env (stageInfo env (e_pso ?e) k')) (stageInfo env (e_pso ?e) k')) ws"
    using s unfolding entry_ok_def Let_def by blast
  have p: "e_pso ?e = p" "e_layout ?e = setLayout env p k" "e_key ?e = ks" "list_all live (e_resources ?e)"
    using h(2) by (simp_all add: entry_matches_def)
  have "setLayout env p 0 \<noteq> setLayout env p 1" using eok by (simp add: env_ok_def)
  then have "k' = k" using k k' p by fastforce
  then have ws': "list_all2 (fits env info) own ws" "ks = key_of env own ws" "holds_values env (contents a s) own ws"
    using ws p info by simp_all
  have "\<forall>w\<in>set ws. live (value_id w)" using p(4) ws(3) by (simp add: list_all_iff)
  then have "vs = ws" using key_of_inject [OF vs(1) ws'(1) _ inj vs(3)] vs(2) ws'(2) by simp
  then show "\<exists>s. e_set ?e = Some s \<and> holds_values env (contents a s) own vs" using s ws'(3) by blast
qed

end
