(* ===== verification/DescriptorSelection.thy ===== *)
theory DescriptorSelection
  imports DescriptorArena
begin

section \<open>Selecting a descriptor set\<close>

text \<open>
  Claiming an entry of the arena, writing it and looking one up keep the arena's invariant and the
  sets in use, and leave the selected set with the descriptors of the current values.
\<close>

subsection \<open>The resources an entry watches\<close>

lemma binding_resource_other:
  assumes "\<not> own_binding pushed b"
  shows "binding_resource info pushed r b = []"
  using assms by (auto simp: own_binding_def binding_resource_def split: binding_type.splits if_splits)

lemma binding_resource_current:
  assumes "own_binding pushed b" "current_value env info st b = Some v"
  shows "binding_resource info pushed (res st) b = [value_id v]"
  using assms
  by (auto simp: own_binding_def binding_resource_def current_value_def option_ids_def
      split: binding_type.splits option.splits prod.splits if_splits sum.splits)

lemma binding_resources_current:
  assumes "current_values env info st (filter (own_binding pushed) bs) vs"
  shows "concat (map (binding_resource info pushed (res st)) bs) = map value_id vs"
  using assms
proof (induction bs arbitrary: vs)
  case (Cons b bs)
  show ?case
  proof (cases "own_binding pushed b")
    case True
    then obtain v vs' where v: "vs = v # vs'" "current_value env info st b = Some v"
      "current_values env info st (filter (own_binding pushed) bs) vs'"
      using Cons.prems by (auto simp: current_values_def list_all2_Cons1)
    then show ?thesis using Cons.IH [OF v(3)] binding_resource_current [OF True v(2)] by simp
  next
    case False
    then show ?thesis using Cons by (simp add: binding_resource_other)
  qed
qed (simp add: current_values_def)

lemma current_values_fits: "current_values env info st bs vs \<Longrightarrow> list_all2 (fits env info) bs vs"
  unfolding current_values_def by (erule list_all2_mono) (rule current_value_fits)

subsection \<open>Claiming\<close>

lemma keeps_used_refl [simp]: "keeps_used a a"
  by (simp add: keeps_used_def)

lemma keeps_used_trans: "keeps_used a b \<Longrightarrow> keeps_used b c \<Longrightarrow> keeps_used a c"
  by (simp add: keeps_used_def)

lemma keeps_used_same: "entries a' = entries a \<Longrightarrow> contents a' = contents a \<Longrightarrow> keeps_used a a'"
  by (simp add: keeps_used_def in_use_def)

lemma arena_ok_entry: "arena_ok env a \<Longrightarrow> i < length (entries a) \<Longrightarrow> entry_ok env a (entries a ! i)"
  by (simp add: arena_ok_def)

lemma arena_ok_unique:
  "arena_ok env a \<Longrightarrow> i < length (entries a) \<Longrightarrow> j < length (entries a) \<Longrightarrow> e_set (entries a ! i) = Some s
    \<Longrightarrow> e_set (entries a ! j) = Some s \<Longrightarrow> i = j"
  unfolding arena_ok_def by blast

lemma arena_ok_lookup: "arena_ok env a \<Longrightarrow> (h, i) \<in> set (lookup a) \<Longrightarrow> i < length (entries a) \<and> e_set (entries a ! i) \<noteq> None"
  unfolding arena_ok_def by blast

lemma arena_ok_available: "arena_ok env a \<Longrightarrow> i \<in> set (available a l) \<Longrightarrow> i < length (entries a) \<and> e_layout (entries a ! i) = l"
  unfolding arena_ok_def by blast

lemma entry_ok_below: "entry_ok env a e \<Longrightarrow> e_set e = Some s \<Longrightarrow> s < nextSet a"
  unfolding entry_ok_def by blast

lemma arena_ok_fewer_available:
  assumes "arena_ok env a" "\<And>l. set (av l) \<subseteq> set (available a l)"
  shows "arena_ok env (a\<lparr>available := av\<rparr>)"
  unfolding arena_ok_def
proof (intro conjI)
  have "entry_ok env (a\<lparr>available := av\<rparr>) e = entry_ok env a e" for e by (simp add: entry_ok_def)
  then show "\<forall>e\<in>set (entries (a\<lparr>available := av\<rparr>)). entry_ok env (a\<lparr>available := av\<rparr>) e"
    using assms(1) by (simp add: arena_ok_def)
  show "\<forall>(h, i)\<in>set (lookup (a\<lparr>available := av\<rparr>)).
      i < length (entries (a\<lparr>available := av\<rparr>)) \<and> e_set (entries (a\<lparr>available := av\<rparr>) ! i) \<noteq> None"
    using assms(1) by (simp add: arena_ok_def)
  show "\<forall>i<length (entries (a\<lparr>available := av\<rparr>)). \<forall>j<length (entries (a\<lparr>available := av\<rparr>)). \<forall>s.
      e_set (entries (a\<lparr>available := av\<rparr>) ! i) = Some s \<and> e_set (entries (a\<lparr>available := av\<rparr>) ! j) = Some s \<longrightarrow> i = j"
    using assms(1) by (simp add: arena_ok_def)
  show "\<forall>l. \<forall>i\<in>set (available (a\<lparr>available := av\<rparr>) l).
      i < length (entries (a\<lparr>available := av\<rparr>)) \<and> e_layout (entries (a\<lparr>available := av\<rparr>) ! i) = l"
    using arena_ok_available [OF assms(1)] assms(2) by fastforce
qed

lemma entry_ok_null: "entry_ok env a null_entry"
  by (simp add: entry_ok_def null_entry_def)

lemma arena_ok_new_entry:
  assumes "arena_ok env a"
  shows "arena_ok env (a\<lparr>entries := entries a @ [null_entry]\<rparr>)"
  unfolding arena_ok_def
proof (intro conjI)
  let ?a = "a\<lparr>entries := entries a @ [null_entry]\<rparr>"
  have e: "entry_ok env ?a e = entry_ok env a e" for e by (simp add: entry_ok_def)
  show "\<forall>e\<in>set (entries ?a). entry_ok env ?a e"
    using assms entry_ok_null by (simp add: arena_ok_def e)
  show "\<forall>(h, i)\<in>set (lookup ?a). i < length (entries ?a) \<and> e_set (entries ?a ! i) \<noteq> None"
    using arena_ok_lookup [OF assms] by (fastforce simp: nth_append)
  show "\<forall>i<length (entries ?a). \<forall>j<length (entries ?a). \<forall>s. e_set (entries ?a ! i) = Some s \<and> e_set (entries ?a ! j) = Some s \<longrightarrow> i = j"
    using arena_ok_unique [OF assms] by (auto simp: nth_append null_entry_def less_Suc_eq)
  show "\<forall>l. \<forall>i\<in>set (available ?a l). i < length (entries ?a) \<and> e_layout (entries ?a ! i) = l"
    using arena_ok_available [OF assms] by (fastforce simp: nth_append)
qed

text \<open>What writing needs of the entry it writes.\<close>

definition claimed :: "arena \<Rightarrow> nat \<Rightarrow> nat \<Rightarrow> bool" where
  "claimed a layout i \<longleftrightarrow> i < length (entries a) \<and> \<not> e_used (entries a ! i) \<and> (\<forall>l. i \<in> set (available a l) \<longrightarrow> l = layout)"

lemma claim_entry_spec:
  assumes ok: "arena_ok env a" and c: "claim_entry layout p a = (i, a')"
  shows "arena_ok env a'" "claimed a' layout i" "keeps_used a a'"
proof -
  obtain sel rest where t: "take_available (entries a) p (rev (available a layout)) = (sel, rest)" by fastforce
  let ?b = "a\<lparr>available := (available a)(layout := rev rest)\<rparr>"
  have "set rest \<subseteq> set (available a layout)" using take_available_spec(1) [OF t] by simp
  then have b: "arena_ok env ?b" by (intro arena_ok_fewer_available [OF ok]) auto
  have "arena_ok env a' \<and> claimed a' layout i \<and> keeps_used a a'"
  proof (cases sel)
    case None
    then have a': "a' = ?b\<lparr>entries := entries ?b @ [null_entry]\<rparr>" "i = length (entries a)"
      using c t by (simp_all add: claim_entry_def)
    have "claimed a' layout i"
      unfolding claimed_def
    proof (intro conjI allI impI)
      show "i < length (entries a')" "\<not> e_used (entries a' ! i)" by (simp_all add: a' null_entry_def)
      show "l = layout" if "i \<in> set (available a' l)" for l
        using arena_ok_available [OF b, of i l] that by (simp add: a')
    qed
    moreover have "keeps_used a a'" by (auto simp: keeps_used_def in_use_def a')
    ultimately show ?thesis using arena_ok_new_entry [OF b] a' by simp
  next
    case (Some j)
    then have a': "a' = ?b" "i = j" using c t by (simp_all add: claim_entry_def)
    have j: "j \<in> set (available a layout)" "\<not> e_used (entries a ! j)" using take_available_spec(2) [OF t Some] by simp_all
    have "claimed a' layout i" unfolding claimed_def
    proof (intro conjI allI impI)
      show "i < length (entries a')" "\<not> e_used (entries a' ! i)" using arena_ok_available [OF ok j(1)] j(2) a' by simp_all
      show "l = layout" if "i \<in> set (available a' l)" for l
        using arena_ok_available [OF b, of i l] arena_ok_available [OF ok j(1)] that a' by simp
    qed
    then show ?thesis using a' b by (simp add: keeps_used_same)
  qed
  then show "arena_ok env a'" "claimed a' layout i" "keeps_used a a'" by simp_all
qed

subsection \<open>Writing\<close>

text \<open>An arena in which entry \<open>i\<close> became \<open>e\<close>, whose set alone was written.\<close>

lemma arena_ok_rewritten:
  assumes ok: "arena_ok env a" and c: "claimed a layout i"
    and e: "e_set e = Some s" "e_layout e = layout" "entry_ok env a' e"
    and s: "e_set (entries a ! i) = Some s \<or> nextSet a \<le> s" "s < nextSet a'" "nextSet a \<le> nextSet a'"
    and a': "entries a' = (entries a)[i := e]" "available a' = available a" "\<And>s'. s' \<noteq> s \<Longrightarrow> contents a' s' = contents a s'"
    and l: "\<forall>(h, j)\<in>set (lookup a'). j = i \<or> (\<exists>h. (h, j) \<in> set (lookup a))"
  shows "arena_ok env a'" "keeps_used a a'"
proof -
  have i: "i < length (entries a)" using c by (simp add: claimed_def)
  have other: "e_set (entries a ! j) \<noteq> Some s" if j: "j < length (entries a)" "j \<noteq> i" for j
  proof
    assume js: "e_set (entries a ! j) = Some s"
    then have "s < nextSet a" using entry_ok_below [OF arena_ok_entry [OF ok j(1)]] by simp
    then have "e_set (entries a ! i) = Some s" using s(1) by simp
    then show False using arena_ok_unique [OF ok j(1) i js] j(2) by simp
  qed
  have keep: "entry_ok env a' (entries a ! j)" if j: "j < length (entries a)" "j \<noteq> i" for j
    unfolding entry_ok_def
  proof (intro allI impI conjI)
    fix t assume t: "e_set (entries a ! j) = Some t"
    note o' = arena_ok_entry [OF ok j(1)]
    show "t < nextSet a'" using entry_ok_below [OF o' t] s(3) by simp
    have "contents a' t = contents a t" using other [OF j] t by (intro a'(3)) auto
    then show "\<exists>k\<in>{0, 1}. \<exists>vs. let info = stageInfo env (e_pso (entries a ! j)) k;
        own = own_bindings (pushesBuffers env info) info in
          e_layout (entries a ! j) = setLayout env (e_pso (entries a ! j)) k \<and> list_all2 (fits env info) own vs
          \<and> e_key (entries a ! j) = key_of env own vs \<and> e_resources (entries a ! j) = map value_id vs
          \<and> holds_values env (contents a' t) own vs"
      using o' t unfolding entry_ok_def by simp
  qed
  show "arena_ok env a'" unfolding arena_ok_def
  proof (intro conjI)
    show "\<forall>x\<in>set (entries a'). entry_ok env a' x"
    proof
      fix x assume "x \<in> set (entries a')"
      then obtain j where j: "j < length (entries a)" "x = (entries a)[i := e] ! j"
        unfolding a'(1) by (auto simp: in_set_conv_nth)
      then show "entry_ok env a' x" using e(3) keep [OF j(1)] by (cases "j = i") (auto simp: nth_list_update)
    qed
    show "\<forall>(h, j)\<in>set (lookup a'). j < length (entries a') \<and> e_set (entries a' ! j) \<noteq> None"
    proof (clarify, goal_cases)
      case (1 h j)
      then consider "j = i" | h' where "(h', j) \<in> set (lookup a)" using l by fastforce
      then show ?case
      proof cases
        case 2
        then show ?thesis using arena_ok_lookup [OF ok 2] e(1) i by (cases "j = i") (auto simp: a'(1))
      qed (use i e(1) in \<open>simp add: a'(1)\<close>)
    qed
    show "\<forall>j<length (entries a'). \<forall>k<length (entries a'). \<forall>t. e_set (entries a' ! j) = Some t \<and> e_set (entries a' ! k) = Some t \<longrightarrow> j = k"
      using arena_ok_unique [OF ok] other e(1) i by (auto simp: a'(1) nth_list_update split: if_splits)
    show "\<forall>m. \<forall>j\<in>set (available a' m). j < length (entries a') \<and> e_layout (entries a' ! j) = m"
      using arena_ok_available [OF ok] c e(2) by (auto simp: a'(1,2) nth_list_update claimed_def)
  qed
  show "keeps_used a a'" unfolding keeps_used_def
  proof (intro allI impI)
    fix t assume "in_use a t"
    then obtain j where j: "j < length (entries a)" "e_used (entries a ! j)" "e_set (entries a ! j) = Some t"
      by (auto simp: in_use_def in_set_conv_nth)
    have ji: "j \<noteq> i" using j(2) c by (auto simp: claimed_def)
    then have "t \<noteq> s" using other [OF j(1)] j(3) by auto
    moreover have "in_use a' t" unfolding in_use_def a'(1)
      using j ji by (intro bexI [of _ "entries a ! j"]) (auto simp: in_set_conv_nth intro!: exI [of _ j])
    ultimately show "in_use a' t \<and> contents a' t = contents a t" using a'(3) by simp
  qed
qed

text \<open>What a scan of the current bindings gives, as writing uses it.\<close>

definition scanned :: "render_env \<Rightarrow> nat \<Rightarrow> nat \<Rightarrow> stage_state \<Rightarrow> u64 list \<Rightarrow> u64 list \<Rightarrow> bound_value list \<Rightarrow> bool" where
  "scanned env p k st rs ks vs \<longleftrightarrow>
     (let info = stageInfo env p k; pushed = pushesBuffers env info in
      current_values env info st (own_bindings pushed info) vs \<and> ks = key_of env (own_bindings pushed info) vs
      \<and> sizes_ok env pushed st rs (bindings info))"

lemma write_entry_spec:
  assumes ok: "arena_ok env a" "env_ok env" and c: "claimed a (setLayout env p k) i" and k: "k \<in> {0, 1}"
    and info: "info = stageInfo env p k" "pushed = pushesBuffers env info"
    and sc: "scanned env p k st rs ks vs"
    and w: "write_entry env alloc info pushed (res st) rs (setLayout env p k) p ks i a = (Inr os, a')"
  shows "arena_ok env a' \<and> keeps_used a a'
    \<and> (\<exists>s. os = Some s \<and> in_use a' s \<and> holds_values env (contents a' s) (own_bindings pushed info) vs)"
proof -
  let ?old = "entries a ! i"
  let ?own = "own_bindings pushed info"
  have i: "i < length (entries a)" using c by (simp add: claimed_def)
  have vs: "current_values env info st ?own vs" "ks = key_of env ?own vs" "sizes_ok env pushed st rs (bindings info)"
    using sc info by (simp_all add: scanned_def Let_def)
  obtain b where b: "b = (if e_set ?old = None then a\<lparr>allocations := Suc (allocations a)\<rparr> else a\<lparr>setRewrites := Suc (setRewrites a)\<rparr>)"
    by simp
  obtain s a1 where s: "createDescriptorSets env alloc info pushed (res st) rs (e_set ?old) b = (Inr s, a1)"
    and os: "os = Some s"
    and a': "a' = a1\<lparr>entries := (entries a1)[i := \<lparr>e_set = Some s, e_layout = setLayout env p k, e_pso = p, e_key = ks,
             e_resources = concat (map (binding_resource info pushed (res st)) (bindings info)), e_used = True,
             e_hash = keyHash env (setLayout env p k) ks\<rparr>],
           lookup := (if e_set ?old = None then lookup a1 else remove1 (e_hash ?old, i) (lookup a1))
             @ [(keyHash env (setLayout env p k) ks, i)]\<rparr>"
    using w unfolding write_entry_def Let_def b [symmetric] by (elim and_then_InrE) auto
  note fr = createDescriptorSets_frame [OF s]
  have a1: "entries a1 = entries a" "lookup a1 = lookup a" "available a1 = available a" using fr(1) by (simp_all add: b)
  have new: "e_set ?old = Some s \<and> nextSet a1 = nextSet a \<or> s = nextSet a \<and> nextSet a1 = Suc s"
    using fr(3,4) by (cases "e_set ?old") (auto simp: b)
  have oldset: "e_set ?old = Some t \<Longrightarrow> t < nextSet a" for t
    using entry_ok_below [OF arena_ok_entry [OF ok(1) i]] by simp
  have holds: "holds_values env (contents a1 s) ?own vs"
    using createDescriptorSets_holds [OF s vs(3) _ vs(1)] ok(2) info by (simp add: env_ok_def)
  let ?e = "\<lparr>e_set = Some s, e_layout = setLayout env p k, e_pso = p, e_key = ks,
             e_resources = concat (map (binding_resource info pushed (res st)) (bindings info)), e_used = True,
             e_hash = keyHash env (setLayout env p k) ks\<rparr>"
  have e_ok: "entry_ok env a' ?e"
    using k new oldset holds vs current_values_fits [OF vs(1)] binding_resources_current [OF vs(1) [unfolded own_bindings_def]]
    unfolding entry_ok_def Let_def by (auto simp: a' info)
  have rw: "arena_ok env a'" "keeps_used a a'"
  proof -
    show "arena_ok env a'"
    proof (rule arena_ok_rewritten [OF ok(1) c, where e = ?e and s = s])
      show "\<forall>(h, j)\<in>set (lookup a'). j = i \<or> (\<exists>h. (h, j) \<in> set (lookup a))"
        by (auto simp: a' a1 split: if_splits dest: notin_set_remove1 [THEN contrapos_pp] set_remove1_subset [THEN subsetD])
    qed (use e_ok new oldset fr(2) in \<open>auto simp: a' a1 b\<close>)
    show "keeps_used a a'"
    proof (rule arena_ok_rewritten [OF ok(1) c, where e = ?e and s = s])
      show "\<forall>(h, j)\<in>set (lookup a'). j = i \<or> (\<exists>h. (h, j) \<in> set (lookup a))"
        by (auto simp: a' a1 split: if_splits dest: set_remove1_subset [THEN subsetD])
    qed (use e_ok new oldset fr(2) in \<open>auto simp: a' a1 b\<close>)
  qed
  have "in_use a' s" unfolding in_use_def using i by (intro bexI [of _ ?e]) (auto simp: a' a1 intro: set_update_memI)
  then show ?thesis using rw holds os by (auto simp: a')
qed

subsection \<open>Selecting\<close>

lemma marked_nth:
  "e_set ((xs[i := (xs ! i)\<lparr>e_used := True\<rparr>]) ! j) = e_set (xs ! j)"
  "e_layout ((xs[i := (xs ! i)\<lparr>e_used := True\<rparr>]) ! j) = e_layout (xs ! j)"
  "e_used ((xs[i := (xs ! i)\<lparr>e_used := True\<rparr>]) ! j) = (e_used (xs ! j) \<or> i = j \<and> i < length xs)"
proof -
  have "e_set ((xs[i := (xs ! i)\<lparr>e_used := True\<rparr>]) ! j) = e_set (xs ! j)
      \<and> e_layout ((xs[i := (xs ! i)\<lparr>e_used := True\<rparr>]) ! j) = e_layout (xs ! j)
      \<and> e_used ((xs[i := (xs ! i)\<lparr>e_used := True\<rparr>]) ! j) = (e_used (xs ! j) \<or> i = j \<and> i < length xs)"
  proof (cases "i < length xs")
    case True
    then show ?thesis by (cases "i = j") simp_all
  next
    case False
    then show ?thesis by (simp add: list_update_beyond)
  qed
  then show "e_set ((xs[i := (xs ! i)\<lparr>e_used := True\<rparr>]) ! j) = e_set (xs ! j)"
    "e_layout ((xs[i := (xs ! i)\<lparr>e_used := True\<rparr>]) ! j) = e_layout (xs ! j)"
    "e_used ((xs[i := (xs ! i)\<lparr>e_used := True\<rparr>]) ! j) = (e_used (xs ! j) \<or> i = j \<and> i < length xs)" by blast+
qed

lemma arena_ok_used:
  assumes "arena_ok env a" "i < length (entries a)"
  shows "arena_ok env (a\<lparr>hits := h, entries := (entries a)[i := (entries a ! i)\<lparr>e_used := True\<rparr>]\<rparr>)" (is "arena_ok env ?a")
  unfolding arena_ok_def
proof (intro conjI)
  have e: "entry_ok env ?a e = entry_ok env a e" "entry_ok env a (e\<lparr>e_used := True\<rparr>) = entry_ok env a e" for e
    by (simp_all add: entry_ok_def)
  show "\<forall>x\<in>set (entries ?a). entry_ok env ?a x"
    using assms arena_ok_entry [OF assms(1)] by (auto simp: e in_set_conv_nth nth_list_update)
  show "\<forall>(h, j)\<in>set (lookup ?a). j < length (entries ?a) \<and> e_set (entries ?a ! j) \<noteq> None"
  proof (clarify, goal_cases)
    case (1 h' j)
    then have "(h', j) \<in> set (lookup a)" by simp
    from arena_ok_lookup [OF assms(1) this] show ?case by (cases "j = i") simp_all
  qed
  show "\<forall>j<length (entries ?a). \<forall>k<length (entries ?a). \<forall>t. e_set (entries ?a ! j) = Some t \<and> e_set (entries ?a ! k) = Some t \<longrightarrow> j = k"
    using arena_ok_unique [OF assms(1)] by (auto simp: marked_nth)
  show "\<forall>m. \<forall>j\<in>set (available ?a m). j < length (entries ?a) \<and> e_layout (entries ?a ! j) = m"
    using arena_ok_available [OF assms(1)] by (auto simp: marked_nth)
qed

lemma select_set_spec:
  assumes ok: "arena_ok env a" "env_ok env" and k: "k \<in> {0, 1}"
    and info: "info = stageInfo env p k" "pushed = pushesBuffers env info"
    and sc: "scanned env p k st rs ks vs" and live: "\<forall>v\<in>set vs. live (value_id v)" "inj_on (address env) {x. live x}"
    and sel: "select_set env live alloc info pushed (res st) rs (setLayout env p k) p ks a = (Inr os, a')"
  shows "arena_ok env a' \<and> keeps_used a a'
    \<and> (\<exists>s. os = Some s \<and> in_use a' s \<and> holds_values env (contents a' s) (own_bindings pushed info) vs)"
proof (cases "find_entry live (setLayout env p k) p ks (keyHash env (setLayout env p k) ks) a")
  case None
  obtain i b where c: "claim_entry (setLayout env p k) p a = (i, b)" by fastforce
  have w: "write_entry env alloc info pushed (res st) rs (setLayout env p k) p ks i b = (Inr os, a')"
    using sel None c by (simp add: select_set_def)
  note cl = claim_entry_spec [OF ok(1) c]
  show ?thesis using write_entry_spec [OF cl(1) ok(2) cl(2) k info sc w] keeps_used_trans [OF cl(3)] by blast
next
  case (Some i)
  have vs: "current_values env info st (own_bindings pushed info) vs" "ks = key_of env (own_bindings pushed info) vs"
    using sc info by (simp_all add: scanned_def Let_def)
  note f = find_entry_spec [OF ok(1,2) Some k info(1) refl current_values_fits [OF vs(1) [unfolded info(2)]] vs(2) [unfolded info(2)] live]
  have a': "a' = a\<lparr>hits := Suc (hits a), entries := (entries a)[i := (entries a ! i)\<lparr>e_used := True\<rparr>]\<rparr>" "os = e_set (entries a ! i)"
    using sel Some by (simp_all add: select_set_def)
  obtain s where s: "e_set (entries a ! i) = Some s" "holds_values env (contents a s) (own_bindings pushed info) vs"
    using f(2) info(2) by blast
  have "arena_ok env a'" unfolding a'(1) by (rule arena_ok_used [OF ok(1) f(1)])
  moreover have "in_use a' s" unfolding in_use_def using f(1) s(1)
    by (intro bexI [of _ "(entries a ! i)\<lparr>e_used := True\<rparr>"]) (auto simp: a' intro: set_update_memI)
  moreover have "keeps_used a a'" unfolding keeps_used_def
  proof (intro allI impI conjI)
    fix t assume "in_use a t"
    then obtain j where j: "j < length (entries a)" "e_used (entries a ! j)" "e_set (entries a ! j) = Some t"
      by (auto simp: in_use_def in_set_conv_nth)
    have "entries a' ! j \<in> set (entries a') \<and> e_used (entries a' ! j) \<and> e_set (entries a' ! j) = Some t"
      using j nth_mem [of j "entries a'"] by (simp add: a' marked_nth)
    then show "in_use a' t" unfolding in_use_def by blast
    show "contents a' t = contents a t" by (simp add: a')
  qed
  ultimately show ?thesis using s a' by auto
qed

end
