(* ===== verification/DescriptorSafety.thy ===== *)
theory DescriptorSafety
  imports DescriptorSelection
begin

section \<open>The sets a stage binds\<close>

text \<open>
  The invariant of the encoder's bindings: the set bound for a stage holds the descriptors of the
  values it was selected for, which are the current ones unless a dirty bit says otherwise, and
  everything those values name is still retained. One stage of a successful \<open>updateBindings\<close>
  re-establishes it for the pipeline state of the draw.
\<close>

subsection \<open>Objects held by a table\<close>

definition held :: "FunctionResources \<Rightarrow> nat set" where
  "held r = {x. Some x \<in> fst ` set (buffers r)} \<union> {x. Some x \<in> set (textures r)} \<union> {x. Some x \<in> set (samplers r)}"

definition embedded :: "function_info \<Rightarrow> nat set" where
  "embedded info = {x. Some x \<in> set (embeddedSamplerStates info)}"

lemma heldI:
  "i < length (buffers r) \<Longrightarrow> buffers r ! i = (Some x, offset) \<Longrightarrow> x \<in> held r"
  "i < length (textures r) \<Longrightarrow> textures r ! i = Some x \<Longrightarrow> x \<in> held r"
  "i < length (samplers r) \<Longrightarrow> samplers r ! i = Some x \<Longrightarrow> x \<in> held r"
proof -
  show "i < length (buffers r) \<Longrightarrow> buffers r ! i = (Some x, offset) \<Longrightarrow> x \<in> held r"
    unfolding held_def by (metis (mono_tags, lifting) UnCI fst_conv image_eqI mem_Collect_eq nth_mem)
  show "i < length (textures r) \<Longrightarrow> textures r ! i = Some x \<Longrightarrow> x \<in> held r"
    unfolding held_def by (metis (mono_tags, lifting) UnCI mem_Collect_eq nth_mem)
  show "i < length (samplers r) \<Longrightarrow> samplers r ! i = Some x \<Longrightarrow> x \<in> held r"
    unfolding held_def by (metis (mono_tags, lifting) UnCI mem_Collect_eq nth_mem)
qed

lemma current_value_held:
  assumes "current_value env info st b = Some v"
  shows "value_id v \<in> held (res st) \<union> embedded info"
proof (cases "bind_type b")
  case Sampler_binding
  then obtain s where s: "bound_sampler info (res st) b = Inr (Some s)" "v = Samp_value s"
    using assms by (auto simp: current_value_def split: sum.splits)
  have "s \<in> held (res st) \<union> embedded info"
  proof (cases "bind_index b")
    case None
    then have "embeddedSamplerIndex b < length (embeddedSamplerStates info)" "embeddedSamplerStates info ! embeddedSamplerIndex b = Some s"
      using s(1) by (simp_all add: bound_sampler_def split: if_splits)
    then have "Some s \<in> set (embeddedSamplerStates info)" using nth_mem by metis
    then show ?thesis by (simp add: embedded_def)
  next
    case (Some i)
    then show ?thesis using s(1) heldI(3) [of i "res st" s] by (simp add: bound_sampler_def split: if_splits)
  qed
  then show ?thesis using s(2) by simp
qed (use assms heldI in \<open>auto simp: current_value_def split: option.splits prod.splits if_splits\<close>)

lemma current_values_held:
  assumes "current_values env info st bs vs" "v \<in> set vs"
  shows "value_id v \<in> held (res st) \<union> embedded info"
  using assms current_value_held unfolding current_values_def by (fastforce simp: list_all2_conv_all_nth in_set_conv_nth)

subsection \<open>Sizes a scan computes\<close>

definition inline_ok :: "stage_state \<Rightarrow> bool" where
  "inline_ok st \<longleftrightarrow> (\<forall>(a, offset, z)\<in>set (inlineRanges st). a \<noteq> 0 \<longrightarrow> z \<noteq> 0)"

lemma buffer_size_nonzero:
  assumes "inline_ok st" "env_ok env" "offset < bufferLength env x"
  shows "buffer_size env st i x offset \<noteq> 0"
proof (cases "i < length (inlineRanges st) \<and> fst (inlineRanges st ! i) = address env x \<and> fst (snd (inlineRanges st ! i)) = offset")
  case True
  obtain a o' z where r: "inlineRanges st ! i = (a, o', z)" by (metis surj_pair)
  then have "(a, o', z) \<in> set (inlineRanges st)" using True nth_mem by metis
  moreover have "a \<noteq> 0" using True r assms(2) by (auto simp: env_ok_def)
  ultimately have "z \<noteq> 0" using assms(1) unfolding inline_ok_def by blast
  then show ?thesis using True r by (simp add: buffer_size_def)
next
  case False
  have "bufferLength env x \<noteq> offset" using assms(3) by auto
  then show ?thesis using False unfolding buffer_size_def by (simp only: if_False) simp
qed

lemma scan_binding_size:
  assumes "scan_binding env info pushed u st b sc = Inr sc'" "bind_type b = Buffer_binding" "\<not> pushed"
    "inline_ok st" "env_ok env"
  shows "\<exists>i. bind_index b = Some i \<and> size_at env st i \<noteq> 0"
proof -
  obtain i x offset where i: "bind_index b = Some i" "buffers (res st) ! i = (Some x, offset)" "\<not> bufferLength env x \<le> offset"
    using assms(1-3) by (auto simp: scan_binding_def scan_buffer_def split: if_splits option.splits prod.splits)
  then show ?thesis using buffer_size_nonzero [OF assms(4,5), of offset x i] by (simp add: size_at_def)
qed

lemma scan_bindings_size:
  assumes "scan_bindings env info pushed u st bs sc = Inr sc'" "inline_ok st" "env_ok env"
    "b \<in> set bs" "bind_type b = Buffer_binding" "\<not> pushed"
  shows "\<exists>i. bind_index b = Some i \<and> size_at env st i \<noteq> 0"
  using assms(1,4)
proof (induction bs arbitrary: sc)
  case (Cons c bs)
  obtain sc1 where 1: "scan_binding env info pushed u st c sc = Inr sc1" "scan_bindings env info pushed u st bs sc1 = Inr sc'"
    using Cons.prems by (auto split: sum.splits)
  show ?case using Cons.IH [OF 1(2)] scan_binding_size [OF 1(1) _ assms(6,2,3)] assms(5) Cons.prems(2) by auto
qed simp

lemma scan_scanned:
  assumes s: "scan_bindings env info pushed True st (bindings info) (empty_scan st) = Inr sc"
    and info: "info = stageInfo env p k" "pushed = pushesBuffers env info" and ok: "inline_ok st" "env_ok env"
  obtains vs where "scanned env p k st (ranges sc) (key sc) vs"
    "stageOffsets sc = current_offsets env info st (own_bindings pushed info)"
    "ownSet sc \<longleftrightarrow> own_bindings pushed info \<noteq> []"
proof -
  have u: "scan_upto env info pushed st (bindings info) (empty_scan st) sc"
    by (rule scan_bindings_upto [OF s]) (simp add: empty_scan_def)
  obtain vs where vs: "current_values env info st (own_bindings pushed info) vs" "key sc = key_of env (own_bindings pushed info) vs"
    using u unfolding scan_upto_def own_bindings_def empty_scan_def by auto
  have sz: "sizes_ok env pushed st (ranges sc) (bindings info)" unfolding sizes_ok_def
  proof (intro conjI ballI allI impI)
    show l: "length (ranges sc) = length (buffers (res st))" using u unfolding scan_upto_def empty_scan_def by simp
    fix b i assume b: "b \<in> set (bindings info)" "own_binding pushed b \<and> bind_type b = Buffer_binding \<and> bind_index b = Some i \<and> i < length (ranges sc)"
    then show r: "ranges sc ! i = size_at env st i" using u l unfolding scan_upto_def empty_scan_def by auto
    have "\<not> pushed" using b(2) by (auto simp: own_binding_def)
    then show "ranges sc ! i \<noteq> 0" using scan_bindings_size [OF s ok b(1)] b(2) r by auto
  qed
  show thesis
  proof
    show "scanned env p k st (ranges sc) (key sc) vs" using vs sz info by (simp add: scanned_def Let_def)
    show "stageOffsets sc = current_offsets env info st (own_bindings pushed info)" "ownSet sc \<longleftrightarrow> own_bindings pushed info \<noteq> []"
      using u unfolding scan_upto_def own_bindings_def empty_scan_def by auto
  qed
qed

subsection \<open>The invariant\<close>

text \<open>The set and the offsets Vulkan has bound for a stage after the commands recorded.\<close>

definition bound_by :: "nat \<Rightarrow> bind_cmd \<Rightarrow> (nat option \<times> u64 list) option \<Rightarrow> (nat option \<times> u64 list) option" where
  "bound_by k c b = (case c of CmdBindDescriptorSet n s offsets \<Rightarrow> if n = 1 + k then Some (s, offsets) else b | _ \<Rightarrow> b)"

definition gpu_bound :: "nat \<Rightarrow> bind_state \<Rightarrow> (nat option \<times> u64 list) option" where
  "gpu_bound k bs = fold (bound_by k) (bindCommands bs) None"

lemma gpu_bound_emit: "gpu_bound k (emit c bs) = bound_by k c (gpu_bound k bs)"
  by (simp add: gpu_bound_def emit_def)

abbreviation own_of :: "render_env \<Rightarrow> nat \<Rightarrow> nat \<Rightarrow> binding list" where
  "own_of env p k \<equiv> own_bindings (pushesBuffers env (stageInfo env p k)) (stageInfo env p k)"

definition own_dirty :: "render_env \<Rightarrow> nat \<Rightarrow> nat \<Rightarrow> stage_state \<Rightarrow> bool" where
  "own_dirty env p k st \<longleftrightarrow> texturesDirty (dirty st) \<or> samplersDirty (dirty st)
     \<or> buffersDirty (dirty st) \<and> \<not> pushesBuffers env (stageInfo env p k)"

definition offsets_of :: "render_env \<Rightarrow> nat \<Rightarrow> nat \<Rightarrow> stage_state \<Rightarrow> u64 list" where
  "offsets_of env p k st = map snd (sort_key fst (current_offsets env (stageInfo env p k) st (own_of env p k)))"

definition set_ok :: "render_env \<Rightarrow> bind_state \<Rightarrow> nat \<Rightarrow> nat \<Rightarrow> nat \<Rightarrow> bound_value list \<Rightarrow> bool" where
  "set_ok env bs p k s vs \<longleftrightarrow>
     (let st = stages bs k in
      boundSet st = Some s \<and> in_use (descriptorArena bs) s \<and> list_all2 (fits env (stageInfo env p k)) (own_of env p k) vs
      \<and> descKey st = key_of env (own_of env p k) vs \<and> holds_values env (contents (descriptorArena bs) s) (own_of env p k) vs
      \<and> value_id ` set vs \<subseteq> held (boundRes st) \<union> embedded (stageInfo env p k)
      \<and> gpu_bound k bs = Some (Some s, dynOffsets st))"

definition is_current :: "render_env \<Rightarrow> bind_state \<Rightarrow> nat \<Rightarrow> nat \<Rightarrow> bound_value list \<Rightarrow> bool" where
  "is_current env bs p k vs \<longleftrightarrow> current_values env (stageInfo env p k) (stages bs k) (own_of env p k) vs
     \<and> dynOffsets (stages bs k) = offsets_of env p k (stages bs k)"

definition stage_ok :: "render_env \<Rightarrow> bind_state \<Rightarrow> nat \<Rightarrow> bool" where
  "stage_ok env bs k \<longleftrightarrow>
     (\<forall>p. descriptorPSO bs = Some p \<and> own_of env p k \<noteq> [] \<longrightarrow>
        (\<exists>s vs. set_ok env bs p k s vs \<and> (pso bs = Some p \<and> \<not> own_dirty env p k (stages bs k) \<longrightarrow> is_current env bs p k vs)))"

definition stage_done :: "render_env \<Rightarrow> bind_state \<Rightarrow> nat \<Rightarrow> nat \<Rightarrow> bool" where
  "stage_done env bs p k \<longleftrightarrow> own_of env p k \<noteq> [] \<longrightarrow> (\<exists>s vs. set_ok env bs p k s vs \<and> is_current env bs p k vs)"

text \<open>Tables only grow.\<close>

definition grown :: "stage_state \<Rightarrow> bool" where
  "grown st \<longleftrightarrow> length (buffers (boundRes st)) \<le> length (buffers (res st))
     \<and> length (textures (boundRes st)) \<le> length (textures (res st))
     \<and> length (samplers (boundRes st)) \<le> length (samplers (res st))"

definition bind_ok :: "render_env \<Rightarrow> bind_state \<Rightarrow> bool" where
  "bind_ok env bs \<longleftrightarrow> arena_ok env (descriptorArena bs)
     \<and> (\<forall>k\<in>{0, 1}. stage_ok env bs k \<and> grown (stages bs k) \<and> inline_ok (stages bs k)
          \<and> (pso bs \<noteq> descriptorPSO bs \<longrightarrow> dirty (stages bs k) = all_dirty))"

text \<open>The objects a draw may use exist, and existing objects have different addresses.\<close>

definition objects_alive :: "render_env \<Rightarrow> (nat \<Rightarrow> bool) \<Rightarrow> bind_state \<Rightarrow> bool" where
  "objects_alive env live bs \<longleftrightarrow> inj_on (address env) {x. live x}
     \<and> (\<forall>k\<in>{0, 1}. (\<forall>x\<in>held (res (stages bs k)) \<union> held (boundRes (stages bs k)). live x)
          \<and> (\<forall>p. pso bs = Some p \<or> descriptorPSO bs = Some p \<longrightarrow> (\<forall>x\<in>embedded (stageInfo env p k). live x)))"

lemma set_ok_frame:
  assumes "set_ok env bs p k s vs" "stages bs' k = stages bs k" "keeps_used (descriptorArena bs) (descriptorArena bs')"
    "gpu_bound k bs' = gpu_bound k bs"
  shows "set_ok env bs' p k s vs"
  using assms unfolding set_ok_def keeps_used_def Let_def by metis

lemma stage_done_frame:
  assumes "stage_done env bs p k" "stages bs' k = stages bs k" "keeps_used (descriptorArena bs) (descriptorArena bs')"
    "gpu_bound k bs' = gpu_bound k bs"
  shows "stage_done env bs' p k"
  using assms set_ok_frame unfolding stage_done_def is_current_def by metis

lemma stage_ok_frame:
  assumes "stage_ok env bs k" "stages bs' k = stages bs k" "keeps_used (descriptorArena bs) (descriptorArena bs')"
    "gpu_bound k bs' = gpu_bound k bs" "pso bs' = pso bs" "descriptorPSO bs' = descriptorPSO bs"
  shows "stage_ok env bs' k"
  using assms set_ok_frame unfolding stage_ok_def is_current_def by metis

subsection \<open>Retaining and tracking\<close>

lemma retainChanges_next: "retainChanges keep old new kept = (b, s) \<Longrightarrow> length old \<le> length new \<Longrightarrow> b = new"
  by (auto simp: retainChanges_def map_snd_zip_take min_def)

lemma put_stage_simps [simp]:
  "stages (put_stage k st bs) j = (if j = k then st else stages bs j)" "pso (put_stage k st bs) = pso bs"
  "descriptorPSO (put_stage k st bs) = descriptorPSO bs" "descriptorArena (put_stage k st bs) = descriptorArena bs"
  "bindCommands (put_stage k st bs) = bindCommands bs"
  by (simp_all add: put_stage_def)

lemma emit_simps [simp]:
  "stages (emit c bs) = stages bs" "pso (emit c bs) = pso bs" "descriptorPSO (emit c bs) = descriptorPSO bs"
  "descriptorArena (emit c bs) = descriptorArena bs"
  by (simp_all add: emit_def)

lemma retain_resources_spec:
  assumes "grown (stages bs k)"
  shows "\<exists>b. stages (retain_resources k bs) = (stages bs)(k := (stages bs k)\<lparr>boundRes := b\<rparr>)
      \<and> held b = held (res (stages bs k)) \<and> grown (stages (retain_resources k bs) k)"
    "pso (retain_resources k bs) = pso bs" "descriptorPSO (retain_resources k bs) = descriptorPSO bs"
    "descriptorArena (retain_resources k bs) = descriptorArena bs" "bindCommands (retain_resources k bs) = bindCommands bs"
proof -
  let ?st = "stages bs k"
  let ?same = "map fst (buffers (res ?st)) = map fst (buffers (boundRes ?st)) \<and> textures (res ?st) = textures (boundRes ?st)
      \<and> samplers (res ?st) = samplers (boundRes ?st)"
  have s: "?same \<Longrightarrow> held (boundRes ?st) = held (res ?st)" unfolding held_def by (simp flip: set_map)
  have g: "length (buffers (boundRes ?st)) \<le> length (buffers (res ?st))"
    "length (textures (boundRes ?st)) \<le> length (textures (res ?st))"
    "length (samplers (boundRes ?st)) \<le> length (samplers (res ?st))" using assms by (simp_all add: grown_def)
  show "\<exists>b. stages (retain_resources k bs) = (stages bs)(k := (stages bs k)\<lparr>boundRes := b\<rparr>)
      \<and> held b = held (res (stages bs k)) \<and> grown (stages (retain_resources k bs) k)"
  proof (cases ?same)
    case True
    then have "retain_resources k bs = bs" by (simp add: retain_resources_def Let_def)
    then show ?thesis using s [OF True] assms by (intro exI [of _ "boundRes ?st"]) simp
  next
    case False
    obtain b sb t stx s ss where
      r: "retainChanges (retain bs) (buffers (boundRes ?st)) (buffers (res ?st)) (buffers (saved bs)) = (b, sb)"
        "retainChanges (retain bs) (textures (boundRes ?st)) (textures (res ?st)) (textures (saved bs)) = (t, stx)"
        "retainChanges True (samplers (boundRes ?st)) (samplers (res ?st)) (samplers (saved bs)) = (s, ss)" by fastforce
    then have "b = buffers (res ?st)" "t = textures (res ?st)" "s = samplers (res ?st)" using g retainChanges_next by blast+
    then have "stages (retain_resources k bs) = (stages bs)(k := ?st\<lparr>boundRes := \<lparr>buffers = buffers (res ?st), textures = textures (res ?st),
        samplers = samplers (res ?st)\<rparr>\<rparr>)"
      using r unfolding retain_resources_def Let_def if_not_P [OF False] by (simp add: put_stage_def)
    then show ?thesis by (intro exI) (auto simp: held_def grown_def)
  qed
  show "pso (retain_resources k bs) = pso bs" "descriptorPSO (retain_resources k bs) = descriptorPSO bs"
    "descriptorArena (retain_resources k bs) = descriptorArena bs" "bindCommands (retain_resources k bs) = bindCommands bs"
    by (simp_all add: retain_resources_def Let_def put_stage_def split: prod.split)
qed

lemma track_bindings_spec:
  assumes "track_bindings r l bs = (Inr (), bs')"
  shows "stages bs' = stages bs \<and> pso bs' = pso bs \<and> descriptorPSO bs' = descriptorPSO bs
    \<and> descriptorArena bs' = descriptorArena bs \<and> bindCommands bs' = bindCommands bs"
  using assms
proof (induction l arbitrary: bs)
  case (Cons b l)
  have t: "stages (trackTexture x w bs) = stages bs \<and> pso (trackTexture x w bs) = pso bs
    \<and> descriptorPSO (trackTexture x w bs) = descriptorPSO bs \<and> descriptorArena (trackTexture x w bs) = descriptorArena bs
    \<and> bindCommands (trackTexture x w bs) = bindCommands bs" for x w
    by (simp add: trackTexture_def split: option.split)
  from Cons.prems have "track_bindings r l bs = (Inr (), bs') \<or> (\<exists>x w. track_bindings r l (trackTexture x w bs) = (Inr (), bs'))"
    by (auto split: binding_type.splits option.splits if_splits)
  then show ?case using Cons.IH t by metis
qed simp

end
