(* ===== verification/DescriptorUpdate.thy ===== *)
theory DescriptorUpdate
  imports DescriptorSafety
begin

section \<open>Updating the bindings\<close>

text \<open>
  One stage of \<open>updateBindings\<close> and then both: after a successful update each stage with descriptors
  of its own has bound a set that holds the current values, with the current offsets.
\<close>

subsection \<open>One stage\<close>

lemma current_value_cong:
  assumes "res st' = res st" "inlineRanges st' = inlineRanges st"
  shows "current_value env info st' b = current_value env info st b"
  unfolding current_value_def buffer_size_def assms ..

lemma current_values_cong:
  assumes "res st' = res st" "inlineRanges st' = inlineRanges st"
  shows "current_values env info st' bs vs = current_values env info st bs vs"
  unfolding current_values_def current_value_cong [OF assms] ..

lemma offsets_of_cong:
  assumes "res st' = res st"
  shows "offsets_of env p k st' = offsets_of env p k st"
  unfolding offsets_of_def current_offsets_def current_offset_def assms ..

lemma is_current_cong:
  "res (stages bs' k) = res (stages bs k) \<Longrightarrow> inlineRanges (stages bs' k) = inlineRanges (stages bs k)
    \<Longrightarrow> dynOffsets (stages bs' k) = dynOffsets (stages bs k) \<Longrightarrow> is_current env bs' p k vs = is_current env bs p k vs"
  unfolding is_current_def by (metis offsets_of_cong current_values_cong)

lemma gpu_bound_put [simp]:
  "gpu_bound j (put_stage k st bs) = gpu_bound j bs" "gpu_bound j (bs\<lparr>descriptorArena := a\<rparr>) = gpu_bound j bs"
  by (simp_all add: gpu_bound_def)

text \<open>Choosing the set: the one bound stays when its key is still the key.\<close>

lemma bind_set_spec:
  fixes bs :: bind_state and k :: nat
  defines "st \<equiv> stages bs k"
  assumes ok: "arena_ok env (descriptorArena bs)" "env_ok env" "stage_ok env bs k" and k: "k \<in> {0, 1}"
    and info: "info = stageInfo env p k" "pushed = pushesBuffers env info"
    and sc: "scanned env p k st (ranges sc) (key sc) vs" "own_of env p k \<noteq> []"
    and p: "pso bs = Some p" "psoChanged \<longleftrightarrow> descriptorPSO bs \<noteq> pso bs"
    and live: "inj_on (address env) {x. live x}" "\<forall>x\<in>held (res st) \<union> held (boundRes st) \<union> embedded info. live x"
    and b: "bind_set env live alloc info pushed psoChanged p k sc bs = (Inr (), bs')"
  obtains s where "stages bs' = (stages bs)(k := st\<lparr>dynOffsets := sorted_offsets sc, boundSet := Some s, descKey := key sc\<rparr>)"
    "arena_ok env (descriptorArena bs')" "keeps_used (descriptorArena bs) (descriptorArena bs')"
    "in_use (descriptorArena bs') s" "holds_values env (contents (descriptorArena bs') s) (own_of env p k) vs"
    "gpu_bound k bs' = Some (Some s, sorted_offsets sc)" "\<And>j. j \<noteq> k \<Longrightarrow> gpu_bound j bs' = gpu_bound j bs"
    "pso bs' = pso bs" "descriptorPSO bs' = descriptorPSO bs"
proof -
  let ?offs = "sorted_offsets sc"
  let ?own = "own_of env p k"
  let ?bind = "psoChanged \<or> length ?offs \<noteq> length (dynOffsets st) \<or> ?offs \<noteq> dynOffsets st"
  let ?bs = "put_stage k (st\<lparr>dynOffsets := ?offs\<rparr>) bs"
  have vs: "current_values env info st ?own vs" "key sc = key_of env ?own vs"
    using sc info by (simp_all add: scanned_def Let_def)
  have lv: "\<forall>v\<in>set vs. live (value_id v)" using current_values_held [OF vs(1)] live(2) by blast
  have same: "\<exists>s ws. set_ok env bs p k s ws" if "\<not> psoChanged"
    using ok(3) p that sc(2) unfolding stage_ok_def by auto
  show thesis
  proof (cases "boundSet st = None \<or> psoChanged \<or> key sc \<noteq> descKey st")
    case True
    obtain r a where r: "select_set env live alloc info pushed (res st) (ranges sc) (setLayout env p k) p (key sc) (descriptorArena bs) = (r, a)"
      by fastforce
    from b True r obtain os where os: "r = Inr os"
      by (cases r) (auto simp: bind_set_def Let_def st_def [symmetric])
    have sel: "arena_ok env a \<and> keeps_used (descriptorArena bs) a
      \<and> (\<exists>s. os = Some s \<and> in_use a s \<and> holds_values env (contents a s) ?own vs)"
      using select_set_spec [OF ok(1,2) k info sc(1) lv live(1) r [unfolded os]] info by simp
    then obtain s where s: "os = Some s" "in_use a s" "holds_values env (contents a s) ?own vs" by blast
    let ?bs1 = "put_stage k (st\<lparr>dynOffsets := ?offs, boundSet := Some s, descKey := key sc\<rparr>) (?bs\<lparr>descriptorArena := a\<rparr>)"
    have bs': "bs' = (if ?bind \<or> boundSet st \<noteq> Some s then emit (CmdBindDescriptorSet (1 + k) (Some s) ?offs) ?bs1 else ?bs1)"
      using b True r os s(1) by (auto simp: bind_set_def Let_def st_def [symmetric])
    have "gpu_bound k bs' = Some (Some s, ?offs)"
    proof (cases "?bind \<or> boundSet st \<noteq> Some s")
      case True
      then show ?thesis by (simp add: bs' gpu_bound_emit bound_by_def)
    next
      case False
      then obtain t ws where t: "set_ok env bs p k t ws" using same by blast
      then show ?thesis using False by (simp add: bs' set_ok_def Let_def st_def)
    qed
    moreover have "gpu_bound j bs' = gpu_bound j bs" if "j \<noteq> k" for j
      using that by (simp add: bs' gpu_bound_emit bound_by_def)
    moreover have "stages bs' = (stages bs)(k := st\<lparr>dynOffsets := ?offs, boundSet := Some s, descKey := key sc\<rparr>)"
      by (auto simp: bs' fun_eq_iff)
    moreover have "descriptorArena bs' = a" "pso bs' = pso bs" "descriptorPSO bs' = descriptorPSO bs" by (simp_all add: bs')
    ultimately show thesis using that [of s] sel s by simp
  next
    case False
    then obtain s ws where s: "set_ok env bs p k s ws" using same by blast
    have ws: "boundSet st = Some s" "in_use (descriptorArena bs) s" "list_all2 (fits env info) ?own ws" "descKey st = key_of env ?own ws"
      "holds_values env (contents (descriptorArena bs) s) ?own ws" "value_id ` set ws \<subseteq> held (boundRes st) \<union> embedded info"
      "gpu_bound k bs = Some (Some s, dynOffsets st)"
      using s info by (simp_all add: set_ok_def Let_def st_def)
    have "\<forall>w\<in>set ws. live (value_id w)" using ws(6) live(2) by blast
    then have "vs = ws"
      using key_of_inject [OF current_values_fits [OF vs(1)] ws(3) _ live(1) lv] vs(2) ws(4) False by simp
    have bs': "bs' = (if ?bind then emit (CmdBindDescriptorSet (1 + k) (Some s) ?offs) ?bs else ?bs)"
      using b False ws(1) by (auto simp: bind_set_def Let_def st_def [symmetric])
    have "gpu_bound k bs' = Some (Some s, ?offs)"
      using ws(7) False by (auto simp: bs' gpu_bound_emit bound_by_def)
    moreover have "gpu_bound j bs' = gpu_bound j bs" if "j \<noteq> k" for j
      using that by (simp add: bs' gpu_bound_emit bound_by_def)
    moreover have "stages bs' = (stages bs)(k := st\<lparr>dynOffsets := ?offs, boundSet := Some s, descKey := key sc\<rparr>)"
      using ws(1) False by (auto simp: bs' fun_eq_iff)
    moreover have "descriptorArena bs' = descriptorArena bs" "pso bs' = pso bs" "descriptorPSO bs' = descriptorPSO bs"
      by (simp_all add: bs')
    ultimately show thesis using that [of s] ok(1) ws(2,5) \<open>vs = ws\<close> by simp
  qed
qed

text \<open>What one stage leaves of the state.\<close>

definition stage_frame :: "nat \<Rightarrow> bind_state \<Rightarrow> bind_state \<Rightarrow> bool" where
  "stage_frame k bs bs' \<longleftrightarrow> (\<forall>j. j \<noteq> k \<longrightarrow> stages bs' j = stages bs j \<and> gpu_bound j bs' = gpu_bound j bs)
     \<and> res (stages bs' k) = res (stages bs k) \<and> inlineRanges (stages bs' k) = inlineRanges (stages bs k)
     \<and> grown (stages bs' k) \<and> held (boundRes (stages bs' k)) \<subseteq> held (res (stages bs k)) \<union> held (boundRes (stages bs k))
     \<and> keeps_used (descriptorArena bs) (descriptorArena bs') \<and> pso bs' = pso bs \<and> descriptorPSO bs' = descriptorPSO bs"

lemma gpu_bound_cong: "bindCommands bs' = bindCommands bs \<Longrightarrow> gpu_bound k bs' = gpu_bound k bs"
  by (simp add: gpu_bound_def)

text \<open>After the set is bound, the stage's tables are retained and its textures tracked.\<close>

lemma finish_stage:
  assumes g: "grown (stages bs k)" and t: "texturesChanged \<Longrightarrow> track_bindings r l (retain_resources k bs) = (Inr (), bs')"
    "\<not> texturesChanged \<Longrightarrow> bs' = retain_resources k bs"
  shows "\<exists>b. stages bs' = (stages bs)(k := (stages bs k)\<lparr>boundRes := b\<rparr>) \<and> held b = held (res (stages bs k)) \<and> grown (stages bs' k)"
    "pso bs' = pso bs" "descriptorPSO bs' = descriptorPSO bs" "descriptorArena bs' = descriptorArena bs" "gpu_bound j bs' = gpu_bound j bs"
proof -
  have e: "stages bs' = stages (retain_resources k bs)" "pso bs' = pso (retain_resources k bs)"
    "descriptorPSO bs' = descriptorPSO (retain_resources k bs)"
    "descriptorArena bs' = descriptorArena (retain_resources k bs)" "bindCommands bs' = bindCommands (retain_resources k bs)"
    using t track_bindings_spec by (cases texturesChanged, blast, blast)+
  show "\<exists>b. stages bs' = (stages bs)(k := (stages bs k)\<lparr>boundRes := b\<rparr>) \<and> held b = held (res (stages bs k)) \<and> grown (stages bs' k)"
    unfolding e(1) by (rule retain_resources_spec(1) [OF g])
  show "pso bs' = pso bs" "descriptorPSO bs' = descriptorPSO bs" "descriptorArena bs' = descriptorArena bs"
    unfolding e by (rule retain_resources_spec [OF g])+
  show "gpu_bound j bs' = gpu_bound j bs" unfolding gpu_bound_def e retain_resources_spec(5) [OF g] ..
qed

lemma update_stage_InrE:
  fixes bs :: bind_state and k :: nat
  defines "st \<equiv> stages bs k"
  assumes "update_stage env live alloc p psoChanged k bs = (Inr (), bs')"
  obtains (clean) "\<not> any_dirty (dirty st)" "bs' = bs"
  | (dirty) sc bs1 bs2 where "any_dirty (dirty st)"
    "scan_bindings env (stageInfo env p k) (pushesBuffers env (stageInfo env p k))
       (update_set (pushesBuffers env (stageInfo env p k)) psoChanged st) st (bindings (stageInfo env p k)) (empty_scan st) = Inr sc"
    "bs1 = (if pushWrites sc \<noteq> [] then emit (CmdPushDescriptorSet (pushWrites sc)) bs else bs)"
    "if ownSet sc then bind_set env live alloc (stageInfo env p k) (pushesBuffers env (stageInfo env p k)) psoChanged p k sc bs1 = (Inr (), bs2)
     else bs2 = bs1"
    "if psoChanged \<or> textures (res (stages bs2 k)) \<noteq> textures (boundRes (stages bs2 k))
     then track_bindings (res st) (bindings (stageInfo env p k)) (retain_resources k bs2) = (Inr (), bs')
     else bs' = retain_resources k bs2"
proof (cases "any_dirty (dirty st)")
  case False
  then have "bs' = bs" using assms(2) by (simp add: update_stage_def Let_def st_def)
  with False show thesis by (rule clean)
next
  case True
  let ?info = "stageInfo env p k"
  let ?pushed = "pushesBuffers env ?info"
  show thesis
  proof (cases "scan_bindings env ?info ?pushed (update_set ?pushed psoChanged st) st (bindings ?info) (empty_scan st)")
    case (Inl e)
    then show thesis using assms(2) True by (simp add: update_stage_def Let_def st_def)
  next
    case (Inr sc)
    let ?bs1 = "if pushWrites sc \<noteq> [] then emit (CmdPushDescriptorSet (pushWrites sc)) bs else bs"
    from assms(2) True Inr obtain u bs2 where
      2: "(if ownSet sc then bind_set env live alloc ?info ?pushed psoChanged p k sc ?bs1 else (Inr (), ?bs1)) = (Inr u, bs2)"
      and 3: "(let texturesChanged = (textures (res (stages bs2 k)) \<noteq> textures (boundRes (stages bs2 k)));
               bs = retain_resources k bs2
           in if psoChanged \<or> texturesChanged then track_bindings (res st) (bindings ?info) bs else (Inr (), bs)) = (Inr (), bs')"
      unfolding update_stage_def Let_def st_def by (auto elim!: and_then_InrE)
    show thesis using 2 3 by (intro dirty [OF True Inr refl, of bs2]) (auto simp: Let_def split: if_splits)
  qed
qed

end
