(* ===== verification/DescriptorProperties.thy ===== *)
theory DescriptorProperties
  imports DescriptorUpdate
begin

section \<open>Descriptors at every draw\<close>

text \<open>
  The steps of an encoder: the setters of both stages, inline data, and draws whose
  \<open>updateBindings\<close> succeeds. In every reachable state the invariant of the bindings holds, so each
  draw reads the resources that are set, and nothing recorded later changes what it reads.
\<close>

subsection \<open>A stage of a draw\<close>

lemma update_stage_spec:
  assumes ok: "arena_ok env (descriptorArena bs)" "env_ok env" "stage_ok env bs k" "grown (stages bs k)" "inline_ok (stages bs k)"
    and k: "k \<in> {0, 1}" and p: "pso bs = Some p" "psoChanged \<longleftrightarrow> descriptorPSO bs \<noteq> pso bs"
    and d: "psoChanged \<Longrightarrow> dirty (stages bs k) = all_dirty" and inj: "inj_on (address env) {x. live x}"
    and live: "\<forall>x\<in>held (res (stages bs k)) \<union> held (boundRes (stages bs k)) \<union> embedded (stageInfo env p k). live x"
    and u: "update_stage env live alloc p psoChanged k bs = (Inr (), bs')"
  shows "arena_ok env (descriptorArena bs') \<and> stage_done env bs' p k \<and> stage_frame k bs bs'"
  using u
proof (cases rule: update_stage_InrE)
  case clean
  then have "\<not> psoChanged" using d by (auto simp: any_dirty_def all_dirty_def)
  moreover have "\<not> own_dirty env p k (stages bs k)" using clean(1) by (simp add: own_dirty_def any_dirty_def)
  ultimately have "stage_done env bs p k" using ok(3) p unfolding stage_ok_def stage_done_def by auto
  then show ?thesis using clean(2) ok(1,4) by (auto simp: stage_frame_def)
next
  case (dirty sc bs1 bs2)
  let ?info = "stageInfo env p k"
  let ?pushed = "pushesBuffers env ?info"
  let ?st = "stages bs k"
  have b1: "stages bs1 = stages bs" "pso bs1 = pso bs" "descriptorPSO bs1 = descriptorPSO bs"
    "descriptorArena bs1 = descriptorArena bs" "gpu_bound j bs1 = gpu_bound j bs" for j
    unfolding dirty(3) by (simp_all add: gpu_bound_emit bound_by_def)
  have finish: ?thesis
    if g: "stages bs2 = (stages bs)(k := st2)" "res st2 = res ?st" "boundRes st2 = boundRes ?st" "inlineRanges st2 = inlineRanges ?st"
      and a: "arena_ok env (descriptorArena bs2)" "keeps_used (descriptorArena bs) (descriptorArena bs2)"
        "\<And>j. j \<noteq> k \<Longrightarrow> gpu_bound j bs2 = gpu_bound j bs" "pso bs2 = pso bs" "descriptorPSO bs2 = descriptorPSO bs"
      and c: "own_of env p k \<noteq> [] \<Longrightarrow> \<exists>s vs. boundSet st2 = Some s \<and> in_use (descriptorArena bs2) s
        \<and> descKey st2 = key_of env (own_of env p k) vs \<and> holds_values env (contents (descriptorArena bs2) s) (own_of env p k) vs
        \<and> gpu_bound k bs2 = Some (Some s, dynOffsets st2) \<and> current_values env ?info ?st (own_of env p k) vs
        \<and> dynOffsets st2 = offsets_of env p k ?st" for st2
  proof -
    have gr: "grown (stages bs2 k)" using ok(4) g by (simp add: grown_def)
    let ?tc = "psoChanged \<or> textures (res (stages bs2 k)) \<noteq> textures (boundRes (stages bs2 k))"
    note f = finish_stage [OF gr, where texturesChanged = ?tc and r = "res ?st" and l = "bindings ?info" and bs' = bs']
    have t1: "?tc \<Longrightarrow> track_bindings (res ?st) (bindings ?info) (retain_resources k bs2) = (Inr (), bs')"
      and t2: "\<not> ?tc \<Longrightarrow> bs' = retain_resources k bs2" using dirty(5) by simp_all
    obtain b where b: "stages bs' = (stages bs2)(k := (stages bs2 k)\<lparr>boundRes := b\<rparr>)" "held b = held (res (stages bs2 k))"
      "grown (stages bs' k)" using f(1) [OF t1 t2] by blast
    have f': "pso bs' = pso bs2" "descriptorPSO bs' = descriptorPSO bs2" "descriptorArena bs' = descriptorArena bs2"
      using f(2-4) t1 t2 by blast+
    have gb: "gpu_bound j bs' = gpu_bound j bs2" for j using f(5) t1 t2 by blast
    have st': "stages bs' k = st2\<lparr>boundRes := b\<rparr>" by (simp add: b(1) g(1))
    have h: "held b = held (res ?st)" by (simp add: b(2) g)
    have "stage_done env bs' p k" unfolding stage_done_def
    proof
      assume "own_of env p k \<noteq> []"
      then obtain s vs where s: "boundSet st2 = Some s" "in_use (descriptorArena bs2) s" "descKey st2 = key_of env (own_of env p k) vs"
        "holds_values env (contents (descriptorArena bs2) s) (own_of env p k) vs" "gpu_bound k bs2 = Some (Some s, dynOffsets st2)"
        "current_values env ?info ?st (own_of env p k) vs" "dynOffsets st2 = offsets_of env p k ?st" using c by blast
      have "set_ok env bs' p k s vs"
        unfolding set_ok_def Let_def st' gb f'(3)
        using s current_values_fits [OF s(6)] current_values_held [OF s(6)] h by auto
      moreover have "is_current env bs' p k vs"
        unfolding is_current_def st' using s(6,7) g(2,4)
        by (simp add: current_values_cong [of "st2\<lparr>boundRes := b\<rparr>" ?st] offsets_of_cong [of "st2\<lparr>boundRes := b\<rparr>" ?st])
      ultimately show "\<exists>s vs. set_ok env bs' p k s vs \<and> is_current env bs' p k vs" by blast
    qed
    moreover have "stage_frame k bs bs'"
      unfolding stage_frame_def f' gb st' using a(2-5) g b h by (auto simp: fun_eq_iff)
    ultimately show ?thesis using a(1) f'(3) by simp
  qed
  show ?thesis
  proof (cases "update_set ?pushed psoChanged ?st")
    case True
    have sb: "scan_bindings env ?info ?pushed True ?st (bindings ?info) (empty_scan ?st) = Inr sc" using dirty(2) True by simp
    obtain vs where vs: "scanned env p k ?st (ranges sc) (key sc) vs"
      "stageOffsets sc = current_offsets env ?info ?st (own_of env p k)" "ownSet sc \<longleftrightarrow> own_of env p k \<noteq> []"
      using scan_scanned [OF sb refl refl ok(5,2)] by metis
    have so: "sorted_offsets sc = offsets_of env p k ?st" by (simp add: sorted_offsets_def offsets_of_def vs(2))
    have cv: "current_values env ?info ?st (own_of env p k) vs" "key sc = key_of env (own_of env p k) vs"
      using vs(1) by (simp_all add: scanned_def Let_def)
    show ?thesis
    proof (cases "own_of env p k = []")
      case True
      then have "bs2 = bs1" using dirty(4) vs(3) by simp
      then show ?thesis using b1 ok(1) True by (intro finish [of ?st]) simp_all
    next
      case False
      have bsok: "stage_ok env bs1 k" by (rule stage_ok_frame [OF ok(3)]) (simp_all add: b1)
      have bind: "bind_set env live alloc ?info ?pushed psoChanged p k sc bs1 = (Inr (), bs2)"
        using dirty(4) vs(3) False by simp
      obtain s where s: "stages bs2 = (stages bs1)(k := (stages bs1 k)\<lparr>dynOffsets := sorted_offsets sc, boundSet := Some s, descKey := key sc\<rparr>)"
        "arena_ok env (descriptorArena bs2)" "keeps_used (descriptorArena bs1) (descriptorArena bs2)"
        "in_use (descriptorArena bs2) s" "holds_values env (contents (descriptorArena bs2) s) (own_of env p k) vs"
        "gpu_bound k bs2 = Some (Some s, sorted_offsets sc)" "\<And>j. j \<noteq> k \<Longrightarrow> gpu_bound j bs2 = gpu_bound j bs1"
        "pso bs2 = pso bs1" "descriptorPSO bs2 = descriptorPSO bs1"
        using bind_set_spec [OF _ ok(2) bsok k refl refl _ False _ _ inj _ bind] vs(1) p live ok(1) b1 by metis
      show ?thesis using s b1 cv so
        by (intro finish [of "?st\<lparr>dynOffsets := sorted_offsets sc, boundSet := Some s, descKey := key sc\<rparr>"]) auto
    qed
  next
    case False
    then have f: "?pushed" "\<not> psoChanged" "\<not> own_dirty env p k ?st" by (simp_all add: update_set_def own_dirty_def)
    have "ownSet sc = False" using scan_bindings_pushed dirty(2) False f(1) by (simp add: empty_scan_def)
    then have e: "bs2 = bs1" using dirty(4) by simp
    show ?thesis
    proof (rule finish [of ?st])
      assume "own_of env p k \<noteq> []"
      then obtain s vs where "set_ok env bs p k s vs" "is_current env bs p k vs"
        using ok(3) p f unfolding stage_ok_def by auto
      then show "\<exists>s vs. boundSet ?st = Some s \<and> in_use (descriptorArena bs2) s
        \<and> descKey ?st = key_of env (own_of env p k) vs \<and> holds_values env (contents (descriptorArena bs2) s) (own_of env p k) vs
        \<and> gpu_bound k bs2 = Some (Some s, dynOffsets ?st) \<and> current_values env ?info ?st (own_of env p k) vs
        \<and> dynOffsets ?st = offsets_of env p k ?st"
        unfolding set_ok_def is_current_def Let_def e b1 by blast
    qed (simp_all add: e b1 ok(1))
  qed
qed

subsection \<open>A draw\<close>

lemma bind_vertex_buffers_spec:
  assumes "bind_vertex_buffers env p bs = (Inr (), bs')"
  shows "stages bs' = stages bs" "pso bs' = pso bs" "descriptorPSO bs' = descriptorPSO bs"
    "descriptorArena bs' = descriptorArena bs" "gpu_bound k bs' = gpu_bound k bs"
  using assms by (auto simp: bind_vertex_buffers_def gpu_bound_def emit_def bound_by_def split: if_splits sum.splits)

text \<open>What a draw establishes, and what it keeps of the sets bound before.\<close>

definition drawn :: "render_env \<Rightarrow> bind_state \<Rightarrow> bool" where
  "drawn env bs \<longleftrightarrow> (\<exists>p. pso bs = Some p \<and> descriptorPSO bs = Some p \<and> (\<forall>k\<in>{0, 1}. stage_done env bs p k))"

lemma stage_done_ok: "descriptorPSO bs = Some p \<Longrightarrow> stage_done env bs p k \<Longrightarrow> stage_ok env bs k"
  by (auto simp: stage_ok_def stage_done_def)

lemma updateBindings_ok:
  assumes ok: "bind_ok env bs" "env_ok env" and live: "objects_alive env live bs" and p: "pso bs = Some p"
    and u: "updateBindings env live alloc bs = (Inr (), bs')"
  shows "bind_ok env bs' \<and> drawn env bs' \<and> keeps_used (descriptorArena bs) (descriptorArena bs') \<and> pso bs' = Some p"
proof (cases "\<not> any_dirty (dirty (stages bs 0)) \<and> \<not> any_dirty (dirty (stages bs 1))")
  case True
  then have bs': "bs' = bs" using u by (simp add: updateBindings_def)
  have d: "\<not> any_dirty (dirty (stages bs k))" if "k \<in> {0, 1}" for k using that True by auto
  then have same: "descriptorPSO bs = Some p" using ok(1) p by (fastforce simp: bind_ok_def any_dirty_def all_dirty_def)
  have "stage_done env bs p k" if k: "k \<in> {0, 1}" for k
  proof -
    have "\<not> own_dirty env p k (stages bs k)" using d [OF k] by (simp add: own_dirty_def any_dirty_def)
    moreover have "stage_ok env bs k" using ok(1) k unfolding bind_ok_def by blast
    ultimately show ?thesis using same p unfolding stage_ok_def stage_done_def by auto
  qed
  then show ?thesis using ok(1) p same bs' by (auto simp: drawn_def)
next
  case False
  let ?c = "descriptorPSO bs \<noteq> pso bs"
  from u False p obtain bs1 bs2 bs3 where
    1: "update_stage env live (alloc 0) p ?c 0 bs = (Inr (), bs1)" and 2: "update_stage env live (alloc 1) p ?c 1 bs1 = (Inr (), bs2)"
    and 3: "bind_vertex_buffers env p (bs2\<lparr>descriptorPSO := Some p\<rparr>) = (Inr (), bs3)" and bs': "bs' = mark_clean 1 (mark_clean 0 bs3)"
    by (auto simp: updateBindings_def Let_def elim!: and_then_InrE)
  have okk: "stage_ok env bs k" "grown (stages bs k)" "inline_ok (stages bs k)" "?c \<Longrightarrow> dirty (stages bs k) = all_dirty"
    "\<forall>x\<in>held (res (stages bs k)) \<union> held (boundRes (stages bs k)) \<union> embedded (stageInfo env p k). live x" if "k \<in> {0, 1}" for k
    using that ok(1) live p unfolding bind_ok_def objects_alive_def by auto
  have inj: "inj_on (address env) {x. live x}" using live by (simp add: objects_alive_def)
  have a: "arena_ok env (descriptorArena bs)" using ok(1) by (simp add: bind_ok_def)
  have s1: "arena_ok env (descriptorArena bs1)" "stage_done env bs1 p 0" "stage_frame 0 bs bs1"
    using update_stage_spec [OF a ok(2) okk(1-3) _ p refl okk(4) inj okk(5) 1] by simp_all
  have f1: "stages bs1 1 = stages bs 1" "gpu_bound 1 bs1 = gpu_bound 1 bs" "pso bs1 = pso bs" "descriptorPSO bs1 = descriptorPSO bs"
    "keeps_used (descriptorArena bs) (descriptorArena bs1)" "inlineRanges (stages bs1 0) = inlineRanges (stages bs 0)" "grown (stages bs1 0)"
    using s1(3) by (simp_all add: stage_frame_def)
  have k1: "stage_ok env bs1 1" using f1 by (intro stage_ok_frame [OF okk(1) [of 1]]) simp_all
  have s2: "arena_ok env (descriptorArena bs2)" "stage_done env bs2 p 1" "stage_frame 1 bs1 bs2"
    using update_stage_spec [OF s1(1) ok(2) k1 _ _ _ _ _ _ inj _ 2] f1 p okk(2-5) [of 1] by simp_all
  have f2: "stages bs2 0 = stages bs1 0" "gpu_bound 0 bs2 = gpu_bound 0 bs1" "pso bs2 = pso bs1"
    "keeps_used (descriptorArena bs1) (descriptorArena bs2)" "inlineRanges (stages bs2 1) = inlineRanges (stages bs1 1)" "grown (stages bs2 1)"
    using s2(3) by (simp_all add: stage_frame_def)
  have done0: "stage_done env bs2 p 0" using f2 by (intro stage_done_frame [OF s1(2)]) simp_all
  note v = bind_vertex_buffers_spec [OF 3]
  have st': "stages bs' k = (stages bs2 k)\<lparr>dirty := clean\<rparr>" if "k \<in> {0, 1}" for k
    using that by (auto simp: bs' mark_clean_def v)
  have ar: "descriptorArena bs' = descriptorArena bs2" "pso bs' = Some p" "descriptorPSO bs' = Some p" "gpu_bound k bs' = gpu_bound k bs2" for k
    using f1 f2 p v by (simp_all add: bs' mark_clean_def gpu_bound_def)
  have fin: "stage_done env bs' p k" if k: "k \<in> {0, 1}" for k
  proof -
    have b: "stage_done env bs2 p k" using k done0 s2(2) by auto
    have s: "set_ok env bs' p k s vs = set_ok env bs2 p k s vs" for s vs
      unfolding set_ok_def Let_def st' [OF k] ar by simp
    have i: "is_current env bs' p k vs = is_current env bs2 p k vs" for vs by (rule is_current_cong) (simp_all add: st' [OF k])
    show ?thesis using b unfolding stage_done_def s i .
  qed
  have "bind_ok env bs'" unfolding bind_ok_def
  proof (intro conjI ballI impI)
    show "arena_ok env (descriptorArena bs')" using s2(1) ar by simp
    fix k :: nat assume k: "k \<in> {0, 1}"
    show "stage_ok env bs' k" by (rule stage_done_ok [OF ar(3) fin [OF k]])
    show "grown (stages bs' k)" using k f1 f2 by (auto simp: st' [OF k] grown_def)
    show "inline_ok (stages bs' k)" using k f1 f2 okk(3) [of 0] okk(3) [of 1] by (auto simp: st' [OF k] inline_ok_def)
    show "dirty (stages bs' k) = all_dirty" if "pso bs' \<noteq> descriptorPSO bs'" using that ar by simp
  qed
  moreover have "drawn env bs'" using fin ar by (auto simp: drawn_def)
  moreover have "keeps_used (descriptorArena bs) (descriptorArena bs')" using keeps_used_trans [OF f1(5) f2(4)] ar by simp
  ultimately show ?thesis using ar(2) by blast
qed

end
