(* ===== verification/DescriptorTheorems.thy ===== *)
theory DescriptorTheorems
  imports DescriptorProperties EncoderCaches
begin

section \<open>What draws read\<close>

text \<open>
  The setters keep the invariant of the bindings, an encoder starts with an arena that satisfies
  it, and the theorems about draws follow for every encoder of a device.
\<close>

subsection \<open>Setters\<close>

lemma own_of_no_buffer:
  assumes "pushesBuffers env (stageInfo env p k)" "b \<in> set (own_of env p k)"
  shows "bind_type b \<noteq> Buffer_binding"
  using assms by (auto simp: own_bindings_def own_binding_def)

lemma current_value_no_buffer:
  assumes "bind_type b \<noteq> Buffer_binding" "textures r = textures (res st)" "samplers r = samplers (res st)" "res st' = r"
  shows "current_value env info st' b = current_value env info st b"
  using assms(1) unfolding current_value_def bound_sampler_def assms(2-4) by (cases "bind_type b") auto

text \<open>A change of one stage's resources that marks what it changes.\<close>

lemma bind_ok_set:
  assumes ok: "bind_ok env bs"
    and st': "stages bs' = (stages bs)(k := (stages bs k)\<lparr>res := r, dirty := d, inlineRanges := ir\<rparr>)"
    and same: "pso bs' = pso bs" "descriptorPSO bs' = descriptorPSO bs" "descriptorArena bs' = descriptorArena bs"
      "bindCommands bs' = bindCommands bs"
    and d: "texturesDirty d \<or> samplersDirty d \<or> buffersDirty d \<and> textures r = textures (res (stages bs k)) \<and> samplers r = samplers (res (stages bs k))"
      "texturesDirty (dirty (stages bs k)) \<Longrightarrow> texturesDirty d" "samplersDirty (dirty (stages bs k)) \<Longrightarrow> samplersDirty d"
      "buffersDirty (dirty (stages bs k)) \<Longrightarrow> buffersDirty d"
    and g: "length (buffers (res (stages bs k))) \<le> length (buffers r)" "length (textures (res (stages bs k))) \<le> length (textures r)"
      "length (samplers (res (stages bs k))) \<le> length (samplers r)"
    and ir: "inline_ok (stages bs k) \<Longrightarrow> inline_ok ((stages bs k)\<lparr>inlineRanges := ir\<rparr>)"
  shows "bind_ok env bs'"
proof -
  let ?st = "stages bs k"
  let ?st' = "?st\<lparr>res := r, dirty := d, inlineRanges := ir\<rparr>"
  have gb: "gpu_bound j bs' = gpu_bound j bs" for j by (simp add: gpu_bound_def same)
  have stage: "stage_ok env bs' j" if j: "stage_ok env bs j" for j
    unfolding stage_ok_def
  proof (intro allI impI)
    fix p assume p: "descriptorPSO bs' = Some p \<and> own_of env p j \<noteq> []"
    then obtain s vs where s: "set_ok env bs p j s vs"
      and cur: "pso bs = Some p \<and> \<not> own_dirty env p j (stages bs j) \<longrightarrow> is_current env bs p j vs"
      using j same(2) unfolding stage_ok_def by auto
    have "set_ok env bs' p j s vs" using s unfolding set_ok_def Let_def gb same st' by (cases "j = k") auto
    moreover have "is_current env bs' p j vs" if c: "pso bs' = Some p" "\<not> own_dirty env p j (stages bs' j)"
    proof (cases "j = k")
      case False
      then show ?thesis using cur c same(1) st' is_current_cong [of bs' j bs] by simp
    next
      case True
      then have n: "\<not> texturesDirty d" "\<not> samplersDirty d" "\<not> (buffersDirty d \<and> \<not> pushesBuffers env (stageInfo env p k))"
        using c(2) st' by (simp_all add: own_dirty_def)
      then have push: "pushesBuffers env (stageInfo env p k)" and r: "textures r = textures (res ?st)" "samplers r = samplers (res ?st)"
        using d(1) by auto
      have "\<not> own_dirty env p k ?st" using n d(2-4) push by (auto simp: own_dirty_def)
      then have i: "is_current env bs p k vs" using cur c(1) same(1) True by simp
      have v: "current_value env (stageInfo env p k) ?st' b = current_value env (stageInfo env p k) ?st b" if "b \<in> set (own_of env p k)" for b
        using own_of_no_buffer [OF push that] r by (intro current_value_no_buffer) simp_all
      then have "current_values env (stageInfo env p k) ?st' (own_of env p k) vs = current_values env (stageInfo env p k) ?st (own_of env p k) vs"
        unfolding current_values_def by (auto simp: list_all2_conv_all_nth)
      moreover have "current_offset env (stageInfo env p k) st b = []" if "b \<in> set (own_of env p k)" for b st
        using own_of_no_buffer [OF push that] by (simp add: current_offset_def split: binding_type.split)
      then have "current_offsets env (stageInfo env p k) st (own_of env p k) = []" for st
        unfolding current_offsets_def by simp
      then have "offsets_of env p k ?st' = offsets_of env p k ?st" by (simp add: offsets_of_def)
      ultimately show ?thesis using i True st' by (simp add: is_current_def)
    qed
    ultimately show "\<exists>s vs. set_ok env bs' p j s vs \<and> (pso bs' = Some p \<and> \<not> own_dirty env p j (stages bs' j) \<longrightarrow> is_current env bs' p j vs)"
      by blast
  qed
  have all: "d = all_dirty" if "dirty ?st = all_dirty" using that d(2-4) by (cases d) (simp add: all_dirty_def)
  show ?thesis unfolding bind_ok_def
  proof (intro conjI ballI impI)
    show "arena_ok env (descriptorArena bs')" using ok same(3) by (simp add: bind_ok_def)
    fix j :: nat assume "j \<in> {0, 1}"
    then have j: "stage_ok env bs j" "grown (stages bs j)" "inline_ok (stages bs j)" "pso bs \<noteq> descriptorPSO bs \<longrightarrow> dirty (stages bs j) = all_dirty"
      using ok unfolding bind_ok_def by blast+
    show "stage_ok env bs' j" by (rule stage [OF j(1)])
    show "grown (stages bs' j)" using j(2) g st' by (cases "j = k") (auto simp: grown_def)
    show "inline_ok (stages bs' j)" using j(3) ir st' by (cases "j = k") (auto simp: inline_ok_def)
    show "dirty (stages bs' j) = all_dirty" if "pso bs' \<noteq> descriptorPSO bs'" using that j(4) all st' same by (cases "j = k") auto
  qed
qed

lemma resized_length: "length xs \<le> length (resized z i xs)"
  by (simp add: resized_def)

lemma setBuffer_lengths:
  "length (buffers r) \<le> length (buffers (setBuffer b off i r))" "textures (setBuffer b off i r) = textures r"
  "samplers (setBuffer b off i r) = samplers r"
  by (simp_all add: setBuffer_def resized_def)

lemma bind_ok_put:
  assumes ok: "bind_ok env bs"
    and d: "texturesDirty d \<or> samplersDirty d \<or> buffersDirty d \<and> textures r = textures (res (stages bs k)) \<and> samplers r = samplers (res (stages bs k))"
      "texturesDirty (dirty (stages bs k)) \<Longrightarrow> texturesDirty d" "samplersDirty (dirty (stages bs k)) \<Longrightarrow> samplersDirty d"
      "buffersDirty (dirty (stages bs k)) \<Longrightarrow> buffersDirty d"
    and g: "length (buffers (res (stages bs k))) \<le> length (buffers r)" "length (textures (res (stages bs k))) \<le> length (textures r)"
      "length (samplers (res (stages bs k))) \<le> length (samplers r)"
  shows "bind_ok env (put_stage k ((stages bs k)\<lparr>res := r, dirty := d\<rparr>) bs)"
proof (rule bind_ok_set [OF ok])
  show "stages (put_stage k ((stages bs k)\<lparr>res := r, dirty := d\<rparr>) bs)
     = (stages bs)(k := (stages bs k)\<lparr>res := r, dirty := d, inlineRanges := inlineRanges (stages bs k)\<rparr>)"
    by (auto simp: put_stage_def)
qed (use d g in \<open>simp_all add: inline_ok_def\<close>)

lemma setStageBuffer_ok:
  assumes "bind_ok env bs"
  shows "bind_ok env (setStageBuffer k b offset i bs)"
proof (cases "i < length (buffers (res (stages bs k))) \<and> buffers (res (stages bs k)) ! i = (b, offset)")
  case False
  have "bind_ok env (put_stage k ((stages bs k)\<lparr>res := setBuffer b offset i (res (stages bs k)),
      dirty := (dirty (stages bs k))\<lparr>buffersDirty := True\<rparr>\<rparr>) bs)"
    by (rule bind_ok_put [OF assms]) (simp_all add: setBuffer_lengths)
  then show ?thesis unfolding setStageBuffer_def Let_def if_not_P [OF False] .
qed (simp add: setStageBuffer_def Let_def assms)

lemma setStageBufferOffset_ok:
  assumes "bind_ok env bs" "setStageBufferOffset k offset i bs = (r, bs')"
  shows "bind_ok env bs'"
proof (cases "i < length (buffers (res (stages bs k))) \<and> snd (buffers (res (stages bs k)) ! i) = offset")
  case True
  then show ?thesis using assms by (simp add: setStageBufferOffset_def Let_def)
next
  case False
  note u = assms(2) [unfolded setStageBufferOffset_def Let_def if_not_P [OF False]]
  show ?thesis
  proof (cases "setBufferOffset offset i (res (stages bs k))")
    case None
    then show ?thesis using u assms(1) by simp
  next
    case (Some q)
    then have "bs' = put_stage k ((stages bs k)\<lparr>res := q, dirty := (dirty (stages bs k))\<lparr>buffersDirty := True\<rparr>\<rparr>) bs"
      using u by simp
    moreover have "length (buffers q) = length (buffers (res (stages bs k)))" "textures q = textures (res (stages bs k))"
      "samplers q = samplers (res (stages bs k))" using Some by (auto simp: setBufferOffset_def split: if_splits)
    then have "bind_ok env (put_stage k ((stages bs k)\<lparr>res := q, dirty := (dirty (stages bs k))\<lparr>buffersDirty := True\<rparr>\<rparr>) bs)"
      by (intro bind_ok_put [OF assms(1)]) simp_all
    ultimately show ?thesis by simp
  qed
qed

lemma setStageSampler_ok:
  assumes "bind_ok env bs"
  shows "bind_ok env (setStageSampler k clamped s i bs)"
proof (cases "\<not> clamped \<and> i < length (samplers (res (stages bs k))) \<and> samplers (res (stages bs k)) ! i = s")
  case False
  have "bind_ok env (put_stage k ((stages bs k)\<lparr>res := setSamplerState s i (res (stages bs k)),
      dirty := (dirty (stages bs k))\<lparr>samplersDirty := True\<rparr>\<rparr>) bs)"
    by (rule bind_ok_put [OF assms]) (simp_all add: setSamplerState_def resized_length)
  then show ?thesis unfolding setStageSampler_def Let_def if_not_P [OF False] .
qed (simp add: setStageSampler_def Let_def assms)

lemma setStageTexture_ok:
  assumes "bind_ok env bs"
  shows "bind_ok env (setStageTexture k t i bs)"
proof (cases "i < length (textures (res (stages bs k))) \<and> textures (res (stages bs k)) ! i = t")
  case False
  have "bind_ok env (put_stage k ((stages bs k)\<lparr>res := setTexture t i (res (stages bs k)),
      dirty := (dirty (stages bs k))\<lparr>texturesDirty := True\<rparr>\<rparr>) bs)"
    by (rule bind_ok_put [OF assms]) (simp_all add: setTexture_def resized_length)
  then show ?thesis unfolding setStageTexture_def Let_def if_not_P [OF False] .
qed (simp add: setStageTexture_def Let_def assms)

lemma setRenderPipelineState_ok:
  assumes "bind_ok env bs"
  shows "bind_ok env (setRenderPipelineState p bs)"
proof (cases "pso bs = p")
  case False
  let ?bs = "setRenderPipelineState p bs"
  have st: "stages ?bs k = (stages bs k)\<lparr>dirty := all_dirty\<rparr>" if "k \<in> {0, 1}" for k
    using that False by (auto simp: setRenderPipelineState_def mark_dirty_def split: option.split)
  have same: "descriptorPSO ?bs = descriptorPSO bs" "descriptorArena ?bs = descriptorArena bs" "bindCommands ?bs = bindCommands bs"
    using False by (simp_all add: setRenderPipelineState_def mark_dirty_def split: option.split)
  have gb: "gpu_bound k ?bs = gpu_bound k bs" for k by (simp add: gpu_bound_def same)
  show ?thesis unfolding bind_ok_def
  proof (intro conjI ballI impI)
    show "arena_ok env (descriptorArena ?bs)" using assms same by (simp add: bind_ok_def)
    fix k :: nat assume k: "k \<in> {0, 1}"
    then have j: "stage_ok env bs k" "grown (stages bs k)" "inline_ok (stages bs k)" using assms unfolding bind_ok_def by blast+
    have "own_dirty env q k (stages ?bs k)" for q by (simp add: own_dirty_def st [OF k] all_dirty_def)
    moreover have "set_ok env ?bs q k s vs = set_ok env bs q k s vs" for q s vs
      unfolding set_ok_def Let_def gb same st [OF k] by simp
    ultimately show "stage_ok env ?bs k" using j(1) unfolding stage_ok_def same by blast
    show "grown (stages ?bs k)" using j(2) by (simp add: st [OF k] grown_def)
    show "inline_ok (stages ?bs k)" using j(3) by (simp add: st [OF k] inline_ok_def)
    show "dirty (stages ?bs k) = all_dirty" by (simp add: st [OF k])
  qed
qed (simp add: setRenderPipelineState_def assms)

text \<open>Where a slice goes: behind the last one if it fits, else at the start of a new buffer.\<close>

definition inline_slice :: "render_env \<Rightarrow> nat \<Rightarrow> nat \<Rightarrow> u64 \<Rightarrow> u64 \<Rightarrow> nat \<Rightarrow> bind_state \<Rightarrow> bind_state \<Rightarrow> bool" where
  "inline_slice env k x o' len' i bs bs' \<longleftrightarrow>
     stages bs' = (stages bs)(k := (stages bs k)\<lparr>res := setBuffer (Some x) o' i (res (stages bs k)),
        dirty := (dirty (stages bs k))\<lparr>buffersDirty := True\<rparr>,
        inlineRanges := (resized (0, 0, 0) i (inlineRanges (stages bs k)))[i := (address env x, o', len')]\<rparr>)
     \<and> pso bs' = pso bs \<and> descriptorPSO bs' = descriptorPSO bs \<and> descriptorArena bs' = descriptorArena bs
     \<and> bindCommands bs' = bindCommands bs \<and> inlineBuffer bs' = Some x \<and> inlineOffset bs' = o' + len'
     \<and> inlineWrites bs' = inlineWrites bs @ [(x, o', len')]"

lemma setInlineBytes_cases:
  assumes "setInlineBytes env fresh k nonNull len' i bs = (r, bs')"
  obtains (fail) "bs' = bs"
  | (fresh) x where "len' \<noteq> 0" "r = Inr ()" "fresh = Inr x" "inline_slice env k x 0 len' i bs bs'"
  | (fits) x where "len' \<noteq> 0" "r = Inr ()" "inlineBuffer bs = Some x"
    "align_up (inlineOffset bs) (inline_alignment env) \<le> bufferLength env x"
    "len' \<le> bufferLength env x - align_up (inlineOffset bs) (inline_alignment env)"
    "inline_slice env k x (align_up (inlineOffset bs) (inline_alignment env)) len' i bs bs'"
proof (cases "nonNull \<and> len' \<noteq> 0")
  case False
  then show thesis using assms fail by (auto simp: setInlineBytes_def)
next
  case True
  let ?o = "align_up (inlineOffset bs) (inline_alignment env)"
  let ?full = "case inlineBuffer bs of None \<Rightarrow> True | Some x \<Rightarrow> ?o > bufferLength env x \<or> len' > bufferLength env x - ?o"
  note u = assms [unfolded setInlineBytes_def Let_def]
  show thesis
  proof (cases ?full)
    case full: True
    show thesis
    proof (cases fresh)
      case (Inl e)
      then have "bs' = bs" using u True full by simp
      then show thesis by (rule fail)
    next
      case (Inr x)
      then have "r = Inr ()" "inline_slice env k x 0 len' i bs bs'"
        using u True full by (auto simp: inline_slice_def put_stage_def)
      then show thesis using True Inr local.fresh by blast
    qed
  next
    case full: False
    then obtain x where x: "inlineBuffer bs = Some x" "?o \<le> bufferLength env x" "len' \<le> bufferLength env x - ?o"
      by (auto split: option.splits)
    then have "r = Inr ()" "inline_slice env k x ?o len' i bs bs'"
      using u True full by (auto simp: inline_slice_def put_stage_def)
    then show thesis using True x local.fits by blast
  qed
qed

lemma inline_slice_ok:
  assumes "bind_ok env bs" "inline_slice env k x o' len' i bs bs'" "len' \<noteq> 0"
  shows "bind_ok env bs'"
proof (rule bind_ok_set [OF assms(1)])
  let ?l = "resized (0, 0, 0) i (inlineRanges (stages bs k))"
  show "stages bs' = (stages bs)(k := (stages bs k)\<lparr>res := setBuffer (Some x) o' i (res (stages bs k)),
        dirty := (dirty (stages bs k))\<lparr>buffersDirty := True\<rparr>, inlineRanges := ?l[i := (address env x, o', len')]\<rparr>)"
    using assms(2) by (simp add: inline_slice_def)
  assume ok: "inline_ok (stages bs k)"
  have "set (?l[i := (address env x, o', len')]) \<subseteq> insert (address env x, o', len') (set ?l)" by (rule set_update_subset_insert)
  moreover have "set ?l \<subseteq> insert (0, 0, 0) (set (inlineRanges (stages bs k)))" by (auto simp: resized_def)
  ultimately show "inline_ok ((stages bs k)\<lparr>inlineRanges := ?l[i := (address env x, o', len')]\<rparr>)"
    using ok assms(3) unfolding inline_ok_def by fastforce
qed (use assms(2) in \<open>auto simp: inline_slice_def setBuffer_lengths\<close>)

lemma setInlineBytes_ok:
  assumes "bind_ok env bs" "setInlineBytes env fresh k nonNull len' i bs = (r, bs')"
  shows "bind_ok env bs'"
  using assms(2) by (cases rule: setInlineBytes_cases) (use assms(1) inline_slice_ok in blast)+

end
