(* ===== verification/RenderEncoders.thy ===== *)
theory RenderEncoders
  imports DescriptorTheorems
begin

section \<open>Render encoders of a device\<close>

text \<open>
  The render encoders of a device over its life: each takes a descriptor arena when it begins,
  sets resources, draws, and gives the arena back when its command buffer has completed. The theorems:
  every draw reads what is set, and goes on reading it while the encoder records on; inline data
  never overlaps; a cached render target has the views of the attachments asked for.
\<close>

subsection \<open>Steps\<close>

text \<open>What \<open>newBuffer\<close> gives for inline data: a buffer this encoder has not used, large enough.\<close>

definition new_inline_buffer :: "render_env \<Rightarrow> u64 \<Rightarrow> bind_state \<Rightarrow> nat outcome \<Rightarrow> bool" where
  "new_inline_buffer env len' bs r \<longleftrightarrow>
     (case r of Inl e \<Rightarrow> True
      | Inr x \<Rightarrow> x \<notin> fst ` set (inlineWrites bs) \<and> inlineBuffer bs \<noteq> Some x \<and> max 65536 len' \<le> bufferLength env x)"

inductive enc_step :: "render_env \<Rightarrow> bind_state \<Rightarrow> bind_state \<Rightarrow> bool" for env where
  pipeline: "enc_step env bs (setRenderPipelineState p bs)"
| buffer: "k \<in> {0, 1} \<Longrightarrow> enc_step env bs (setStageBuffer k b offset i bs)"
| buffer_offset: "k \<in> {0, 1} \<Longrightarrow> setStageBufferOffset k offset i bs = (r, bs') \<Longrightarrow> enc_step env bs bs'"
| sampler: "k \<in> {0, 1} \<Longrightarrow> enc_step env bs (setStageSampler k clamped s i bs)"
| texture: "k \<in> {0, 1} \<Longrightarrow> enc_step env bs (setStageTexture k t i bs)"
| inline_bytes: "k \<in> {0, 1} \<Longrightarrow> new_inline_buffer env len' bs fresh
    \<Longrightarrow> setInlineBytes env fresh k nonNull len' i bs = (r, bs') \<Longrightarrow> enc_step env bs bs'"
| draw: "objects_alive env live bs \<Longrightarrow> pso bs \<noteq> None \<Longrightarrow> updateBindings env live alloc bs = (Inr (), bs') \<Longrightarrow> enc_step env bs bs'"

inductive enc_steps :: "render_env \<Rightarrow> bind_state \<Rightarrow> bind_state \<Rightarrow> bool" for env where
  refl: "enc_steps env bs bs"
| step: "enc_steps env bs bs1 \<Longrightarrow> enc_step env bs1 bs2 \<Longrightarrow> enc_steps env bs bs2"

text \<open>The cached arenas and the open encoders, each with its render target.\<close>

inductive dev_reach :: "render_env \<Rightarrow> arena_cache \<times> (nat \<times> bind_state) list \<Rightarrow> bool" for env where
  start: "dev_reach env ([], [])"
| begin_encoder: "dev_reach env (arenas, encs) \<Longrightarrow> open_arena targetLive target create arenas = (r, arenas')
    \<Longrightarrow> dev_reach env (arenas', case r of Inl e \<Rightarrow> encs | Inr a \<Rightarrow> encs @ [(target, new_bindings keep a)])"
| record_step: "dev_reach env (arenas, encs) \<Longrightarrow> i < length encs \<Longrightarrow> enc_step env (snd (encs ! i)) bs'
    \<Longrightarrow> dev_reach env (arenas, encs[i := (fst (encs ! i), bs')])"
| complete: "dev_reach env (arenas, encs) \<Longrightarrow> i < length encs
    \<Longrightarrow> dev_reach env (close_arena (fst (encs ! i)) (descriptorArena (snd (encs ! i))) arenas, take i encs @ drop (Suc i) encs)"

subsection \<open>The invariant holds in every encoder\<close>

lemma enc_step_ok:
  assumes "enc_step env bs bs'" "env_ok env" "bind_ok env bs"
  shows "bind_ok env bs' \<and> keeps_used (descriptorArena bs) (descriptorArena bs')"
  using assms(1)
proof cases
  case (pipeline p)
  moreover have "descriptorArena (setRenderPipelineState p bs) = descriptorArena bs"
    by (simp add: setRenderPipelineState_def mark_dirty_def split: option.split)
  ultimately show ?thesis using setRenderPipelineState_ok [OF assms(3)] by simp
next
  case (buffer k b offset i)
  moreover have "descriptorArena (setStageBuffer k b offset i bs) = descriptorArena bs" by (simp add: setStageBuffer_def Let_def)
  ultimately show ?thesis using setStageBuffer_ok [OF assms(3)] by simp
next
  case (buffer_offset k offset i r)
  then have "descriptorArena bs' = descriptorArena bs" by (auto simp: setStageBufferOffset_def Let_def split: if_splits option.splits)
  then show ?thesis using setStageBufferOffset_ok [OF assms(3) buffer_offset(2)] by simp
next
  case (sampler k clamped s i)
  moreover have "descriptorArena (setStageSampler k clamped s i bs) = descriptorArena bs" by (simp add: setStageSampler_def Let_def)
  ultimately show ?thesis using setStageSampler_ok [OF assms(3)] by simp
next
  case (texture k t i)
  moreover have "descriptorArena (setStageTexture k t i bs) = descriptorArena bs" by (simp add: setStageTexture_def Let_def)
  ultimately show ?thesis using setStageTexture_ok [OF assms(3)] by simp
next
  case (inline_bytes k len' fresh nonNull i r)
  have "descriptorArena bs' = descriptorArena bs"
    using inline_bytes(3) by (cases rule: setInlineBytes_cases) (auto simp: inline_slice_def)
  then show ?thesis using setInlineBytes_ok [OF assms(3) inline_bytes(3)] by simp
next
  case (draw live alloc)
  then obtain p where "pso bs = Some p" by blast
  then show ?thesis using updateBindings_ok [OF assms(3,2) draw(1) _ draw(3)] by simp
qed

lemma enc_steps_ok:
  assumes "enc_steps env bs bs'" "env_ok env" "bind_ok env bs"
  shows "bind_ok env bs' \<and> keeps_used (descriptorArena bs) (descriptorArena bs')"
  using assms(1,3)
proof induction
  case (step bs bs1 bs2)
  then show ?case using enc_step_ok [OF step.hyps(2) assms(2)] keeps_used_trans by blast
qed simp

lemma arena_ok_recycle:
  assumes "arena_ok env a"
  shows "arena_ok env (recycle a)" "arena_ok env ((recycle a)\<lparr>poolExists := True\<rparr>)"
proof -
  have e: "entry_ok env a' (x\<lparr>e_used := u\<rparr>) = entry_ok env a x"
    if "nextSet a' = nextSet a" "contents a' = contents a" for a' u x
    using that by (simp add: entry_ok_def)
  show "arena_ok env (recycle a)" "arena_ok env ((recycle a)\<lparr>poolExists := True\<rparr>)"
    using assms e arena_ok_lookup [OF assms] arena_ok_unique [OF assms] by (auto simp: arena_ok_def recycle_def)
qed

lemma bind_ok_new: "arena_ok env a \<Longrightarrow> bind_ok env (new_bindings keep a)"
  by (simp add: bind_ok_def new_bindings_def new_stage_def stage_ok_def grown_def inline_ok_def no_resources_def)

lemma open_arena_ok:
  assumes "\<forall>(t, a)\<in>set arenas. arena_ok env a" "open_arena targetLive target create arenas = (r, arenas')"
  shows "\<forall>(t, a)\<in>set arenas'. arena_ok env a" "r = Inr a \<Longrightarrow> arena_ok env a"
proof -
  let ?i = "pick_arena targetLive target arenas"
  have new: "arena_ok env (new_arena 0)" by (simp add: arena_ok_def new_arena_def)
  have find: "find_index P xs = Some i \<Longrightarrow> i < length xs" for P :: "nat \<times> arena \<Rightarrow> bool" and xs i
    by (induction xs arbitrary: i) (auto split: if_splits)
  have i: "i < length arenas" if "?i = Some i" for i
    using that find unfolding pick_arena_def by (fastforce split: option.splits if_splits)
  have arenas': "set arenas' \<subseteq> set arenas"
    using assms(2) by (auto simp: open_arena_def Let_def split: option.splits if_splits dest: in_set_takeD in_set_dropD)
  then show "\<forall>(t, a)\<in>set arenas'. arena_ok env a" using assms(1) by blast
  have picked: "arena_ok env (snd (arenas ! i))" if "?i = Some i" for i
    using assms(1) nth_mem [OF i [OF that]] by (metis case_prod_unfold)
  assume "r = Inr a"
  then obtain b where "a = recycle b \<or> a = (recycle b)\<lparr>poolExists := True\<rparr>" "b = new_arena 0 \<or> (\<exists>i. ?i = Some i \<and> b = snd (arenas ! i))"
    using assms(2) by (auto simp: open_arena_def Let_def split: option.splits if_splits)
  then show "arena_ok env a" using picked new arena_ok_recycle by metis
qed

lemma dev_reach_ok:
  assumes "dev_reach env s" "env_ok env"
  shows "(\<forall>(t, a)\<in>set (fst s). arena_ok env a) \<and> (\<forall>(t, bs)\<in>set (snd s). bind_ok env bs)"
  using assms(1)
proof induction
  case (begin_encoder arenas encs targetLive target create r arenas' keep)
  then have a: "\<forall>(t, a)\<in>set arenas. arena_ok env a" and b: "\<forall>(t, bs)\<in>set encs. bind_ok env bs" by simp_all
  show ?case using open_arena_ok [OF a begin_encoder.hyps(2)] b bind_ok_new by (cases r) auto
next
  case (record_step arenas encs i bs')
  have "(fst (encs ! i), snd (encs ! i)) \<in> set encs" using record_step.hyps(2) by simp
  then have "bind_ok env (snd (encs ! i))" using record_step.IH by fastforce
  then have "bind_ok env bs'" using enc_step_ok [OF record_step.hyps(3) assms(2)] by blast
  then show ?case using record_step.IH set_update_subset_insert [of encs i "(fst (encs ! i), bs')"] by auto
next
  case (complete arenas encs i)
  have "(fst (encs ! i), snd (encs ! i)) \<in> set encs" using complete.hyps(2) by simp
  then have "bind_ok env (snd (encs ! i))" using complete.IH by fastforce
  then have "arena_ok env (descriptorArena (snd (encs ! i)))" by (simp add: bind_ok_def)
  then show ?case using complete.IH by (auto simp: close_arena_def dest: in_set_takeD in_set_dropD)
qed simp

subsection \<open>Draws read what is set\<close>

text \<open>A set whose descriptors are those of the resources set for a stage.\<close>

definition reads_current :: "render_env \<Rightarrow> nat \<Rightarrow> nat \<Rightarrow> stage_state \<Rightarrow> (u64 \<Rightarrow> descriptor option) \<Rightarrow> bool" where
  "reads_current env p k st m \<longleftrightarrow>
     list_all (\<lambda>b. case current_value env (stageInfo env p k) st b of None \<Rightarrow> False | Some v \<Rightarrow> m (internalIndex b) = Some (desc_of env v))
       (own_of env p k)"

lemma stage_done_reads:
  assumes "stage_done env bs p k" "own_of env p k \<noteq> []"
  obtains s where "gpu_bound k bs = Some (Some s, offsets_of env p k (stages bs k))" "in_use (descriptorArena bs) s"
    "reads_current env p k (stages bs k) (contents (descriptorArena bs) s)"
proof -
  obtain s vs where s: "set_ok env bs p k s vs" "is_current env bs p k vs" using assms unfolding stage_done_def by blast
  show thesis
  proof
    show "gpu_bound k bs = Some (Some s, offsets_of env p k (stages bs k))" "in_use (descriptorArena bs) s"
      using s by (simp_all add: set_ok_def is_current_def Let_def)
    show "reads_current env p k (stages bs k) (contents (descriptorArena bs) s)"
      using s unfolding set_ok_def is_current_def Let_def reads_current_def current_values_def holds_values_def
      by (auto simp: list_all2_conv_all_nth list_all_length)
  qed
qed


definition example_info :: "nat \<Rightarrow> function_info" where
  "example_info k = \<lparr>functionType = (if k = 0 then Vertex_function else Fragment_function),
     bindings = (if k = 0 then [] else [\<lparr>bind_type = Texture_binding True, bind_index = Some 0, internalIndex = 3, embeddedSamplerIndex = 0\<rparr>]),
     embeddedSamplerStates = []\<rparr>"

definition example_env :: render_env where
  "example_env = \<lparr>address = (\<lambda>x. 4096), bufferLength = (\<lambda>x. 65536), bufferHandle = id, imageView = id, samplerHandle = id,
     stageInfo = (\<lambda>p. example_info), setLayout = (\<lambda>p k. k), vertexInputBindings = (\<lambda>p. []), layoutHash = of_nat,
     minStorageBufferOffsetAlignment = 16, minUniformBufferOffsetAlignment = 64, maxStorageBufferRange = 65536,
     maxDynamicStorageBuffers = 4, pushDescriptorsEnabled = False\<rparr>"

definition example_bindings :: bind_state where
  "example_bindings = setStageTexture 1 (Some 7) 0 (setRenderPipelineState (Some 0)
     (new_bindings True ((recycle (new_arena 0))\<lparr>poolExists := True\<rparr>)))"

definition example_draw :: "unit outcome \<times> bind_state" where
  "example_draw = updateBindings example_env (\<lambda>x. x = 7) (\<lambda>k. (VK_SUCCESS, VK_SUCCESS, VK_SUCCESS)) example_bindings"

lemma example_reach: "dev_reach example_env ([], [(5, example_bindings)])"
proof -
  let ?a = "(recycle (new_arena 0))\<lparr>poolExists := True\<rparr>"
  have "open_arena (\<lambda>t. True) 5 VK_SUCCESS [] = (Inr ?a, [])"
    by (simp add: open_arena_def pick_arena_def recycle_def new_arena_def)
  from begin_encoder [where keep = True, OF start this]
  have 1: "dev_reach example_env ([], [(5, new_bindings True ?a)])" by simp
  from record_step [OF 1, of 0, OF _ pipeline [of _ _ "Some 0"]]
  have 2: "dev_reach example_env ([], [(5, setRenderPipelineState (Some 0) (new_bindings True ?a))])" by simp
  from record_step [OF 2, of 0, OF _ texture [of 1 _ _ "Some 7" 0]]
  show ?thesis by (simp add: example_bindings_def)
qed

lemma example_draw_ok: "example_draw = (Inr (), snd example_draw)" "own_of example_env 0 1 \<noteq> []"
  "env_ok example_env" "objects_alive example_env (\<lambda>x. x = 7) example_bindings" "pso example_bindings = Some 0"
proof -
  note d = example_bindings_def setStageTexture_def setRenderPipelineState_def mark_dirty_def new_bindings_def new_stage_def
    no_resources_def setTexture_def resized_def put_stage_def all_dirty_def example_env_def example_info_def
  show p: "pso example_bindings = Some 0" by (simp add: d Let_def)
  show "own_of example_env 0 1 \<noteq> []" by (simp add: d own_bindings_def own_binding_def pushesBuffers_def)
  show "env_ok example_env" by (simp add: d env_ok_def numbers_distinct_def)
  show "objects_alive example_env (\<lambda>x. x = 7) example_bindings"
    by (simp add: d objects_alive_def held_def embedded_def Let_def inj_on_def)
  have "fst example_draw = Inr ()"
    by (simp add: example_draw_def d Let_def updateBindings_def update_stage_def bind_set_def select_set_def claim_entry_def write_entry_def
        createDescriptorSets_def allocate_set_def find_entry_def retain_resources_def retainChanges_def trackTexture_def
        mark_clean_def bind_vertex_buffers_def pool_full_def scan_binding_def empty_scan_def image_write_def emit_def recycle_def
        new_arena_def update_set_def any_dirty_def pushesBuffers_def isGraphicsStage_def sorted_offsets_def null_entry_def clean_def)
  then show "example_draw = (Inr (), snd example_draw)" by (metis prod.collapse)
qed


subsection \<open>Inline data\<close>

text \<open>The slices written so far and the place of the next one.\<close>

definition slice_before :: "nat \<times> u64 \<times> u64 \<Rightarrow> nat \<times> u64 \<times> u64 \<Rightarrow> bool" where
  "slice_before s t \<longleftrightarrow> fst s = fst t \<longrightarrow> unat (fst (snd s)) + unat (snd (snd s)) \<le> unat (fst (snd t))"

definition slice_ok :: "render_env \<Rightarrow> nat \<times> u64 \<times> u64 \<Rightarrow> bool" where
  "slice_ok env s \<longleftrightarrow> unat (inline_alignment env) dvd unat (fst (snd s))
     \<and> unat (fst (snd s)) + unat (snd (snd s)) \<le> unat (bufferLength env (fst s)) \<and> snd (snd s) \<noteq> 0"

definition inline_state_ok :: "render_env \<Rightarrow> bind_state \<Rightarrow> bool" where
  "inline_state_ok env bs \<longleftrightarrow> sorted_wrt slice_before (inlineWrites bs) \<and> list_all (slice_ok env) (inlineWrites bs)
     \<and> (\<forall>x. inlineBuffer bs = Some x \<longrightarrow> unat (inlineOffset bs) \<le> unat (bufferLength env x)
          \<and> (\<forall>(y, offset, len')\<in>set (inlineWrites bs). y = x \<longrightarrow> unat offset + unat len' \<le> unat (inlineOffset bs)))"

lemma inline_state_ok_same:
  "inline_state_ok env bs \<Longrightarrow> inlineWrites bs' = inlineWrites bs \<Longrightarrow> inlineBuffer bs' = inlineBuffer bs
    \<Longrightarrow> inlineOffset bs' = inlineOffset bs \<Longrightarrow> inline_state_ok env bs'"
  by (simp add: inline_state_ok_def)

text \<open>Adding a slice behind everything written to its buffer.\<close>

lemma inline_state_ok_slice:
  assumes "inline_state_ok env bs" "inline_slice env k x offset len' i bs bs'"
    and "slice_ok env (x, offset, len')" "\<forall>(y, o', l)\<in>set (inlineWrites bs). y = x \<longrightarrow> unat o' + unat l \<le> unat offset"
  shows "inline_state_ok env bs'"
proof -
  have w: "inlineWrites bs' = inlineWrites bs @ [(x, offset, len')]" "inlineBuffer bs' = Some x" "inlineOffset bs' = offset + len'"
    using assms(2) by (simp_all add: inline_slice_def)
  have "unat offset + unat len' \<le> unat (bufferLength env x)" using assms(3) by (simp add: slice_ok_def)
  moreover have "unat (bufferLength env x) < 2 ^ LENGTH(64)" by (rule unsigned_less)
  ultimately have "unat offset + unat len' < 2 ^ 64" by simp
  then have u: "unat (offset + len') = unat offset + unat len'" by (simp add: unat_word_ariths)
  have "sorted_wrt slice_before (inlineWrites bs')"
    using assms(1,4) unfolding w inline_state_ok_def by (fastforce simp: sorted_wrt_append slice_before_def)
  moreover have "list_all (slice_ok env) (inlineWrites bs')" using assms(1,3) by (simp add: w inline_state_ok_def)
  moreover have "unat o' + unat l \<le> unat (inlineOffset bs')" if "(x, o', l) \<in> set (inlineWrites bs')" for o' l
    using that assms(4) by (fastforce simp: w u)
  ultimately show ?thesis using assms(3) unfolding inline_state_ok_def by (auto simp: w u slice_ok_def)
qed

lemma setInlineBytes_state_ok:
  assumes "inline_state_ok env bs" "new_inline_buffer env len' bs fresh" "setInlineBytes env fresh k nonNull len' i bs = (r, bs')"
    and "inline_alignment env = 2 ^ m" "m < 63" "\<forall>x. bufferLength env x < 2 ^ 63"
  shows "inline_state_ok env bs'"
  using assms(3)
proof (cases rule: setInlineBytes_cases)
  case (fresh x)
  have x: "x \<notin> fst ` set (inlineWrites bs)" "max 65536 len' \<le> bufferLength env x"
    using assms(2) fresh(3) by (simp_all add: new_inline_buffer_def)
  have "len' \<le> bufferLength env x" using x(2) max.cobounded2 order_trans by blast
  then have "unat len' \<le> unat (bufferLength env x)" by (simp add: word_le_nat_alt)
  then show ?thesis using fresh(1) x(1) by (intro inline_state_ok_slice [OF assms(1) fresh(4)]) (force simp: slice_ok_def)+
next
  case (fits x)
  let ?o = "align_up (inlineOffset bs) (inline_alignment env)"
  have s: "unat (inlineOffset bs) \<le> unat (bufferLength env x)"
    "\<forall>(y, o', l)\<in>set (inlineWrites bs). y = x \<longrightarrow> unat o' + unat l \<le> unat (inlineOffset bs)"
    using assms(1) fits(3) by (auto simp: inline_state_ok_def)
  have "unat (bufferLength env x) < unat (2 ^ 63 :: u64)" using assms(6) word_less_nat_alt by blast
  then have "unat (bufferLength env x) < 2 ^ 63" by (simp add: unat_pow2)
  moreover have "(2 :: nat) ^ m \<le> 2 ^ 62" using assms(5) by (intro power_increasing) simp_all
  ultimately have "unat (inlineOffset bs) + 2 ^ m \<le> 2 ^ LENGTH(64)" using s(1) by simp
  then have o': "unat ?o = round_up (unat (inlineOffset bs)) (2 ^ m)"
    using unat_align_up [OF assms(4)] assms(5) by simp
  have al: "unat (inline_alignment env) = 2 ^ m" using assms(4,5) by (simp add: unat_pow2)
  have "unat (inlineOffset bs) \<le> unat ?o" unfolding o' by (rule round_up_bounds) simp
  then have behind: "\<forall>(y, o', l)\<in>set (inlineWrites bs). y = x \<longrightarrow> unat o' + unat l \<le> unat ?o" using s(2) by fastforce
  have "unat len' \<le> unat (bufferLength env x) - unat ?o"
    using fits(4,5) unat_sub [OF fits(4)] by (simp add: word_le_nat_alt)
  then have "unat ?o + unat len' \<le> unat (bufferLength env x)" using fits(4) by (simp add: word_le_nat_alt)
  then have "slice_ok env (x, ?o, len')" using fits(1) o' al by (simp add: slice_ok_def)
  then show ?thesis by (rule inline_state_ok_slice [OF assms(1) fits(6) _ behind])
qed (simp add: assms(1))

text \<open>Draws and the other setters leave the inline data alone.\<close>

definition same_inline :: "bind_state \<Rightarrow> bind_state \<Rightarrow> bool" where
  "same_inline bs bs' \<longleftrightarrow> inlineWrites bs' = inlineWrites bs \<and> inlineBuffer bs' = inlineBuffer bs \<and> inlineOffset bs' = inlineOffset bs"

lemma same_inline_simps [simp]:
  "same_inline bs bs" "same_inline bs0 (put_stage k st bs) = same_inline bs0 bs" "same_inline bs0 (emit c bs) = same_inline bs0 bs"
  "same_inline bs0 (mark_clean k bs) = same_inline bs0 bs" "same_inline bs0 (mark_dirty k bs) = same_inline bs0 bs"
  "same_inline bs0 (bs\<lparr>descriptorArena := a\<rparr>) = same_inline bs0 bs" "same_inline bs0 (bs\<lparr>descriptorPSO := p\<rparr>) = same_inline bs0 bs"
  "same_inline bs0 (bs\<lparr>vertexBuffers := v\<rparr>) = same_inline bs0 bs" "same_inline bs0 (bs\<lparr>pso := p\<rparr>) = same_inline bs0 bs"
  "same_inline bs0 (bs\<lparr>saved := r\<rparr>) = same_inline bs0 bs" "same_inline bs0 (bs\<lparr>savedPipelineStates := l\<rparr>) = same_inline bs0 bs"
  by (simp_all add: same_inline_def put_stage_def emit_def mark_clean_def mark_dirty_def)

lemma same_inline_trans: "same_inline a b \<Longrightarrow> same_inline b c \<Longrightarrow> same_inline a c"
  by (simp add: same_inline_def)

lemma same_inline_retain: "same_inline bs (retain_resources k bs)"
  by (simp add: retain_resources_def Let_def split: prod.split)

lemma same_inline_track: "track_bindings r l bs = (o', bs') \<Longrightarrow> same_inline bs bs'"
proof (induction l arbitrary: bs)
  case (Cons b l)
  have t: "same_inline bs (trackTexture x w bs)" for x w by (simp add: trackTexture_def same_inline_def split: option.split)
  from Cons.prems have "bs' = bs \<or> track_bindings r l bs = (o', bs') \<or> (\<exists>x w. track_bindings r l (trackTexture x w bs) = (o', bs'))"
    by (auto split: binding_type.splits option.splits if_splits)
  then show ?case using Cons.IH t same_inline_trans same_inline_simps(1) by metis
qed simp

lemma same_inline_bind_set:
  assumes "bind_set env live alloc info pushed c p k sc bs = (Inr (), bs')"
  shows "same_inline bs bs'"
proof -
  let ?st = "(stages bs k)\<lparr>dynOffsets := sorted_offsets sc\<rparr>"
  obtain r a where "select_set env live alloc info pushed (res ?st) (ranges sc) (setLayout env p k) p (key sc) (descriptorArena bs) = (r, a)"
    by fastforce
  then show ?thesis using assms by (cases r) (auto simp: bind_set_def Let_def split: if_splits)
qed

lemma same_inline_update_stage:
  assumes "update_stage env live alloc p c k bs = (Inr (), bs')"
  shows "same_inline bs bs'"
  using assms
proof (cases rule: update_stage_InrE)
  case (dirty sc bs1 bs2)
  have "same_inline bs bs1" by (simp add: dirty(3))
  moreover have "same_inline bs1 bs2" using dirty(4) same_inline_bind_set by (cases "ownSet sc") auto
  moreover have "same_inline bs2 bs'" using dirty(5) same_inline_retain same_inline_track same_inline_trans by (metis (full_types))
  ultimately show ?thesis using same_inline_trans by blast
qed simp

lemma same_inline_updateBindings:
  assumes "updateBindings env live alloc bs = (Inr (), bs')"
  shows "same_inline bs bs'"
proof (cases "(\<not> any_dirty (dirty (stages bs 0)) \<and> \<not> any_dirty (dirty (stages bs 1))) \<or> pso bs = None")
  case True
  then show ?thesis using assms by (auto simp: updateBindings_def split: if_splits)
next
  case False
  then obtain p where p: "pso bs = Some p" by auto
  let ?c = "descriptorPSO bs \<noteq> pso bs"
  from assms False p obtain bs1 bs2 bs3 where
    "update_stage env live (alloc 0) p ?c 0 bs = (Inr (), bs1)" "update_stage env live (alloc 1) p ?c 1 bs1 = (Inr (), bs2)"
    "bind_vertex_buffers env p (bs2\<lparr>descriptorPSO := Some p\<rparr>) = (Inr (), bs3)" "bs' = mark_clean 1 (mark_clean 0 bs3)"
    by (auto simp: updateBindings_def Let_def elim!: and_then_InrE)
  moreover from this(3) have "same_inline (bs2\<lparr>descriptorPSO := Some p\<rparr>) bs3"
    by (auto simp: bind_vertex_buffers_def split: if_splits sum.splits)
  then have "same_inline bs2 bs3" by (simp add: same_inline_def)
  ultimately show ?thesis using same_inline_update_stage same_inline_trans by (metis same_inline_simps(4))
qed

lemma enc_step_inline_ok:
  assumes "enc_step env bs bs'" "inline_state_ok env bs" "inline_alignment env = 2 ^ m" "m < 63" "\<forall>x. bufferLength env x < 2 ^ 63"
  shows "inline_state_ok env bs'"
proof -
  have k: "same_inline bs bs' \<Longrightarrow> ?thesis" using inline_state_ok_same [OF assms(2)] by (simp add: same_inline_def)
  show ?thesis using assms(1)
  proof cases
    case (inline_bytes k len' fresh nonNull i r)
    then show ?thesis using setInlineBytes_state_ok [OF assms(2) inline_bytes(2,3) assms(3-5)] by simp
  next
    case (pipeline p)
    then have "same_inline bs bs'" by (simp add: setRenderPipelineState_def split: option.split)
    then show ?thesis by (rule k)
  next
    case (buffer_offset k offset i r)
    then have "same_inline bs bs'" by (auto simp: setStageBufferOffset_def Let_def split: if_splits option.splits)
    then show ?thesis by (rule k)
  next
    case (draw live alloc)
    show ?thesis by (rule k [OF same_inline_updateBindings [OF draw(3)]])
  qed (rule k, simp add: setStageBuffer_def setStageSampler_def setStageTexture_def Let_def)+
qed

text \<open>
  Inline data does not overlap. In a render encoder that has recorded any steps from its
  beginning, the slices that \<open>setVertexBytes\<close> and \<open>setFragmentBytes\<close> copied their data to are not
  empty, aligned to the device's limits, inside their buffer, and two of them in the same buffer are
  disjoint, the later one behind the earlier: no call overwrites bytes that an earlier draw reads.
\<close>

theorem inline_slices_disjoint:
  assumes "enc_steps env (new_bindings keep a) bs" "inline_alignment env = 2 ^ m" "m < 63" "\<forall>x. bufferLength env x < 2 ^ 63"
    and "inlineWrites bs ! i = (x, offset, n)" "inlineWrites bs ! j = (x, offset', n')" "i < j" "j < length (inlineWrites bs)"
  shows "0 < n \<and> inline_alignment env dvd offset \<and> unat offset + unat n \<le> unat offset'
    \<and> unat offset' + unat n' \<le> unat (bufferLength env x)"
proof -
  have "inline_state_ok env bs" if "enc_steps env b0 bs" "inline_state_ok env b0" for b0
    using that
  proof induction
    case (step bs bs1 bs2)
    then show ?case using enc_step_inline_ok [OF step.hyps(2) _ assms(2-4)] by blast
  qed
  moreover have "inline_state_ok env (new_bindings keep a)" by (simp add: inline_state_ok_def new_bindings_def)
  ultimately have ok: "inline_state_ok env bs" using assms(1) by blast
  have "slice_before (x, offset, n) (x, offset', n')"
    using ok sorted_wrt_nth_less [of slice_before "inlineWrites bs" i j] assms(5-8) by (simp add: inline_state_ok_def)
  moreover have s: "slice_ok env (x, offset, n)" "slice_ok env (x, offset', n')"
    using ok assms(5-8) unfolding inline_state_ok_def list_all_length by (metis less_trans)+
  moreover obtain q where q: "unat offset = unat (inline_alignment env) * q" using s(1) by (auto simp: slice_ok_def)
  have "offset = of_nat (unat offset)" by simp
  then have "offset = inline_alignment env * of_nat q" unfolding q by simp
  ultimately show ?thesis by (auto simp: slice_before_def slice_ok_def word_neq_0_conv)
qed

definition example_inline :: bind_state where
  "example_inline = snd (setInlineBytes example_env (Inl Undefined) 1 True 8 2 (snd (setInlineBytes example_env (Inr 9) 0 True 20 1
     (new_bindings True (new_arena 0)))))"

theorem inline_slices_disjoint_witness:
  "inlineWrites example_inline = [(9, 0, 20), (9, 64, 8)] \<and> unat (0 :: u64) + unat (20 :: u64) \<le> unat (64 :: u64)"
proof -
  note d = setInlineBytes_def example_env_def new_bindings_def new_stage_def setBuffer_def resized_def no_resources_def
    put_stage_def align_up_def inline_alignment_def and_then_def
  let ?b = "new_bindings True (new_arena 0)"
  let ?c = "snd (setInlineBytes example_env (Inr 9) 0 True 20 1 ?b)"
  have 1: "setInlineBytes example_env (Inr 9) 0 True 20 1 ?b = (Inr (), ?c)" by (simp add: d Let_def)
  have w: "inlineWrites ?c = [(9, 0, 20)]" by (simp add: d Let_def)
  have 2: "setInlineBytes example_env (Inl Undefined) 1 True 8 2 ?c = (Inr (), example_inline)"
    by (simp add: example_inline_def d Let_def)
  have w2: "inlineWrites example_inline = [(9, 0, 20), (9, 64, 8)]" by (simp add: example_inline_def d Let_def)
  have s: "enc_steps example_env ?b example_inline"
    by (rule enc_steps.step [OF enc_steps.step [OF enc_steps.refl inline_bytes [OF _ _ 1]] inline_bytes [OF _ _ 2]])
      (simp_all add: new_inline_buffer_def d)
  have al: "inline_alignment example_env = 2 ^ 6" "\<forall>x. bufferLength example_env x < 2 ^ 63"
    by (simp_all add: inline_alignment_def example_env_def)
  show ?thesis using inline_slices_disjoint [OF s al(1) _ al(2), of 0 9 0 20 1 64 8] w2 by simp
qed

end
