(* ===== verification/Swapchain.thy ===== *)
theory Swapchain
  imports Prelude
begin

section \<open>Presenting drawables through a swapchain\<close>

text \<open>
  \<open>native/renderer/swapchain.cpp\<close> and \<open>swapchain.hpp\<close>: the presenter's resources, the choice of
  swapchain parameters in \<open>recreate\<close>, the copy and present of a frame, and construction and
  destruction. The answers of Vulkan are arguments; the calls whose order matters are recorded in
  \<open>calls\<close>. Timeline values are natural numbers, handles are numbers.
\<close>

subsection \<open>State\<close>

record surface_caps =
  minImageCount :: u32
  maxImageCount :: u32
  currentExtent :: "u32 \<times> u32"
  minImageExtent :: "u32 \<times> u32"
  maxImageExtent :: "u32 \<times> u32"
  transferDst :: bool
  opaqueAlpha :: bool
  identityTransform :: bool
  currentTransform :: nat

record swapchain_info =
  si_images :: u32
  si_format :: "nat \<times> nat"
  si_extent :: "u32 \<times> u32"
  si_transform :: nat
  si_mode :: nat
  si_old :: "nat option"

datatype swap_call =
    Wait_copies nat
  | Queue_wait_idle
  | Create_swapchain swapchain_info
  | Destroy_swapchain nat
  | Destroy_semaphore nat
  | Destroy_pool nat
  | Destroy_surface
  | Put_timeline
  | Acquire_image nat
  | Reset_pool nat
  | Blit_image nat "u32 \<times> u32" "u32 \<times> u32"
  | Submit_copy nat nat "(nat \<times> nat) list" "(nat \<times> nat) list"
  | On_completion nat
  | Present_image nat nat

record swap_frame =
  f_pool :: "nat option"
  f_acquired :: "nat option"
  f_done :: nat

record presenter =
  surface :: bool
  swapchain :: "nat option"
  extent :: "u32 \<times> u32"
  vsyncSet :: bool
  stale :: bool
  sformat :: "nat \<times> nat"
  smode :: nat
  images :: "nat list"
  rendered :: "nat list"
  frames :: "swap_frame list"
  nextFrame :: nat
  copiesSemaphore :: "nat option"
  submitted :: nat
  deviceRefs :: int
  calls :: "swap_call list"

definition call :: "swap_call \<Rightarrow> presenter \<Rightarrow> presenter" where
  "call c s = s\<lparr>calls := calls s @ [c]\<rparr>"

definition call_all :: "swap_call list \<Rightarrow> presenter \<Rightarrow> presenter" where
  "call_all cs s = s\<lparr>calls := calls s @ cs\<rparr>"

text \<open>A query of a list: the results of both calls, the count after the second, the values it wrote.
  After a failed second call the values are cleared and the vector is resized to the count.\<close>

type_synonym 'a query = "VkResult \<times> VkResult \<times> nat \<times> 'a list"

definition enumerateVk :: "'a \<Rightarrow> 'a query \<Rightarrow> 'a list" where
  "enumerateVk zero q =
     (let (first, second, count, written) = q in
      if first \<noteq> VK_SUCCESS then []
      else let values = (if second \<noteq> VK_SUCCESS then [] else written)
           in take count values @ replicate (count - length values) zero)"

subsection \<open>Waiting\<close>

definition waitForCopies :: "nat \<Rightarrow> presenter \<Rightarrow> presenter" where
  "waitForCopies v s = call (Wait_copies v) s"

definition waitIdle :: "presenter \<Rightarrow> presenter" where
  "waitIdle s = (if copiesSemaphore s = None then s else call Queue_wait_idle (waitForCopies (submitted s) s))"

subsection \<open>Construction and destruction\<close>

definition option_calls :: "(nat \<Rightarrow> swap_call) \<Rightarrow> nat option \<Rightarrow> swap_call list" where
  "option_calls f x = (case x of None \<Rightarrow> [] | Some n \<Rightarrow> [f n])"

definition empty_frame :: swap_frame where
  "empty_frame = \<lparr>f_pool = None, f_acquired = None, f_done = 0\<rparr>"

text \<open>The body of the destructor, then the destruction of the members: the device is released.\<close>

definition destroy_body :: "presenter \<Rightarrow> presenter" where
  "destroy_body s =
     (let s = waitIdle s;
          s = call_all (map Destroy_semaphore (rendered s)) s;
          s = call_all (concat (map (\<lambda>f. option_calls Destroy_semaphore (f_acquired f) @ option_calls Destroy_pool (f_pool f)) (frames s))) s;
          s = s\<lparr>frames := map (\<lambda>f. empty_frame) (frames s), rendered := []\<rparr>;
          s = call_all (option_calls Destroy_swapchain (swapchain s)) s;
          s = s\<lparr>swapchain := None\<rparr>;
          s = (if surface s then call Destroy_surface s else s)\<lparr>surface := False\<rparr>;
          s = (if copiesSemaphore s \<noteq> None then call Put_timeline s else s)
      in s\<lparr>copiesSemaphore := None\<rparr>)"

definition destroy_members :: "presenter \<Rightarrow> presenter" where
  "destroy_members s = s\<lparr>deviceRefs := deviceRefs s - 1\<rparr>"

definition destroy_presenter :: "presenter \<Rightarrow> presenter" where
  "destroy_presenter s = destroy_members (destroy_body s)"

text \<open>The answers for one frame: pool, command buffer, semaphore.\<close>

type_synonym frame_answer = "(VkResult \<times> nat) \<times> VkResult \<times> (VkResult \<times> nat)"

definition make_frame :: "nat \<Rightarrow> frame_answer \<Rightarrow> bool \<times> swap_frame" where
  "make_frame base ans =
     (let ((rp, pool), rc, (rs, semaphore)) = ans in
      if rp \<noteq> VK_SUCCESS then (False, empty_frame)
      else if rc \<noteq> VK_SUCCESS then (False, empty_frame\<lparr>f_pool := Some pool\<rparr>)
      else if rs \<noteq> VK_SUCCESS then (False, empty_frame\<lparr>f_pool := Some pool\<rparr>)
      else (True, \<lparr>f_pool = Some pool, f_acquired = Some semaphore, f_done = base\<rparr>))"

text \<open>The four frames; the first failure leaves the later ones empty.\<close>

fun make_frames :: "nat \<Rightarrow> frame_answer list \<Rightarrow> bool \<times> swap_frame list" where
  "make_frames base [] = (True, [])"
| "make_frames base (ans # rest) =
     (let (ok, f) = make_frame base ans in
      if ok then let (ok, fs) = make_frames base rest in (ok, f # fs)
      else (False, f # map (\<lambda>x. empty_frame) rest))"

definition blank_presenter :: presenter where
  "blank_presenter = \<lparr>surface = True, swapchain = None, extent = (0, 0), vsyncSet = False, stale = False, sformat = (0, 0), smode = 2,
     images = [], rendered = [], frames = replicate 4 empty_frame, nextFrame = 0, copiesSemaphore = None, submitted = 0,
     deviceRefs = 1, calls = []\<rparr>"

text \<open>
  The constructor. \<open>timeline\<close> is the semaphore of \<open>getTimelineSemaphore\<close> with its count. When a frame
  cannot be made, the code calls the destructor itself and then throws, which destroys the members
  again.
\<close>

definition construct_presenter :: "VkResult \<times> bool \<Rightarrow> nat \<times> nat \<Rightarrow> frame_answer list \<Rightarrow> unit outcome \<times> presenter" where
  "construct_presenter support timeline answers =
     (if fst support \<noteq> VK_SUCCESS \<or> \<not> snd support
      then (Inl (Throw ''The graphics queue cannot present to this surface''), destroy_members (call Destroy_surface blank_presenter))
      else let s = blank_presenter\<lparr>copiesSemaphore := Some (fst timeline), submitted := snd timeline\<rparr>;
               (ok, fs) = make_frames (submitted s) answers; s = s\<lparr>frames := fs\<rparr>
           in if ok then (Inr (), s)
              else (Inl (Throw ''Could not create presentation resources''), destroy_members (destroy_presenter s)))"

subsection \<open>Creating the swapchain\<close>

record recreate_env =
  capsResult :: VkResult
  caps :: surface_caps
  formatsQuery :: "(nat \<times> nat) query"
  modesQuery :: "nat query"
  createResult :: "VkResult \<times> nat"
  imagesQuery :: "nat query"
  semaphoreAnswers :: "(VkResult \<times> nat) list"

text \<open>Formats 44 and 37 are \<open>VK_FORMAT_B8G8R8A8_UNORM\<close> and \<open>VK_FORMAT_R8G8B8A8_UNORM\<close>, colour space 0
  is sRGB; present modes: immediate 0, mailbox 1, FIFO 2.\<close>

definition choose_format :: "(nat \<times> nat) list \<Rightarrow> nat \<times> nat" where
  "choose_format formats =
     (if (44, 0) \<in> set formats then (44, 0) else if (37, 0) \<in> set formats then (37, 0) else hd formats)"

definition choose_mode :: "bool \<Rightarrow> nat list \<Rightarrow> nat" where
  "choose_mode vsync modes = (if vsync then 2 else if 1 \<in> set modes then 1 else if 0 \<in> set modes then 0 else 2)"

definition clamp32 :: "u32 \<Rightarrow> u32 \<Rightarrow> u32 \<Rightarrow> u32" where
  "clamp32 v lo hi = (if v < lo then lo else if hi < v then hi else v)"

definition choose_extent :: "surface_caps \<Rightarrow> u32 \<times> u32 \<Rightarrow> u32 \<times> u32" where
  "choose_extent c wanted =
     (let e = (if fst (currentExtent c) \<noteq> 0xFFFFFFFF then currentExtent c else wanted)
      in (clamp32 (fst e) (fst (minImageExtent c)) (fst (maxImageExtent c)),
          clamp32 (snd e) (snd (minImageExtent c)) (snd (maxImageExtent c))))"

definition choose_images :: "surface_caps \<Rightarrow> u32" where
  "choose_images c = (let n = max (minImageCount c + 1) 3 in if maxImageCount c \<noteq> 0 then min n (maxImageCount c) else n)"

text \<open>A semaphore for every image; the first failure keeps those made.\<close>

fun make_semaphores :: "nat \<Rightarrow> (VkResult \<times> nat) list \<Rightarrow> bool \<times> nat list" where
  "make_semaphores 0 ans = (True, [])"
| "make_semaphores (Suc n) ans =
     (case ans of
        [] \<Rightarrow> (False, [])
      | (r, h) # rest \<Rightarrow> if r \<noteq> VK_SUCCESS then (False, [])
          else let (ok, hs) = make_semaphores n rest in (ok, h # hs))"

definition recreate :: "recreate_env \<Rightarrow> u32 \<times> u32 \<Rightarrow> bool \<Rightarrow> presenter \<Rightarrow> bool \<times> presenter" where
  "recreate env wanted vsync s =
     (if capsResult env \<noteq> VK_SUCCESS then (False, s)
      else if \<not> transferDst (caps env) then (False, s)
      else let formats = enumerateVk (0, 0) (formatsQuery env); modes = enumerateVk 0 (modesQuery env) in
        if formats = [] \<or> modes = [] then (False, s)
        else let ext = choose_extent (caps env) wanted in
          if fst ext = 0 \<or> snd ext = 0 then (False, s)
          else if \<not> opaqueAlpha (caps env) then (False, s)
          else let info = \<lparr>si_images = choose_images (caps env), si_format = choose_format formats, si_extent = ext,
                     si_transform = (if identityTransform (caps env) then 1 else currentTransform (caps env)),
                     si_mode = choose_mode vsync modes, si_old = swapchain s\<rparr>;
                   s = call (Create_swapchain info) (waitIdle s);
                   s = call_all (map Destroy_semaphore (rendered s) @ option_calls Destroy_swapchain (swapchain s)) s;
                   s = s\<lparr>rendered := [], images := [],
                         swapchain := (if fst (createResult env) = VK_SUCCESS then Some (snd (createResult env)) else None)\<rparr> in
            if swapchain s = None then (False, s)
            else let s = s\<lparr>images := enumerateVk 0 (imagesQuery env)\<rparr>;
                     (ok, hs) = make_semaphores (length (images s)) (semaphoreAnswers env);
                     s = s\<lparr>rendered := hs\<rparr> in
              if \<not> ok then (False, s)
              else (images s \<noteq> [], s\<lparr>extent := ext, sformat := si_format info, smode := si_mode info, vsyncSet := vsync, stale := False\<rparr>))"

subsection \<open>Presenting\<close>

datatype present_result = Presented | Dropped | Failed | Lost

text \<open>What the texture's synchronisation gives: its semaphore, the value to wait for, an extra binary
  semaphore, and the value to signal (0 for none).\<close>

record present_env =
  recreateEnv :: recreate_env
  acquireResult :: "VkResult \<times> nat"
  textureSize :: "u64 \<times> u64"
  textureSemaphore :: nat
  waitValue :: nat
  extraWait :: "nat option"
  signalValue :: nat
  submitResult :: VkResult
  presentResult :: VkResult

definition needs_recreate :: "u32 \<times> u32 \<Rightarrow> bool \<Rightarrow> presenter \<Rightarrow> bool" where
  "needs_recreate wanted vsync s \<longleftrightarrow>
     swapchain s = None \<or> stale s \<or> fst wanted \<noteq> fst (extent s) \<or> snd wanted \<noteq> snd (extent s) \<or> vsync \<noteq> vsyncSet s"

text \<open>The copy: record, submit, register the release. An index past the images or semaphores is
  undefined.\<close>

definition submit_copy :: "present_env \<Rightarrow> nat \<Rightarrow> nat \<Rightarrow> presenter \<Rightarrow> present_result option outcome \<times> presenter" where
  "submit_copy env i index s =
     (if index \<ge> length (images s) \<or> index \<ge> length (rendered s) then (Inl Undefined, s)
      else let s = call (Reset_pool i) s;
               s = call (Blit_image (images s ! index) (ucast (fst (textureSize env)), ucast (snd (textureSize env))) (extent s)) s;
               value = submitted s + 1;
               waits = (case f_acquired (frames s ! i) of None \<Rightarrow> [] | Some a \<Rightarrow> [(a, 0)]) @ [(textureSemaphore env, waitValue env)]
                 @ (case extraWait env of None \<Rightarrow> [] | Some e \<Rightarrow> [(e, 0)]);
               signals = [(rendered s ! index, 0)] @ (if signalValue env \<noteq> 0 then [(textureSemaphore env, signalValue env)] else [])
                 @ (case copiesSemaphore s of None \<Rightarrow> [] | Some c \<Rightarrow> [(c, value)]) in
        if submitResult env \<noteq> VK_SUCCESS then (Inr (Some Failed), s)
        else let s = call (Submit_copy i value waits signals) (s\<lparr>submitted := value\<rparr>);
                 s = s\<lparr>frames := (frames s)[i := (frames s ! i)\<lparr>f_done := value\<rparr>]\<rparr>
             in (Inr None, call (On_completion value) s))"

definition present :: "present_env \<Rightarrow> u32 \<times> u32 \<Rightarrow> bool \<Rightarrow> presenter \<Rightarrow> present_result outcome \<times> presenter" where
  "present env wanted vsync s =
     (let (ok, s) = (if needs_recreate wanted vsync s then recreate (recreateEnv env) wanted vsync s else (True, s)) in
      if \<not> ok then (Inr Failed, s)
      else let i = nextFrame s mod 4; s = s\<lparr>nextFrame := nextFrame s + 1\<rparr>;
               s = call (Acquire_image i) (waitForCopies (f_done (frames s ! i)) s);
               (acquired, index) = acquireResult env in
        if acquired = VK_ERROR_OUT_OF_DATE_KHR then (Inr Dropped, s\<lparr>stale := True\<rparr>)
        else if acquired = VK_TIMEOUT \<or> acquired = VK_NOT_READY then (Inr Dropped, s)
        else if acquired \<noteq> VK_SUCCESS \<and> acquired \<noteq> VK_SUBOPTIMAL_KHR then (Inr Failed, s)
        else let s = (if acquired = VK_SUBOPTIMAL_KHR then s\<lparr>stale := True\<rparr> else s) in
          and_then (submit_copy env i index s) (\<lambda>stop s.
            case stop of
              Some r \<Rightarrow> (Inr r, s)
            | None \<Rightarrow> (let s = call (Present_image (rendered s ! index) index) s in
                if presentResult env = VK_SUBOPTIMAL_KHR \<or> presentResult env = VK_ERROR_OUT_OF_DATE_KHR
                then (Inr Presented, s\<lparr>stale := True\<rparr>)
                else if presentResult env \<noteq> VK_SUCCESS then (Inr Lost, s)
                else (Inr Presented, s))))"

end
