(* ===== verification/SwapchainProperties.thy ===== *)
theory SwapchainProperties
  imports Swapchain
begin

section \<open>Properties of the presenter\<close>

text \<open>
  The swapchain's parameters stay within the surface's capabilities; nothing the GPU may still use is
  reset or destroyed; a drawable's release runs exactly when its copy was submitted; and what a
  failed creation of the swapchain leaves behind.
\<close>

subsection \<open>Parameters of the swapchain\<close>

definition caps_ok :: "surface_caps \<Rightarrow> bool" where
  "caps_ok c \<longleftrightarrow> minImageCount c < 0xFFFFFFFF \<and> (maxImageCount c \<noteq> 0 \<longrightarrow> minImageCount c \<le> maxImageCount c)
     \<and> fst (minImageExtent c) \<le> fst (maxImageExtent c) \<and> snd (minImageExtent c) \<le> snd (maxImageExtent c)"

lemma choose_images_bounds:
  assumes "caps_ok c"
  shows "minImageCount c \<le> choose_images c" "maxImageCount c \<noteq> 0 \<Longrightarrow> choose_images c \<le> maxImageCount c"
proof -
  have "unat (minImageCount c) < unat (0xFFFFFFFF :: u32)" using assms unfolding caps_ok_def word_less_nat_alt by blast
  then have "unat (minImageCount c) + 1 < 2 ^ LENGTH(32)" by simp
  then have "unat (minImageCount c + 1) = unat (minImageCount c) + 1" by (simp add: unat_word_ariths)
  then have "minImageCount c \<le> minImageCount c + 1" by (simp add: word_le_nat_alt)
  then have n: "minImageCount c \<le> max (minImageCount c + 1) 3" using max.coboundedI1 by blast
  then show "minImageCount c \<le> choose_images c"
    using assms by (auto simp: choose_images_def Let_def caps_ok_def)
  show "maxImageCount c \<noteq> 0 \<Longrightarrow> choose_images c \<le> maxImageCount c"
    by (simp add: choose_images_def Let_def)
qed

lemma clamp32_bounds: "lo \<le> hi \<Longrightarrow> lo \<le> clamp32 v lo hi \<and> clamp32 v lo hi \<le> hi"
  by (auto simp: clamp32_def)

lemma choose_format_in: "fs \<noteq> [] \<Longrightarrow> choose_format fs \<in> set fs"
  by (auto simp: choose_format_def)

lemma choose_mode_in: "2 \<in> set modes \<Longrightarrow> choose_mode vsync modes \<in> set modes"
  by (auto simp: choose_mode_def)

lemma make_semaphores_length: "make_semaphores n ans = (True, hs) \<Longrightarrow> length hs = n"
  by (induction n ans arbitrary: hs rule: make_semaphores.induct) (auto split: list.splits prod.splits if_splits)

lemma call_simps [simp]:
  "calls (call c s) = calls s @ [c]" "calls (call_all cs s) = calls s @ cs" "swapchain (call c s) = swapchain s"
  "swapchain (call_all cs s) = swapchain s" "images (call c s) = images s" "rendered (call c s) = rendered s"
  "frames (call c s) = frames s" "frames (call_all cs s) = frames s" "submitted (call c s) = submitted s" "submitted (call_all cs s) = submitted s"
  "nextFrame (call c s) = nextFrame s" "copiesSemaphore (call c s) = copiesSemaphore s" "copiesSemaphore (call_all cs s) = copiesSemaphore s"
  "extent (call c s) = extent s" "stale (call c s) = stale s" "vsyncSet (call c s) = vsyncSet s" "nextFrame (call_all cs s) = nextFrame s"
  "rendered (call_all cs s) = rendered s" "images (call_all cs s) = images s" "surface (call c s) = surface s" "surface (call_all cs s) = surface s"
  "deviceRefs (call c s) = deviceRefs s" "deviceRefs (call_all cs s) = deviceRefs s"
  by (simp_all add: call_def call_all_def)

text \<open>What \<open>recreate\<close> does, by how far it gets.\<close>

lemma recreate_cases:
  assumes "recreate env wanted vsync s = (ok, s')"
  obtains (early) "\<not> ok" "s' = s"
  | (created) info where
      "calls s' = calls s @ (if copiesSemaphore s = None then [] else [Wait_copies (submitted s), Queue_wait_idle])
         @ [Create_swapchain info] @ map Destroy_semaphore (rendered s) @ option_calls Destroy_swapchain (swapchain s)"
      "frames s' = frames s" "submitted s' = submitted s" "nextFrame s' = nextFrame s" "copiesSemaphore s' = copiesSemaphore s"
      "info = \<lparr>si_images = choose_images (caps env), si_format = choose_format (enumerateVk (0, 0) (formatsQuery env)),
         si_extent = choose_extent (caps env) wanted,
         si_transform = (if identityTransform (caps env) then 1 else currentTransform (caps env)),
         si_mode = choose_mode vsync (enumerateVk 0 (modesQuery env)), si_old = swapchain s\<rparr>"
      "enumerateVk (0, 0) (formatsQuery env) \<noteq> []" "fst (choose_extent (caps env) wanted) \<noteq> 0" "snd (choose_extent (caps env) wanted) \<noteq> 0"
      "ok \<Longrightarrow> images s' \<noteq> [] \<and> length (rendered s') = length (images s') \<and> swapchain s' \<noteq> None \<and> extent s' = si_extent info
         \<and> sformat s' = si_format info \<and> smode s' = si_mode info \<and> vsyncSet s' = vsync \<and> \<not> stale s'"
      "swapchain s' = (if fst (createResult env) = VK_SUCCESS then Some (snd (createResult env)) else None)"
proof -
  let ?formats = "enumerateVk (0, 0) (formatsQuery env)"
  let ?modes = "enumerateVk 0 (modesQuery env)"
  let ?ext = "choose_extent (caps env) wanted"
  show thesis
  proof (cases "capsResult env \<noteq> VK_SUCCESS \<or> \<not> transferDst (caps env) \<or> ?formats = [] \<or> ?modes = [] \<or> fst ?ext = 0 \<or> snd ?ext = 0
      \<or> \<not> opaqueAlpha (caps env)")
    case True
    then consider "capsResult env \<noteq> VK_SUCCESS" | "capsResult env = VK_SUCCESS" "\<not> transferDst (caps env)"
      | "capsResult env = VK_SUCCESS" "transferDst (caps env)" "?formats = [] \<or> ?modes = []"
      | "capsResult env = VK_SUCCESS" "transferDst (caps env)" "\<not> (?formats = [] \<or> ?modes = [])" "fst ?ext = 0 \<or> snd ?ext = 0"
      | "capsResult env = VK_SUCCESS" "transferDst (caps env)" "\<not> (?formats = [] \<or> ?modes = [])" "\<not> (fst ?ext = 0 \<or> snd ?ext = 0)"
        "\<not> opaqueAlpha (caps env)" by blast
    then have "(ok, s') = (False, s)"
      using assms by cases (simp_all add: recreate_def Let_def)
    then show thesis using early by simp
  next
    case False
    let ?info = "\<lparr>si_images = choose_images (caps env), si_format = choose_format ?formats, si_extent = ?ext,
         si_transform = (if identityTransform (caps env) then 1 else currentTransform (caps env)),
         si_mode = choose_mode vsync ?modes, si_old = swapchain s\<rparr>"
    let ?imgs = "enumerateVk 0 (imagesQuery env)"
    obtain okh hs where h: "make_semaphores (length ?imgs) (semaphoreAnswers env) = (okh, hs)" by fastforce
    show thesis
    proof (rule created [of ?info])
      show "ok \<Longrightarrow> images s' \<noteq> [] \<and> length (rendered s') = length (images s') \<and> swapchain s' \<noteq> None \<and> extent s' = si_extent ?info
         \<and> sformat s' = si_format ?info \<and> smode s' = si_mode ?info \<and> vsyncSet s' = vsync \<and> \<not> stale s'"
        using assms False h make_semaphores_length [of "length ?imgs" "semaphoreAnswers env" hs]
        by (auto simp: recreate_def Let_def waitIdle_def waitForCopies_def split: if_splits)
    qed (use assms False h in \<open>auto simp: recreate_def Let_def waitIdle_def waitForCopies_def split: if_splits\<close>)
  qed
qed


definition example_caps :: surface_caps where
  "example_caps = \<lparr>minImageCount = 2, maxImageCount = 8, currentExtent = (0xFFFFFFFF, 0xFFFFFFFF), minImageExtent = (1, 1),
     maxImageExtent = (4096, 4096), transferDst = True, opaqueAlpha = True, identityTransform = True, currentTransform = 2\<rparr>"

definition example_recreate :: "nat query \<Rightarrow> recreate_env" where
  "example_recreate imgs = \<lparr>capsResult = VK_SUCCESS, caps = example_caps,
     formatsQuery = (VK_SUCCESS, VK_SUCCESS, 2, [(37, 0), (44, 0)]), modesQuery = (VK_SUCCESS, VK_SUCCESS, 2, [2, 1]),
     createResult = (VK_SUCCESS, 50), imagesQuery = imgs,
     semaphoreAnswers = [(VK_SUCCESS, 61), (VK_SUCCESS, 62), (VK_SUCCESS, 63)]\<rparr>"

definition example_present :: "nat query \<Rightarrow> present_env" where
  "example_present imgs = \<lparr>recreateEnv = example_recreate imgs, acquireResult = (VK_SUCCESS, 0), textureSize = (640, 480),
     textureSemaphore = 7, waitValue = 3, extraWait = None, signalValue = 4, submitResult = VK_SUCCESS, presentResult = VK_SUCCESS\<rparr>"

definition example_presenter :: presenter where
  "example_presenter = snd (construct_presenter (VK_SUCCESS, True) (9, 20)
     (map (\<lambda>i. ((VK_SUCCESS, 100 + i), VK_SUCCESS, (VK_SUCCESS, 200 + i))) [0, 1, 2, 3]))"

lemmas example_present_simps = example_caps_def example_recreate_def example_present_def example_presenter_def construct_presenter_def
  blank_presenter_def make_frame_def empty_frame_def recreate_def enumerateVk_def choose_extent_def clamp32_def choose_format_def
  choose_mode_def choose_images_def waitIdle_def waitForCopies_def call_def call_all_def option_calls_def present_def submit_copy_def
  needs_recreate_def


subsection \<open>Order of the calls\<close>

text \<open>What the GPU may still be doing: copies not waited for, with their frames, and presents.\<close>

record gpu_work =
  unwaited :: "(nat \<times> nat) list"
  presenting :: bool

fun after_call :: "swap_call \<Rightarrow> gpu_work \<Rightarrow> gpu_work" where
  "after_call (Wait_copies v) w = w\<lparr>unwaited := filter (\<lambda>(i, n). v < n) (unwaited w)\<rparr>"
| "after_call Queue_wait_idle w = w\<lparr>presenting := False\<rparr>"
| "after_call (Submit_copy i v waits signals) w = w\<lparr>unwaited := unwaited w @ [(i, v)]\<rparr>"
| "after_call (Present_image sem index) w = w\<lparr>presenting := True\<rparr>"
| "after_call c w = w"

text \<open>A frame is reset only when its copies are done; anything is destroyed only when all work is done.\<close>

fun allowed :: "swap_call \<Rightarrow> gpu_work \<Rightarrow> bool" where
  "allowed (Reset_pool i) w = list_all (\<lambda>(j, n). j \<noteq> i) (unwaited w)"
| "allowed (Destroy_semaphore h) w = (unwaited w = [] \<and> \<not> presenting w)"
| "allowed (Destroy_swapchain h) w = (unwaited w = [] \<and> \<not> presenting w)"
| "allowed (Destroy_pool h) w = (unwaited w = [] \<and> \<not> presenting w)"
| "allowed c w = True"

fun safe_calls :: "gpu_work \<Rightarrow> swap_call list \<Rightarrow> bool" where
  "safe_calls w [] = True"
| "safe_calls w (c # cs) = (allowed c w \<and> safe_calls (after_call c w) cs)"

definition after_calls :: "gpu_work \<Rightarrow> swap_call list \<Rightarrow> gpu_work" where
  "after_calls w cs = fold after_call cs w"

definition no_work :: gpu_work where
  "no_work = \<lparr>unwaited = [], presenting = False\<rparr>"

lemma after_calls_simps [simp]:
  "after_calls w [] = w" "after_calls w (c # cs) = after_calls (after_call c w) cs"
  "after_calls w (cs @ ds) = after_calls (after_calls w cs) ds"
  by (simp_all add: after_calls_def)

lemma safe_calls_append [simp]: "safe_calls w (cs @ ds) \<longleftrightarrow> safe_calls w cs \<and> safe_calls (after_calls w cs) ds"
  by (induction cs arbitrary: w) simp_all

text \<open>Calls that only destroy change nothing and are allowed when no work is left.\<close>

definition destroys :: "swap_call list \<Rightarrow> bool" where
  "destroys cs \<longleftrightarrow> (\<forall>c\<in>set cs. case c of Destroy_semaphore h \<Rightarrow> True | Destroy_swapchain h \<Rightarrow> True | Destroy_pool h \<Rightarrow> True
      | Destroy_surface \<Rightarrow> True | Put_timeline \<Rightarrow> True | Create_swapchain i \<Rightarrow> True | _ \<Rightarrow> False)"

lemma destroys_safe: "destroys cs \<Longrightarrow> unwaited w = [] \<Longrightarrow> \<not> presenting w \<Longrightarrow> safe_calls w cs \<and> after_calls w cs = w"
proof (induction cs)
  case (Cons c cs)
  then have c: "allowed c w \<and> after_call c w = w" "destroys cs" by (cases c; auto simp: destroys_def)+
  then show ?case using Cons by simp
qed simp

lemma destroys_append [simp]: "destroys (cs @ ds) \<longleftrightarrow> destroys cs \<and> destroys ds"
  by (auto simp: destroys_def)

lemma destroys_options [simp]:
  "destroys (map Destroy_semaphore hs)" "destroys (option_calls Destroy_swapchain x)" "destroys [Create_swapchain i]" "destroys []"
  "destroys (concat (map (\<lambda>f. option_calls Destroy_semaphore (f_acquired f) @ option_calls Destroy_pool (f_pool f)) fs))"
  "destroys [Destroy_surface]" "destroys [Put_timeline]"
  by (auto simp: destroys_def option_calls_def split: option.splits)

text \<open>The invariant: unwaited copies are those a frame knows as its last, and none is beyond the last submitted.\<close>

definition swap_ok :: "presenter \<Rightarrow> bool" where
  "swap_ok s \<longleftrightarrow> safe_calls no_work (calls s) \<and> length (frames s) = 4 \<and> copiesSemaphore s \<noteq> None
     \<and> (\<forall>(i, v)\<in>set (unwaited (after_calls no_work (calls s))). v \<le> submitted s \<and> (i < 4 \<longrightarrow> v \<le> f_done (frames s ! i)))"

lemma swap_ok_idle:
  assumes "swap_ok s"
  shows "unwaited (after_calls no_work (calls s @ [Wait_copies (submitted s), Queue_wait_idle])) = []"
    "\<not> presenting (after_calls no_work (calls s @ [Wait_copies (submitted s), Queue_wait_idle]))"
  using assms by (auto simp: swap_ok_def filter_empty_conv not_less)

lemma recreate_ok:
  assumes "recreate env wanted vsync s = (ok, s')" "swap_ok s"
  shows "swap_ok s'"
  using assms(1)
proof (cases rule: recreate_cases)
  case (created info)
  obtain c where c: "copiesSemaphore s = Some c" using assms(2) by (auto simp: swap_ok_def)
  let ?d = "[Create_swapchain info] @ map Destroy_semaphore (rendered s) @ option_calls Destroy_swapchain (swapchain s)"
  let ?w = "after_calls no_work (calls s @ [Wait_copies (submitted s), Queue_wait_idle])"
  have calls': "calls s' = (calls s @ [Wait_copies (submitted s), Queue_wait_idle]) @ ?d" using created(1) c by simp
  have d: "safe_calls ?w ?d \<and> after_calls ?w ?d = ?w"
    by (rule destroys_safe [OF _ swap_ok_idle [OF assms(2)]]) (simp only: destroys_append destroys_options)
  have "safe_calls no_work (calls s')" unfolding calls' safe_calls_append [of no_work _ ?d] using d assms(2) by (simp add: swap_ok_def)
  moreover have "after_calls no_work (calls s') = ?w" unfolding calls' after_calls_simps(3) [of no_work _ ?d] using d by simp
  then have "unwaited (after_calls no_work (calls s')) = []" using swap_ok_idle(1) [OF assms(2)] by simp
  ultimately show ?thesis using assms(2) created(2-5) by (simp add: swap_ok_def)
qed (simp add: assms(2))

text \<open>Waiting for a frame's last copy and beginning its next one.\<close>

lemma wait_frame_ok:
  assumes "swap_ok s" "i < 4" "s' = call (Acquire_image i) (waitForCopies (f_done (frames s ! i)) s)"
  shows "swap_ok s'" "allowed (Reset_pool i) (after_calls no_work (calls s'))"
proof -
  have u: "unwaited (after_calls no_work (calls s')) = filter (\<lambda>(j, v). f_done (frames s ! i) < v) (unwaited (after_calls no_work (calls s)))"
    by (simp add: assms(3) waitForCopies_def)
  show "swap_ok s'" using assms(1) unfolding swap_ok_def u by (auto simp: assms(3) waitForCopies_def)
  show "allowed (Reset_pool i) (after_calls no_work (calls s'))"
    using assms(1,2) unfolding swap_ok_def allowed.simps u by (fastforce simp: list_all_iff)
qed

lemma submit_copy_ok:
  assumes "submit_copy env i index s = (r, s')" "swap_ok s" "i < 4" "allowed (Reset_pool i) (after_calls no_work (calls s))"
  shows "swap_ok s'"
proof (cases "index \<ge> length (images s) \<or> index \<ge> length (rendered s)")
  case True
  then show ?thesis using assms(1,2) by (simp add: submit_copy_def)
next
  case False
  show ?thesis
  proof (cases "submitResult env = VK_SUCCESS")
    case fail: False
    then show ?thesis using assms False by (auto simp: submit_copy_def Let_def swap_ok_def)
  next
    case True
    let ?v = "submitted s + 1"
    obtain waits signals where c: "calls s' = calls s @ [Reset_pool i, Blit_image (images s ! index)
        (ucast (fst (textureSize env)), ucast (snd (textureSize env))) (extent s), Submit_copy i ?v waits signals, On_completion ?v]"
      and f: "frames s' = (frames s)[i := (frames s ! i)\<lparr>f_done := ?v\<rparr>]" "submitted s' = ?v" "copiesSemaphore s' = copiesSemaphore s"
      using assms(1) False True by (auto simp: submit_copy_def Let_def)
    have u: "unwaited (after_calls no_work (calls s')) = unwaited (after_calls no_work (calls s)) @ [(i, ?v)]" by (simp add: c)
    have "v \<le> submitted s' \<and> (j < 4 \<longrightarrow> v \<le> f_done (frames s' ! j))" if "(j, v) \<in> set (unwaited (after_calls no_work (calls s')))" for j v
    proof (cases "(j, v) = (i, ?v)")
      case True
      then show ?thesis using assms(2,3) by (simp add: f swap_ok_def)
    next
      case False
      then have "(j, v) \<in> set (unwaited (after_calls no_work (calls s)))" using that u by auto
      then have "v \<le> submitted s" "j < 4 \<longrightarrow> v \<le> f_done (frames s ! j)" using assms(2) by (auto simp: swap_ok_def)
      then show ?thesis using assms(2,3) by (cases "j = i") (auto simp: f swap_ok_def)
    qed
    then show ?thesis using assms(2,4) unfolding swap_ok_def by (auto simp: c f)
  qed
qed

text \<open>A present: \<open>recreate\<close> if needed, waiting for the frame, and the copy.\<close>

lemma present_cases:
  assumes "present env wanted vsync s = (r, s')"
  obtains (failed) "needs_recreate wanted vsync s" "recreate (recreateEnv env) wanted vsync s = (False, s')" "r = Inr Failed"
  | (dropped) s1 s2 where "needs_recreate wanted vsync s \<Longrightarrow> recreate (recreateEnv env) wanted vsync s = (True, s1)"
      "\<not> needs_recreate wanted vsync s \<Longrightarrow> s1 = s"
      "s2 = call (Acquire_image (nextFrame s1 mod 4)) (waitForCopies (f_done (frames s1 ! (nextFrame s1 mod 4))) (s1\<lparr>nextFrame := nextFrame s1 + 1\<rparr>))"
      "s' = s2\<lparr>stale := stale s'\<rparr>" "r = Inr Dropped \<or> r = Inr Failed"
  | (copied) s1 s2 r' s3 where "needs_recreate wanted vsync s \<Longrightarrow> recreate (recreateEnv env) wanted vsync s = (True, s1)"
      "\<not> needs_recreate wanted vsync s \<Longrightarrow> s1 = s"
      "s2 = (call (Acquire_image (nextFrame s1 mod 4)) (waitForCopies (f_done (frames s1 ! (nextFrame s1 mod 4))) (s1\<lparr>nextFrame := nextFrame s1 + 1\<rparr>)))\<lparr>stale := stale s2\<rparr>"
      "submit_copy env (nextFrame s1 mod 4) (snd (acquireResult env)) s2 = (r', s3)"
      "r' \<noteq> Inr None \<Longrightarrow> s' = s3 \<and> (r = Inl Undefined \<or> r = Inr Failed)"
      "r' = Inr None \<Longrightarrow> s' = (call (Present_image (rendered s3 ! snd (acquireResult env)) (snd (acquireResult env))) s3)\<lparr>stale := stale s'\<rparr>
        \<and> (r = Inr Presented \<or> r = Inr Lost)"
proof -
  obtain ok s1 where 1: "(if needs_recreate wanted vsync s then recreate (recreateEnv env) wanted vsync s else (True, s)) = (ok, s1)"
    by fastforce
  show thesis
  proof (cases ok)
    case False
    then show thesis using assms 1 failed by (auto simp: present_def split: if_splits)
  next
    case True
    let ?i = "nextFrame s1 mod 4"
    let ?s = "call (Acquire_image ?i) (waitForCopies (f_done (frames s1 ! ?i)) (s1\<lparr>nextFrame := nextFrame s1 + 1\<rparr>))"
    obtain acquired index where a: "acquireResult env = (acquired, index)" by fastforce
    have s1: "needs_recreate wanted vsync s \<Longrightarrow> recreate (recreateEnv env) wanted vsync s = (True, s1)"
      "\<not> needs_recreate wanted vsync s \<Longrightarrow> s1 = s" using 1 True by simp_all
    show thesis
    proof (cases "acquired = VK_SUCCESS \<or> acquired = VK_SUBOPTIMAL_KHR")
      case False
      then have "s' = ?s\<lparr>stale := stale s'\<rparr> \<and> (r = Inr Dropped \<or> r = Inr Failed)"
        using assms 1 True a by (auto simp: present_def Let_def split: if_splits)
      then show thesis using dropped [OF s1] by blast
    next
      case acq: True
      let ?s2 = "if acquired = VK_SUBOPTIMAL_KHR then ?s\<lparr>stale := True\<rparr> else ?s"
      obtain r' s3 where c: "submit_copy env ?i index ?s2 = (r', s3)" by fastforce
      have e: "present env wanted vsync s = and_then (r', s3) (\<lambda>stop s.
            case stop of
              Some r \<Rightarrow> (Inr r, s)
            | None \<Rightarrow> (let s = call (Present_image (rendered s ! index) index) s in
                if presentResult env = VK_SUBOPTIMAL_KHR \<or> presentResult env = VK_ERROR_OUT_OF_DATE_KHR
                then (Inr Presented, s\<lparr>stale := True\<rparr>)
                else if presentResult env \<noteq> VK_SUCCESS then (Inr Lost, s)
                else (Inr Presented, s)))"
        unfolding c [symmetric] present_def using 1 True a acq by (auto simp: Let_def)
      have "r' \<noteq> Inr None \<Longrightarrow> s' = s3 \<and> (r = Inl Undefined \<or> r = Inr Failed)"
        using assms e c by (auto simp: submit_copy_def Let_def split: if_splits option.splits sum.splits)
      moreover have "r' = Inr None \<Longrightarrow> s' = (call (Present_image (rendered s3 ! index) index) s3)\<lparr>stale := stale s'\<rparr>
        \<and> (r = Inr Presented \<or> r = Inr Lost)"
        using assms e by (auto simp: Let_def split: if_splits)
      ultimately show thesis using copied [OF s1, of ?s2 r' s3] c a by simp
    qed
  qed
qed

lemma swap_ok_stale [simp]: "swap_ok (s\<lparr>stale := b\<rparr>) = swap_ok s" "swap_ok (s\<lparr>nextFrame := n\<rparr>) = swap_ok s"
  by (simp_all add: swap_ok_def)

lemma present_ok:
  assumes "present env wanted vsync s = (r, s')" "swap_ok s"
  shows "swap_ok s'"
  using assms(1)
proof (cases rule: present_cases)
  case failed
  then show ?thesis using recreate_ok assms(2) by blast
next
  case (dropped s1 s2)
  have "swap_ok s1" using dropped(1,2) recreate_ok assms(2) by (cases "needs_recreate wanted vsync s") blast+
  then have "swap_ok (s1\<lparr>nextFrame := nextFrame s1 + 1\<rparr>)" by simp
  from wait_frame_ok(1) [OF this _ refl, of "nextFrame s1 mod 4"] have "swap_ok s2" using dropped(3) by simp
  then show ?thesis using dropped(4) swap_ok_stale(1) by metis
next
  case (copied s1 s2 r' s3)
  have "swap_ok s1" using copied(1,2) recreate_ok assms(2) by (cases "needs_recreate wanted vsync s") blast+
  then have o': "swap_ok (s1\<lparr>nextFrame := nextFrame s1 + 1\<rparr>)" by simp
  let ?s = "call (Acquire_image (nextFrame s1 mod 4)) (waitForCopies (f_done (frames s1 ! (nextFrame s1 mod 4))) (s1\<lparr>nextFrame := nextFrame s1 + 1\<rparr>))"
  note w = wait_frame_ok [OF o' _ refl, of "nextFrame s1 mod 4"]
  have "swap_ok ?s" "allowed (Reset_pool (nextFrame s1 mod 4)) (after_calls no_work (calls ?s))" using w by simp_all
  moreover have "calls s2 = calls ?s" using arg_cong [OF copied(3), of calls] by simp
  ultimately have "swap_ok s2" "allowed (Reset_pool (nextFrame s1 mod 4)) (after_calls no_work (calls s2))"
    using copied(3) swap_ok_stale(1) by metis+
  then have s3: "swap_ok s3" using submit_copy_ok [OF copied(4)] by simp
  show ?thesis
  proof (cases "r' = Inr None")
    case True
    have "swap_ok (call (Present_image h n) s3)" for h n using s3 by (simp add: swap_ok_def)
    then show ?thesis using copied(6) [OF True] swap_ok_stale(1) by metis
  next
    case False
    then show ?thesis using copied(5) s3 by simp
  qed
qed

text \<open>The destructor waits for everything it destroys.\<close>

lemma destroy_body_ok:
  assumes "swap_ok s"
  shows "safe_calls no_work (calls (destroy_body s))"
proof -
  obtain c where c: "copiesSemaphore s = Some c" using assms by (auto simp: swap_ok_def)
  let ?w = "after_calls no_work (calls s @ [Wait_copies (submitted s), Queue_wait_idle])"
  let ?d = "map Destroy_semaphore (rendered s) @ concat (map (\<lambda>f. option_calls Destroy_semaphore (f_acquired f)
      @ option_calls Destroy_pool (f_pool f)) (frames s)) @ option_calls Destroy_swapchain (swapchain s)
      @ (if surface s then [Destroy_surface] else []) @ [Put_timeline]"
  have r: "rendered (waitIdle s) = rendered s" "frames (waitIdle s) = frames s" "swapchain (waitIdle s) = swapchain s"
    "surface (waitIdle s) = surface s" by (simp_all add: waitIdle_def waitForCopies_def)
  have "calls (destroy_body s) = (calls s @ [Wait_copies (submitted s), Queue_wait_idle]) @ ?d"
    using c r by (simp add: destroy_body_def Let_def call_def call_all_def waitIdle_def waitForCopies_def)
  moreover have "destroys ?d" by (cases "surface s") (simp_all only: destroys_append destroys_options if_True if_False)
  then have "safe_calls ?w ?d" using destroys_safe swap_ok_idle [OF assms] by blast
  moreover have "safe_calls no_work (calls s @ [Wait_copies (submitted s), Queue_wait_idle])"
    using assms by (simp add: swap_ok_def)
  ultimately show ?thesis by (simp only: safe_calls_append)
qed

lemma make_frames_length: "length (snd (make_frames base ans)) = length ans"
  by (induction ans) (auto simp: Let_def split: prod.splits)

lemma construct_ok:
  assumes "construct_presenter support timeline answers = (Inr (), s)" "length answers = 4"
  shows "swap_ok s"
proof -
  have "calls s = []" "copiesSemaphore s = Some (fst timeline)" "length (frames s) = 4"
    using assms make_frames_length [of "snd timeline" answers]
    by (auto simp: construct_presenter_def Let_def blank_presenter_def split: if_splits prod.splits)
  then show ?thesis by (simp add: swap_ok_def no_work_def)
qed

text \<open>The life of a presenter: presents, in any order of answers.\<close>

inductive presents :: "presenter \<Rightarrow> presenter \<Rightarrow> bool" where
  none: "presents s s"
| more: "presents s s1 \<Longrightarrow> present env wanted vsync s1 = (r, s2) \<Longrightarrow> presents s s2"

text \<open>
  C18: The presenter never pulls resources from under the GPU. Over its whole life, from construction
  through any presents, resizes and failures to its destruction, a frame's command pool is reset only
  after every copy recorded in it has been waited for, and semaphores, pools and swapchains are
  destroyed only when every submitted copy has been waited for and the queue is idle after the last
  present.
\<close>

theorem presenter_waits_for_gpu:
  assumes "construct_presenter support timeline answers = (Inr (), s0)" "length answers = 4" "presents s0 s"
  shows "safe_calls no_work (calls (destroy_body s))"
proof -
  have "swap_ok s" using assms(3) construct_ok [OF assms(1,2)]
  proof induction
    case (more s s1 env wanted vsync r s2)
    then show ?case using present_ok by blast
  qed
  then show ?thesis by (rule destroy_body_ok)
qed

theorem presenter_waits_for_gpu_witness:
  "let s1 = snd (present (example_present (VK_SUCCESS, VK_SUCCESS, 3, [11, 12, 13])) (640, 480) False example_presenter)
   in Present_image 61 0 \<in> set (calls s1) \<and> safe_calls no_work (calls (destroy_body s1))"
proof -
  let ?p = "present (example_present (VK_SUCCESS, VK_SUCCESS, 3, [11, 12, 13])) (640, 480) False example_presenter"
  have c: "construct_presenter (VK_SUCCESS, True) (9, 20)
     (map (\<lambda>i. ((VK_SUCCESS, 100 + i), VK_SUCCESS, (VK_SUCCESS, 200 + i))) [0, 1, 2, 3]) = (Inr (), example_presenter)"
    by (simp add: example_presenter_def construct_presenter_def make_frame_def)
  have "presents example_presenter (snd ?p)" by (rule presents.more [OF presents.none]) (rule prod.collapse [symmetric])
  then have "safe_calls no_work (calls (destroy_body (snd ?p)))" by (intro presenter_waits_for_gpu [OF c]) simp_all
  moreover have "Present_image 61 0 \<in> set (calls (snd ?p))" by (simp add: example_present_simps Let_def)
  ultimately show ?thesis by (simp add: Let_def)
qed

subsection \<open>Releasing the drawable\<close>

text \<open>The calls a present adds that read the texture or register its release.\<close>

definition copies_made :: "swap_call list \<Rightarrow> nat list" where
  "copies_made cs = concat (map (\<lambda>c. case c of Submit_copy i v w g \<Rightarrow> [v] | _ \<Rightarrow> []) cs)"

definition releases_made :: "swap_call list \<Rightarrow> nat list" where
  "releases_made cs = concat (map (\<lambda>c. case c of On_completion v \<Rightarrow> [v] | _ \<Rightarrow> []) cs)"

lemma destroys_no_copy: "destroys cs \<Longrightarrow> copies_made cs = [] \<and> releases_made cs = []"
  by (fastforce simp: destroys_def copies_made_def releases_made_def split: swap_call.splits)

lemma recreate_no_copy:
  assumes "recreate env wanted vsync s = (ok, s')"
  shows "\<exists>cs. calls s' = calls s @ cs \<and> copies_made cs = [] \<and> releases_made cs = []" "submitted s' = submitted s"
proof -
  show "submitted s' = submitted s" using assms by (cases rule: recreate_cases) simp_all
  show "\<exists>cs. calls s' = calls s @ cs \<and> copies_made cs = [] \<and> releases_made cs = []"
    using assms
  proof (cases rule: recreate_cases)
    case (created info)
    let ?d = "[Create_swapchain info] @ map Destroy_semaphore (rendered s) @ option_calls Destroy_swapchain (swapchain s)"
    let ?w = "if copiesSemaphore s = None then [] else [Wait_copies (submitted s), Queue_wait_idle]"
    have "copies_made ?d = [] \<and> releases_made ?d = []" by (rule destroys_no_copy) (simp only: destroys_append destroys_options)
    then have "copies_made (?w @ ?d) = [] \<and> releases_made (?w @ ?d) = []" by (simp add: copies_made_def releases_made_def)
    moreover have "calls s' = calls s @ ?w @ ?d" using created(1) by simp
    ultimately show ?thesis by blast
  qed (simp add: copies_made_def releases_made_def)
qed

lemma recreated_no_copy:
  assumes "needs \<Longrightarrow> recreate env wanted vsync s = (True, s1)" "\<not> needs \<Longrightarrow> s1 = s"
  shows "\<exists>cs. calls s1 = calls s @ cs \<and> copies_made cs = [] \<and> releases_made cs = []" "submitted s1 = submitted s"
proof -
  have "(\<exists>cs. calls s1 = calls s @ cs \<and> copies_made cs = [] \<and> releases_made cs = []) \<and> submitted s1 = submitted s"
  proof (cases needs)
    case True
    then show ?thesis using recreate_no_copy [OF assms(1)] by blast
  next
    case False
    then show ?thesis using assms(2) by (simp add: copies_made_def releases_made_def)
  qed
  then show "\<exists>cs. calls s1 = calls s @ cs \<and> copies_made cs = [] \<and> releases_made cs = []" "submitted s1 = submitted s" by simp_all
qed

text \<open>
  A drawable is released exactly when it was read. Every call of \<open>present\<close> that returns
  \<open>Presented\<close> or \<open>Lost\<close> has submitted one copy of the texture and registered the release callback
  once, for the completion of that copy; a call that returns \<open>Dropped\<close> or \<open>Failed\<close> has submitted no
  copy and registered nothing.
\<close>

theorem release_follows_copy:
  assumes "present env wanted vsync s = (Inr r, s')"
  shows "\<exists>cs. calls s' = calls s @ cs \<and>
    (if r = Presented \<or> r = Lost then copies_made cs = [submitted s + 1] \<and> releases_made cs = [submitted s + 1] \<and> submitted s' = submitted s + 1
     else copies_made cs = [] \<and> releases_made cs = [] \<and> submitted s' = submitted s)"
  using assms
proof (cases rule: present_cases)
  case failed
  then show ?thesis using recreate_no_copy [OF failed(2)] by simp
next
  case (dropped s1 s2)
  have "submitted s1 = submitted s" by (rule recreated_no_copy(2) [OF dropped(1,2)])
  obtain cs where cs: "calls s1 = calls s @ cs" "copies_made cs = []" "releases_made cs = []"
    using recreated_no_copy(1) [OF dropped(1,2)] by blast
  have "calls s' = calls s2" "submitted s' = submitted s2"
    using arg_cong [OF dropped(4), of calls] arg_cong [OF dropped(4), of submitted] by simp_all
  then show ?thesis using cs dropped(3,5) \<open>submitted s1 = submitted s\<close>
    by (auto simp: waitForCopies_def copies_made_def releases_made_def)
next
  case (copied s1 s2 r' s3)
  have "submitted s1 = submitted s" by (rule recreated_no_copy(2) [OF copied(1,2)])
  obtain cs where cs: "calls s1 = calls s @ cs" "copies_made cs = []" "releases_made cs = []"
    using recreated_no_copy(1) [OF copied(1,2)] by blast
  have 2: "calls s2 = calls s1 @ [Wait_copies (f_done (frames s1 ! (nextFrame s1 mod 4))), Acquire_image (nextFrame s1 mod 4)]"
    "submitted s2 = submitted s"
    using arg_cong [OF copied(3), of calls] arg_cong [OF copied(3), of submitted] \<open>submitted s1 = submitted s\<close>
    by (simp_all add: waitForCopies_def)
  show ?thesis
  proof (cases "r' = Inr None")
    case True
    then obtain a b w g where c: "calls s3 = calls s2 @ [Reset_pool a, b, Submit_copy a (submitted s2 + 1) w g, On_completion (submitted s2 + 1)]"
      "submitted s3 = submitted s2 + 1" "\<exists>i x y. b = Blit_image i x y"
      using copied(4) by (auto simp: submit_copy_def Let_def split: if_splits)
    have "calls s' = calls s3 @ [Present_image (rendered s3 ! snd (acquireResult env)) (snd (acquireResult env))]" "submitted s' = submitted s3"
      using arg_cong [OF conjunct1 [OF copied(6) [OF True]], of calls] arg_cong [OF conjunct1 [OF copied(6) [OF True]], of submitted] by simp_all
    then show ?thesis using cs 2 c copied(6) [OF True] by (auto simp: copies_made_def releases_made_def)
  next
    case False
    then have "s' = s3" "r = Failed" using copied(5) by simp_all
    moreover have "\<exists>cs. calls s3 = calls s2 @ cs \<and> copies_made cs = [] \<and> releases_made cs = []" "submitted s3 = submitted s2"
      using copied(4) False by (auto simp: submit_copy_def Let_def copies_made_def releases_made_def split: if_splits)
    ultimately show ?thesis using cs 2 by (auto simp: copies_made_def releases_made_def)
  qed
qed

theorem release_follows_copy_witness:
  "\<exists>s' cs. present (example_present (VK_SUCCESS, VK_SUCCESS, 3, [11, 12, 13])) (640, 480) False example_presenter = (Inr Presented, s')
     \<and> calls s' = calls example_presenter @ cs \<and> copies_made cs = [21] \<and> releases_made cs = [21]"
proof -
  let ?p = "present (example_present (VK_SUCCESS, VK_SUCCESS, 3, [11, 12, 13])) (640, 480) False example_presenter"
  have "fst ?p = Inr Presented" "submitted example_presenter = 20" by (simp_all add: example_present_simps Let_def)
  then have "?p = (Inr Presented, snd ?p)" by (metis prod.collapse)
  then show ?thesis using release_follows_copy \<open>submitted example_presenter = 20\<close> by fastforce
qed

subsection \<open>Failures\<close>

text \<open>The pools and semaphores that Vulkan created before the first failure.\<close>

fun made_pools :: "frame_answer list \<Rightarrow> nat list" where
  "made_pools [] = []"
| "made_pools (((rp, pool), rc, (rs, sem)) # rest) =
     (if rp \<noteq> VK_SUCCESS then [] else pool # (if rc = VK_SUCCESS \<and> rs = VK_SUCCESS then made_pools rest else []))"

fun made_semaphores :: "frame_answer list \<Rightarrow> nat list" where
  "made_semaphores [] = []"
| "made_semaphores (((rp, pool), rc, (rs, sem)) # rest) =
     (if rp = VK_SUCCESS \<and> rc = VK_SUCCESS \<and> rs = VK_SUCCESS then sem # made_semaphores rest else [])"

definition pools_destroyed :: "swap_call list \<Rightarrow> nat list" where
  "pools_destroyed cs = concat (map (\<lambda>c. case c of Destroy_pool h \<Rightarrow> [h] | _ \<Rightarrow> []) cs)"

definition semaphores_destroyed :: "swap_call list \<Rightarrow> nat list" where
  "semaphores_destroyed cs = concat (map (\<lambda>c. case c of Destroy_semaphore h \<Rightarrow> [h] | _ \<Rightarrow> []) cs)"

definition frame_calls :: "swap_frame list \<Rightarrow> swap_call list" where
  "frame_calls fs = concat (map (\<lambda>f. option_calls Destroy_semaphore (f_acquired f) @ option_calls Destroy_pool (f_pool f)) fs)"

lemma destroyed_simps [simp]:
  "pools_destroyed (cs @ ds) = pools_destroyed cs @ pools_destroyed ds" "pools_destroyed (c # cs) = (case c of Destroy_pool h \<Rightarrow> [h] | _ \<Rightarrow> []) @ pools_destroyed cs"
  "pools_destroyed [] = []" "semaphores_destroyed [] = []"
  "semaphores_destroyed (cs @ ds) = semaphores_destroyed cs @ semaphores_destroyed ds"
  "semaphores_destroyed (c # cs) = (case c of Destroy_semaphore h \<Rightarrow> [h] | _ \<Rightarrow> []) @ semaphores_destroyed cs"
  by (simp_all add: pools_destroyed_def semaphores_destroyed_def)

lemma frame_calls_empty: "frame_calls (map (\<lambda>x. empty_frame) xs) = []"
  by (induction xs) (simp_all add: frame_calls_def option_calls_def empty_frame_def)

lemma frame_calls_Cons: "frame_calls (f # fs) = option_calls Destroy_semaphore (f_acquired f) @ option_calls Destroy_pool (f_pool f) @ frame_calls fs"
  by (simp add: frame_calls_def)

lemma make_frames_calls:
  "pools_destroyed (frame_calls (snd (make_frames base ans))) = made_pools ans
    \<and> semaphores_destroyed (frame_calls (snd (make_frames base ans))) = made_semaphores ans"
proof (induction ans rule: made_pools.induct)
  case 1
  then show ?case by (simp add: frame_calls_def)
next
  case (2 rp pool rc rs sem rest)
  consider "rp \<noteq> VK_SUCCESS" | "rp = VK_SUCCESS" "\<not> (rc = VK_SUCCESS \<and> rs = VK_SUCCESS)" | "rp = VK_SUCCESS" "rc = VK_SUCCESS" "rs = VK_SUCCESS"
    by blast
  then show ?case
  proof cases
    case 1
    then have m: "make_frame base ((rp, pool), rc, rs, sem) = (False, empty_frame)" by (simp add: make_frame_def)
    show ?thesis using 1 by (simp add: m Let_def frame_calls_Cons frame_calls_empty option_calls_def) (simp add: empty_frame_def)
  next
    case 2
    then have m: "make_frame base ((rp, pool), rc, rs, sem) = (False, empty_frame\<lparr>f_pool := Some pool\<rparr>)" by (auto simp: make_frame_def)
    have "made_pools (((rp, pool), rc, rs, sem) # rest) = [pool]" "made_semaphores (((rp, pool), rc, rs, sem) # rest) = []"
      using 2 by auto
    moreover have "snd (make_frames base (((rp, pool), rc, rs, sem) # rest)) = empty_frame\<lparr>f_pool := Some pool\<rparr> # map (\<lambda>x. empty_frame) rest"
      by (simp add: m)
    ultimately show ?thesis by (simp only: frame_calls_Cons frame_calls_empty) (simp add: empty_frame_def option_calls_def)
  next
    case 3
    then have "make_frame base ((rp, pool), rc, rs, sem) = (True, \<lparr>f_pool = Some pool, f_acquired = Some sem, f_done = base\<rparr>)"
      by (simp add: make_frame_def)
    moreover obtain ok fs where m: "make_frames base rest = (ok, fs)" by fastforce
    ultimately show ?thesis using 3 "2.IH" by (simp add: Let_def frame_calls_Cons option_calls_def)
  qed
qed

text \<open>
  A failed construction leaks nothing but releases the device twice. When the constructor throws,
  every command pool and semaphore that Vulkan had created is destroyed exactly once, and the
  surface it took over is destroyed; but when it throws because a frame's resources could not be made,
  it has called its own destructor before the exception destroys the members again, so the one
  reference to the device is released two times.
\<close>

theorem failed_construction:
  assumes "construct_presenter support timeline answers = (Inl e, s)"
  shows "Destroy_surface \<in> set (calls s) \<and> pools_destroyed (calls s) = (if fst support = VK_SUCCESS \<and> snd support then made_pools answers else [])
    \<and> semaphores_destroyed (calls s) = (if fst support = VK_SUCCESS \<and> snd support then made_semaphores answers else [])
    \<and> deviceRefs s = (if fst support = VK_SUCCESS \<and> snd support then - 1 else 0)"
proof (cases "fst support = VK_SUCCESS \<and> snd support")
  case False
  then have "s = destroy_members (call Destroy_surface blank_presenter)"
    using assms by (auto simp: construct_presenter_def Let_def split: if_splits prod.splits)
  then have "calls s = [Destroy_surface]" "deviceRefs s = 0" by (simp_all add: destroy_members_def call_def blank_presenter_def)
  then show ?thesis using False by auto
next
  case True
  obtain ok fs where m: "make_frames (snd timeline) answers = (ok, fs)" by fastforce
  let ?b = "blank_presenter\<lparr>copiesSemaphore := Some (fst timeline), submitted := snd timeline, frames := fs\<rparr>"
  have s: "s = destroy_members (destroy_presenter ?b)"
    using assms True m by (auto simp: construct_presenter_def Let_def blank_presenter_def split: if_splits)
  have "calls s = [Wait_copies (snd timeline), Queue_wait_idle] @ frame_calls fs @ [Destroy_surface, Put_timeline]"
    by (simp add: s destroy_members_def destroy_presenter_def destroy_body_def Let_def waitIdle_def waitForCopies_def call_def
        call_all_def blank_presenter_def frame_calls_def option_calls_def)
  moreover have "deviceRefs s = - 1"
    by (simp add: s destroy_members_def destroy_presenter_def destroy_body_def Let_def waitIdle_def waitForCopies_def call_def
        call_all_def blank_presenter_def)
  moreover have "pools_destroyed (frame_calls fs) = made_pools answers \<and> semaphores_destroyed (frame_calls fs) = made_semaphores answers"
    using make_frames_calls [of "snd timeline" answers] m by simp
  ultimately show ?thesis using True by simp
qed

theorem failed_construction_witness:
  "\<exists>s. construct_presenter (VK_SUCCESS, True) (9, 20) [((VK_SUCCESS, 100), VK_SUCCESS, (VK_SUCCESS, 200)), ((VK_SUCCESS, 101), VK_ERROR 1, (VK_SUCCESS, 201)),
       ((VK_SUCCESS, 102), VK_SUCCESS, (VK_SUCCESS, 202)), ((VK_SUCCESS, 103), VK_SUCCESS, (VK_SUCCESS, 203))]
       = (Inl (Throw ''Could not create presentation resources''), s)
     \<and> pools_destroyed (calls s) = [100, 101] \<and> semaphores_destroyed (calls s) = [200] \<and> deviceRefs s = - 1"
proof -
  let ?a = "[((VK_SUCCESS, 100), VK_SUCCESS, (VK_SUCCESS, 200)), ((VK_SUCCESS, 101), VK_ERROR 1, (VK_SUCCESS, 201)),
       ((VK_SUCCESS, 102), VK_SUCCESS, (VK_SUCCESS, 202)), ((VK_SUCCESS, 103), VK_SUCCESS, (VK_SUCCESS, 203))]"
  let ?r = "construct_presenter (VK_SUCCESS, True) (9, 20) ?a"
  have "fst ?r = Inl (Throw ''Could not create presentation resources'')"
    by (simp add: construct_presenter_def make_frame_def Let_def blank_presenter_def)
  then have "?r = (Inl (Throw ''Could not create presentation resources''), snd ?r)" by (metis prod.collapse)
  from failed_construction [OF this] this show ?thesis by (intro exI [of _ "snd ?r"]) simp
qed


end
