(* ===== verification/PipelineWorkers.thy ===== *)
theory PipelineWorkers
  imports Prelude
begin

section \<open>The pipeline compiler's threads\<close>

text \<open>
  \<open>native/renderer/indium/pipeline-workers.hpp\<close>: the number of threads, the two queues, the loop of
  a worker, \<open>submit\<close>, \<open>submitBackground\<close> and \<open>stop\<close>. Jobs are numbers. Each section under the mutex
  is one step; a worker that waits on the condition variable can take its step when the condition
  holds, since every change of the queues notifies all. \<open>accepted\<close>, \<open>started\<close> and \<open>finished\<close> record
  what happened.
\<close>

subsection \<open>The number of threads\<close>

text \<open>\<open>strtol\<close> in base 10: the value, clamped to a \<open>long\<close>, and the rest of the text; without digits the
  whole text is the rest.\<close>

definition is_space :: "char \<Rightarrow> bool" where
  "is_space c \<longleftrightarrow> c \<in> set '' '' \<or> of_char c \<in> {9 .. (13 :: nat)}"

definition is_digit :: "char \<Rightarrow> bool" where
  "is_digit c \<longleftrightarrow> of_char c \<in> {48 .. (57 :: nat)}"

fun digits_value :: "int \<Rightarrow> string \<Rightarrow> int" where
  "digits_value v [] = v"
| "digits_value v (c # cs) = digits_value (10 * v + (of_char c - 48)) cs"

definition strtol :: "string \<Rightarrow> int \<times> string" where
  "strtol text =
     (let body = dropWhile is_space text;
          (negative, number) = (case body of [] \<Rightarrow> (False, []) | c # cs \<Rightarrow>
             if c = CHR ''-'' then (True, cs) else if c = CHR ''+'' then (False, cs) else (False, body));
          digits = takeWhile is_digit number
      in if digits = [] then (0, text)
         else let v = (if negative then - digits_value 0 digits else digits_value 0 digits)
              in (max (- (2 ^ 63)) (min (2 ^ 63 - 1) v), dropWhile is_digit number))"

definition worker_count :: "int \<Rightarrow> string option \<Rightarrow> nat" where
  "worker_count processors text =
     (let cpus = max 1 processors; default = nat (min 4 cpus) in
      case text of
        None \<Rightarrow> default
      | Some text \<Rightarrow> (let (requested, rest) = strtol text in
          if rest \<noteq> text \<and> rest = [] \<and> 0 \<le> requested \<and> requested \<le> 32 then nat (min requested cpus) else default))"

lemma worker_count_bound: "int (worker_count processors text) \<le> min 32 (max 1 processors)"
proof (cases "text")
  case None
  then show ?thesis by (simp add: worker_count_def Let_def min_def max_def)
next
  case (Some t)
  obtain v rest where "strtol t = (v, rest)" by (cases "strtol t")
  let ?C = "rest \<noteq> t \<and> rest = [] \<and> 0 \<le> v \<and> v \<le> 32"
  have "worker_count processors text = (if ?C then nat (min v (max 1 processors)) else nat (min 4 (max 1 processors)))"
    using Some \<open>strtol t = (v, rest)\<close> by (simp add: worker_count_def Let_def)
  moreover have "?C \<Longrightarrow> int (nat (min v (max 1 processors))) \<le> min 32 (max 1 processors)" by linarith
  moreover have "int (nat (min 4 (max 1 processors))) \<le> min 32 (max 1 processors)" by linarith
  ultimately show ?thesis by (simp only: split: if_split) blast
qed

subsection \<open>The pool\<close>

datatype pool_work = Job nat | Background nat

datatype pool_thread = Waiting | Running pool_work | Exited

record pool =
  jobs :: "nat list"
  background :: "nat list"
  threads :: "pool_thread list"
  stopping :: bool
  accepted :: "nat list"
  started :: "pool_work list"
  finished :: "pool_work list"

definition new_pool :: "nat \<Rightarrow> pool" where
  "new_pool n = \<lparr>jobs = [], background = [], threads = replicate n Waiting, stopping = False, accepted = [], started = [], finished = []\<rparr>"

text \<open>The section of a worker under the mutex; \<open>None\<close> while it goes on waiting.\<close>

definition begin_work :: "nat \<Rightarrow> pool_work \<Rightarrow> pool \<Rightarrow> pool" where
  "begin_work i w s = s\<lparr>threads := (threads s)[i := Running w], started := started s @ [w]\<rparr>"

definition worker_take :: "nat \<Rightarrow> pool \<Rightarrow> pool option" where
  "worker_take i s =
     (if \<not> (stopping s \<or> jobs s \<noteq> [] \<or> background s \<noteq> []) then None
      else if jobs s \<noteq> [] then Some (begin_work i (Job (hd (jobs s))) (s\<lparr>jobs := tl (jobs s)\<rparr>))
      else if \<not> stopping s then Some (begin_work i (Background (hd (background s))) (s\<lparr>background := tl (background s)\<rparr>))
      else Some (s\<lparr>threads := (threads s)[i := Exited]\<rparr>))"

text \<open>The end of the work, outside the mutex; errors stay in the job's future.\<close>

definition worker_finish :: "nat \<Rightarrow> pool_work \<Rightarrow> pool \<Rightarrow> pool" where
  "worker_finish i w s = s\<lparr>threads := (threads s)[i := Waiting], finished := finished s @ [w]\<rparr>"

text \<open>\<open>submit\<close> gives whether the future is valid.\<close>

definition submit :: "nat \<Rightarrow> pool \<Rightarrow> bool outcome \<times> pool" where
  "submit job s =
     (if stopping s then (Inl (Throw ''Pipeline compiler is stopping''), s)
      else if threads s = [] \<or> length (jobs s) \<ge> 64 then (Inr False, s)
      else (Inr True, s\<lparr>jobs := jobs s @ [job], accepted := accepted s @ [job]\<rparr>))"

definition submitBackground :: "nat \<Rightarrow> pool \<Rightarrow> pool" where
  "submitBackground job s = (if stopping s then s else s\<lparr>background := background s @ [job]\<rparr>)"

text \<open>\<open>stop\<close> sets the flag, then joins every thread: it returns when all have left.\<close>

definition stop_pool :: "pool \<Rightarrow> pool" where
  "stop_pool s = s\<lparr>stopping := True\<rparr>"

definition joined :: "pool \<Rightarrow> bool" where
  "joined s = list_all (\<lambda>t. t = Exited) (threads s)"

subsection \<open>Steps\<close>

inductive worker_step :: "pool \<Rightarrow> pool \<Rightarrow> bool" where
  take_work: "i < length (threads s) \<Longrightarrow> threads s ! i = Waiting \<Longrightarrow> worker_take i s = Some s' \<Longrightarrow> worker_step s s'"
| finish_work: "i < length (threads s) \<Longrightarrow> threads s ! i = Running w \<Longrightarrow> worker_step s (worker_finish i w s)"

inductive pool_step :: "pool \<Rightarrow> pool \<Rightarrow> bool" where
  worker: "worker_step s s' \<Longrightarrow> pool_step s s'"
| submitted: "pool_step s (snd (submit job s))"
| submitted_background: "pool_step s (submitBackground job s)"
| stopped: "pool_step s (stop_pool s)"

inductive pool_reachable :: "nat \<Rightarrow> pool \<Rightarrow> bool" for n where
  pool_init: "pool_reachable n (new_pool n)"
| pool_next: "pool_reachable n s \<Longrightarrow> pool_step s s' \<Longrightarrow> pool_reachable n s'"

inductive_cases worker_stepE: "worker_step s s'"
inductive_cases pool_stepE: "pool_step s s'"

subsection \<open>What was accepted is started in order\<close>

definition job_list :: "pool_work list \<Rightarrow> nat list" where
  "job_list ws = concat (map (\<lambda>w. case w of Job j \<Rightarrow> [j] | Background b \<Rightarrow> []) ws)"

definition running_work :: "pool \<Rightarrow> pool_work list" where
  "running_work s = concat (map (\<lambda>t. case t of Running w \<Rightarrow> [w] | _ \<Rightarrow> []) (threads s))"

lemma job_list_simps [simp]:
  "job_list [] = []" "job_list (ws @ vs) = job_list ws @ job_list vs"
  "job_list [Job j] = [j]" "job_list [Background b] = []"
  by (simp_all add: job_list_def)

lemma mset_job_list: "mset ws = mset vs \<Longrightarrow> mset (job_list ws) = mset (job_list vs)"
  by (simp add: job_list_def mset_concat flip: sum_mset_sum_list)

definition pool_inv :: "nat \<Rightarrow> pool \<Rightarrow> bool" where
  "pool_inv n s \<longleftrightarrow>
     length (threads s) = n \<and> accepted s = job_list (started s) @ jobs s \<and> length (jobs s) \<le> 64
     \<and> mset (started s) = mset (finished s) + mset (running_work s)
     \<and> (n = 0 \<longrightarrow> accepted s = []) \<and> ((\<exists>i < n. threads s ! i = Exited) \<longrightarrow> stopping s \<and> jobs s = [])"

lemma running_update:
  assumes "i < length (threads s)" "threads s ! i = t"
  shows "mset (concat (map (\<lambda>t. case t of Running w \<Rightarrow> [w] | _ \<Rightarrow> []) ((threads s)[i := t'])))
    + mset (case t of Running w \<Rightarrow> [w] | _ \<Rightarrow> []) = mset (running_work s) + mset (case t' of Running w \<Rightarrow> [w] | _ \<Rightarrow> [])"
proof -
  let ?f = "\<lambda>t. case t of Running w \<Rightarrow> [w] | _ \<Rightarrow> []"
  have 1: "threads s = take i (threads s) @ t # drop (Suc i) (threads s)" using assms id_take_nth_drop by blast
  have 2: "(threads s)[i := t'] = take i (threads s) @ t' # drop (Suc i) (threads s)" using assms(1) by (rule upd_conv_take_nth_drop)
  have "running_work s = concat (map ?f (take i (threads s) @ t # drop (Suc i) (threads s)))"
    using 1 by (simp only: running_work_def)
  then show ?thesis by (simp only: 2) simp
qed

lemma inv_new [inv_intros]: "pool_inv n (new_pool n)"
  by (auto simp: pool_inv_def new_pool_def running_work_def)

lemma inv_submit: "pool_inv n s \<Longrightarrow> pool_inv n (snd (submit job s))"
  by (auto simp: pool_inv_def submit_def running_work_def)

lemma inv_background: "pool_inv n s \<Longrightarrow> pool_inv n (submitBackground job s)"
  by (auto simp: pool_inv_def submitBackground_def running_work_def)

lemma inv_stop: "pool_inv n s \<Longrightarrow> pool_inv n (stop_pool s)"
  by (auto simp: pool_inv_def stop_pool_def running_work_def)

lemma inv_finish:
  assumes "pool_inv n s" "i < length (threads s)" "threads s ! i = Running w"
  shows "pool_inv n (worker_finish i w s)"
proof -
  have "mset (running_work (worker_finish i w s)) + {#w#} = mset (running_work s)"
    using running_update [OF assms(2,3), of Waiting] by (simp add: worker_finish_def running_work_def)
  then show ?thesis using assms
    by (auto simp: pool_inv_def worker_finish_def nth_list_update)
qed

lemma inv_begin:
  assumes "pool_inv n s" "i < length (threads s)" "threads s ! i = Waiting"
    "s0 = s\<lparr>jobs := js, background := bs\<rparr>" "jobs s = job_list [w] @ js" "job_list [w] = [] \<Longrightarrow> \<not> stopping s"
  shows "pool_inv n (begin_work i w s0)"
proof -
  have "mset (running_work (begin_work i w s0)) = mset (running_work s) + {#w#}"
    using running_update [OF assms(2,3), of "Running w"] by (simp add: begin_work_def running_work_def assms(4))
  then show ?thesis using assms by (auto simp: pool_inv_def begin_work_def nth_list_update)
qed

lemma inv_take:
  assumes "pool_inv n s" "i < length (threads s)" "threads s ! i = Waiting" "worker_take i s = Some s'"
  shows "pool_inv n s'"
proof -
  consider "jobs s \<noteq> []" "s' = begin_work i (Job (hd (jobs s))) (s\<lparr>jobs := tl (jobs s)\<rparr>)"
    | "jobs s = []" "\<not> stopping s" "s' = begin_work i (Background (hd (background s))) (s\<lparr>background := tl (background s)\<rparr>)"
    | "jobs s = []" "stopping s" "s' = s\<lparr>threads := (threads s)[i := Exited]\<rparr>"
    using assms(4) by (auto simp: worker_take_def split: if_splits)
  then show ?thesis
  proof cases
    case 1
    then show ?thesis using inv_begin [OF assms(1-3), where js = "tl (jobs s)" and bs = "background s" and w = "Job (hd (jobs s))"] by simp
  next
    case 2
    have "s\<lparr>background := tl (background s)\<rparr> = s\<lparr>jobs := jobs s, background := tl (background s)\<rparr>" by simp
    from inv_begin [OF assms(1-3) this, of "Background (hd (background s))"] show ?thesis using 2 by simp
  next
    case 3
    have "mset (running_work s') = mset (running_work s)"
      using running_update [OF assms(2,3), of Exited] 3(3) by (simp add: running_work_def)
    then show ?thesis using assms(1) 3 by (auto simp: pool_inv_def)
  qed
qed

lemma inv_worker: "worker_step s s' \<Longrightarrow> pool_inv n s \<Longrightarrow> pool_inv n s'"
  by (auto elim!: worker_stepE intro: inv_take inv_finish)

lemma pool_reachable_inv: "pool_reachable n s \<Longrightarrow> pool_inv n s"
  by (induction rule: pool_reachable.induct)
     (auto elim!: pool_stepE intro: inv_new inv_worker inv_submit inv_background inv_stop)

text \<open>
  C22: The compiler runs what it accepts, in order. However submitters and workers interleave, the jobs
  accepted are those started followed by those queued, in the order of their submission; at most 64
  are queued; no work is lost or run twice: what was started is what has finished and what is
  running. A worker takes background work only while no job is queued, and leaves only when the pool
  stops and no job is queued.
\<close>

theorem jobs_run_in_order:
  assumes "pool_reachable n s"
  shows "accepted s = job_list (started s) @ jobs s \<and> length (jobs s) \<le> 64
    \<and> mset (started s) = mset (finished s) + mset (running_work s)
    \<and> (\<forall>s'. worker_step s s' \<longrightarrow> (\<exists>b. started s' = started s @ [Background b]) \<longrightarrow> jobs s = [])
    \<and> (Exited \<in> set (threads s) \<longrightarrow> stopping s \<and> jobs s = [])"
proof (intro conjI allI impI)
  have inv: "pool_inv n s" using assms by (rule pool_reachable_inv)
  then show "accepted s = job_list (started s) @ jobs s" "length (jobs s) \<le> 64"
    "mset (started s) = mset (finished s) + mset (running_work s)" by (simp_all add: pool_inv_def)
  show "stopping s" "jobs s = []" if "Exited \<in> set (threads s)"
    using inv that by (auto simp: pool_inv_def in_set_conv_nth)
next
  fix s' assume "worker_step s s'" "\<exists>b. started s' = started s @ [Background b]"
  then show "jobs s = []"
    by (auto elim!: worker_stepE simp: worker_take_def worker_finish_def begin_work_def split: if_splits)
qed

subsection \<open>Stopping\<close>

definition steps_left :: "pool \<Rightarrow> nat" where
  "steps_left s = 2 * length (jobs s) + sum_list (map (\<lambda>t. case t of Waiting \<Rightarrow> 1 | Running w \<Rightarrow> 2 | Exited \<Rightarrow> 0) (threads s))"

lemma worker_step_decreases:
  assumes "worker_step s s'" "stopping s"
  shows "steps_left s' < steps_left s \<and> stopping s'"
  using assms
proof (cases rule: worker_step.cases)
  case (take_work i)
  let ?f = "\<lambda>t. case t of Waiting \<Rightarrow> 1 | Running w \<Rightarrow> 2 | Exited \<Rightarrow> (0 :: nat)"
  have u: "sum_list (map ?f ((threads s)[i := t])) + 1 = sum_list (map ?f (threads s)) + ?f t" for t
    using sum_list_map_update [OF take_work(1), of ?f t] take_work(2) by simp
  show ?thesis
  proof (cases "jobs s")
    case Nil
    then have "s' = s\<lparr>threads := (threads s)[i := Exited]\<rparr>" using take_work(3) assms(2) by (simp add: worker_take_def)
    then show ?thesis using u [of Exited] assms(2) by (simp add: steps_left_def)
  next
    case (Cons j js)
    then have "s' = begin_work i (Job j) (s\<lparr>jobs := js\<rparr>)" using take_work(3) by (simp add: worker_take_def)
    then show ?thesis using u [of "Running (Job j)"] assms(2) Cons by (simp add: steps_left_def begin_work_def)
  qed
next
  case (finish_work i w)
  then show ?thesis using sum_list_map_update [OF finish_work(2), of "\<lambda>t. case t of Waiting \<Rightarrow> 1 | Running w \<Rightarrow> 2 | Exited \<Rightarrow> (0 :: nat)" Waiting] assms(2)
    by (simp add: steps_left_def worker_finish_def)
qed

lemma worker_steps_bounded:
  "(worker_step ^^ k) s s' \<Longrightarrow> stopping s \<Longrightarrow> k + steps_left s' \<le> steps_left s \<and> stopping s'"
proof (induction k arbitrary: s')
  case (Suc k)
  then obtain t where "(worker_step ^^ k) s t" "worker_step t s'" by auto
  then show ?case using Suc.IH [of t] Suc.prems(2) worker_step_decreases [of t s'] by fastforce
qed simp

lemma steps_inv: "(worker_step ^^ k) s s' \<Longrightarrow> pool_inv n s \<Longrightarrow> pool_inv n s'"
  by (induction k arbitrary: s') (auto intro: inv_worker)

lemma steps_accepted: "(worker_step ^^ k) s s' \<Longrightarrow> accepted s' = accepted s"
proof (induction k arbitrary: s')
  case (Suc k)
  then obtain t where "(worker_step ^^ k) s t" "worker_step t s'" by auto
  then show ?case using Suc.IH [of t]
    by (auto elim!: worker_stepE simp: worker_take_def worker_finish_def begin_work_def split: if_splits)
qed simp

lemma stuck_joined:
  assumes "stopping s" "\<nexists>s'. worker_step s s'"
  shows "joined s"
proof (rule ccontr)
  assume "\<not> joined s"
  then obtain i where i: "i < length (threads s)" "threads s ! i \<noteq> Exited"
    by (auto simp: joined_def list_all_length)
  show False
  proof (cases "threads s ! i")
    case Waiting
    then obtain s' where "worker_take i s = Some s'" using assms(1) by (cases "jobs s = []") (auto simp: worker_take_def)
    then show False using assms(2) take_work [OF i(1) Waiting] by blast
  next
    case (Running w)
    then show False using assms(2) finish_work [OF i(1)] by blast
  qed (use i in simp)
qed

text \<open>
  C23: \<open>stop\<close> returns, and only after every accepted job has run. From every reachable state in which
  the pool is stopping, the workers can make at most two steps for every queued job and two for
  every thread, in whatever order they run; when they can make none, all threads have left, so the
  join of \<open>stop\<close> returns, and every job ever accepted has finished exactly once. The number of
  threads is never above the number of processors or 32.
\<close>

theorem stop_runs_accepted_jobs:
  assumes "pool_reachable (worker_count processors text) s" "stopping s" "(worker_step ^^ k) s s'"
  shows "k \<le> 2 * length (jobs s) + 2 * length (threads s)
    \<and> (\<not> (\<exists>s''. worker_step s' s'') \<longrightarrow> joined s')
    \<and> (joined s' \<longrightarrow> mset (job_list (finished s')) = mset (accepted s))
    \<and> int (length (threads s)) \<le> min 32 (max 1 processors)"
proof (intro conjI impI)
  note inv = pool_reachable_inv [OF assms(1)]
  have "sum_list (map (\<lambda>t. case t of Waiting \<Rightarrow> 1 | Running w \<Rightarrow> 2 | Exited \<Rightarrow> (0 :: nat)) ts) \<le> 2 * length ts" for ts
    by (induction ts) (auto split: pool_thread.split)
  from this [of "threads s"] show "k \<le> 2 * length (jobs s) + 2 * length (threads s)"
    using worker_steps_bounded [OF assms(3,2)] by (simp add: steps_left_def)
  show "joined s'" if "\<not> (\<exists>s''. worker_step s' s'')"
    using worker_steps_bounded [OF assms(3,2)] that by (intro stuck_joined) simp_all
  show "mset (job_list (finished s')) = mset (accepted s)" if "joined s'"
  proof -
    have inv': "pool_inv (worker_count processors text) s'" using steps_inv [OF assms(3) inv] .
    have "running_work s' = []" using that
      by (auto simp: joined_def running_work_def list_all_iff)
    then have "mset (started s') = mset (finished s')" using inv' by (simp add: pool_inv_def)
    then have "mset (job_list (started s')) = mset (job_list (finished s'))" by (rule mset_job_list)
    moreover have "jobs s' = []"
    proof (cases "threads s'")
      case Nil
      then show ?thesis using inv' by (auto simp: pool_inv_def)
    next
      case (Cons t ts)
      then have "threads s' ! 0 = Exited" "0 < length (threads s')" using that by (simp_all add: joined_def)
      then show ?thesis using inv' unfolding pool_inv_def by metis
    qed
    ultimately show ?thesis using inv' steps_accepted [OF assms(3)] by (simp add: pool_inv_def)
  qed
  show "int (length (threads s)) \<le> min 32 (max 1 processors)"
  proof -
    have "length (threads s) = worker_count processors text" using inv by (simp add: pool_inv_def)
    then show ?thesis by (simp only: worker_count_bound)
  qed
qed

text \<open>Two threads, three jobs and a background job: one job still queued when the pool stops.\<close>

definition example_pool :: pool where
  "example_pool = \<lparr>jobs = [3], background = [9], threads = [Running (Job 1), Running (Job 2)], stopping = True, accepted = [1, 2, 3],
     started = [Job 1, Job 2], finished = []\<rparr>"

lemma example_pool_reachable: "pool_reachable (worker_count 2 (Some ''7'')) example_pool"
proof -
  let ?s = "\<lambda>j. snd \<circ> submit j"
  have n: "worker_count 2 (Some ''7'') = 2" by (simp add: worker_count_def strtol_def is_space_def is_digit_def)
  define s0 where "s0 = submitBackground 9 (?s 3 (?s 2 (?s 1 (new_pool 2))))"
  have "pool_reachable 2 s0" unfolding s0_def comp_def
    by (rule pool_next [OF pool_next [OF pool_next [OF pool_next [OF pool_init submitted] submitted] submitted] submitted_background])
  moreover have s0: "s0 = \<lparr>jobs = [1, 2, 3], background = [9], threads = [Waiting, Waiting], stopping = False, accepted = [1, 2, 3], started = [], finished = []\<rparr>"
    by (simp add: s0_def submitBackground_def submit_def new_pool_def numeral_2_eq_2)
  moreover define s1 where "s1 = \<lparr>jobs = [2, 3], background = [9], threads = [Running (Job 1), Waiting], stopping = False, accepted = [1, 2, 3], started = [Job 1], finished = []\<rparr>"
  have "worker_take 0 s0 = Some s1" by (simp add: s0 s1_def worker_take_def begin_work_def)
  then have "worker_step s0 s1" using take_work [of 0 s0 s1] by (simp add: s0)
  moreover define s2 where "s2 = \<lparr>jobs = [3], background = [9], threads = [Running (Job 1), Running (Job 2)], stopping = False, accepted = [1, 2, 3], started = [Job 1, Job 2], finished = []\<rparr>"
  have "worker_take 1 s1 = Some s2" by (simp add: s1_def s2_def worker_take_def begin_work_def)
  then have "worker_step s1 s2" using take_work [of 1 s1 s2] by (simp add: s1_def)
  moreover have "example_pool = stop_pool s2" by (simp add: s2_def stop_pool_def example_pool_def)
  ultimately have "pool_reachable 2 example_pool" by (metis pool_next worker stopped)
  then show ?thesis by (simp add: n)
qed

theorem jobs_run_in_order_witness:
  "length (jobs example_pool) \<le> 64 \<and> job_list (started example_pool) = [1, 2] \<and> jobs example_pool = [3]"
  using jobs_run_in_order [OF example_pool_reachable] by (simp add: example_pool_def job_list_def)

theorem stop_runs_accepted_jobs_witness:
  "\<exists>s'. worker_step example_pool s' \<and> 1 \<le> 2 * length (jobs example_pool) + 2 * length (threads example_pool)
     \<and> (joined s' \<longrightarrow> mset (job_list (finished s')) = {#1, 2, 3#})"
proof -
  let ?s = "worker_finish 0 (Job 1) example_pool"
  have st: "worker_step example_pool ?s" by (rule finish_work) (simp_all add: example_pool_def)
  then have "(worker_step ^^ 1) example_pool ?s" by auto
  from stop_runs_accepted_jobs [OF example_pool_reachable _ this] st show ?thesis
    by (intro exI [of _ ?s]) (simp add: example_pool_def)
qed

end
