(* ===== verification/ShaderModules.thy ===== *)
theory ShaderModules
  imports Descriptors Complex_Main
begin

section \<open>Shader modules and descriptor set layouts\<close>

text \<open>
  \<open>remapDescriptorSets\<close> of \<open>native/renderer/library.cpp\<close>, which moves the descriptor decorations of
  a SPIR-V module to the set scheme of \<open>pipeline.private.hpp\<close>, and \<open>createFunctionSetLayout\<close>, which
  makes the layout of the set a function owns. A module is the list of its 32-bit words; a target
  holds the positions of the two literals of a variable, 0 for none. The loop over the unordered map
  of targets runs in an order that is an argument.
\<close>

subsection \<open>Scanning a module\<close>

text \<open>The map from ids to targets as an association list; \<open>operator[]\<close> makes a missing one.\<close>

type_synonym target = "nat \<times> nat"

definition target_of :: "u32 \<Rightarrow> (u32 \<times> target) list \<Rightarrow> target" where
  "target_of i ts = (case map_of ts i of None \<Rightarrow> (0, 0) | Some t \<Rightarrow> t)"

fun put_target :: "u32 \<Rightarrow> target \<Rightarrow> (u32 \<times> target) list \<Rightarrow> (u32 \<times> target) list" where
  "put_target i t [] = [(i, t)]"
| "put_target i t ((j, u) # ts) = (if i = j then (i, t) # ts else (j, u) # put_target i t ts)"

definition opcode :: "u32 \<Rightarrow> u32" where
  "opcode w = w AND 0xffff"

definition word_count :: "u32 \<Rightarrow> nat" where
  "word_count w = unat (drop_bit 16 w)"

text \<open>\<open>OpDecorate\<close> is 71, its decorations \<open>Binding\<close> 33 and \<open>DescriptorSet\<close> 34; the literal is the
  fourth word.\<close>

definition note_decoration :: "u32 list \<Rightarrow> nat \<Rightarrow> (u32 \<times> target) list \<Rightarrow> (u32 \<times> target) list" where
  "note_decoration words i ts =
     (if opcode (words ! i) = 71 \<and> word_count (words ! i) = 4
      then let v = words ! (i + 1);
               ts = (if words ! (i + 2) = 34 then put_target v (i + 3, snd (target_of v ts)) ts else ts)
           in (if words ! (i + 2) = 33 then put_target v (fst (target_of v ts), i + 3) ts else ts)
      else ts)"

text \<open>The scan from word \<open>i\<close>: the entry points counted and the targets, or \<open>None\<close> for an instruction
  without length, one past the end or a decoration group.\<close>

function scan_words :: "u32 list \<Rightarrow> nat \<Rightarrow> u32 \<Rightarrow> (u32 \<times> target) list \<Rightarrow> (u32 \<times> (u32 \<times> target) list) option" where
  "scan_words words i entryPoints ts =
     (if i \<ge> length words then Some (entryPoints, ts)
      else if word_count (words ! i) = 0 \<or> i + word_count (words ! i) > length words then None
      else let entryPoints = (if opcode (words ! i) = 15 then entryPoints + 1 else entryPoints) in
        if opcode (words ! i) = 73 \<or> opcode (words ! i) = 74 \<or> opcode (words ! i) = 75 then None
        else scan_words words (i + word_count (words ! i)) entryPoints (note_decoration words i ts))"
  by pat_completeness auto
termination by (relation "measure (\<lambda>(ws, i, _, _). length ws - i)") auto

declare scan_words.simps [simp del]

subsection \<open>Moving the decorations\<close>

definition stageSet :: "function_type \<Rightarrow> u32" where
  "stageSet t = (if t = Fragment_function then 2 else 1)"

definition find_binding :: "function_info \<Rightarrow> u32 \<Rightarrow> binding option" where
  "find_binding info n = List.find (\<lambda>b. internalIndex b = ucast n \<and> bind_type b \<noteq> Vertex_input_binding) (bindings info)"

definition remap_target :: "render_env \<Rightarrow> function_info \<Rightarrow> target \<Rightarrow> u32 list \<Rightarrow> u32 list" where
  "remap_target env info t words =
     (if fst t = 0 \<or> snd t = 0 then words
      else case find_binding info (words ! snd t) of
        None \<Rightarrow> words
      | Some b \<Rightarrow>
         if bind_type b = Buffer_binding \<and> pushesBuffers env info
         then words[fst t := 0, snd t := ucast (pushedBufferBinding info b)]
         else words[fst t := stageSet (functionType info)])"

definition remapDescriptorSets :: "render_env \<Rightarrow> ((u32 \<times> target) list \<Rightarrow> (u32 \<times> target) list) \<Rightarrow> function_info \<Rightarrow>
    u32 list \<Rightarrow> bool \<times> u32 list" where
  "remapDescriptorSets env order info words =
     (if length words < 5 \<or> words ! 0 \<noteq> 0x07230203 then (False, words)
      else case scan_words words 5 0 [] of
        None \<Rightarrow> (False, words)
      | Some (entryPoints, ts) \<Rightarrow>
         if entryPoints \<noteq> 1 then (False, words)
         else (True, foldl (\<lambda>ws (v, t). remap_target env info t ws) words (order ts)))"

text \<open>The check of a library's constructor: a graphics function is alone in its module.\<close>

definition library_code :: "render_env \<Rightarrow> ((u32 \<times> target) list \<Rightarrow> (u32 \<times> target) list) \<Rightarrow> function_info list \<Rightarrow>
    u32 list \<Rightarrow> u32 list outcome" where
  "library_code env order infos code =
     (case filter (\<lambda>f. isGraphicsStage (functionType f)) infos of
        [] \<Rightarrow> Inr code
      | fs \<Rightarrow> (let (ok, words) = (if length infos = 1 then remapDescriptorSets env order (last fs) code else (False, code))
              in if ok then Inr words else Inl (Throw ''Unsupported graphics shader module layout'')))"

subsection \<open>Layouts of descriptor sets\<close>

datatype descriptor_type = Storage_buffer | Storage_buffer_dynamic | Sampled_image | Storage_image | Sampler_descriptor

definition pushesComputeSet :: "render_env \<Rightarrow> nat \<Rightarrow> function_info \<Rightarrow> bool" where
  "pushesComputeSet env maxPushDescriptors info \<longleftrightarrow>
     pushDescriptorsEnabled env \<and> functionType info = Kernel_function \<and> length (bindings info) \<le> min maxPushDescriptors 32"

text \<open>An entry of a layout: the binding number, the type and the stage that may use it.\<close>

type_synonym layout_entry = "u32 \<times> descriptor_type \<times> function_type"

definition binding_descriptor :: "render_env \<Rightarrow> function_info \<Rightarrow> binding \<Rightarrow> descriptor_type option" where
  "binding_descriptor env info b =
     (case bind_type b of
        Buffer_binding \<Rightarrow> Some (if isGraphicsStage (functionType info) \<and> dynamicBufferBinding env info b
                                then Storage_buffer_dynamic else Storage_buffer)
      | Texture_binding sampled \<Rightarrow> Some (if sampled then Sampled_image else Storage_image)
      | Sampler_binding \<Rightarrow> Some Sampler_descriptor
      | Vertex_input_binding \<Rightarrow> None)"

definition layout_binding :: "render_env \<Rightarrow> function_info \<Rightarrow> binding \<Rightarrow> layout_entry list" where
  "layout_binding env info b =
     (if bind_type b = Buffer_binding \<and> pushesBuffers env info then []
      else case binding_descriptor env info b of
        None \<Rightarrow> []
      | Some d \<Rightarrow> [(ucast (internalIndex b), d, functionType info)])"

text \<open>The flag that makes it a push descriptor set, and the bindings.\<close>

definition createFunctionSetLayout :: "render_env \<Rightarrow> nat \<Rightarrow> function_info option \<Rightarrow> bool \<times> layout_entry list" where
  "createFunctionSetLayout env maxPushDescriptors info =
     (case info of
        None \<Rightarrow> (False, [])
      | Some f \<Rightarrow> (pushesComputeSet env maxPushDescriptors f, concat (map (layout_binding env f) (bindings f))))"

text \<open>Set 0 of the device: the pushed buffers of both stages, vertex first.\<close>

definition bufferSetLayout :: "render_env \<Rightarrow> bool \<times> layout_entry list" where
  "bufferSetLayout env =
     (pushDescriptorsEnabled env,
      if pushDescriptorsEnabled env
      then map (\<lambda>i. (of_nat i, Storage_buffer, if i < 16 then Vertex_function else Fragment_function)) [0 ..< 32] else [])"

text \<open>The layouts of a graphics pipeline: the device's set, then the sets of the two functions.\<close>

definition set_layouts :: "render_env \<Rightarrow> nat \<Rightarrow> function_info \<Rightarrow> function_info option \<Rightarrow> (bool \<times> layout_entry list) list" where
  "set_layouts env maxPushDescriptors vertex fragment =
     [bufferSetLayout env, createFunctionSetLayout env maxPushDescriptors (Some vertex),
      createFunctionSetLayout env maxPushDescriptors fragment]"

subsection \<open>Embedded samplers\<close>

text \<open>The enumerations of the translated function; the last constructor stands for any other value.\<close>

datatype ir_address = IR_ClampToZero | IR_ClampToEdge | IR_Repeat | IR_MirrorRepeat | IR_ClampToBorderColor | IR_OtherAddress
datatype ir_filter = IR_Nearest | IR_Linear | IR_OtherFilter
datatype ir_mip = IR_MipNone | IR_MipNearest | IR_MipLinear | IR_OtherMip
datatype ir_border = IR_TransparentBlack | IR_OpaqueBlack | IR_OpaqueWhite | IR_OtherBorder
datatype ir_compare = IR_None | IR_Less | IR_LessEqual | IR_Greater | IR_GreaterEqual | IR_Equal | IR_NotEqual | IR_Always
  | IR_Never | IR_OtherCompare

datatype address_mode = ClampToZero | ClampToEdge | Repeat | MirrorRepeat | ClampToBorderColor
datatype min_mag_filter = Nearest | Linear
datatype mip_filter = NotMipmapped | MipNearest | MipLinear
datatype border_color = TransparentBlack | OpaqueBlack | OpaqueWhite
datatype compare_function = CmpNever | CmpLess | CmpLessEqual | CmpGreater | CmpGreaterEqual | CmpEqual | CmpNotEqual | CmpAlways

record embedded_sampler =
  minificationFilter :: ir_filter
  magnificationFilter :: ir_filter
  mipmapFilter :: ir_mip
  anisotropyLevel :: nat
  widthAddressMode :: ir_address
  heightAddressMode :: ir_address
  depthAddressMode :: ir_address
  borderColor :: ir_border
  usesNormalizedCoordinates :: bool
  lodMin :: real
  lodMax :: real
  compareFunction :: ir_compare

record sampler_descriptor =
  minFilter :: min_mag_filter
  magFilter :: min_mag_filter
  mipFilter :: mip_filter
  maxAnisotropy :: nat
  sAddressMode :: address_mode
  tAddressMode :: address_mode
  rAddressMode :: address_mode
  sdBorderColor :: border_color
  normalizedCoordinates :: bool
  lodMinClamp :: real
  lodMaxClamp :: real
  supportArgumentBuffers :: bool
  sdCompareFunction :: compare_function

fun translateAddressMode :: "ir_address \<Rightarrow> address_mode" where
  "translateAddressMode IR_ClampToZero = ClampToZero"
| "translateAddressMode IR_ClampToEdge = ClampToEdge"
| "translateAddressMode IR_Repeat = Repeat"
| "translateAddressMode IR_MirrorRepeat = MirrorRepeat"
| "translateAddressMode IR_ClampToBorderColor = ClampToBorderColor"
| "translateAddressMode IR_OtherAddress = ClampToEdge"

fun translateFilter :: "ir_filter \<Rightarrow> min_mag_filter" where
  "translateFilter IR_Nearest = Nearest"
| "translateFilter IR_Linear = Linear"
| "translateFilter IR_OtherFilter = Nearest"

fun translateMipFilter :: "ir_mip \<Rightarrow> mip_filter" where
  "translateMipFilter IR_MipNone = NotMipmapped"
| "translateMipFilter IR_MipNearest = MipNearest"
| "translateMipFilter IR_MipLinear = MipLinear"
| "translateMipFilter IR_OtherMip = NotMipmapped"

fun translateBorderColor :: "ir_border \<Rightarrow> border_color" where
  "translateBorderColor IR_TransparentBlack = TransparentBlack"
| "translateBorderColor IR_OpaqueBlack = OpaqueBlack"
| "translateBorderColor IR_OpaqueWhite = OpaqueWhite"
| "translateBorderColor IR_OtherBorder = TransparentBlack"

fun translateCompareFunction :: "ir_compare \<Rightarrow> compare_function" where
  "translateCompareFunction IR_None = CmpNever"
| "translateCompareFunction IR_Less = CmpLess"
| "translateCompareFunction IR_LessEqual = CmpLessEqual"
| "translateCompareFunction IR_Greater = CmpGreater"
| "translateCompareFunction IR_GreaterEqual = CmpGreaterEqual"
| "translateCompareFunction IR_Equal = CmpEqual"
| "translateCompareFunction IR_NotEqual = CmpNotEqual"
| "translateCompareFunction IR_Always = CmpAlways"
| "translateCompareFunction IR_Never = CmpNever"
| "translateCompareFunction IR_OtherCompare = CmpNever"

definition embedded_sampler_descriptor :: "embedded_sampler \<Rightarrow> sampler_descriptor" where
  "embedded_sampler_descriptor e =
     \<lparr>minFilter = translateFilter (minificationFilter e), magFilter = translateFilter (magnificationFilter e),
      mipFilter = translateMipFilter (mipmapFilter e), maxAnisotropy = anisotropyLevel e,
      sAddressMode = translateAddressMode (widthAddressMode e), tAddressMode = translateAddressMode (heightAddressMode e),
      rAddressMode = translateAddressMode (depthAddressMode e), sdBorderColor = translateBorderColor (borderColor e),
      normalizedCoordinates = usesNormalizedCoordinates e, lodMinClamp = lodMin e, lodMaxClamp = lodMax e,
      supportArgumentBuffers = False, sdCompareFunction = translateCompareFunction (compareFunction e)\<rparr>"

text \<open>\<open>newFunction\<close> never inserts a missing name.\<close>

definition newFunction :: "(string \<rightharpoonup> function_info) \<Rightarrow> string \<Rightarrow> (string \<times> function_info) option" where
  "newFunction functionInfos name = (case functionInfos name of None \<Rightarrow> None | Some info \<Rightarrow> Some (name, info))"

end
