(* ===== verification/ShaderModuleProperties.thy ===== *)
theory ShaderModuleProperties
  imports ShaderModules
begin

section \<open>Rewritten shader modules match the layouts\<close>

text \<open>
  The positions of the instructions of a module, the targets a scan finds, and that moving the
  decorations changes nothing but the literals found.
\<close>

function instrs :: "u32 list \<Rightarrow> nat \<Rightarrow> nat list" where
  "instrs words i =
     (if i \<ge> length words \<or> word_count (words ! i) = 0 \<or> i + word_count (words ! i) > length words then []
      else i # instrs words (i + word_count (words ! i)))"
  by pat_completeness auto
termination by (relation "measure (\<lambda>(ws, i). length ws - i)") auto

declare instrs.simps [simp del]

lemma instrs_cases:
  assumes "k \<in> set (instrs words i)"
  shows "k = i \<or> (i + word_count (words ! i) \<le> length words \<and> word_count (words ! i) \<noteq> 0 \<and> k \<in> set (instrs words (i + word_count (words ! i))))"
  using assms by (subst (asm) instrs.simps) (auto split: if_splits)

lemma instrs_bounds: "k \<in> set (instrs words i) \<Longrightarrow> i \<le> k \<and> k < length words \<and> word_count (words ! k) \<noteq> 0 \<and> k + word_count (words ! k) \<le> length words"
proof (induction words i rule: instrs.induct)
  case (1 words i)
  show ?case
  proof (cases "i \<ge> length words \<or> word_count (words ! i) = 0 \<or> i + word_count (words ! i) > length words")
    case True
    then show ?thesis using 1(2) by (simp add: instrs.simps)
  next
    case False
    then have "k = i \<or> k \<in> set (instrs words (i + word_count (words ! i)))" using 1(2) by (subst (asm) instrs.simps) simp
    then show ?thesis using 1(1) [OF False] False by auto
  qed
qed

text \<open>Two instructions do not overlap.\<close>

lemma instrs_unfold:
  "instrs words i = [] \<or> instrs words i = i # instrs words (i + word_count (words ! i))"
  by (subst (1 2) instrs.simps) simp

lemma instrs_apart:
  "k \<in> set (instrs words i) \<Longrightarrow> j \<in> set (instrs words i) \<Longrightarrow> k = j \<or> k + word_count (words ! k) \<le> j \<or> j + word_count (words ! j) \<le> k"
proof (induction words i rule: instrs.induct)
  case (1 words i)
  show ?case
  proof (cases "i \<ge> length words \<or> word_count (words ! i) = 0 \<or> i + word_count (words ! i) > length words")
    case True
    then have "instrs words i = []" by (subst instrs.simps) simp
    then show ?thesis using 1(2) by simp
  next
    case False
    let ?n = "i + word_count (words ! i)"
    have "instrs words i = i # instrs words ?n" using False by (subst instrs.simps) simp
    then have k: "k = i \<or> k \<in> set (instrs words ?n)" and j: "j = i \<or> j \<in> set (instrs words ?n)" using 1(2,3) by simp_all
    show ?thesis
    proof (cases "k \<in> set (instrs words ?n) \<and> j \<in> set (instrs words ?n)")
      case True
      then show ?thesis using 1(1) [OF False] by blast
    next
      case False
      have "k \<in> set (instrs words ?n) \<Longrightarrow> ?n \<le> k" "j \<in> set (instrs words ?n) \<Longrightarrow> ?n \<le> j"
        using instrs_bounds by blast+
      then show ?thesis using False k j by blast
    qed
  qed
qed

subsection \<open>The targets of a scan\<close>

definition decorate :: "u32 list \<Rightarrow> nat \<Rightarrow> bool" where
  "decorate words i \<longleftrightarrow> opcode (words ! i) = 71 \<and> word_count (words ! i) = 4"

text \<open>Position \<open>p\<close> is the literal of decoration \<open>d\<close> of variable \<open>v\<close>.\<close>

definition literal_at :: "u32 list \<Rightarrow> u32 \<Rightarrow> u32 \<Rightarrow> nat \<Rightarrow> bool" where
  "literal_at words d v p \<longleftrightarrow>
     (\<exists>k \<in> set (instrs words 5). decorate words k \<and> p = k + 3 \<and> words ! (k + 1) = v \<and> words ! (k + 2) = d)"

definition good_targets :: "u32 list \<Rightarrow> (u32 \<times> target) list \<Rightarrow> bool" where
  "good_targets words ts \<longleftrightarrow> distinct (map fst ts) \<and>
     (\<forall>(v, s, b) \<in> set ts. (s \<noteq> 0 \<longrightarrow> literal_at words 34 v s) \<and> (b \<noteq> 0 \<longrightarrow> literal_at words 33 v b))"

lemma put_target_keys: "set (map fst (put_target i t ts)) = insert i (set (map fst ts))"
  by (induction i t ts rule: put_target.induct) (simp_all add: insert_commute)

lemma put_target_set: "x \<in> set (put_target i t ts) \<Longrightarrow> x = (i, t) \<or> x \<in> set ts"
  by (induction ts) (auto split: if_splits)

lemma put_target_distinct: "distinct (map fst ts) \<Longrightarrow> distinct (map fst (put_target i t ts))"
proof (induction ts)
  case (Cons a ts)
  obtain j u where a: "a = (j, u)" by (cases a)
  show ?case
  proof (cases "i = j")
    case False
    have "j \<notin> set (map fst (put_target i t ts))" using Cons.prems False a by (simp only: put_target_keys) simp
    then show ?thesis using Cons a False by simp
  qed (use Cons a in simp)
qed simp

lemma target_of_cases: "target_of v ts = (0, 0) \<or> (v, target_of v ts) \<in> set ts"
  by (auto simp: target_of_def split: option.splits dest: map_of_SomeD)

lemma good_target_of:
  assumes "good_targets words ts"
  shows "fst (target_of v ts) \<noteq> 0 \<Longrightarrow> literal_at words 34 v (fst (target_of v ts))"
    and "snd (target_of v ts) \<noteq> 0 \<Longrightarrow> literal_at words 33 v (snd (target_of v ts))"
  using assms target_of_cases [of v ts] by (cases "target_of v ts"; fastforce simp: good_targets_def)+

lemma good_put:
  assumes "good_targets words ts" "s \<noteq> 0 \<Longrightarrow> literal_at words 34 v s" "b \<noteq> 0 \<Longrightarrow> literal_at words 33 v b"
  shows "good_targets words (put_target v (s, b) ts)"
  using assms put_target_distinct [of ts v "(s, b)"] put_target_set [of _ v "(s, b)" ts]
  unfolding good_targets_def by fastforce

lemma good_note:
  assumes "good_targets words ts" "i \<in> set (instrs words 5)"
  shows "good_targets words (note_decoration words i ts)"
proof (cases "decorate words i")
  case True
  let ?v = "words ! (i + 1)"
  define ts1 where "ts1 = (if words ! (i + 2) = 34 then put_target ?v (i + 3, snd (target_of ?v ts)) ts else ts)"
  have "words ! (i + 2) = d \<Longrightarrow> literal_at words d ?v (i + 3)" for d
    using True assms(2) by (auto simp: literal_at_def)
  then have g: "good_targets words ts1"
    unfolding ts1_def using assms(1) good_put [OF assms(1)] good_target_of(2) [OF assms(1)] by presburger
  have "good_targets words (if words ! (i + 2) = 33 then put_target ?v (fst (target_of ?v ts1), i + 3) ts1 else ts1)"
    using g good_put [OF g] good_target_of(1) [OF g] \<open>\<And>d. words ! (i + 2) = d \<Longrightarrow> literal_at words d ?v (i + 3)\<close> by presburger
  moreover have "note_decoration words i ts = (if words ! (i + 2) = 33 then put_target ?v (fst (target_of ?v ts1), i + 3) ts1 else ts1)"
    using True unfolding note_decoration_def decorate_def ts1_def Let_def by (simp only: if_True simp_thms)
  ultimately show ?thesis by (simp only:)
next
  case False
  then show ?thesis using assms(1) by (auto simp: note_decoration_def decorate_def)
qed

lemma scan_targets:
  "scan_words words i e ts = Some (e', ts') \<Longrightarrow> good_targets words ts \<Longrightarrow> set (instrs words i) \<subseteq> set (instrs words 5) \<Longrightarrow>
   good_targets words ts'"
proof (induction words i e ts rule: scan_words.induct)
  case (1 words i e ts)
  show ?case
  proof (cases "i \<ge> length words")
    case True
    then show ?thesis using 1(2,3) by (simp add: scan_words.simps)
  next
    case False
    then have c: "\<not> (word_count (words ! i) = 0 \<or> i + word_count (words ! i) > length words)"
      and o': "\<not> (opcode (words ! i) = 73 \<or> opcode (words ! i) = 74 \<or> opcode (words ! i) = 75)"
      using 1(2) by (auto simp: scan_words.simps [of words i] Let_def split: if_splits)
    have ins: "instrs words i = i # instrs words (i + word_count (words ! i))" using False c by (subst instrs.simps) simp
    let ?e = "if opcode (words ! i) = 15 then e + 1 else e"
    have "scan_words words (i + word_count (words ! i)) ?e (note_decoration words i ts) = Some (e', ts')"
      using 1(2) False c o' by (simp add: scan_words.simps [of words i])
    then show ?thesis using 1(1) [OF False c refl o'] good_note [OF 1(3)] 1(4) ins by auto
  qed
qed

text \<open>A module that differs only in such literals scans to the same targets.\<close>

lemma note_decoration_cong:
  assumes "words' ! i = words ! i" "decorate words i \<Longrightarrow> words' ! (i + 1) = words ! (i + 1) \<and> words' ! (i + 2) = words ! (i + 2)"
  shows "note_decoration words' i ts = note_decoration words i ts"
  using assms by (simp add: note_decoration_def decorate_def)

lemma scan_cong:
  "scan_words words i e ts = Some r \<Longrightarrow> length words' = length words \<Longrightarrow>
   (\<forall>k \<in> set (instrs words i). words' ! k = words ! k \<and> (decorate words k \<longrightarrow> words' ! (k + 1) = words ! (k + 1) \<and> words' ! (k + 2) = words ! (k + 2))) \<Longrightarrow>
   scan_words words' i e ts = Some r"
proof (induction words i e ts rule: scan_words.induct)
  case (1 words i e ts)
  show ?case
  proof (cases "i \<ge> length words")
    case True
    then show ?thesis using 1(2,3) by (simp add: scan_words.simps)
  next
    case False
    then have c: "\<not> (word_count (words ! i) = 0 \<or> i + word_count (words ! i) > length words)"
      and o': "\<not> (opcode (words ! i) = 73 \<or> opcode (words ! i) = 74 \<or> opcode (words ! i) = 75)"
      using 1(2) by (auto simp: scan_words.simps [of words i] Let_def split: if_splits)
    have ins: "instrs words i = i # instrs words (i + word_count (words ! i))" using False c by (subst instrs.simps) simp
    let ?e = "if opcode (words ! i) = 15 then e + 1 else e"
    have s: "scan_words words (i + word_count (words ! i)) ?e (note_decoration words i ts) = Some r"
      using 1(2) False c o' by (simp add: scan_words.simps [of words i])
    have i: "words' ! i = words ! i" "note_decoration words' i ts = note_decoration words i ts"
      using 1(4) ins note_decoration_cong [of words' i words] by auto
    have "scan_words words' (i + word_count (words ! i)) ?e (note_decoration words i ts) = Some r"
      using 1(1) [OF False c refl o' s 1(3)] 1(4) ins by simp
    then show ?thesis using False c o' i 1(3) by (simp add: scan_words.simps [of words' i])
  qed
qed

subsection \<open>Moving the literals\<close>

definition both :: "target \<Rightarrow> bool" where
  "both t \<longleftrightarrow> fst t \<noteq> 0 \<and> snd t \<noteq> 0"

definition apart :: "(u32 \<times> target) list \<Rightarrow> bool" where
  "apart ts \<longleftrightarrow> (\<forall>(v, t) \<in> set ts. \<forall>(v', t') \<in> set ts. v \<noteq> v' \<longrightarrow> both t \<longrightarrow> both t' \<longrightarrow> {fst t, snd t} \<inter> {fst t', snd t'} = {})"

lemma literal_unique:
  assumes "literal_at words d v p" "literal_at words d' v' p"
  shows "d = d'" "v = v'"
  using assms by (auto simp: literal_at_def)

lemma good_apart:
  assumes "good_targets words ts"
  shows "apart ts"
  unfolding apart_def
proof (clarify, rule ccontr)
  fix v s b v' s' b'
  assume *: "(v, s, b) \<in> set ts" "(v', s', b') \<in> set ts" "v \<noteq> v'" "both (s, b)" "both (s', b')"
    "{fst (s, b), snd (s, b)} \<inter> {fst (s', b'), snd (s', b')} \<noteq> {}"
  then have l: "literal_at words 34 v s" "literal_at words 33 v b" "literal_at words 34 v' s'" "literal_at words 33 v' b'"
    using assms by (auto simp: good_targets_def both_def)
  have "s = s' \<or> s = b' \<or> b = s' \<or> b = b'" using *(6) by auto
  then show False
    using literal_unique [OF l(1)] literal_unique [OF l(2)] l(3,4) *(3) by (elim disjE) fastforce+
qed

lemma remap_target_length [simp]: "length (remap_target env info t ws) = length ws"
  by (simp add: remap_target_def split: option.split)

lemma remap_target_other:
  assumes "\<not> both t \<or> (p \<noteq> fst t \<and> p \<noteq> snd t)"
  shows "remap_target env info t ws ! p = ws ! p"
  using assms by (auto simp: remap_target_def both_def split: option.split)

lemma list_update_nth: "xs[i := x] ! j = (if i < length xs \<and> i = j then x else xs ! j)"
  by (cases "i < length xs") (simp_all add: nth_list_update list_update_beyond)

lemma remap_target_cong:
  assumes "ws' ! fst t = ws ! fst t" "ws' ! snd t = ws ! snd t" "length ws' = length ws" "p \<in> {fst t, snd t}"
  shows "remap_target env info t ws' ! p = remap_target env info t ws ! p"
  using assms by (auto simp: remap_target_def list_update_nth split: option.split)

lemma apart_Cons: "apart (x # ts) \<Longrightarrow> apart ts"
  unfolding apart_def by fastforce

lemma fold_remap:
  "distinct (map fst ts) \<Longrightarrow> apart ts \<Longrightarrow>
   length (foldl (\<lambda>ws (v, t). remap_target env info t ws) ws ts) = length ws
   \<and> (\<forall>p. (\<forall>(v, t) \<in> set ts. \<not> both t \<or> (p \<noteq> fst t \<and> p \<noteq> snd t)) \<longrightarrow> foldl (\<lambda>ws (v, t). remap_target env info t ws) ws ts ! p = ws ! p)
   \<and> (\<forall>(v, t) \<in> set ts. both t \<longrightarrow> (\<forall>p \<in> {fst t, snd t}. foldl (\<lambda>ws (v, t). remap_target env info t ws) ws ts ! p = remap_target env info t ws ! p))"
proof (induction ts arbitrary: ws)
  case (Cons x ts)
  obtain v t where x: "x = (v, t)" by (cases x)
  let ?ws = "remap_target env info t ws"
  let ?r = "foldl (\<lambda>ws (v, t). remap_target env info t ws) ?ws ts"
  have IH: "length ?r = length ws" "\<And>p. (\<forall>(v, t) \<in> set ts. \<not> both t \<or> (p \<noteq> fst t \<and> p \<noteq> snd t)) \<Longrightarrow> ?r ! p = ?ws ! p"
    "\<And>v' t' p. (v', t') \<in> set ts \<Longrightarrow> both t' \<Longrightarrow> p \<in> {fst t', snd t'} \<Longrightarrow> ?r ! p = remap_target env info t' ?ws ! p"
    using Cons.IH [of ?ws] Cons.prems apart_Cons by (auto simp: x)
  have other: "\<forall>(v', t') \<in> set ts. \<not> both t' \<or> (p \<noteq> fst t' \<and> p \<noteq> snd t')" if t: "both t" "p \<in> {fst t, snd t}" for p
  proof -
    have "p \<noteq> s' \<and> p \<noteq> b'" if t': "(v', s', b') \<in> set ts" "both (s', b')" for v' s' b'
    proof -
      have "v' \<noteq> v" using Cons.prems(1) t'(1) by (force simp: x)
      then have "{fst t, snd t} \<inter> {s', b'} = {}" using Cons.prems(2) t' t(1) unfolding apart_def x by fastforce
      then show ?thesis using t(2) by auto
    qed
    then show ?thesis by fastforce
  qed
  have same: "remap_target env info t' ?ws ! p = remap_target env info t' ws ! p" if "(v', t') \<in> set ts" "both t'" "p \<in> {fst t', snd t'}" for v' t' p
  proof -
    note in_ts = that
    have "\<not> both t \<or> (q \<noteq> fst t \<and> q \<noteq> snd t)" if "q \<in> {fst t', snd t'}" for q
      using other [of q] that in_ts(1,2) by (cases "both t"; cases t') fastforce+
    then have "?ws ! q = ws ! q" if "q \<in> {fst t', snd t'}" for q
      using that remap_target_other [of t q env info ws] by blast
    then show ?thesis using in_ts(3) by (intro remap_target_cong) simp_all
  qed
  let ?f = "foldl (\<lambda>ws (v, t). remap_target env info t ws) ws (x # ts)"
  have "length ?f = length ws" by (simp add: IH(1) x)
  moreover have "\<forall>p. (\<forall>(v, t) \<in> set (x # ts). \<not> both t \<or> (p \<noteq> fst t \<and> p \<noteq> snd t)) \<longrightarrow> ?f ! p = ws ! p"
  proof (intro allI impI)
    fix p assume p: "\<forall>(v, t) \<in> set (x # ts). \<not> both t \<or> (p \<noteq> fst t \<and> p \<noteq> snd t)"
    then have "?r ! p = ?ws ! p" by (intro IH(2)) (auto simp: x)
    also have "\<dots> = ws ! p" using p by (intro remap_target_other) (auto simp: x)
    finally show "foldl (\<lambda>ws (v, t). remap_target env info t ws) ws (x # ts) ! p = ws ! p" by (simp add: x)
  qed
  moreover have "\<forall>(v, t) \<in> set (x # ts). both t \<longrightarrow> (\<forall>p \<in> {fst t, snd t}. foldl (\<lambda>ws (v, t). remap_target env info t ws) ws (x # ts) ! p = remap_target env info t ws ! p)"
  proof clarify
    fix v' s' b' p assume t': "(v', s', b') \<in> set (x # ts)" "both (s', b')" and p: "p \<in> {fst (s', b'), snd (s', b')}"
    show "foldl (\<lambda>ws (v, t). remap_target env info t ws) ws (x # ts) ! p = remap_target env info (s', b') ws ! p"
    proof (cases "(v', s', b') \<in> set ts")
      case True
      then show ?thesis using IH(3) [OF True t'(2) p] same [OF True t'(2) p] by (simp add: x)
    next
      case False
      then have "t = (s', b')" using t'(1) by (simp add: x)
      then show ?thesis using IH(2) [OF other, of p] t'(2) p by (simp add: x)
    qed
  qed
  ultimately show ?case by blast
qed simp

subsection \<open>The layouts\<close>

text \<open>Where the variable of binding \<open>bd\<close> is after the move: the set, the number and the descriptor.\<close>

definition location :: "render_env \<Rightarrow> function_info \<Rightarrow> u32 \<Rightarrow> binding \<Rightarrow> u32 \<times> u32 \<times> descriptor_type option" where
  "location env info n bd =
     (if bind_type bd = Buffer_binding \<and> pushesBuffers env info
      then (0, ucast (pushedBufferBinding info bd), Some Storage_buffer)
      else (stageSet (functionType info), n, binding_descriptor env info bd))"

lemma pushed_entry:
  assumes "pushesBuffers env info" "bd \<in> set (bindings info)" "bind_type bd = Buffer_binding"
  shows "(ucast (pushedBufferBinding info bd), Storage_buffer, functionType info) \<in> set (snd (bufferSetLayout env))"
proof -
  define n where "n = unat (internalIndex bd)"
  have "internalIndex bd < 16" "pushDescriptorsEnabled env" "isGraphicsStage (functionType info)"
    using assms by (auto simp: pushesBuffers_def list_all_iff)
  then have n: "n < 16" "internalIndex bd = word_of_nat n" by (simp_all add: n_def word_less_nat_alt)
  define m where "m = (if functionType info = Fragment_function then 16 + n else n)"
  have "pushedBufferBinding info bd = word_of_nat m" using n(2) by (simp add: pushedBufferBinding_def m_def)
  moreover have "ucast (word_of_nat m :: u64) = (word_of_nat m :: u32)"
    using n(1) by (simp add: unsigned_of_nat take_bit_nat_eq_self m_def)
  moreover have "m < 32" "(if m < 16 then Vertex_function else Fragment_function) = functionType info"
    using n(1) \<open>isGraphicsStage (functionType info)\<close> by (auto simp: m_def isGraphicsStage_def)
  ultimately show ?thesis
    using \<open>pushDescriptorsEnabled env\<close> by (force simp: bufferSetLayout_def image_iff)
qed

lemma own_entry:
  assumes "bd \<in> set (bindings info)" "\<not> (bind_type bd = Buffer_binding \<and> pushesBuffers env info)" "bind_type bd \<noteq> Vertex_input_binding"
  obtains d where "binding_descriptor env info bd = Some d"
    "(ucast (internalIndex bd), d, functionType info) \<in> set (snd (createFunctionSetLayout env mp (Some info)))"
proof -
  obtain d where d: "binding_descriptor env info bd = Some d"
    using assms(3) by (cases "bind_type bd") (auto simp: binding_descriptor_def)
  then have "(ucast (internalIndex bd), d, functionType info) \<in> set (layout_binding env info bd)"
    using assms(2) by (auto simp: layout_binding_def)
  then show thesis using assms(1) d that by (auto simp: createFunctionSetLayout_def)
qed

lemma find_binding_Some:
  assumes "find_binding info n = Some bd"
  shows "bd \<in> set (bindings info)" "ucast (internalIndex bd) = n" "bind_type bd \<noteq> Vertex_input_binding"
proof -
  have *: "bd \<in> set (bindings info) \<and> internalIndex bd = ucast n \<and> bind_type bd \<noteq> Vertex_input_binding"
    using find_SomeD [OF assms [unfolded find_binding_def]] by simp
  then show "bd \<in> set (bindings info)" "bind_type bd \<noteq> Vertex_input_binding" by blast+
  show "ucast (internalIndex bd) = n" using * by (simp add: unsigned_ucast_eq take_bit_word_eq_self)
qed

lemma literal_bounds: "literal_at words d v p \<Longrightarrow> p < length words"
  using instrs_bounds by (fastforce simp: literal_at_def decorate_def)

lemma remapped_literals:
  assumes "find_binding info (words ! b) = Some bd" "s \<noteq> 0" "b \<noteq> 0" "s \<noteq> b" "s < length words" "b < length words"
    "location env info (words ! b) bd = (n, m, d)"
  shows "remap_target env info (s, b) words ! s = n \<and> remap_target env info (s, b) words ! b = m"
  using assms by (auto simp: remap_target_def location_def split: if_splits)

text \<open>Changing literals of targets keeps the scan.\<close>

lemma literals_keep_scan:
  assumes scan: "scan_words words 5 0 [] = Some r" and good: "good_targets words ts" and len: "length words' = length words"
    and other: "\<And>p. \<forall>(v, s, b) \<in> set ts. both (s, b) \<longrightarrow> p \<noteq> s \<and> p \<noteq> b \<Longrightarrow> words' ! p = words ! p"
  shows "scan_words words' 5 0 [] = Some r"
proof (rule scan_cong [OF scan len])
  have l: "\<exists>k. k \<in> set (instrs words 5) \<and> decorate words k \<and> p = k + 3" if "(v, s, b) \<in> set ts" "both (s, b)" "p = s \<or> p = b" for v s b p
    using good that by (fastforce simp: good_targets_def both_def literal_at_def)
  show "\<forall>k \<in> set (instrs words 5). words' ! k = words ! k \<and> (decorate words k \<longrightarrow> words' ! (k + 1) = words ! (k + 1) \<and> words' ! (k + 2) = words ! (k + 2))"
  proof (intro ballI conjI impI)
    fix k assume k: "k \<in> set (instrs words 5)"
    have "words' ! q = words ! q" if q: "\<And>j. j \<in> set (instrs words 5) \<Longrightarrow> decorate words j \<Longrightarrow> q \<noteq> j + 3" for q
      by (rule other) (use l q in blast)
    moreover have "k + o' \<noteq> j + 3" if "j \<in> set (instrs words 5)" "decorate words j" "o' = 0 \<or> decorate words k \<and> o' < 3" for j o'
      using instrs_apart [OF k that(1)] instrs_bounds [OF k] that(2,3) by (auto simp: decorate_def)
    ultimately have *: "words' ! (k + o') = words ! (k + o')" if "o' = 0 \<or> decorate words k \<and> o' < 3" for o'
      using that by blast
    show "words' ! k = words ! k" "decorate words k \<Longrightarrow> words' ! (k + 1) = words ! (k + 1)" "decorate words k \<Longrightarrow> words' ! (k + 2) = words ! (k + 2)"
      using * [of 0] * [of 1] * [of 2] by simp_all
  qed
qed

text \<open>The layouts have an entry for every location.\<close>

lemma location_entry:
  assumes "find_binding info n0 = Some bd" "location env info n0 bd = (n, m, d)"
    and stage: "functionType info = Vertex_function \<and> vertex = info \<or> functionType info = Fragment_function \<and> fragment = Some info"
  shows "\<exists>d'. d = Some d' \<and> (m, d', functionType info) \<in> set (snd (set_layouts env mp vertex fragment ! unat n))"
proof (cases "bind_type bd = Buffer_binding \<and> pushesBuffers env info")
  case True
  then show ?thesis using assms(2) pushed_entry [of env info bd] find_binding_Some(1) [OF assms(1)]
    by (auto simp: location_def set_layouts_def)
next
  case False
  note bd = find_binding_Some [OF assms(1)]
  have nmd: "n = stageSet (functionType info)" "m = n0" "d = binding_descriptor env info bd"
    using assms(2) False by (auto simp: location_def)
  have "set_layouts env mp vertex fragment ! unat n = createFunctionSetLayout env mp (Some info)"
    using stage nmd(1) by (elim disjE conjE) (simp_all add: set_layouts_def stageSet_def)
  then show ?thesis using own_entry [OF bd(1) False bd(3), of mp] nmd bd(2) by metis
qed

lemma moved_place:
  assumes good: "good_targets words ts" and t: "(v, s, b) \<in> set ts" "s \<noteq> 0" "b \<noteq> 0"
    and moved: "words' ! s = remap_target env info (s, b) words ! s" "words' ! b = remap_target env info (s, b) words ! b"
    and stage: "functionType info = Vertex_function \<and> vertex = info \<or> functionType info = Fragment_function \<and> fragment = Some info"
  shows "case find_binding info (words ! b) of
           None \<Rightarrow> words' ! s = words ! s \<and> words' ! b = words ! b
         | Some bd \<Rightarrow> \<exists>d. location env info (words ! b) bd = (words' ! s, words' ! b, Some d)
             \<and> (words' ! b, d, functionType info) \<in> set (snd (set_layouts env mp vertex fragment ! unat (words' ! s)))"
proof (cases "find_binding info (words ! b)")
  case None
  then show ?thesis using moved by (simp add: remap_target_def)
next
  case (Some bd)
  have lit: "literal_at words 34 v s" "literal_at words 33 v b" using good t by (auto simp: good_targets_def)
  then have "s \<noteq> b" using literal_unique(1) by fastforce
  obtain n m d where loc: "location env info (words ! b) bd = (n, m, d)" by (cases "location env info (words ! b) bd")
  then have w: "words' ! s = n" "words' ! b = m"
    using remapped_literals [OF Some t(2,3) \<open>s \<noteq> b\<close> literal_bounds [OF lit(1)] literal_bounds [OF lit(2)] loc] moved by simp_all
  then show ?thesis using location_entry [OF Some loc stage, of mp] Some loc by auto
qed

text \<open>
  C21: A rewritten shader module agrees with the layouts of its pipeline. When \<open>remapDescriptorSets\<close>
  accepts a module of a graphics function, in whatever order the map of targets is walked, the result
  has the same instructions with the same targets, and only literals of targets differ. Every variable
  with a set and a binding that the function uses has moved to a place for which the layouts of every
  pipeline with this function in its stage have an entry, with the type of the resource and for
  this stage: a pushed buffer to its number in set 0, everything else to its old number in the set
  of the stage. A variable the function does not use keeps its place.
\<close>

theorem module_matches_layouts:
  assumes accepted: "remapDescriptorSets env order info words = (True, words')"
    and order: "\<forall>ts. mset (order ts) = mset ts"
    and stage: "functionType info = Vertex_function \<and> vertex = info \<or> functionType info = Fragment_function \<and> fragment = Some info"
  shows "\<exists>ts. scan_words words 5 0 [] = Some (1, ts) \<and> scan_words words' 5 0 [] = Some (1, ts) \<and> length words' = length words
    \<and> (\<forall>p. (\<forall>(v, s, b) \<in> set ts. p \<noteq> s \<and> p \<noteq> b) \<longrightarrow> words' ! p = words ! p)
    \<and> (\<forall>(v, s, b) \<in> set ts. s \<noteq> 0 \<and> b \<noteq> 0 \<longrightarrow>
        (case find_binding info (words ! b) of
           None \<Rightarrow> words' ! s = words ! s \<and> words' ! b = words ! b
         | Some bd \<Rightarrow> \<exists>d. location env info (words ! b) bd = (words' ! s, words' ! b, Some d)
             \<and> (words' ! b, d, functionType info) \<in> set (snd (set_layouts env mp vertex fragment ! unat (words' ! s)))))"
proof -
  obtain ts where scan: "scan_words words 5 0 [] = Some (1, ts)"
    and w': "words' = foldl (\<lambda>ws (v, t). remap_target env info t ws) words (order ts)"
    using accepted by (auto simp: remapDescriptorSets_def split: if_splits option.splits prod.splits)
  have good: "good_targets words ts" using scan_targets [OF scan] by (simp add: good_targets_def)
  have set: "set (order ts) = set ts" using order by (metis set_mset_mset)
  have "mset (map fst (order ts)) = mset (map fst ts)" using order by simp
  then have dist: "distinct (map fst (order ts))" using good mset_eq_imp_distinct_iff unfolding good_targets_def by blast
  have "apart (order ts)" using good_apart [OF good] by (simp add: apart_def set)
  note fold = fold_remap [OF dist this, of env info words, unfolded set, folded w']
  have other: "words' ! p = words ! p" if "\<forall>(v, s, b) \<in> set ts. both (s, b) \<longrightarrow> p \<noteq> s \<and> p \<noteq> b" for p
    using fold that by fastforce
  have len: "length words' = length words" using fold by blast
  then have "scan_words words' 5 0 [] = Some (1, ts)" using literals_keep_scan [OF scan good] other by blast
  moreover have "\<forall>p. (\<forall>(v, s, b) \<in> set ts. p \<noteq> s \<and> p \<noteq> b) \<longrightarrow> words' ! p = words ! p"
    using other by fastforce
  moreover have "\<forall>(v, s, b) \<in> set ts. s \<noteq> 0 \<and> b \<noteq> 0 \<longrightarrow>
        (case find_binding info (words ! b) of
           None \<Rightarrow> words' ! s = words ! s \<and> words' ! b = words ! b
         | Some bd \<Rightarrow> \<exists>d. location env info (words ! b) bd = (words' ! s, words' ! b, Some d)
             \<and> (words' ! b, d, functionType info) \<in> set (snd (set_layouts env mp vertex fragment ! unat (words' ! s))))" (is "Ball _ ?P")
  proof (rule ballI)
    fix x assume "x \<in> set ts"
    moreover obtain v s b where x: "x = (v, s, b)" by (cases x)
    moreover have "both (s, b) \<Longrightarrow> words' ! s = remap_target env info (s, b) words ! s \<and> words' ! b = remap_target env info (s, b) words ! b"
      using fold \<open>x \<in> set ts\<close> x by fastforce
    ultimately have m: "both (s, b) \<Longrightarrow> words' ! s = remap_target env info (s, b) words ! s \<and> words' ! b = remap_target env info (s, b) words ! b"
      and ts: "(v, s, b) \<in> set ts" by simp_all
    show "?P x" unfolding x prod.case
    proof
      assume nz: "s \<noteq> 0 \<and> b \<noteq> 0"
      then have m': "words' ! s = remap_target env info (s, b) words ! s \<and> words' ! b = remap_target env info (s, b) words ! b"
        using m by (simp add: both_def)
      show "case find_binding info (words ! b) of
           None \<Rightarrow> words' ! s = words ! s \<and> words' ! b = words ! b
         | Some bd \<Rightarrow> \<exists>d. location env info (words ! b) bd = (words' ! s, words' ! b, Some d)
             \<and> (words' ! b, d, functionType info) \<in> set (snd (set_layouts env mp vertex fragment ! unat (words' ! s)))"
        by (rule moved_place [OF good ts conjunct1 [OF nz] conjunct2 [OF nz] conjunct1 [OF m'] conjunct2 [OF m'] stage])
    qed
  qed
  ultimately show ?thesis using scan len by (intro exI [of _ ts] conjI)
qed

text \<open>A fragment function with a buffer and a texture.\<close>

definition example_module :: "u32 list" where
  "example_module = [0x07230203, 0, 0, 20, 0, 0x0002000F, 1, 0x00040047, 7, 34, 0, 0x00040047, 7, 33, 3,
     0x00040047, 8, 33, 4, 0x00040047, 8, 34, 0]"

definition example_buffer :: binding where
  "example_buffer = \<lparr>bind_type = Buffer_binding, bind_index = Some 0, internalIndex = 3, embeddedSamplerIndex = 0\<rparr>"

definition example_texture :: binding where
  "example_texture = \<lparr>bind_type = Texture_binding True, bind_index = Some 0, internalIndex = 4, embeddedSamplerIndex = 0\<rparr>"

definition example_function :: function_info where
  "example_function = \<lparr>functionType = Fragment_function, bindings = [example_buffer, example_texture], embeddedSamplerStates = []\<rparr>"

lemma example_bindings [simp]:
  "find_binding example_function 3 = Some example_buffer" "find_binding example_function 4 = Some example_texture"
  "bind_type example_buffer = Buffer_binding" "bind_type example_texture = Texture_binding True"
  "functionType example_function = Fragment_function"
  by (simp_all add: find_binding_def example_function_def example_buffer_def example_texture_def)

lemma example_scan: "scan_words example_module 5 0 [] = Some (1, [(7, 10, 14), (8, 22, 18)])"
  by (simp add: example_module_def scan_words.simps note_decoration_def word_count_def opcode_def target_of_def
      drop_bit_eq_div word_div_def)

definition example_layout_env :: render_env where
  "example_layout_env = \<lparr>address = (\<lambda>n. 0), bufferLength = (\<lambda>n. 64), bufferHandle = id, imageView = id, samplerHandle = id,
     stageInfo = (\<lambda>p k. example_function), setLayout = (\<lambda>p k. 0), vertexInputBindings = (\<lambda>p. []), layoutHash = (\<lambda>n. 0),
     minStorageBufferOffsetAlignment = 4, minUniformBufferOffsetAlignment = 4, maxStorageBufferRange = 4096,
     maxDynamicStorageBuffers = 8, pushDescriptorsEnabled = True\<rparr>"

definition example_remapped :: "u32 list" where
  "example_remapped = [0x07230203, 0, 0, 20, 0, 0x0002000F, 1, 0x00040047, 7, 34, 0, 0x00040047, 7, 33, 19,
     0x00040047, 8, 33, 4, 0x00040047, 8, 34, 2]"

lemma example_pushes [simp]: "pushesBuffers example_layout_env example_function"
  by (simp add: pushesBuffers_def example_layout_env_def example_function_def isGraphicsStage_def example_buffer_def example_texture_def)

lemma example_words [simp]:
  "length example_module = 23" "example_module ! 0 = 0x07230203" "example_module ! 14 = 3" "example_module ! 18 = 4"
  "example_remapped ! 10 = 0" "example_remapped ! 14 = 19" "example_remapped ! 22 = 2" "example_remapped ! 18 = 4"
  by (simp_all add: example_module_def example_remapped_def)

lemma example_remap: "remapDescriptorSets example_layout_env rev example_function example_module = (True, example_remapped)"
proof -
  have "pushedBufferBinding example_function example_buffer = 19" by (simp add: pushedBufferBinding_def example_buffer_def)
  then show ?thesis
    by (simp add: remapDescriptorSets_def example_scan remap_target_def stageSet_def) (simp add: example_module_def example_remapped_def)
qed

theorem module_matches_layouts_witness:
  "remapDescriptorSets example_layout_env rev example_function example_module = (True, example_remapped)
   \<and> scan_words example_remapped 5 0 [] = Some (1, [(7, 10, 14), (8, 22, 18)])
   \<and> (\<exists>d. (19, d, Fragment_function) \<in> set (snd (set_layouts example_layout_env 32 example_function (Some example_function) ! 0)))
   \<and> (\<exists>d. (4, d, Fragment_function) \<in> set (snd (set_layouts example_layout_env 32 example_function (Some example_function) ! 2)))"
proof -
  have "\<forall>ts :: (u32 \<times> target) list. mset (rev ts) = mset ts" by simp
  note * = module_matches_layouts [OF example_remap this, where vertex = example_function and fragment = "Some example_function" and mp = 32]
  have "functionType example_function = Vertex_function \<and> example_function = example_function
    \<or> functionType example_function = Fragment_function \<and> Some example_function = Some example_function" by simp
  from * [OF this] show ?thesis using example_remap by (auto simp: example_scan)
qed

end
