(* ===== verification/RenderPipelines.thy ===== *)
theory RenderPipelines
  imports ShaderModules
begin

section \<open>Render pipelines\<close>

text \<open>
  \<open>native/renderer/render-pipeline.cpp\<close>: the Vulkan pipelines behind a Metal render pipeline state.
  A pipeline is described by the create info the code fills in; an optimised one has all of it, a
  linked one is put together from four libraries. The threads that draw and the tasks of the compiler
  run concurrently: each locked section, each atomic access and each Vulkan call outside the lock is
  one step of a thread.
\<close>

subsection \<open>Create infos\<close>

datatype primitive = Point | Line | LineStrip | Triangle | TriangleStrip | Other_primitive

definition pipelineIndex :: "primitive \<Rightarrow> nat outcome" where
  "pipelineIndex p =
     (case p of Point \<Rightarrow> Inr 0 | Line \<Rightarrow> Inr 1 | LineStrip \<Rightarrow> Inr 1 | Triangle \<Rightarrow> Inr 2 | TriangleStrip \<Rightarrow> Inr 2
      | Other_primitive \<Rightarrow> Inl (Throw ''BadEnumValue''))"

definition topologyPrimitive :: "nat \<Rightarrow> primitive" where
  "topologyPrimitive t = [Point, Line, Triangle] ! t"

datatype dynamic_state = Dyn_topology | Dyn_viewport | Dyn_scissor | Dyn_cull_mode | Dyn_front_face | Dyn_depth_bias
  | Dyn_depth_bias_enable | Dyn_rasterizer_discard | Dyn_depth_clamp | Dyn_depth_bounds | Dyn_depth_compare | Dyn_depth_test
  | Dyn_depth_write | Dyn_depth_bounds_test | Dyn_stencil_compare_mask | Dyn_stencil_op | Dyn_stencil_reference
  | Dyn_stencil_test | Dyn_stencil_write_mask | Dyn_blend_constants

definition vertexInputDynamic :: "dynamic_state list" where
  "vertexInputDynamic = [Dyn_topology]"

definition preRasterDynamic :: "bool \<Rightarrow> dynamic_state list" where
  "preRasterDynamic dynamicDepthClamp =
     [Dyn_viewport, Dyn_scissor, Dyn_cull_mode, Dyn_front_face, Dyn_depth_bias, Dyn_depth_bias_enable, Dyn_rasterizer_discard]
     @ (if dynamicDepthClamp then [Dyn_depth_clamp] else [])"

definition fragmentDynamic :: "dynamic_state list" where
  "fragmentDynamic = [Dyn_depth_bounds, Dyn_depth_compare, Dyn_depth_test, Dyn_depth_write, Dyn_depth_bounds_test,
     Dyn_stencil_compare_mask, Dyn_stencil_op, Dyn_stencil_reference, Dyn_stencil_test, Dyn_stencil_write_mask]"

definition outputDynamic :: "dynamic_state list" where
  "outputDynamic = [Dyn_blend_constants]"

text \<open>The fixed-function state; lengths and shading rates are the constant 1.\<close>

record raster_state =
  depthClampEnable :: bool
  polygonFill :: bool
  lineWidth :: nat

record sample_state =
  rasterizationSamples :: nat
  minSampleShading :: nat

definition fixed_raster :: "bool \<Rightarrow> raster_state" where
  "fixed_raster clamp = \<lparr>depthClampEnable = clamp, polygonFill = True, lineWidth = 1\<rparr>"

definition fixed_samples :: sample_state where
  "fixed_samples = \<lparr>rasterizationSamples = 1, minSampleShading = 1\<rparr>"

subsection \<open>The descriptor of a pipeline state\<close>

datatype step_function = PerVertex | PerInstance | Other_step

record vertex_layout =
  stride :: u64
  stepRate :: u64
  stepFunction :: step_function

record vertex_attribute =
  va_format :: nat
  va_offset :: u64
  va_bufferIndex :: nat

text \<open>Layouts and attributes in the order in which the maps are walked.\<close>

record vertex_descriptor =
  layouts :: "(nat \<times> vertex_layout) list"
  attributes :: "(nat \<times> vertex_attribute) list"

record color_attachment =
  pixelFormat :: "nat option"
  blendingEnabled :: bool
  sourceRGBBlendFactor :: nat
  destinationRGBBlendFactor :: nat
  rgbBlendOperation :: nat
  sourceAlphaBlendFactor :: nat
  destinationAlphaBlendFactor :: nat
  alphaBlendOperation :: nat
  colorWriteMask :: nat

datatype topology_class = Unspecified_topology | Point_topology | Line_topology | Triangle_topology

record render_pipeline_descriptor =
  colorAttachments :: "color_attachment list"
  vertexDescriptor :: "vertex_descriptor option"
  inputPrimitiveTopology :: topology_class
  depthFormat :: "nat option"
  stencilFormat :: "nat option"
  vertexModule :: nat
  fragmentModule :: "nat option"
  rasterSampleCount :: nat

text \<open>The conversions of enumerations, the device's abilities and the number of compiler threads.\<close>

record pipeline_env =
  vkFormat :: "nat \<Rightarrow> nat"
  vkBlendFactor :: "nat \<Rightarrow> nat"
  vkBlendOp :: "nat \<Rightarrow> nat"
  vkWriteMask :: "nat \<Rightarrow> nat"
  vkVertexFormat :: "nat \<Rightarrow> nat"
  hasDepth :: "nat \<Rightarrow> bool"
  hasStencil :: "nat \<Rightarrow> bool"
  dynamicDepthClamp :: bool
  pipelineLibraries :: bool
  workers :: nat

text \<open>The constructor drops the trailing attachments with an invalid format.\<close>

fun trim_attachments :: "color_attachment list \<Rightarrow> color_attachment list" where
  "trim_attachments cs =
     (if cs \<noteq> [] \<and> pixelFormat (last cs) = None then trim_attachments (butlast cs) else cs)"

declare trim_attachments.simps [simp del]

definition vertexInputBindingsOf :: "vertex_descriptor option \<Rightarrow> nat list" where
  "vertexInputBindingsOf d = (case d of None \<Rightarrow> [] | Some v \<Rightarrow> map fst (layouts v))"

subsection \<open>Vertex input\<close>

type_synonym vk_binding = "u32 \<times> u32 \<times> bool"
type_synonym vk_attribute = "u32 \<times> u32 \<times> nat \<times> u32"

text \<open>The loop over the layouts: Metal index to Vulkan index, and the bindings made.\<close>

fun input_bindings :: "(nat \<times> vertex_layout) list \<Rightarrow> (nat \<times> u32) list \<Rightarrow> vk_binding list \<Rightarrow>
    ((nat \<times> u32) list \<times> vk_binding list) outcome" where
  "input_bindings [] m bs = Inr (m, bs)"
| "input_bindings ((i, l) # ls) m bs =
     (if stepRate l \<noteq> 1 then Inl (Throw ''TODO: support step rates other than 1'')
      else if stepFunction l \<noteq> PerVertex \<and> stepFunction l \<noteq> PerInstance
      then Inl (Throw ''TODO: support step functions other than per-vertex and per-instance'')
      else let k = of_nat (length bs) in
        input_bindings ls ((i, k) # m) (bs @ [(k, ucast (stride l), stepFunction l = PerVertex)]))"

text \<open>An attribute of a buffer without layout gets index 0 by \<open>operator[]\<close>.\<close>

definition vertex_input :: "pipeline_env \<Rightarrow> vertex_descriptor option \<Rightarrow> (vk_binding list \<times> vk_attribute list) outcome" where
  "vertex_input env d =
     (case d of
        None \<Rightarrow> Inr ([], [])
      | Some v \<Rightarrow> (case input_bindings (layouts v) [] [] of
          Inl e \<Rightarrow> Inl e
        | Inr (m, bs) \<Rightarrow> Inr (bs, map (\<lambda>(i, a). (of_nat i, (case map_of m (va_bufferIndex a) of None \<Rightarrow> 0 | Some k \<Rightarrow> k),
            vkVertexFormat env (va_format a), ucast (va_offset a))) (attributes v))))"

subsection \<open>Blending and attachment formats\<close>

type_synonym vk_blend = "bool \<times> nat \<times> nat \<times> nat \<times> nat \<times> nat \<times> nat \<times> nat"

definition color_blend :: "pipeline_env \<Rightarrow> color_attachment list \<Rightarrow> vk_blend list" where
  "color_blend env cs = map (\<lambda>c. (blendingEnabled c, vkBlendFactor env (sourceRGBBlendFactor c),
     vkBlendFactor env (destinationRGBBlendFactor c), vkBlendOp env (rgbBlendOperation c),
     vkBlendFactor env (sourceAlphaBlendFactor c), vkBlendFactor env (destinationAlphaBlendFactor c),
     vkBlendOp env (alphaBlendOperation c), vkWriteMask env (colorWriteMask c))) cs"

record rendering_info =
  ri_colors :: "nat option list"
  ri_depth :: "nat option"
  ri_stencil :: "nat option"

definition fillRenderingInfo :: "pipeline_env \<Rightarrow> color_attachment list \<Rightarrow> nat option \<Rightarrow> nat option \<Rightarrow> rendering_info" where
  "fillRenderingInfo env cs depth stencil =
     (let ds = (if depth \<noteq> None then depth else stencil) in
      \<lparr>ri_colors = map (\<lambda>c. map_option (vkFormat env) (pixelFormat c)) cs,
       ri_depth = (case ds of Some f \<Rightarrow> if hasDepth env f then Some (vkFormat env f) else None | None \<Rightarrow> None),
       ri_stencil = (case ds of Some f \<Rightarrow> if hasStencil env f then Some (vkFormat env f) else None | None \<Rightarrow> None)\<rparr>)"

subsection \<open>Pipelines and pipeline libraries\<close>

record full_info =
  fi_stages :: "(function_type \<times> nat) list"
  fi_input :: "vk_binding list \<times> vk_attribute list"
  fi_primitive :: primitive
  fi_raster :: raster_state
  fi_samples :: sample_state
  fi_blend :: "vk_blend list"
  fi_dynamic :: "dynamic_state list"
  fi_rendering :: rendering_info

datatype part =
    Vertex_input_part "vk_binding list \<times> vk_attribute list" primitive "dynamic_state list"
  | Pre_raster_part nat raster_state "dynamic_state list"
  | Fragment_part "nat option" sample_state "dynamic_state list"
  | Output_part rendering_info "vk_blend list" sample_state "dynamic_state list"

datatype pipeline = Monolithic full_info | Library part | Linked "part list"

definition stage_list :: "nat \<Rightarrow> nat option \<Rightarrow> (function_type \<times> nat) list" where
  "stage_list v f = (Vertex_function, v) # (case f of None \<Rightarrow> [] | Some m \<Rightarrow> [(Fragment_function, m)])"

text \<open>The create info of \<open>compilePipeline\<close>.\<close>

definition full_create_info :: "pipeline_env \<Rightarrow> render_pipeline_descriptor \<Rightarrow> primitive \<Rightarrow> bool \<Rightarrow> full_info outcome" where
  "full_create_info env d p clamp =
     (case vertex_input env (vertexDescriptor d) of
        Inl e \<Rightarrow> Inl e
      | Inr input \<Rightarrow> Inr \<lparr>fi_stages = stage_list (vertexModule d) (fragmentModule d), fi_input = input, fi_primitive = p,
          fi_raster = fixed_raster clamp, fi_samples = fixed_samples, fi_blend = color_blend env (colorAttachments d),
          fi_dynamic = vertexInputDynamic @ preRasterDynamic (dynamicDepthClamp env) @ fragmentDynamic @ outputDynamic,
          fi_rendering = fillRenderingInfo env (colorAttachments d) (depthFormat d) (stencilFormat d)\<rparr>)"

text \<open>The libraries: those of a shader (\<open>GraphicsLibraries::compile\<close>), and the two of \<open>linkPipeline\<close>.\<close>

definition shader_part :: "pipeline_env \<Rightarrow> function_type \<Rightarrow> nat option \<Rightarrow> part" where
  "shader_part env t m =
     (if t = Vertex_function then Pre_raster_part (the m) (fixed_raster False) (preRasterDynamic (dynamicDepthClamp env))
      else Fragment_part m fixed_samples fragmentDynamic)"

definition input_part :: "pipeline_env \<Rightarrow> render_pipeline_descriptor \<Rightarrow> nat \<Rightarrow> part outcome" where
  "input_part env d t =
     (case vertex_input env (vertexDescriptor d) of
        Inl e \<Rightarrow> Inl e
      | Inr input \<Rightarrow> Inr (Vertex_input_part input (topologyPrimitive t) vertexInputDynamic))"

definition output_part :: "pipeline_env \<Rightarrow> render_pipeline_descriptor \<Rightarrow> part" where
  "output_part env d = Output_part (fillRenderingInfo env (colorAttachments d) (depthFormat d) (stencilFormat d))
     (color_blend env (colorAttachments d)) fixed_samples outputDynamic"

text \<open>What Vulkan makes of four linked libraries.\<close>

definition linked_info :: "part list \<Rightarrow> full_info option" where
  "linked_info ps =
     (case ps of
        [Vertex_input_part input p d1, Pre_raster_part v r d2, Fragment_part f m d3, Output_part ri b m' d4] \<Rightarrow>
          if m = m' then Some \<lparr>fi_stages = stage_list v f, fi_input = input, fi_primitive = p, fi_raster = r, fi_samples = m,
            fi_blend = b, fi_dynamic = d1 @ d2 @ d3 @ d4, fi_rendering = ri\<rparr> else None
      | _ \<Rightarrow> None)"

definition pipeline_info :: "pipeline \<Rightarrow> full_info option" where
  "pipeline_info p = (case p of Monolithic i \<Rightarrow> Some i | Linked ps \<Rightarrow> linked_info ps | Library _ \<Rightarrow> None)"

lemma linked_info_full:
  assumes "input_part env d t = Inr ip"
  shows "\<exists>i. full_create_info env d (topologyPrimitive t) False = Inr i
    \<and> linked_info [ip, shader_part env Vertex_function (Some (vertexModule d)),
        shader_part env Fragment_function (fragmentModule d), output_part env d] = Some i"
  using assms by (auto simp: input_part_def full_create_info_def linked_info_def shader_part_def output_part_def split: sum.splits)

end
