(* ===== verification/PipelineStates.thy ===== *)
theory PipelineStates
  imports RenderPipelines
begin

section \<open>Compiling and publishing render pipelines\<close>

text \<open>
  The shared state of a \<open>PrivateRenderPipelineState\<close> and its operations: \<open>pipelineFor\<close>,
  \<open>compilePipeline\<close>, \<open>linkPipeline\<close>, \<open>optimizeLater\<close>, \<open>preparePipeline\<close> and the destructor. Arrays are
  functions on indices. \<open>live\<close> is what Vulkan holds: each pipeline handle with its description.
\<close>

datatype pipeline_task = Draw primitive bool | Prepare | Optimize nat

text \<open>
  Where a thread is: \<open>Check\<close>, \<open>Create\<close> and \<open>Publish\<close> are the sections of \<open>compilePipeline\<close>, \<open>True\<close> for
  the probe that does not compile; \<open>Enqueue\<close> is the first section of \<open>optimizeLater\<close>, then the submission
  and the section that records its result, with the pipeline to return.
\<close>

datatype pc =
    Lookup
  | Check bool
  | Create bool
  | Publish bool nat
  | Link
  | Enqueue nat
  | Enqueue_submit nat
  | Enqueue_record nat "nat option"
  | Wait_preparation
  | Lookup_again
  | Returned "nat option"
  | Threw

record pso =
  pipelines :: "nat \<Rightarrow> nat option"
  clampedPipelines :: "nat \<Rightarrow> nat option"
  linkedPipelines :: "nat \<Rightarrow> nat option"
  vertexInputLibraries :: "nat \<Rightarrow> nat option"
  outputLibrary :: "nat option"
  ready :: "nat \<Rightarrow> nat option"
  optimizing :: "nat \<Rightarrow> bool"
  deferred :: "nat \<Rightarrow> bool"
  preparation :: "nat option"
  backgroundCompiles :: "nat list"
  tasks :: "(pipeline_task \<times> pc) list"
  live :: "nat \<rightharpoonup> pipeline"
  alive :: bool

text \<open>The answers of a step: the handles Vulkan creates, \<open>None\<close> for a failed call (which leaves a null
  handle), whether the shader libraries are built or building one threw, and what the compiler says to a submission.\<close>

record answers =
  created :: "nat option list"
  librariesBuilt :: "bool outcome"
  submission :: "bool outcome"

definition index_of :: "primitive \<Rightarrow> nat" where
  "index_of p = (case pipelineIndex p of Inr t \<Rightarrow> t | Inl _ \<Rightarrow> 0)"

definition new_handle :: "nat option \<Rightarrow> pipeline \<Rightarrow> pso \<Rightarrow> pso" where
  "new_handle h p s = (case h of None \<Rightarrow> s | Some h \<Rightarrow> s\<lparr>live := (live s)(h \<mapsto> p)\<rparr>)"

subsection \<open>The constructor\<close>

text \<open>The guards of \<open>preparePipeline\<close>; the descriptor has its attachments trimmed.\<close>

definition prepares :: "pipeline_env \<Rightarrow> render_pipeline_descriptor \<Rightarrow> bool" where
  "prepares env d \<longleftrightarrow>
     workers env \<noteq> 0 \<and> (inputPrimitiveTopology d = Unspecified_topology \<or> inputPrimitiveTopology d = Triangle_topology)
     \<and> rasterSampleCount d \<le> 1 \<and> list_all (\<lambda>c. pixelFormat c \<noteq> None) (colorAttachments d)
     \<and> (depthFormat d = None \<or> stencilFormat d = None \<or> depthFormat d = stencilFormat d)"

definition trimmed :: "render_pipeline_descriptor \<Rightarrow> render_pipeline_descriptor" where
  "trimmed d = d\<lparr>colorAttachments := trim_attachments (colorAttachments d)\<rparr>"

definition new_pso :: "pipeline_env \<Rightarrow> render_pipeline_descriptor \<Rightarrow> bool outcome \<Rightarrow> pso outcome" where
  "new_pso env d answer =
     (let s = \<lparr>pipelines = (\<lambda>t. None), clampedPipelines = (\<lambda>t. None), linkedPipelines = (\<lambda>t. None),
            vertexInputLibraries = (\<lambda>t. None), outputLibrary = None, ready = (\<lambda>i. None), optimizing = (\<lambda>t. False),
            deferred = (\<lambda>t. False), preparation = None, backgroundCompiles = [], tasks = [], live = Map.empty, alive = True\<rparr>
      in if \<not> prepares env d then Inr s
         else case answer of
           Inl e \<Rightarrow> Inl e
         | Inr taken \<Rightarrow> Inr (if taken then s\<lparr>preparation := Some 0, tasks := [(Prepare, Check True)]\<rparr> else s))"

subsection \<open>The sections of the operations\<close>

text \<open>The primitive and the clamp a task compiles.\<close>

definition compile_args :: "pipeline_env \<Rightarrow> pipeline_task \<Rightarrow> primitive \<times> bool" where
  "compile_args env k =
     (case k of Draw p c \<Rightarrow> (p, c \<and> \<not> dynamicDepthClamp env) | Prepare \<Rightarrow> (Triangle, False) | Optimize t \<Rightarrow> (topologyPrimitive t, False))"

text \<open>What follows a compile, by the caller: the pipeline for a draw, or the next attempt.\<close>

definition after_link :: "pso \<Rightarrow> pipeline_task \<Rightarrow> nat option \<Rightarrow> pc" where
  "after_link s k h =
     (case k of
        Draw p c \<Rightarrow> (case h of Some h \<Rightarrow> Enqueue h
          | None \<Rightarrow> if index_of p = 2 \<and> preparation s \<noteq> None then Wait_preparation else Check False)
      | _ \<Rightarrow> Check False)"

definition after_compile :: "pipeline_env \<Rightarrow> pso \<Rightarrow> pipeline_task \<Rightarrow> nat option \<Rightarrow> pc" where
  "after_compile env s k h =
     (case h of
        Some h \<Rightarrow> Returned (Some h)
      | None \<Rightarrow> (if pipelineLibraries env then Link else after_link s k None))"

definition variant :: "bool \<Rightarrow> pso \<Rightarrow> nat \<Rightarrow> nat option" where
  "variant clamp s = (if clamp then clampedPipelines s else pipelines s)"

definition check_section :: "pipeline_env \<Rightarrow> pipeline_task \<Rightarrow> bool \<Rightarrow> pso \<Rightarrow> pc" where
  "check_section env k probe s =
     (let (p, clamp) = compile_args env k in
      case variant clamp s (index_of p) of Some h \<Rightarrow> after_compile env s k (Some h) | None \<Rightarrow> Create probe)"

definition create_call :: "pipeline_env \<Rightarrow> render_pipeline_descriptor \<Rightarrow> answers \<Rightarrow> pipeline_task \<Rightarrow> bool \<Rightarrow> pso \<Rightarrow> pc \<times> pso" where
  "create_call env d a k probe s =
     (let (p, clamp) = compile_args env k in
      case full_create_info env d p clamp of
        Inl e \<Rightarrow> (Threw, s)
      | Inr info \<Rightarrow> (case created a ! 0 of
            None \<Rightarrow> (if probe then after_compile env s k None else Threw, s)
          | Some h \<Rightarrow> (Publish probe h, new_handle (Some h) (Monolithic info) s)))"

definition publish_section :: "pipeline_env \<Rightarrow> pipeline_task \<Rightarrow> nat \<Rightarrow> pso \<Rightarrow> pc \<times> pso" where
  "publish_section env k h s =
     (let (p, clamp) = compile_args env k; t = index_of p in
      case variant clamp s t of
        Some h' \<Rightarrow> (after_compile env s k (Some h'), s\<lparr>live := (live s)(h := None)\<rparr>)
      | None \<Rightarrow> (let s = (if clamp then s\<lparr>clampedPipelines := (clampedPipelines s)(t := Some h)\<rparr>
                          else s\<lparr>pipelines := (pipelines s)(t := Some h)\<rparr>);
                     s = s\<lparr>ready := (ready s)(t + (if clamp then 3 else 0) := Some h)\<rparr>
                 in (after_compile env s k (Some h), s)))"

text \<open>The three parts of \<open>linkPipeline\<close> under the lock: the vertex input library, the output library and
  the link. A library that cannot be created stays null.\<close>

definition link_input :: "pipeline_env \<Rightarrow> render_pipeline_descriptor \<Rightarrow> nat option \<Rightarrow> nat \<Rightarrow> pso \<Rightarrow> unit outcome \<times> pso" where
  "link_input env d h t s =
     (if vertexInputLibraries s t \<noteq> None then (Inr (), s)
      else case input_part env d t of
        Inl e \<Rightarrow> (Inl e, s)
      | Inr part \<Rightarrow> (Inr (), (new_handle h (Library part) s)\<lparr>vertexInputLibraries := (vertexInputLibraries s)(t := h)\<rparr>))"

definition link_output :: "pipeline_env \<Rightarrow> render_pipeline_descriptor \<Rightarrow> nat option \<Rightarrow> pso \<Rightarrow> pso" where
  "link_output env d h s =
     (if outputLibrary s \<noteq> None then s
      else (new_handle h (Library (output_part env d)) s)\<lparr>outputLibrary := h\<rparr>)"

definition library_part :: "pso \<Rightarrow> nat option \<Rightarrow> part option" where
  "library_part s h = (case h of None \<Rightarrow> None | Some h \<Rightarrow> (case live s h of Some (Library p) \<Rightarrow> Some p | _ \<Rightarrow> None))"

definition link_parts :: "pipeline_env \<Rightarrow> render_pipeline_descriptor \<Rightarrow> nat option \<Rightarrow> nat \<Rightarrow> pso \<Rightarrow> nat option \<times> pso" where
  "link_parts env d h t s =
     (case (library_part s (vertexInputLibraries s t), library_part s (outputLibrary s), h) of
        (Some ip, Some op, Some h) \<Rightarrow>
          (let s = new_handle (Some h) (Linked [ip, shader_part env Vertex_function (Some (vertexModule d)),
                     shader_part env Fragment_function (fragmentModule d), op]) s;
               s = s\<lparr>linkedPipelines := (linkedPipelines s)(t := Some h)\<rparr>;
               s = (if ready s t = None then s\<lparr>ready := (ready s)(t := Some h)\<rparr> else s)
           in (ready s t, s))
      | _ \<Rightarrow> (None, s))"

definition linkPipeline :: "pipeline_env \<Rightarrow> render_pipeline_descriptor \<Rightarrow> answers \<Rightarrow> nat \<Rightarrow> pso \<Rightarrow> nat option outcome \<times> pso" where
  "linkPipeline env d a t s =
     (case librariesBuilt a of Inl e \<Rightarrow> (Inl e, s) | Inr built \<Rightarrow>
      if \<not> built then (Inr None, s)
      else if linkedPipelines s t \<noteq> None then (Inr (ready s t), s)
      else and_then (link_input env d (created a ! 0) t s) (\<lambda>_ s.
        let (r, s) = link_parts env d (created a ! 2) t (link_output env d (created a ! 1) s) in (Inr r, s)))"

definition enqueue_section :: "pipeline_env \<Rightarrow> pipeline_task \<Rightarrow> nat \<Rightarrow> pso \<Rightarrow> pc \<times> pso" where
  "enqueue_section env k h s =
     (let t = index_of (fst (compile_args env k)) in
      if optimizing s t \<or> workers env = 0 \<or> (t = 2 \<and> preparation s \<noteq> None) then (Returned (Some h), s)
      else (Enqueue_submit h, s\<lparr>optimizing := (optimizing s)(t := True)\<rparr>))"

definition submit_call :: "pipeline_env \<Rightarrow> answers \<Rightarrow> pipeline_task \<Rightarrow> nat \<Rightarrow> pso \<Rightarrow> pc \<times> pso" where
  "submit_call env a k h s =
     (case submission a of
        Inl e \<Rightarrow> (Threw, s)
      | Inr False \<Rightarrow> (Enqueue_record h None, s)
      | Inr True \<Rightarrow> (Enqueue_record h (Some (length (tasks s))),
          s\<lparr>tasks := tasks s @ [(Optimize (index_of (fst (compile_args env k))), Check False)]\<rparr>))"

definition record_section :: "pipeline_env \<Rightarrow> pipeline_task \<Rightarrow> nat \<Rightarrow> nat option \<Rightarrow> pso \<Rightarrow> pc \<times> pso" where
  "record_section env k h task s =
     (let t = index_of (fst (compile_args env k)) in
      case task of
        Some i \<Rightarrow> (Returned (Some h), s\<lparr>backgroundCompiles := backgroundCompiles s @ [i], deferred := (deferred s)(t := False)\<rparr>)
      | None \<Rightarrow> (Returned (Some h), s\<lparr>optimizing := (optimizing s)(t := False), deferred := (deferred s)(t := True)\<rparr>))"

subsection \<open>The steps of a thread\<close>

definition lookup_section :: "pipeline_env \<Rightarrow> pipeline_task \<Rightarrow> pso \<Rightarrow> pc" where
  "lookup_section env k s =
     (let (p, clamp) = compile_args env k; i = index_of p + (if clamp then 3 else 0) in
      case ready s i of
        Some h \<Rightarrow> if i < 3 \<and> deferred s i then Enqueue h else Returned (Some h)
      | None \<Rightarrow> Check (\<not> clamp))"

text \<open>One step of a thread at \<open>pc\<close>, \<open>None\<close> when it has to wait or has ended.\<close>

definition run_pc :: "pipeline_env \<Rightarrow> render_pipeline_descriptor \<Rightarrow> answers \<Rightarrow> pipeline_task \<Rightarrow> pc \<Rightarrow> pso \<Rightarrow> (pc \<times> pso) option" where
  "run_pc env d a k pc s =
     (case pc of
        Lookup \<Rightarrow> Some (lookup_section env k s, s)
      | Check probe \<Rightarrow> Some (check_section env k probe s, s)
      | Create probe \<Rightarrow> Some (create_call env d a k probe s)
      | Publish probe h \<Rightarrow> Some (publish_section env k h s)
      | Link \<Rightarrow> (let (r, s) = linkPipeline env d a (index_of (fst (compile_args env k))) s in
          Some (case r of Inl e \<Rightarrow> Threw | Inr h \<Rightarrow> after_link s k h, s))
      | Enqueue h \<Rightarrow> Some (enqueue_section env k h s)
      | Enqueue_submit h \<Rightarrow> Some (submit_call env a k h s)
      | Enqueue_record h i \<Rightarrow> Some (record_section env k h i s)
      | Wait_preparation \<Rightarrow> (case preparation s of
            None \<Rightarrow> None
          | Some i \<Rightarrow> (case snd (tasks s ! i) of
                Returned _ \<Rightarrow> Some (Lookup_again, s)
              | Threw \<Rightarrow> Some (Threw, s)
              | _ \<Rightarrow> None))
      | Lookup_again \<Rightarrow> Some (case ready s (index_of (fst (compile_args env k))) of Some h \<Rightarrow> Returned (Some h) | None \<Rightarrow> Check False, s)
      | Returned _ \<Rightarrow> None
      | Threw \<Rightarrow> None)"

definition run_task :: "pipeline_env \<Rightarrow> render_pipeline_descriptor \<Rightarrow> answers \<Rightarrow> nat \<Rightarrow> pso \<Rightarrow> pso option" where
  "run_task env d a i s =
     (if i < length (tasks s) \<and> alive s
      then map_option (\<lambda>(pc, t). t\<lparr>tasks := (tasks t)[i := (fst (tasks s ! i), pc)]\<rparr>)
             (run_pc env d a (fst (tasks s ! i)) (snd (tasks s ! i)) s)
      else None)"

text \<open>A call of \<open>pipelineFor\<close>.\<close>

definition pipelineFor :: "primitive \<Rightarrow> bool \<Rightarrow> pso \<Rightarrow> pso" where
  "pipelineFor p depthClamp s =
     s\<lparr>tasks := tasks s @ [(Draw p depthClamp, case pipelineIndex p of Inl _ \<Rightarrow> Threw | Inr _ \<Rightarrow> Lookup)]\<rparr>"

subsection \<open>The destructor\<close>

definition ended :: "pc \<Rightarrow> bool" where
  "ended pc = (case pc of Returned _ \<Rightarrow> True | Threw \<Rightarrow> True | _ \<Rightarrow> False)"

text \<open>It runs when no draw uses the object, and gets past its waits when the tasks it knows of have ended.\<close>

definition can_destroy :: "pso \<Rightarrow> bool" where
  "can_destroy s \<longleftrightarrow> alive s
     \<and> (\<forall>(k, pc) \<in> set (tasks s). (case k of Draw _ _ \<Rightarrow> ended pc | _ \<Rightarrow> True))
     \<and> (case preparation s of None \<Rightarrow> True | Some i \<Rightarrow> ended (snd (tasks s ! i)))
     \<and> (\<forall>i \<in> set (backgroundCompiles s). ended (snd (tasks s ! i)))"

text \<open>Destroying a null handle does nothing, a handle that is not live is undefined.\<close>

fun destroy_handles :: "nat option list \<Rightarrow> (nat \<rightharpoonup> pipeline) \<Rightarrow> unit outcome \<times> (nat \<rightharpoonup> pipeline)" where
  "destroy_handles [] l = (Inr (), l)"
| "destroy_handles (None # hs) l = destroy_handles hs l"
| "destroy_handles (Some h # hs) l = (if l h = None then (Inl Undefined, l) else destroy_handles hs (l(h := None)))"

definition owned_handles :: "pso \<Rightarrow> nat option list" where
  "owned_handles s = map (pipelines s) [0 ..< 3] @ map (clampedPipelines s) [0 ..< 3] @ map (linkedPipelines s) [0 ..< 3]
     @ map (vertexInputLibraries s) [0 ..< 3] @ [outputLibrary s]"

definition destroy_pso :: "pso \<Rightarrow> unit outcome \<times> pso" where
  "destroy_pso s = (let (r, l) = destroy_handles (owned_handles s) (live s) in (r, s\<lparr>live := l, alive := False\<rparr>))"

subsection \<open>Runs\<close>

text \<open>Vulkan gives handles that are not in use.\<close>

definition fresh :: "answers \<Rightarrow> pso \<Rightarrow> bool" where
  "fresh a s \<longleftrightarrow> length (created a) = 3 \<and> (\<forall>h. Some h \<in> set (created a) \<longrightarrow> live s h = None)
     \<and> (\<forall>i < 3. \<forall>j < 3. i \<noteq> j \<longrightarrow> created a ! i \<noteq> None \<longrightarrow> created a ! i \<noteq> created a ! j)"

inductive pso_step :: "pipeline_env \<Rightarrow> render_pipeline_descriptor \<Rightarrow> pso \<Rightarrow> pso \<Rightarrow> bool" for env d where
  run: "run_task env d a i s = Some s' \<Longrightarrow> fresh a s \<Longrightarrow> pso_step env d s s'"
| draw: "alive s \<Longrightarrow> pso_step env d s (pipelineFor p c s)"
| destroy: "can_destroy s \<Longrightarrow> pso_step env d s (snd (destroy_pso s))"

inductive pso_reachable :: "pipeline_env \<Rightarrow> render_pipeline_descriptor \<Rightarrow> pso \<Rightarrow> bool" for env d where
  made: "new_pso env (trimmed d) answer = Inr s \<Longrightarrow> pso_reachable env d s"
| stepped: "pso_reachable env d s \<Longrightarrow> pso_step env (trimmed d) s s' \<Longrightarrow> pso_reachable env d s'"

inductive_cases pso_stepE: "pso_step env d s s'"

end
