(* ===== verification/Ownership.thy ===== *)
theory Ownership
  imports Prelude
begin

section \<open>Handles with one owner\<close>

text \<open>
  Vulkan objects that several threads create, publish and destroy: every live handle has exactly one
  owner (a slot of an array, an entry of a map, a thread that still holds it), and creating,
  destroying and handing over a handle keep that.
\<close>

text \<open>A map \<open>f\<close> from owners to handles in which every live handle has exactly one owner.\<close>

definition owned_once :: "('a \<Rightarrow> nat option) \<Rightarrow> (nat \<rightharpoonup> 'b) \<Rightarrow> bool" where
  "owned_once f l \<longleftrightarrow>
     (\<forall>x h. f x = Some h \<longrightarrow> l h \<noteq> None) \<and> (\<forall>x y h. f x = Some h \<longrightarrow> f y = Some h \<longrightarrow> x = y) \<and> (\<forall>h. l h \<noteq> None \<longrightarrow> (\<exists>x. f x = Some h))"

lemma ownedI:
  assumes "\<And>x h. f x = Some h \<Longrightarrow> l h \<noteq> None" "\<And>x y h. f x = Some h \<Longrightarrow> f y = Some h \<Longrightarrow> x = y"
    "\<And>h v. l h = Some v \<Longrightarrow> \<exists>x. f x = Some h"
  shows "owned_once f l"
  using assms unfolding owned_once_def by blast

lemma ownedD:
  assumes "owned_once f l"
  shows "f x = Some h \<Longrightarrow> l h \<noteq> None" "f x = Some h \<Longrightarrow> f y = Some h \<Longrightarrow> x = y" "l h = Some v \<Longrightarrow> \<exists>x. f x = Some h"
  using assms unfolding owned_once_def by blast+

lemma owned_create:
  assumes "owned_once f l" "l h = None" "f x = None"
  shows "owned_once (f(x := Some h)) (l(h \<mapsto> p))"
proof (rule ownedI)
  fix y h' assume "(f(x := Some h)) y = Some h'"
  then show "(l(h \<mapsto> p)) h' \<noteq> None" using ownedD(1) [OF assms(1)] by (cases "y = x") auto
next
  fix y z h' assume *: "(f(x := Some h)) y = Some h'" "(f(x := Some h)) z = Some h'"
  have "f w \<noteq> Some h" for w using ownedD(1) [OF assms(1)] assms(2) by blast
  then show "y = z" using * ownedD(2) [OF assms(1), of y h' z] by (cases "y = x"; cases "z = x") auto
next
  fix h' v assume "(l(h \<mapsto> p)) h' = Some v"
  then have "h' = h \<or> (\<exists>y. f y = Some h')" using ownedD(3) [OF assms(1), of h'] by (cases "h' = h") auto
  then show "\<exists>y. (f(x := Some h)) y = Some h'" using assms(3) by (metis fun_upd_apply option.distinct(1))
qed

lemma owned_destroy:
  assumes "owned_once f l" "f x = Some h"
  shows "owned_once (f(x := None)) (l(h := None))"
proof (rule ownedI)
  fix y h' assume "(f(x := None)) y = Some h'"
  then have *: "y \<noteq> x" "f y = Some h'" by (auto split: if_splits)
  then have "h' \<noteq> h" using ownedD(2) [OF assms(1) assms(2), of y] by blast
  then show "(l(h := None)) h' \<noteq> None" using * ownedD(1) [OF assms(1)] by simp
next
  fix y z h' assume "(f(x := None)) y = Some h'" "(f(x := None)) z = Some h'"
  then show "y = z" using ownedD(2) [OF assms(1), of y h' z] by (auto split: if_splits)
next
  fix h' v assume "(l(h := None)) h' = Some v"
  then have "h' \<noteq> h" "l h' = Some v" by (auto split: if_splits)
  then obtain y where "f y = Some h'" using ownedD(3) [OF assms(1)] by blast
  then show "\<exists>y. (f(x := None)) y = Some h'" using \<open>h' \<noteq> h\<close> assms(2) by (intro exI [of _ y]) auto
qed

lemma owned_move:
  assumes "owned_once f l" "f x = Some h" "f y = None"
  shows "owned_once (f(x := None, y := Some h)) l"
proof -
  obtain v where v: "l h = Some v" using ownedD(1) [OF assms(1,2)] by blast
  have "owned_once (f(x := None)) (l(h := None))" using owned_destroy [OF assms(1,2)] .
  then have "owned_once (f(x := None, y := Some h)) (l(h := None, h := Some v))"
    by (rule owned_create) (use assms in auto)
  then show ?thesis using v by (simp add: fun_upd_idem)
qed

end
