(* ===== verification/PipelineProperties.thy ===== *)
theory PipelineProperties
  imports PipelineStates Ownership
begin

section \<open>Published pipelines\<close>

text \<open>
  The invariant of a pipeline state while its threads interleave: every live pipeline has exactly one
  owner, what the arrays hold is what the create infos ask for, and every task is known to the
  destructor.
\<close>

subsection \<open>Owners of pipelines\<close>

datatype slot = Slot_pipeline nat | Slot_clamped nat | Slot_linked nat | Slot_input nat | Slot_output | Slot_held nat

definition held :: "pso \<Rightarrow> nat \<Rightarrow> nat option" where
  "held s i = (if i < length (tasks s) then (case snd (tasks s ! i) of Publish b h \<Rightarrow> Some h | _ \<Rightarrow> None) else None)"

definition own :: "pso \<Rightarrow> slot \<Rightarrow> nat option" where
  "own s sl = (case sl of Slot_pipeline t \<Rightarrow> pipelines s t | Slot_clamped t \<Rightarrow> clampedPipelines s t | Slot_linked t \<Rightarrow> linkedPipelines s t
     | Slot_input t \<Rightarrow> vertexInputLibraries s t | Slot_output \<Rightarrow> outputLibrary s | Slot_held i \<Rightarrow> held s i)"

subsection \<open>What the arrays hold\<close>

text \<open>The pipeline of handle \<open>h\<close> is what the create info of some primitive of the topology asks for.\<close>

definition built_as :: "pipeline_env \<Rightarrow> render_pipeline_descriptor \<Rightarrow> nat \<Rightarrow> bool \<Rightarrow> pipeline \<Rightarrow> bool" where
  "built_as env d t clamp pl \<longleftrightarrow>
     (\<exists>q i. pipelineIndex q = Inr t \<and> full_create_info env d q clamp = Inr i \<and> pipeline_info pl = Some i)"

definition contents_ok :: "pipeline_env \<Rightarrow> render_pipeline_descriptor \<Rightarrow> pso \<Rightarrow> bool" where
  "contents_ok env d s \<longleftrightarrow>
     (\<forall>t h. pipelines s t = Some h \<longrightarrow> ready s t = Some h \<and> (\<exists>pl. live s h = Some pl \<and> built_as env d t False pl))
     \<and> (\<forall>t h. clampedPipelines s t = Some h \<longrightarrow> ready s (t + 3) = Some h \<and> (\<exists>pl. live s h = Some pl \<and> built_as env d t True pl))
     \<and> (\<forall>t h. linkedPipelines s t = Some h \<longrightarrow> ready s t \<noteq> None \<and> (\<exists>pl. live s h = Some pl \<and> built_as env d t False pl))
     \<and> (\<forall>t h. vertexInputLibraries s t = Some h \<longrightarrow> t < 3 \<and> (\<exists>ip. live s h = Some (Library ip) \<and> input_part env d t = Inr ip))
     \<and> (\<forall>h. outputLibrary s = Some h \<longrightarrow> live s h = Some (Library (output_part env d)))
     \<and> (\<forall>i h. ready s i = Some h \<longrightarrow> (i < 3 \<and> (pipelines s i = Some h \<or> (pipelines s i = None \<and> linkedPipelines s i = Some h)))
           \<or> (3 \<le> i \<and> clampedPipelines s (i - 3) = Some h))"

lemma contentsI:
  assumes "\<And>t h. pipelines s t = Some h \<Longrightarrow> ready s t = Some h \<and> (\<exists>pl. live s h = Some pl \<and> built_as env d t False pl)"
    "\<And>t h. clampedPipelines s t = Some h \<Longrightarrow> ready s (t + 3) = Some h \<and> (\<exists>pl. live s h = Some pl \<and> built_as env d t True pl)"
    "\<And>t h. linkedPipelines s t = Some h \<Longrightarrow> ready s t \<noteq> None \<and> (\<exists>pl. live s h = Some pl \<and> built_as env d t False pl)"
    "\<And>t h. vertexInputLibraries s t = Some h \<Longrightarrow> t < 3 \<and> (\<exists>ip. live s h = Some (Library ip) \<and> input_part env d t = Inr ip)"
    "\<And>h. outputLibrary s = Some h \<Longrightarrow> live s h = Some (Library (output_part env d))"
    "\<And>i h. ready s i = Some h \<Longrightarrow> (i < 3 \<and> (pipelines s i = Some h \<or> (pipelines s i = None \<and> linkedPipelines s i = Some h)))
           \<or> (3 \<le> i \<and> clampedPipelines s (i - 3) = Some h)"
  shows "contents_ok env d s"
  using assms unfolding contents_ok_def by blast

lemma contentsD:
  assumes "contents_ok env d s"
  shows "pipelines s t = Some h \<Longrightarrow> ready s t = Some h \<and> (\<exists>pl. live s h = Some pl \<and> built_as env d t False pl)"
    "clampedPipelines s t = Some h \<Longrightarrow> ready s (t + 3) = Some h \<and> (\<exists>pl. live s h = Some pl \<and> built_as env d t True pl)"
    "linkedPipelines s t = Some h \<Longrightarrow> ready s t \<noteq> None \<and> (\<exists>pl. live s h = Some pl \<and> built_as env d t False pl)"
    "vertexInputLibraries s t = Some h \<Longrightarrow> t < 3 \<and> (\<exists>ip. live s h = Some (Library ip) \<and> input_part env d t = Inr ip)"
    "outputLibrary s = Some h \<Longrightarrow> live s h = Some (Library (output_part env d))"
    "ready s i = Some h \<Longrightarrow> (i < 3 \<and> (pipelines s i = Some h \<or> (pipelines s i = None \<and> linkedPipelines s i = Some h)))
           \<or> (3 \<le> i \<and> clampedPipelines s (i - 3) = Some h)"
  using assms unfolding contents_ok_def by blast+

lemma index_bounds: "pipelineIndex p = Inr t \<Longrightarrow> t < 3 \<and> index_of p = t"
  by (cases p) (auto simp: pipelineIndex_def index_of_def)

lemma built_as_bound: "built_as env d t clamp pl \<Longrightarrow> t < 3"
  using index_bounds by (auto simp: built_as_def)

lemma topology_index: "t < 3 \<Longrightarrow> pipelineIndex (topologyPrimitive t) = Inr t"
  by (auto simp: topologyPrimitive_def pipelineIndex_def less_Suc_eq numeral_3_eq_3)

subsection \<open>Threads\<close>

text \<open>A handle that serves draws of topology \<open>t\<close>.\<close>

definition serves :: "pso \<Rightarrow> nat \<Rightarrow> bool \<Rightarrow> nat \<Rightarrow> bool" where
  "serves s t clamp h \<longleftrightarrow> (if clamp then clampedPipelines s t = Some h else pipelines s t = Some h \<or> linkedPipelines s t = Some h)"

definition is_draw :: "pipeline_task \<Rightarrow> bool" where
  "is_draw k = (case k of Draw _ _ \<Rightarrow> True | _ \<Rightarrow> False)"

definition thread_ok :: "pipeline_env \<Rightarrow> render_pipeline_descriptor \<Rightarrow> pso \<Rightarrow> pipeline_task \<times> pc \<Rightarrow> bool" where
  "thread_ok env d s x \<longleftrightarrow>
     (let (k, pc) = x; (p, clamp) = compile_args env k; t = index_of p in
      (pc = Threw \<or> pipelineIndex p = Inr t)
      \<and> (case pc of
           Lookup \<Rightarrow> is_draw k
         | Create b \<Rightarrow> b \<longrightarrow> \<not> clamp
         | Check b \<Rightarrow> b \<longrightarrow> \<not> clamp
         | Publish b h \<Rightarrow> (b \<longrightarrow> \<not> clamp) \<and> (\<exists>i. full_create_info env d p clamp = Inr i \<and> live s h = Some (Monolithic i))
         | Link \<Rightarrow> \<not> clamp
         | Enqueue h \<Rightarrow> is_draw k \<and> \<not> clamp \<and> serves s t False h
         | Enqueue_submit h \<Rightarrow> is_draw k \<and> \<not> clamp \<and> serves s t False h
         | Enqueue_record h i \<Rightarrow> is_draw k \<and> \<not> clamp \<and> serves s t False h
         | Wait_preparation \<Rightarrow> is_draw k \<and> \<not> clamp
         | Lookup_again \<Rightarrow> is_draw k \<and> \<not> clamp
         | Returned h \<Rightarrow> h \<noteq> None \<and> serves s t clamp (the h)
         | Threw \<Rightarrow> True))"

text \<open>Every task of the compiler is the preparation, recorded, or about to be recorded.\<close>

definition tasks_known :: "pso \<Rightarrow> bool" where
  "tasks_known s \<longleftrightarrow>
     (\<forall>i < length (tasks s). is_draw (fst (tasks s ! i)) \<or> preparation s = Some i \<or> i \<in> set (backgroundCompiles s)
        \<or> (\<exists>j < length (tasks s). \<exists>h. snd (tasks s ! j) = Enqueue_record h (Some i)))"

definition pso_inv :: "pipeline_env \<Rightarrow> render_pipeline_descriptor \<Rightarrow> pso \<Rightarrow> bool" where
  "pso_inv env d s \<longleftrightarrow> owned_once (own s) (live s) \<and> contents_ok env d s \<and> (\<forall>x \<in> set (tasks s). thread_ok env d s x) \<and> tasks_known s"

text \<open>Nothing published is taken away.\<close>

definition extends :: "pso \<Rightarrow> pso \<Rightarrow> bool" where
  "extends s s' \<longleftrightarrow>
     (\<forall>t h. pipelines s t = Some h \<longrightarrow> pipelines s' t = Some h) \<and> (\<forall>t h. clampedPipelines s t = Some h \<longrightarrow> clampedPipelines s' t = Some h)
     \<and> (\<forall>t h. linkedPipelines s t = Some h \<longrightarrow> linkedPipelines s' t = Some h)"

lemma thread_ok_mono:
  assumes "thread_ok env d s x" "extends s s'" "\<And>b h. snd x = Publish b h \<Longrightarrow> live s' h = live s h"
  shows "thread_ok env d s' x"
proof -
  obtain k pc where x: "x = (k, pc)" by (cases x)
  have "serves s t c h \<Longrightarrow> serves s' t c h" for t c h using assms(2) by (auto simp: serves_def extends_def split: if_splits)
  then show ?thesis using assms(1,3) by (cases pc) (auto simp: thread_ok_def x Let_def split: prod.splits)
qed

subsection \<open>One step of a thread\<close>

definition set_task :: "nat \<Rightarrow> pipeline_task \<times> pc \<Rightarrow> pso \<Rightarrow> pso" where
  "set_task i x t = t\<lparr>tasks := (tasks t)[i := x]\<rparr>"

definition holds :: "pc \<Rightarrow> nat option" where
  "holds pc = (case pc of Publish b h \<Rightarrow> Some h | _ \<Rightarrow> None)"

lemma set_task_simps [simp]:
  "pipelines (set_task i x t) = pipelines t" "clampedPipelines (set_task i x t) = clampedPipelines t"
  "linkedPipelines (set_task i x t) = linkedPipelines t" "vertexInputLibraries (set_task i x t) = vertexInputLibraries t"
  "outputLibrary (set_task i x t) = outputLibrary t" "ready (set_task i x t) = ready t" "live (set_task i x t) = live t"
  "alive (set_task i x t) = alive t" "preparation (set_task i x t) = preparation t"
  "backgroundCompiles (set_task i x t) = backgroundCompiles t" "tasks (set_task i x t) = (tasks t)[i := x]"
  by (simp_all add: set_task_def)

lemma own_set_task:
  assumes "i < length (tasks t)"
  shows "own (set_task i (k, pc) t) = (own t)(Slot_held i := holds pc)"
  by (rule ext) (use assms in \<open>auto simp: own_def held_def holds_def nth_list_update split: slot.split pc.split\<close>)

lemma thread_ok_set_task [simp]: "thread_ok env d (set_task i y t) x = thread_ok env d t x"
proof -
  obtain k pc where "x = (k, pc)" by (cases x)
  moreover have "serves (set_task i y t) u c h = serves t u c h" for u c h by (simp add: serves_def)
  ultimately show ?thesis by (simp add: thread_ok_def Let_def split: prod.split pc.split)
qed

lemma contents_ok_set_task [simp]: "contents_ok env d (set_task i y t) = contents_ok env d t"
  by (simp add: contents_ok_def)

lemma held_slot: "i < length (tasks s) \<Longrightarrow> own s (Slot_held i) = holds (snd (tasks s ! i))"
  by (simp add: own_def held_def holds_def split: pc.split)

lemma known_update:
  assumes "tasks_known s" "i < length (tasks s)" "tasks t = tasks s @ new" "preparation t = preparation s"
    "set (backgroundCompiles s) \<subseteq> set (backgroundCompiles t)" "fst (tasks s ! i) = k"
    "\<And>h m. snd (tasks s ! i) = Enqueue_record h (Some m) \<Longrightarrow> m \<in> set (backgroundCompiles t)"
    "new = [] \<or> length new = 1 \<and> (\<exists>h. pc = Enqueue_record h (Some (length (tasks s))))"
  shows "tasks_known (set_task i (k, pc) t)"
  unfolding tasks_known_def
proof (intro allI impI)
  fix m assume m: "m < length (tasks (set_task i (k, pc) t))"
  let ?ts = "tasks (set_task i (k, pc) t)"
  show "is_draw (fst (?ts ! m)) \<or> preparation (set_task i (k, pc) t) = Some m \<or> m \<in> set (backgroundCompiles (set_task i (k, pc) t))
        \<or> (\<exists>j < length ?ts. \<exists>h. snd (?ts ! j) = Enqueue_record h (Some m))"
  proof (cases "m < length (tasks s)")
    case True
    then have "fst (?ts ! m) = fst (tasks s ! m)" using assms(2,3,6) by (auto simp: nth_list_update nth_append)
    moreover have "is_draw (fst (tasks s ! m)) \<or> preparation s = Some m \<or> m \<in> set (backgroundCompiles s)
        \<or> (\<exists>j < length (tasks s). \<exists>h. snd (tasks s ! j) = Enqueue_record h (Some m))"
      using assms(1) True by (simp add: tasks_known_def)
    moreover have "m \<in> set (backgroundCompiles t) \<or> (\<exists>j < length ?ts. \<exists>h. snd (?ts ! j) = Enqueue_record h (Some m))"
      if "j < length (tasks s)" "snd (tasks s ! j) = Enqueue_record h (Some m)" for j h
    proof (cases "j = i")
      case True
      then show ?thesis using assms(7) that by simp
    next
      case False
      then have "?ts ! j = tasks s ! j" using that(1) assms(3) by (simp add: nth_append)
      then show ?thesis using that assms(3) by (intro disjI2 exI [of _ j]) simp
    qed
    ultimately show ?thesis using assms(4,5) by auto
  next
    case False
    then have "length new = 1" "m = length (tasks s)" "\<exists>h. pc = Enqueue_record h (Some m)" using m assms(3,8) by auto
    then show ?thesis using assms(2,3) by (intro disjI2 exI [of _ i]) auto
  qed
qed

lemma inv_update:
  assumes inv: "pso_inv env d s" and i: "i < length (tasks s)" "fst (tasks s ! i) = k"
    and owned: "owned_once ((own t)(Slot_held i := holds pc)) (live t)"
    and contents: "contents_ok env d t" and ext: "extends s t"
    and others: "\<And>j h. j \<noteq> i \<Longrightarrow> held s j = Some h \<Longrightarrow> live t h = live s h"
    and ok: "thread_ok env d t (k, pc)"
    and tasks: "tasks t = tasks s @ new" "preparation t = preparation s" "set (backgroundCompiles s) \<subseteq> set (backgroundCompiles t)"
    and new: "\<And>x. x \<in> set new \<Longrightarrow> thread_ok env d t x"
    and recd: "\<And>h m. snd (tasks s ! i) = Enqueue_record h (Some m) \<Longrightarrow> m \<in> set (backgroundCompiles t)"
    and added: "new = [] \<or> length new = 1 \<and> (\<exists>h. pc = Enqueue_record h (Some (length (tasks s))))"
  shows "pso_inv env d (set_task i (k, pc) t)"
proof -
  have "thread_ok env d t x" if "x \<in> set ((tasks t)[i := (k, pc)])" for x
  proof -
    obtain j where j: "j < length (tasks t)" "(tasks t)[i := (k, pc)] ! j = x" using \<open>x \<in> set ((tasks t)[i := (k, pc)])\<close> by (auto simp: in_set_conv_nth)
    consider "j = i" | "j \<noteq> i" "j < length (tasks s)" | "j \<noteq> i" "j \<ge> length (tasks s)" by linarith
    then show ?thesis
    proof cases
      case 1
      then show ?thesis using j ok by simp
    next
      case 2
      then have x: "x = tasks s ! j" using j tasks(1) by (simp add: nth_append)
      then have "thread_ok env d s x" using inv 2 by (simp add: pso_inv_def)
      then show ?thesis using ext
      proof (rule thread_ok_mono)
        fix b h assume "snd x = Publish b h"
        then show "live t h = live s h" using others [OF 2(1)] 2(2) x by (simp add: held_def)
      qed
    next
      case 3
      then have "x = new ! (j - length (tasks s))" "j - length (tasks s) < length new" using j tasks(1) by (auto simp: nth_append)
      then have "x \<in> set new" by simp
      then show ?thesis by (rule new)
    qed
  qed
  moreover have "tasks_known (set_task i (k, pc) t)"
    using inv known_update [OF _ i(1) tasks i(2) recd added] by (simp add: pso_inv_def)
  moreover have "i < length (tasks t)" using i tasks(1) by simp
  ultimately show ?thesis using contents owned by (simp add: pso_inv_def own_set_task)
qed

text \<open>Steps that leave the arrays and Vulkan alone.\<close>

definition same_pipelines :: "pso \<Rightarrow> pso \<Rightarrow> bool" where
  "same_pipelines s t \<longleftrightarrow>
     pipelines t = pipelines s \<and> clampedPipelines t = clampedPipelines s \<and> linkedPipelines t = linkedPipelines s
     \<and> vertexInputLibraries t = vertexInputLibraries s \<and> outputLibrary t = outputLibrary s \<and> ready t = ready s \<and> live t = live s"

lemma same_extends: "same_pipelines s t \<Longrightarrow> extends s t"
  by (simp add: same_pipelines_def extends_def)

lemma same_contents: "same_pipelines s t \<Longrightarrow> contents_ok env d s \<Longrightarrow> contents_ok env d t"
  unfolding same_pipelines_def contents_ok_def by (elim conjE) (simp only:)

lemma same_own:
  assumes "same_pipelines s t" "tasks t = tasks s @ new" "\<forall>x \<in> set new. holds (snd x) = None"
  shows "own t = own s"
proof (rule ext)
  fix sl
  have "held t j = held s j" for j
    using assms(2,3) by (auto simp: held_def holds_def nth_append split: pc.splits)
  then show "own t sl = own s sl" using assms(1) by (simp add: own_def same_pipelines_def split: slot.split)
qed

lemma inv_quiet:
  assumes inv: "pso_inv env d s" and i: "i < length (tasks s)" "fst (tasks s ! i) = k" "holds (snd (tasks s ! i)) = None" "holds pc = None"
    and same: "same_pipelines s t" and ok: "thread_ok env d t (k, pc)"
    and tasks: "tasks t = tasks s @ new" "preparation t = preparation s" "set (backgroundCompiles s) \<subseteq> set (backgroundCompiles t)"
    and new: "\<And>x. x \<in> set new \<Longrightarrow> thread_ok env d t x \<and> holds (snd x) = None"
    and recd: "\<And>h m. snd (tasks s ! i) = Enqueue_record h (Some m) \<Longrightarrow> m \<in> set (backgroundCompiles t)"
    and added: "new = [] \<or> length new = 1 \<and> (\<exists>h. pc = Enqueue_record h (Some (length (tasks s))))"
  shows "pso_inv env d (set_task i (k, pc) t)"
proof (rule inv_update [OF inv i(1,2) _ _ same_extends [OF same] _ ok tasks _ recd added])
  have "own t = own s" using same_own [OF same tasks(1)] new by blast
  moreover have "(own s)(Slot_held i := None) = own s" using held_slot [OF i(1)] i(3) by auto
  moreover have "live t = live s" using same by (simp add: same_pipelines_def)
  ultimately show "owned_once ((own t)(Slot_held i := holds pc)) (live t)" using inv i(4) by (simp add: pso_inv_def)
  show "contents_ok env d t" using same_contents [OF same] inv by (simp add: pso_inv_def)
qed (use new same in \<open>auto simp: same_pipelines_def\<close>)

lemma thread_at: "pso_inv env d s \<Longrightarrow> i < length (tasks s) \<Longrightarrow> tasks s ! i = (k, pc) \<Longrightarrow> thread_ok env d s (k, pc)"
  by (metis nth_mem pso_inv_def)

lemma ready_serves:
  assumes "contents_ok env d s" "ready s (t + (if clamp then 3 else 0)) = Some h" "t < 3"
  shows "serves s t clamp h"
  using assms by (fastforce simp: contents_ok_def serves_def split: if_splits)

lemma clamp_draw: "compile_args env k = (p, True) \<Longrightarrow> is_draw k"
  by (auto simp: compile_args_def is_draw_def split: pipeline_task.splits)

text \<open>Where a compile or a link sends its thread.\<close>

lemma after_link_ok:
  assumes "compile_args env k = (p, False)" "pipelineIndex p = Inr t" "index_of p = t"
    "\<And>h'. is_draw k \<Longrightarrow> h = Some h' \<Longrightarrow> serves s t False h'"
  shows "thread_ok env d s (k, after_link s0 k h) \<and> holds (after_link s0 k h) = None \<and> (\<forall>g i. after_link s0 k h \<noteq> Enqueue_record g i)"
  using assms by (cases k; cases h) (simp_all add: thread_ok_def after_link_def is_draw_def holds_def)

lemma after_compile_ok:
  assumes "compile_args env k = (p, clamp)" "pipelineIndex p = Inr t" "index_of p = t"
    "\<And>h'. h = Some h' \<Longrightarrow> serves s t clamp h'" "h = None \<Longrightarrow> \<not> clamp"
  shows "thread_ok env d s (k, after_compile env s0 k h) \<and> holds (after_compile env s0 k h) = None"
proof (cases h)
  case None
  then have "compile_args env k = (p, False)" using assms(1,5) by simp
  then show ?thesis using after_link_ok [OF _ assms(2,3), of env k None s d s0] None
    by (auto simp: after_compile_def thread_ok_def holds_def assms(3) assms(2))
next
  case (Some h')
  then show ?thesis using assms by (simp add: after_compile_def thread_ok_def holds_def)
qed

lemma variant_serves: "variant clamp s t = Some h \<Longrightarrow> serves s t clamp h"
  by (simp add: variant_def serves_def split: if_splits)

lemma lookup_ok:
  assumes "pso_inv env d s" "thread_ok env d s (k, Lookup)"
  shows "thread_ok env d s (k, lookup_section env k s) \<and> holds (lookup_section env k s) = None"
proof -
  obtain p clamp where a: "compile_args env k = (p, clamp)" by fastforce
  then have p: "pipelineIndex p = Inr (index_of p)" "is_draw k" using assms(2) by (simp_all add: thread_ok_def)
  have t: "index_of p < 3" using index_bounds [OF p(1)] by blast
  show ?thesis
  proof (cases "ready s (index_of p + (if clamp then 3 else 0))")
    case None
    then show ?thesis using a p by (simp add: lookup_section_def thread_ok_def holds_def)
  next
    case (Some h)
    have "contents_ok env d s" using assms(1) by (simp add: pso_inv_def)
    then have "serves s (index_of p) clamp h" using Some t by (rule ready_serves)
    then show ?thesis using a p Some by (auto simp: lookup_section_def thread_ok_def holds_def Let_def split: if_splits)
  qed
qed

lemma check_ok:
  assumes "thread_ok env d s (k, Check b)"
  shows "thread_ok env d s (k, check_section env k b s) \<and> holds (check_section env k b s) = None"
proof -
  obtain p clamp where a: "compile_args env k = (p, clamp)" by fastforce
  then have p: "pipelineIndex p = Inr (index_of p)" "b \<longrightarrow> \<not> clamp" using assms by (simp_all add: thread_ok_def)
  show ?thesis
  proof (cases "variant clamp s (index_of p)")
    case None
    then show ?thesis using a p by (simp add: check_section_def thread_ok_def holds_def)
  next
    case (Some h)
    then show ?thesis using after_compile_ok [OF a p(1) refl, of "Some h" s d s] variant_serves [OF Some] a
      by (simp add: check_section_def)
  qed
qed

subsection \<open>Creating, publishing and linking\<close>

lemma contents_create:
  assumes "contents_ok env d s" "owned_once (own s) (live s)" "live s h = None"
  shows "contents_ok env d (s\<lparr>live := (live s)(h \<mapsto> pl)\<rparr>)"
proof -
  have ne: "own s sl = Some h' \<Longrightarrow> h' \<noteq> h" for sl h' using ownedD(1) [OF assms(2)] assms(3) by blast
  have "pipelines s t = Some h' \<Longrightarrow> h' \<noteq> h" "clampedPipelines s t = Some h' \<Longrightarrow> h' \<noteq> h" "linkedPipelines s t = Some h' \<Longrightarrow> h' \<noteq> h"
    "vertexInputLibraries s t = Some h' \<Longrightarrow> h' \<noteq> h" "outputLibrary s = Some h' \<Longrightarrow> h' \<noteq> h" for t h'
    using ne [of "Slot_pipeline t"] ne [of "Slot_clamped t"] ne [of "Slot_linked t"] ne [of "Slot_input t"] ne [of Slot_output]
    by (simp_all add: own_def)
  then show ?thesis using assms(1) unfolding contents_ok_def by auto
qed

lemma own_live [simp]: "own (s\<lparr>live := l\<rparr>) = own s"
  by (rule ext) (simp add: own_def held_def split: slot.split)

lemma created_fresh: "fresh a s \<Longrightarrow> k < 3 \<Longrightarrow> created a ! k = Some h \<Longrightarrow> live s h = None"
  unfolding fresh_def by (metis nth_mem)

lemma create_inv:
  assumes inv: "pso_inv env d s" and i: "i < length (tasks s)" "tasks s ! i = (k, Create b)" and fr: "fresh a s"
    and step: "create_call env d a k b s = (pc, t)"
  shows "pso_inv env d (set_task i (k, pc) t) \<and> extends s t \<and> ready t = ready s \<and> alive t = alive s"
proof -
  obtain p clamp where a: "compile_args env k = (p, clamp)" by fastforce
  have ok: "thread_ok env d s (k, Create b)" by (rule thread_at [OF inv i])
  have p: "pipelineIndex p = Inr (index_of p)" "b \<longrightarrow> \<not> clamp" using ok a by (simp_all add: thread_ok_def)
  consider "t = s" "thread_ok env d s (k, pc)" "holds pc = None" "\<forall>g i. pc \<noteq> Enqueue_record g i"
    | h info where "full_create_info env d p clamp = Inr info" "created a ! 0 = Some h" "pc = Publish b h" "t = s\<lparr>live := (live s)(h \<mapsto> Monolithic info)\<rparr>"
  proof (cases "full_create_info env d p clamp")
    case (Inl e)
    then have "t = s" "pc = Threw" using step a by (simp_all add: create_call_def)
    then show ?thesis using that(1) a by (simp add: thread_ok_def holds_def)
  next
    case (Inr info)
    show ?thesis
    proof (cases "created a ! 0")
      case None
      then have t: "t = s" "pc = (if b then after_compile env s k None else Threw)" using step a Inr by (simp_all add: create_call_def)
      have 1: "b \<Longrightarrow> thread_ok env d s (k, after_compile env s k None) \<and> holds (after_compile env s k None) = None"
        using after_compile_ok [OF a p(1) refl, of None s d s] p(2) by simp
      have "after_compile env s k None \<noteq> Enqueue_record g i" for g i
        by (simp add: after_compile_def after_link_def split: pipeline_task.split)
      then show ?thesis using that(1) t 1 a by (cases b) (simp_all add: thread_ok_def holds_def)
    next
      case (Some h)
      then have "pc = Publish b h" "t = s\<lparr>live := (live s)(h \<mapsto> Monolithic info)\<rparr>"
        using step a Inr by (auto simp: create_call_def new_handle_def)
      then show ?thesis using that(2) Inr Some by blast
    qed
  qed
  then show ?thesis
  proof cases
    case 1
    have "pso_inv env d (set_task i (k, pc) t)"
      by (rule inv_quiet [OF inv i(1), where new = "[]"]) (use 1 i in \<open>simp_all add: same_pipelines_def holds_def\<close>)
    then show ?thesis using 1(1) by (simp add: extends_def)
  next
    case (2 h info)
    have free: "live s h = None" using created_fresh [OF fr _ 2(2)] by simp
    have o': "owned_once (own s) (live s)" and c: "contents_ok env d s" using inv by (simp_all add: pso_inv_def)
    have ext: "extends s t" by (simp add: 2 extends_def)
    have "pso_inv env d (set_task i (k, pc) t)"
    proof (rule inv_update [OF inv i(1), where new = "[]"])
      have "own s (Slot_held i) = None" using held_slot [OF i(1)] i(2) by (simp add: holds_def)
      then show "owned_once ((own t)(Slot_held i := holds pc)) (live t)"
        using owned_create [OF o' free] 2 by (simp add: holds_def)
      show "contents_ok env d t" using contents_create [OF c o' free] 2(4) by simp
      show "thread_ok env d t (k, pc)" using 2 a p by (simp add: thread_ok_def)
      show "live t h' = live s h'" if "j \<noteq> i" "held s j = Some h'" for j h'
        using ownedD(1) [OF o', of "Slot_held j" h'] that free 2(4) by (auto simp: own_def)
    qed (use i ext 2 in simp_all)
    then show ?thesis using ext 2(4) by simp
  qed
qed

lemma contents_destroy:
  assumes "contents_ok env d s" "owned_once (own s) (live s)" "held s i = Some h"
  shows "contents_ok env d (s\<lparr>live := (live s)(h := None)\<rparr>)"
proof -
  have "own s sl = Some h \<Longrightarrow> sl = Slot_held i" for sl
    using ownedD(2) [OF assms(2), of sl h "Slot_held i"] assms(3) by (simp add: own_def)
  then have ne: "own s sl = Some h' \<Longrightarrow> sl \<noteq> Slot_held i \<Longrightarrow> h' \<noteq> h" for sl h' by blast
  have "pipelines s t = Some h' \<Longrightarrow> h' \<noteq> h" "clampedPipelines s t = Some h' \<Longrightarrow> h' \<noteq> h" "linkedPipelines s t = Some h' \<Longrightarrow> h' \<noteq> h"
    "vertexInputLibraries s t = Some h' \<Longrightarrow> h' \<noteq> h" "outputLibrary s = Some h' \<Longrightarrow> h' \<noteq> h" for t h'
    using ne [of "Slot_pipeline t"] ne [of "Slot_clamped t"] ne [of "Slot_linked t"] ne [of "Slot_input t"] ne [of Slot_output]
    by (simp_all add: own_def)
  then show ?thesis using assms(1) unfolding contents_ok_def by auto
qed

text \<open>The state after a pipeline is published.\<close>

definition published :: "bool \<Rightarrow> nat \<Rightarrow> nat \<Rightarrow> pso \<Rightarrow> pso" where
  "published clamp t h s =
     (let s = (if clamp then s\<lparr>clampedPipelines := (clampedPipelines s)(t := Some h)\<rparr>
               else s\<lparr>pipelines := (pipelines s)(t := Some h)\<rparr>)
      in s\<lparr>ready := (ready s)(t + (if clamp then 3 else 0) := Some h)\<rparr>)"

lemma published_simps [simp]:
  "live (published clamp t h s) = live s" "tasks (published clamp t h s) = tasks s" "preparation (published clamp t h s) = preparation s"
  "backgroundCompiles (published clamp t h s) = backgroundCompiles s" "linkedPipelines (published clamp t h s) = linkedPipelines s"
  "vertexInputLibraries (published clamp t h s) = vertexInputLibraries s" "outputLibrary (published clamp t h s) = outputLibrary s"
  "alive (published clamp t h s) = alive s"
  "ready (published clamp t h s) = (ready s)(t + (if clamp then 3 else 0) := Some h)"
  "pipelines (published clamp t h s) = (if clamp then pipelines s else (pipelines s)(t := Some h))"
  "clampedPipelines (published clamp t h s) = (if clamp then (clampedPipelines s)(t := Some h) else clampedPipelines s)"
  by (simp_all add: published_def Let_def)

lemma own_published:
  "own (published clamp t h s) = (own s)((if clamp then Slot_clamped t else Slot_pipeline t) := Some h)"
  by (rule ext) (auto simp: own_def held_def split: slot.split)

lemma contents_published:
  assumes "contents_ok env d s" "live s h = Some pl" "built_as env d t clamp pl" "variant clamp s t = None" "t < 3"
  shows "contents_ok env d (published clamp t h s)"
proof -
  note c = contentsD [OF assms(1)]
  have b: "pipelines s u = Some g \<Longrightarrow> u < 3" for u g using c(1) built_as_bound by blast
  show ?thesis
  proof (cases clamp)
    case True
    show ?thesis
    proof (rule contentsI)
      fix u g assume "pipelines (published clamp t h s) u = Some g"
      then show "ready (published clamp t h s) u = Some g \<and> (\<exists>pl. live (published clamp t h s) g = Some pl \<and> built_as env d u False pl)"
        using c(1) [of u g] b [of u g] True by auto
    next
      fix u g assume "clampedPipelines (published clamp t h s) u = Some g"
      then show "ready (published clamp t h s) (u + 3) = Some g \<and> (\<exists>pl. live (published clamp t h s) g = Some pl \<and> built_as env d u True pl)"
        using c(2) [of u g] assms(2,3) True by (auto split: if_splits)
    next
      fix u g assume "ready (published clamp t h s) u = Some g"
      then show "(u < 3 \<and> (pipelines (published clamp t h s) u = Some g \<or> pipelines (published clamp t h s) u = None \<and> linkedPipelines (published clamp t h s) u = Some g))
           \<or> 3 \<le> u \<and> clampedPipelines (published clamp t h s) (u - 3) = Some g"
        using c(6) [of u g] True by (cases "u = t + 3") auto
    qed (use c(3-5) True in auto)
  next
    case False
    show ?thesis
    proof (rule contentsI)
      fix u g assume "pipelines (published clamp t h s) u = Some g"
      then show "ready (published clamp t h s) u = Some g \<and> (\<exists>pl. live (published clamp t h s) g = Some pl \<and> built_as env d u False pl)"
        using c(1) [of u g] assms(2,3) False by (auto split: if_splits)
    next
      fix u g assume "clampedPipelines (published clamp t h s) u = Some g"
      then show "ready (published clamp t h s) (u + 3) = Some g \<and> (\<exists>pl. live (published clamp t h s) g = Some pl \<and> built_as env d u True pl)"
        using c(2) [of u g] assms(5) False by auto
    next
      fix u g assume "ready (published clamp t h s) u = Some g"
      then show "(u < 3 \<and> (pipelines (published clamp t h s) u = Some g \<or> pipelines (published clamp t h s) u = None \<and> linkedPipelines (published clamp t h s) u = Some g))
           \<or> 3 \<le> u \<and> clampedPipelines (published clamp t h s) (u - 3) = Some g"
        using c(6) [of u g] assms(5) False by (cases "u = t") auto
    qed (use c(3-5) False in auto)
  qed
qed

lemma publish_inv:
  assumes inv: "pso_inv env d s" and i: "i < length (tasks s)" "tasks s ! i = (k, Publish b h)"
    and step: "publish_section env k h s = (pc, t)"
  shows "pso_inv env d (set_task i (k, pc) t) \<and> extends s t \<and> alive t = alive s
    \<and> (\<forall>j g. ready s j = Some g \<longrightarrow> ready t j \<noteq> None \<and> (pipelines s j = Some g \<longrightarrow> ready t j = Some g))"
proof -
  obtain p clamp where a: "compile_args env k = (p, clamp)" by fastforce
  obtain info where ok: "pipelineIndex p = Inr (index_of p)" "full_create_info env d p clamp = Inr info" "live s h = Some (Monolithic info)"
    using thread_at [OF inv i] a by (auto simp: thread_ok_def)
  have t3: "index_of p < 3" using index_bounds [OF ok(1)] by blast
  have o': "owned_once (own s) (live s)" and c: "contents_ok env d s" using inv by (simp_all add: pso_inv_def)
  have hold: "own s (Slot_held i) = Some h" "held s i = Some h" using held_slot [OF i(1)] i(2) by (simp_all add: holds_def own_def)
  have other: "g \<noteq> h" if "j \<noteq> i" "held s j = Some g" for j g
    using ownedD(2) [OF o', of "Slot_held j" h "Slot_held i"] hold(1) that by (auto simp: own_def)
  have ac: "thread_ok env d t (k, after_compile env s' k (Some g)) \<and> holds (after_compile env s' k (Some g)) = None"
    if "serves t (index_of p) clamp g" for g s'
    using after_compile_ok [OF a ok(1) refl, of "Some g" t d s'] that by simp
  have nr: "after_compile env s' k (Some g) \<noteq> Enqueue_record g' m" for g g' m s'
    by (simp add: after_compile_def)
  show ?thesis
  proof (cases "variant clamp s (index_of p)")
    case (Some h')
    then have t: "t = s\<lparr>live := (live s)(h := None)\<rparr>" and pc: "pc = after_compile env s k (Some h')"
      using step a by (simp_all add: publish_section_def)
    have ext: "extends s t" by (simp add: t extends_def)
    have sv: "serves t (index_of p) clamp h'" using variant_serves [OF Some] by (simp add: t serves_def)
    have "pso_inv env d (set_task i (k, pc) t)"
    proof (rule inv_update [OF inv i(1), where new = "[]"])
      show "owned_once ((own t)(Slot_held i := holds pc)) (live t)"
        using owned_destroy [OF o' hold(1)] ac [OF sv] by (simp add: t pc)
      show "contents_ok env d t" using contents_destroy [OF c o' hold(2)] by (simp add: t)
      show "thread_ok env d t (k, pc)" using ac [OF sv] by (simp add: pc)
      show "live t g = live s g" if "j \<noteq> i" "held s j = Some g" for j g using other [OF that] by (simp add: t)
    qed (use i ext t in simp_all)
    then show ?thesis using ext by (simp add: t)
  next
    case None
    then have t: "t = published clamp (index_of p) h s" and "\<exists>s'. pc = after_compile env s' k (Some h)"
      using step a by (auto simp: publish_section_def published_def Let_def)
    then obtain s' where pc: "pc = after_compile env s' k (Some h)" by blast
    have ext: "extends s t" using None by (auto simp: t extends_def variant_def split: if_splits)
    have sv: "serves t (index_of p) clamp h" by (simp add: t serves_def)
    have built: "built_as env d (index_of p) clamp (Monolithic info)" using ok by (auto simp: built_as_def pipeline_info_def)
    have "pso_inv env d (set_task i (k, pc) t)"
    proof (rule inv_update [OF inv i(1), where new = "[]"])
      let ?sl = "if clamp then Slot_clamped (index_of p) else Slot_pipeline (index_of p)"
      have "own s ?sl = None" using None by (simp add: own_def variant_def split: if_splits)
      then have "owned_once ((own s)(Slot_held i := None, ?sl := Some h)) (live s)" by (rule owned_move [OF o' hold(1)])
      then show "owned_once ((own t)(Slot_held i := holds pc)) (live t)"
        using ac [OF sv] by (simp add: t pc own_published fun_upd_twist)
      show "contents_ok env d t" using contents_published [OF c ok(3) built None t3] by (simp add: t)
      show "thread_ok env d t (k, pc)" using ac [OF sv] by (simp add: pc)
    qed (use i ext t in simp_all)
    moreover have "ready t j \<noteq> None \<and> (pipelines s j = Some g \<longrightarrow> ready t j = Some g)" if "ready s j = Some g" for j g
    proof (cases "j = index_of p + (if clamp then 3 else 0)")
      case True
      have "\<not> clamp \<Longrightarrow> pipelines s j = None" using None True by (simp add: variant_def)
      moreover have "pipelines s j = Some g \<Longrightarrow> j < 3" using c built_as_bound unfolding contents_ok_def by blast
      ultimately have "pipelines s j \<noteq> Some g" using True by (cases clamp) auto
      then show ?thesis using True by (simp add: t)
    next
      case False
      then show ?thesis using that by (simp add: t)
    qed
    ultimately show ?thesis using ext by (simp add: t)
  qed
qed

text \<open>What the sections of a link keep.\<close>

definition core :: "pipeline_env \<Rightarrow> render_pipeline_descriptor \<Rightarrow> pso \<Rightarrow> bool" where
  "core env d s \<longleftrightarrow> owned_once (own s) (live s) \<and> contents_ok env d s"

definition frame :: "pso \<Rightarrow> pso \<Rightarrow> bool" where
  "frame s t \<longleftrightarrow> extends s t \<and> tasks t = tasks s \<and> preparation t = preparation s \<and> backgroundCompiles t = backgroundCompiles s
     \<and> alive t = alive s \<and> (\<forall>h. live s h \<noteq> None \<longrightarrow> live t h = live s h) \<and> (\<forall>j g. ready s j = Some g \<longrightarrow> ready t j = Some g)"

lemma frame_refl: "frame s s"
  by (simp add: frame_def extends_def)

lemma frame_trans: "frame s t \<Longrightarrow> frame t u \<Longrightarrow> frame s u"
  unfolding frame_def extends_def by metis

lemma input_created:
  assumes "core env d s" "vertexInputLibraries s t = None" "input_part env d t = Inr ip" "t < 3" "\<And>g. h = Some g \<Longrightarrow> live s g = None"
    "s1 = (new_handle h (Library ip) s)\<lparr>vertexInputLibraries := (vertexInputLibraries s)(t := h)\<rparr>"
  shows "core env d s1 \<and> frame s s1"
proof (cases h)
  case None
  then have "s1 = s\<lparr>vertexInputLibraries := vertexInputLibraries s\<rparr>" using assms(2,6) by (auto simp: new_handle_def fun_upd_idem)
  then show ?thesis using assms(1) by (simp add: frame_refl)
next
  case (Some g)
  have g: "live s g = None" using assms(5) Some by blast
  have s1: "s1 = (s\<lparr>live := (live s)(g \<mapsto> Library ip)\<rparr>)\<lparr>vertexInputLibraries := (vertexInputLibraries s)(t := Some g)\<rparr>"
    using assms(6) Some by (simp add: new_handle_def)
  have o': "owned_once (own s) (live s)" and c: "contents_ok env d s" using assms(1) by (simp_all add: core_def)
  have "own s (Slot_input t) = None" using assms(2) by (simp add: own_def)
  moreover have "own s1 = (own s)(Slot_input t := Some g)" by (rule ext) (simp add: s1 own_def held_def split: slot.split)
  ultimately have "owned_once (own s1) (live s1)" using owned_create [OF o' g] by (simp add: s1)
  moreover have "contents_ok env d s1"
  proof (rule contentsI)
    fix u k assume "vertexInputLibraries s1 u = Some k"
    then show "u < 3 \<and> (\<exists>ip. live s1 k = Some (Library ip) \<and> input_part env d u = Inr ip)"
      using contentsD(4) [OF contents_create [OF c o' g, of "Library ip"], of u k] assms(3,4) by (auto simp: s1 split: if_splits)
  qed (use contentsD [OF contents_create [OF c o' g, of "Library ip"]] in \<open>simp_all add: s1\<close>)
  ultimately show ?thesis using g by (auto simp: core_def frame_def extends_def s1)
qed

lemma output_created:
  assumes "core env d s" "outputLibrary s = None" "\<And>g. h = Some g \<Longrightarrow> live s g = None"
    "s1 = (new_handle h (Library (output_part env d)) s)\<lparr>outputLibrary := h\<rparr>"
  shows "core env d s1 \<and> frame s s1"
proof (cases h)
  case None
  then have "s1 = s\<lparr>outputLibrary := outputLibrary s\<rparr>" using assms(2,4) by (auto simp: new_handle_def)
  then show ?thesis using assms(1) by (simp add: frame_refl)
next
  case (Some g)
  have g: "live s g = None" using assms(3) Some by blast
  have s1: "s1 = (s\<lparr>live := (live s)(g \<mapsto> Library (output_part env d))\<rparr>)\<lparr>outputLibrary := Some g\<rparr>"
    using assms(4) Some by (simp add: new_handle_def)
  have o': "owned_once (own s) (live s)" and c: "contents_ok env d s" using assms(1) by (simp_all add: core_def)
  have "own s Slot_output = None" using assms(2) by (simp add: own_def)
  moreover have "own s1 = (own s)(Slot_output := Some g)" by (rule ext) (simp add: s1 own_def held_def split: slot.split)
  ultimately have "owned_once (own s1) (live s1)" using owned_create [OF o' g] by (simp add: s1)
  moreover have "contents_ok env d s1"
    by (rule contentsI) (use contentsD [OF contents_create [OF c o' g, of "Library (output_part env d)"]] in \<open>simp_all add: s1\<close>)
  ultimately show ?thesis using g by (auto simp: core_def frame_def extends_def s1)
qed

lemma linked_created:
  assumes "core env d s" "linkedPipelines s t = None" "live s h = None" "built_as env d t False pl"
    "s1 = (new_handle (Some h) pl s)\<lparr>linkedPipelines := (linkedPipelines s)(t := Some h)\<rparr>"
    "s2 = (if ready s1 t = None then s1\<lparr>ready := (ready s1)(t := Some h)\<rparr> else s1)"
  shows "core env d s2 \<and> frame s s2 \<and> (\<exists>g. ready s2 t = Some g)"
proof -
  have o': "owned_once (own s) (live s)" and c: "contents_ok env d s" using assms(1) by (simp_all add: core_def)
  have t3: "t < 3" using built_as_bound [OF assms(4)] .
  have s1: "s1 = (s\<lparr>live := (live s)(h \<mapsto> pl)\<rparr>)\<lparr>linkedPipelines := (linkedPipelines s)(t := Some h)\<rparr>"
    using assms(5) by (simp add: new_handle_def)
  have f: "live s2 = (live s)(h \<mapsto> pl)" "linkedPipelines s2 = (linkedPipelines s)(t := Some h)" "pipelines s2 = pipelines s"
    "clampedPipelines s2 = clampedPipelines s" "vertexInputLibraries s2 = vertexInputLibraries s" "outputLibrary s2 = outputLibrary s"
    "tasks s2 = tasks s" "preparation s2 = preparation s" "backgroundCompiles s2 = backgroundCompiles s" "alive s2 = alive s"
    "ready s2 = (if ready s t = None then (ready s)(t := Some h) else ready s)"
    using assms(6) by (simp_all add: s1)
  have "own s (Slot_linked t) = None" using assms(2) by (simp add: own_def)
  moreover have "own s2 = (own s)(Slot_linked t := Some h)" by (rule ext) (simp add: f own_def held_def split: slot.split)
  ultimately have "owned_once (own s2) (live s2)" using owned_create [OF o' assms(3)] by (simp add: f)
  moreover have "contents_ok env d s2"
  proof (rule contentsI)
    note c = contentsD [OF contents_create [OF c o' assms(3), of pl], simplified]
    show "ready s2 u = Some g \<and> (\<exists>pl. live s2 g = Some pl \<and> built_as env d u False pl)" if "pipelines s2 u = Some g" for u g
      using c(1) [of u g] that by (auto simp: f)
    show "ready s2 (u + 3) = Some g \<and> (\<exists>pl. live s2 g = Some pl \<and> built_as env d u True pl)" if "clampedPipelines s2 u = Some g" for u g
      using c(2) [of u g] that by (auto simp: f)
    show "ready s2 u \<noteq> None \<and> (\<exists>pl. live s2 g = Some pl \<and> built_as env d u False pl)" if "linkedPipelines s2 u = Some g" for u g
      using c(3) [of u g] that assms(4) by (auto simp: f split: if_splits)
    show "(u < 3 \<and> (pipelines s2 u = Some g \<or> (pipelines s2 u = None \<and> linkedPipelines s2 u = Some g))) \<or> (3 \<le> u \<and> clampedPipelines s2 (u - 3) = Some g)"
      if "ready s2 u = Some g" for u g
    proof (cases "u = t \<and> ready s t = None")
      case True
      then have "pipelines s t = None" using c(1) [of t] by (cases "pipelines s t") auto
      then show ?thesis using True that t3 by (simp add: f)
    next
      case False
      then have r: "ready s u = Some g" using that by (auto simp: f split: if_splits)
      have "linkedPipelines s u = Some g \<Longrightarrow> u \<noteq> t" using assms(2) by auto
      then show ?thesis using c(6) [of u g] r by (auto simp: f)
    qed
  qed (use contentsD(4,5) [OF contents_create [OF c o' assms(3), of pl]] in \<open>simp_all add: f\<close>)
  ultimately show ?thesis using assms(2,3) by (auto simp: core_def frame_def extends_def f split: if_splits)
qed

lemma created_other:
  assumes "fresh a s" "i < 3" "j < 3" "i \<noteq> j" "created a ! i = Some g"
  shows "created a ! j \<noteq> Some g"
  using assms unfolding fresh_def by (metis option.distinct(1))

lemma new_handle_live: "live (new_handle h pl s) g = (if h = Some g then Some pl else live s g)"
  by (simp add: new_handle_def split: option.split)

text \<open>The handles still to be given are not live.\<close>

definition unused :: "answers \<Rightarrow> nat \<Rightarrow> pso \<Rightarrow> bool" where
  "unused a k s \<longleftrightarrow> (\<forall>j < 3. k \<le> j \<longrightarrow> (\<forall>g. created a ! j = Some g \<longrightarrow> live s g = None))"

lemma unusedD: "unused a k s \<Longrightarrow> k < 3 \<Longrightarrow> created a ! k = Some g \<Longrightarrow> live s g = None"
  unfolding unused_def by blast

lemma unused_step:
  assumes "fresh a s0" "unused a k s" "k < 3" "\<And>g. live t g = (if created a ! k = Some g then Some pl else live s g)"
  shows "unused a (Suc k) t"
  using assms(2,3) created_other [OF assms(1,3)] unfolding unused_def assms(4) by fastforce

lemma link_input_core:
  assumes c: "core env d s" and fr: "fresh a s" and t: "t < 3" "linkedPipelines s t = None"
    and step: "link_input env d (created a ! 0) t s = (r, s')"
  shows "core env d s' \<and> frame s s' \<and> linkedPipelines s' t = None \<and> (r = Inr () \<longrightarrow> unused a 1 s')"
proof -
  have u: "unused a 0 s" using created_fresh [OF fr] by (simp add: unused_def)
  consider "s' = s" | ip where "vertexInputLibraries s t = None" "input_part env d t = Inr ip"
      "s' = (new_handle (created a ! 0) (Library ip) s)\<lparr>vertexInputLibraries := (vertexInputLibraries s)(t := created a ! 0)\<rparr>"
    using step by (auto simp: link_input_def split: if_splits sum.splits)
  then show ?thesis
  proof cases
    case 1
    then show ?thesis using c u t frame_refl by (simp add: unused_def)
  next
    case (2 ip)
    have "core env d s' \<and> frame s s'" by (rule input_created [OF c 2(1,2) t(1) _ 2(3)], rule created_fresh [OF fr]) simp_all
    moreover have "unused a 1 s'" using unused_step [OF fr u, of s' "Library ip"] by (simp add: 2(3) new_handle_live)
    moreover have "linkedPipelines s' t = None" using t(2) by (simp add: 2(3) new_handle_def split: option.split)
    ultimately show ?thesis by blast
  qed
qed

lemma link_output_core:
  assumes c: "core env d s" and u: "unused a 1 s" "fresh a s0" and t: "linkedPipelines s t = None"
  shows "core env d (link_output env d (created a ! 1) s) \<and> frame s (link_output env d (created a ! 1) s)
    \<and> linkedPipelines (link_output env d (created a ! 1) s) t = None \<and> unused a 2 (link_output env d (created a ! 1) s)"
proof (cases "outputLibrary s")
  case (Some h)
  then show ?thesis using c u(1) t frame_refl by (simp add: link_output_def unused_def)
next
  case None
  let ?s = "(new_handle (created a ! 1) (Library (output_part env d)) s)\<lparr>outputLibrary := created a ! 1\<rparr>"
  have "core env d ?s \<and> frame s ?s" by (rule output_created [OF c None _ refl], rule unusedD [OF u(1)]) simp_all
  moreover have "unused a 2 ?s" using unused_step [OF u(2,1), of ?s "Library (output_part env d)"] by (simp add: new_handle_live numeral_2_eq_2)
  moreover have "linkedPipelines ?s t = None" using t by (simp add: new_handle_def split: option.split)
  ultimately show ?thesis using None by (simp add: link_output_def)
qed

lemma library_part_Some: "library_part s h = Some p \<Longrightarrow> \<exists>g. h = Some g \<and> live s g = Some (Library p)"
  by (auto simp: library_part_def split: option.splits pipeline.splits)

lemma link_parts_core:
  assumes c: "core env d s" and u: "unused a 2 s" and t: "t < 3" "linkedPipelines s t = None"
    and step: "link_parts env d (created a ! 2) t s = (r, s')"
  shows "core env d s' \<and> frame s s' \<and> (\<forall>h. r = Some h \<longrightarrow> ready s' t = Some h)"
proof (cases "\<exists>ip op h. library_part s (vertexInputLibraries s t) = Some ip \<and> library_part s (outputLibrary s) = Some op \<and> created a ! 2 = Some h")
  case True
  then obtain ip op h where *: "library_part s (vertexInputLibraries s t) = Some ip" "library_part s (outputLibrary s) = Some op" "created a ! 2 = Some h"
    by blast
  have cs: "contents_ok env d s" using c by (simp add: core_def)
  have ip: "input_part env d t = Inr ip" "op = output_part env d"
    using contentsD(4,5) [OF cs] library_part_Some [OF *(1)] library_part_Some [OF *(2)] by fastforce+
  let ?pl = "Linked [ip, shader_part env Vertex_function (Some (vertexModule d)), shader_part env Fragment_function (fragmentModule d), op]"
  define s3 where "s3 = (new_handle (Some h) ?pl s)\<lparr>linkedPipelines := (linkedPipelines s)(t := Some h)\<rparr>"
  define s4 where "s4 = (if ready s3 t = None then s3\<lparr>ready := (ready s3)(t := Some h)\<rparr> else s3)"
  have "built_as env d t False ?pl"
    using linked_info_full [OF ip(1)] topology_index [OF t(1)] by (auto simp: built_as_def pipeline_info_def ip(2))
  moreover have "live s h = None" using unusedD [OF u _ *(3)] by simp
  ultimately have "core env d s4 \<and> frame s s4" using linked_created [OF c t(2) _ _ s3_def s4_def] by blast
  moreover have "link_parts env d (created a ! 2) t s = (ready s4 t, s4)"
    by (simp add: link_parts_def * Let_def s3_def s4_def new_handle_def)
  then have "s' = s4" "r = ready s4 t" using step by simp_all
  ultimately show ?thesis by simp
next
  case False
  then have "s' = s" "r = None" using step by (auto simp: link_parts_def split: option.splits)
  then show ?thesis using c frame_refl by simp
qed

lemma link_core:
  assumes c: "core env d s" and fr: "fresh a s" and t: "t < 3" and step: "linkPipeline env d a t s = (r, s')"
  shows "core env d s' \<and> frame s s' \<and> (\<forall>h. r = Inr (Some h) \<longrightarrow> ready s' t = Some h)"
proof -
  consider "s' = s" "\<forall>h. r = Inr (Some h) \<longrightarrow> ready s t = Some h"
    | e where "linkedPipelines s t = None" "link_input env d (created a ! 0) t s = (Inl e, s')" "r = Inl e"
    | s1 h where "linkedPipelines s t = None" "link_input env d (created a ! 0) t s = (Inr (), s1)"
        "link_parts env d (created a ! 2) t (link_output env d (created a ! 1) s1) = (h, s')" "r = Inr h"
    using step by (auto simp: linkPipeline_def split: sum.splits if_splits prod.splits elim!: and_then_cases)
  then show ?thesis
  proof cases
    case 1
    then show ?thesis using c frame_refl by simp
  next
    case 2
    then show ?thesis using link_input_core [OF c fr t 2(1,2)] by simp
  next
    case 3
    have 1: "core env d s1 \<and> frame s s1 \<and> linkedPipelines s1 t = None \<and> unused a 1 s1" using link_input_core [OF c fr t 3(1,2)] by simp
    then have 2: "core env d (link_output env d (created a ! 1) s1) \<and> frame s1 (link_output env d (created a ! 1) s1)
        \<and> linkedPipelines (link_output env d (created a ! 1) s1) t = None \<and> unused a 2 (link_output env d (created a ! 1) s1)"
      using link_output_core [OF _ _ fr] by blast
    have 4: "core env d s' \<and> frame (link_output env d (created a ! 1) s1) s' \<and> (\<forall>g. h = Some g \<longrightarrow> ready s' t = Some g)"
      by (rule link_parts_core [OF _ _ t _ 3(3)]) (use 2 in blast)+
    have "frame s s'" using 1 2 4 frame_trans by blast
    then show ?thesis using 4 3(4) by blast
  qed
qed

lemma link_inv:
  assumes inv: "pso_inv env d s" and i: "i < length (tasks s)" "tasks s ! i = (k, Link)" and fr: "fresh a s"
    and step: "run_pc env d a k Link s = Some (pc, t)"
  shows "pso_inv env d (set_task i (k, pc) t) \<and> extends s t \<and> alive t = alive s \<and> (\<forall>j g. ready s j = Some g \<longrightarrow> ready t j = Some g)"
proof -
  obtain p clamp where a: "compile_args env k = (p, clamp)" by fastforce
  have p: "pipelineIndex p = Inr (index_of p)" "\<not> clamp" using thread_at [OF inv i] a by (simp_all add: thread_ok_def Let_def)
  have t3: "index_of p < 3" using index_bounds [OF p(1)] by blast
  obtain r where r: "linkPipeline env d a (index_of p) s = (r, t)" and pc: "pc = (case r of Inl e \<Rightarrow> Threw | Inr h \<Rightarrow> after_link t k h)"
    using step a by (auto simp: run_pc_def split: prod.splits)
  have core: "core env d t \<and> frame s t \<and> (\<forall>h. r = Inr (Some h) \<longrightarrow> ready t (index_of p) = Some h)"
    by (rule link_core [OF _ fr t3 r]) (use inv in \<open>simp add: pso_inv_def core_def\<close>)
  then have fm: "extends s t" "tasks t = tasks s" "preparation t = preparation s" "backgroundCompiles t = backgroundCompiles s" "alive t = alive s"
    "\<And>h. live s h \<noteq> None \<Longrightarrow> live t h = live s h" "\<forall>j g. ready s j = Some g \<longrightarrow> ready t j = Some g" by (simp_all add: frame_def)
  have ok: "thread_ok env d t (k, pc) \<and> holds pc = None"
  proof (cases r)
    case (Inl e)
    then show ?thesis using a by (simp add: pc thread_ok_def holds_def)
  next
    case (Inr h)
    have "serves t (index_of p) False h'" if "h = Some h'" for h'
      using ready_serves [of env d t "index_of p" False h'] core Inr that t3 by (simp add: core_def)
    then show ?thesis using after_link_ok [of env k p "index_of p" h t d t] a p Inr by (simp add: pc)
  qed
  have "pso_inv env d (set_task i (k, pc) t)"
  proof (rule inv_update [OF inv i(1), where new = "[]"])
    have "own t (Slot_held i) = None" using held_slot [of i t] i fm(2) by (simp add: holds_def)
    then have "(own t)(Slot_held i := holds pc) = own t" using ok by (simp only: fun_upd_idem_iff)
    moreover have "owned_once (own t) (live t)" using core unfolding core_def by blast
    ultimately show "owned_once ((own t)(Slot_held i := holds pc)) (live t)" by (simp only:)
    show "live t h = live s h" if "j \<noteq> i" "held s j = Some h" for j h
    proof (rule fm(6))
      have "own s (Slot_held j) = Some h" using that by (simp add: own_def)
      moreover have "owned_once (own s) (live s)" using inv by (simp add: pso_inv_def)
      ultimately show "live s h \<noteq> None" by (rule ownedD(1) [rotated])
    qed
    show "contents_ok env d t" using core unfolding core_def by blast
    show "thread_ok env d t (k, pc)" using ok by blast
    show "extends s t" by (rule fm(1))
    show "tasks t = tasks s @ []" by (simp add: fm(2))
    show "set (backgroundCompiles s) \<subseteq> set (backgroundCompiles t)" by (simp add: fm(4))
  qed (use i fm(3) in simp_all)
  then show ?thesis using fm by simp
qed

subsection \<open>Every step keeps the invariant\<close>

lemma quiet_same:
  assumes "pso_inv env d s" "i < length (tasks s)" "tasks s ! i = (k, pc0)" "holds pc0 = None" "\<forall>h m. pc0 \<noteq> Enqueue_record h (Some m)"
    "thread_ok env d s (k, pc) \<and> holds pc = None"
  shows "pso_inv env d (set_task i (k, pc) s) \<and> same_pipelines s s \<and> alive s = alive s"
proof -
  have "pso_inv env d (set_task i (k, pc) s)"
    by (rule inv_quiet [OF assms(1,2), where new = "[]"]) (use assms(3-6) in \<open>simp_all add: same_pipelines_def\<close>)
  then show ?thesis by (simp add: same_pipelines_def)
qed

lemma enqueue_inv:
  assumes inv: "pso_inv env d s" and i: "i < length (tasks s)" "tasks s ! i = (k, Enqueue h)"
    and step: "enqueue_section env k h s = (pc, t)"
  shows "pso_inv env d (set_task i (k, pc) t) \<and> same_pipelines s t \<and> alive t = alive s"
proof -
  obtain p clamp where a: "compile_args env k = (p, clamp)" by fastforce
  have ok: "is_draw k" "\<not> clamp" "serves s (index_of p) False h" "pipelineIndex p = Inr (index_of p)"
    using thread_at [OF inv i] a by (simp_all add: thread_ok_def Let_def)
  consider "pc = Returned (Some h)" "t = s" | "pc = Enqueue_submit h" "t = s\<lparr>optimizing := (optimizing s)(index_of p := True)\<rparr>"
    using step a by (auto simp: enqueue_section_def Let_def split: if_splits)
  then show ?thesis
  proof cases
    case 1
    then have "thread_ok env d s (k, pc) \<and> holds pc = None" using ok a by (simp add: thread_ok_def holds_def)
    from quiet_same [OF inv i _ _ this] show ?thesis using 1 by (simp add: holds_def)
  next
    case 2
    have "pso_inv env d (set_task i (k, pc) t)"
      by (rule inv_quiet [OF inv i(1), where new = "[]"]) (use ok a i 2 in \<open>simp_all add: thread_ok_def holds_def same_pipelines_def serves_def\<close>)
    then show ?thesis using 2 by (simp add: same_pipelines_def)
  qed
qed

lemma submit_inv:
  assumes inv: "pso_inv env d s" and i: "i < length (tasks s)" "tasks s ! i = (k, Enqueue_submit h)"
    and step: "submit_call env a k h s = (pc, t)"
  shows "pso_inv env d (set_task i (k, pc) t) \<and> same_pipelines s t \<and> alive t = alive s"
proof -
  obtain p clamp where c: "compile_args env k = (p, clamp)" by fastforce
  have ok: "is_draw k" "\<not> clamp" "serves s (index_of p) False h" "pipelineIndex p = Inr (index_of p)"
    using thread_at [OF inv i] c by (simp_all add: thread_ok_def Let_def)
  have "index_of p < 3" using index_bounds [OF ok(4)] by blast
  then have new: "thread_ok env d u (Optimize (index_of p), Check False)" for u
    using topology_index [of "index_of p"] index_bounds [of "topologyPrimitive (index_of p)"] by (simp add: thread_ok_def compile_args_def)
  consider "pc = Threw \<or> pc = Enqueue_record h None" "t = s"
    | "pc = Enqueue_record h (Some (length (tasks s)))" "t = s\<lparr>tasks := tasks s @ [(Optimize (index_of p), Check False)]\<rparr>"
  proof (cases "submission a = Inr True")
    case True
    then show ?thesis using that(2) step c by (simp add: submit_call_def)
  next
    case False
    then show ?thesis using that(1) step c by (cases "submission a") (simp_all add: submit_call_def)
  qed
  then show ?thesis
  proof cases
    case 1
    then have "thread_ok env d s (k, pc) \<and> holds pc = None" using ok c by (auto simp: thread_ok_def holds_def)
    from quiet_same [OF inv i _ _ this] show ?thesis using 1 by (simp add: holds_def)
  next
    case 2
    have same: "same_pipelines s t" using 2(2) by (simp add: same_pipelines_def)
    have "serves t (index_of p) False h" using ok(3) by (simp add: 2(2) serves_def)
    then have tk: "thread_ok env d t (k, pc)" using ok c by (simp add: 2(1) thread_ok_def)
    have "pso_inv env d (set_task i (k, pc) t)"
    proof (rule inv_quiet [OF inv i(1) _ _ _ same tk, where new = "[(Optimize (index_of p), Check False)]"])
      show "thread_ok env d t x \<and> holds (snd x) = None" if "x \<in> set [(Optimize (index_of p), Check False)]" for x
        using that new [of t] by (simp add: holds_def)
    qed (use i 2 in \<open>simp_all add: holds_def\<close>)
    then show ?thesis using 2 same by simp
  qed
qed

lemma record_inv:
  assumes inv: "pso_inv env d s" and i: "i < length (tasks s)" "tasks s ! i = (k, Enqueue_record h m)"
    and step: "record_section env k h m s = (pc, t)"
  shows "pso_inv env d (set_task i (k, pc) t) \<and> same_pipelines s t \<and> alive t = alive s"
proof -
  obtain p clamp where c: "compile_args env k = (p, clamp)" by fastforce
  have ok: "is_draw k" "\<not> clamp" "serves s (index_of p) False h" "pipelineIndex p = Inr (index_of p)"
    using thread_at [OF inv i] c by (simp_all add: thread_ok_def Let_def)
  have t: "pc = Returned (Some h)" "same_pipelines s t" "tasks t = tasks s" "preparation t = preparation s" "alive t = alive s"
    "set (backgroundCompiles t) = set (backgroundCompiles s) \<union> (case m of None \<Rightarrow> {} | Some j \<Rightarrow> {j})"
    using step c by (auto simp: record_section_def Let_def same_pipelines_def split: option.splits)
  have "serves t (index_of p) False h" using ok(3) t(2) by (simp add: serves_def same_pipelines_def)
  then have "pso_inv env d (set_task i (k, pc) t)"
    by (intro inv_quiet [OF inv i(1), where new = "[]"]) (use ok c i t in \<open>auto simp: thread_ok_def holds_def\<close>)
  then show ?thesis using t by simp
qed

lemma quiet_step:
  assumes inv: "pso_inv env d s" and i: "i < length (tasks s)" "tasks s ! i = (k, pc0)"
    and pcs: "\<forall>b h. pc0 \<noteq> Publish b h" "\<forall>b. pc0 \<noteq> Create b" "pc0 \<noteq> Link"
    and step: "run_pc env d a k pc0 s = Some (pc, t)"
  shows "pso_inv env d (set_task i (k, pc) t) \<and> same_pipelines s t \<and> alive t = alive s"
proof -
  note ok = thread_at [OF inv i]
  obtain p clamp where c: "compile_args env k = (p, clamp)" by fastforce
  show ?thesis
  proof (cases pc0)
    case Lookup
    then have "t = s" "pc = lookup_section env k s" using step by (auto simp: run_pc_def)
    moreover have "thread_ok env d s (k, pc) \<and> holds pc = None" using lookup_ok [OF inv] ok by (simp add: calculation Lookup)
    from quiet_same [OF inv i _ _ this] have "pso_inv env d (set_task i (k, pc) s) \<and> same_pipelines s s \<and> alive s = alive s"
      by (simp add: Lookup holds_def)
    ultimately show ?thesis by simp
  next
    case (Check b)
    then have "t = s" "pc = check_section env k b s" using step by (auto simp: run_pc_def)
    moreover have "thread_ok env d s (k, pc) \<and> holds pc = None" using check_ok ok by (simp add: calculation Check)
    from quiet_same [OF inv i _ _ this] have "pso_inv env d (set_task i (k, pc) s) \<and> same_pipelines s s \<and> alive s = alive s"
      by (simp add: Check holds_def)
    ultimately show ?thesis by simp
  next
    case (Enqueue h)
    then show ?thesis using enqueue_inv [OF inv i(1) i(2) [unfolded Enqueue]] step by (simp add: run_pc_def)
  next
    case (Enqueue_submit h)
    then show ?thesis using submit_inv [OF inv i(1) i(2) [unfolded Enqueue_submit]] step by (simp add: run_pc_def)
  next
    case (Enqueue_record h m)
    then show ?thesis using record_inv [OF inv i(1) i(2) [unfolded Enqueue_record]] step by (simp add: run_pc_def)
  next
    case Wait_preparation
    then have "t = s" "pc = Threw \<or> pc = Lookup_again" using step by (auto simp: run_pc_def split: option.splits pc.splits)
    then have "thread_ok env d s (k, pc) \<and> holds pc = None" using ok c by (auto simp: Wait_preparation holds_def thread_ok_def Let_def)
    from quiet_same [OF inv i _ _ this] show ?thesis by (simp add: Wait_preparation holds_def \<open>t = s\<close>)
  next
    case Lookup_again
    have pp: "pipelineIndex p = Inr (index_of p)" "\<not> clamp" using ok c by (simp_all add: Lookup_again thread_ok_def)
    have "index_of p < 3" using index_bounds [OF pp(1)] by blast
    then have r: "ready s (index_of p) = Some h \<Longrightarrow> serves s (index_of p) False h" for h
      using ready_serves [of env d s "index_of p" False h] inv by (simp add: pso_inv_def)
    have "t = s" "pc = (case ready s (index_of p) of Some h \<Rightarrow> Returned (Some h) | None \<Rightarrow> Check False)"
      using step c by (auto simp: run_pc_def Lookup_again)
    moreover have "thread_ok env d s (k, pc) \<and> holds pc = None"
      using r pp c ok by (cases "ready s (index_of p)") (simp_all add: calculation Lookup_again holds_def thread_ok_def Let_def)
    from quiet_same [OF inv i _ _ this] have "pso_inv env d (set_task i (k, pc) s) \<and> same_pipelines s s \<and> alive s = alive s"
      by (simp add: Lookup_again holds_def)
    ultimately show ?thesis by simp
  qed (use pcs step in \<open>simp_all add: run_pc_def\<close>)
qed

lemma run_inv:
  assumes inv: "pso_inv env d s" and fr: "fresh a s" and step: "run_task env d a i s = Some s'"
  shows "pso_inv env d s' \<and> alive s' = alive s \<and> alive s \<and> extends s s'
    \<and> (\<forall>j g. ready s j = Some g \<longrightarrow> ready s' j \<noteq> None \<and> (pipelines s j = Some g \<longrightarrow> ready s' j = Some g))"
proof -
  obtain k pc0 where at: "tasks s ! i = (k, pc0)" by fastforce
  obtain pc t where i: "i < length (tasks s)" "alive s" and run: "run_pc env d a k pc0 s = Some (pc, t)" and s': "s' = set_task i (k, pc) t"
    using step at by (auto simp: run_task_def set_task_def split: if_splits)
  have e: "extends s (set_task i (k, pc) t) = extends s t" by (simp add: extends_def)
  consider b h where "pc0 = Publish b h" | b where "pc0 = Create b" | "pc0 = Link"
    | "\<forall>b h. pc0 \<noteq> Publish b h" "\<forall>b. pc0 \<noteq> Create b" "pc0 \<noteq> Link" by blast
  then show ?thesis
  proof cases
    case (1 b h)
    then have "publish_section env k h s = (pc, t)" using run by (simp add: run_pc_def)
    then show ?thesis using publish_inv [OF inv i(1) at [unfolded 1]] i(2) by (simp add: e s')
  next
    case (2 b)
    then have "create_call env d a k b s = (pc, t)" using run by (simp add: run_pc_def)
    then show ?thesis using create_inv [OF inv i(1) at [unfolded 2] fr] i(2) by (simp add: e s')
  next
    case 3
    then show ?thesis using link_inv [OF inv i(1) at [unfolded 3] fr run [unfolded 3]] i(2) by (simp add: e s')
  next
    case 4
    then show ?thesis using quiet_step [OF inv i(1) at 4 run] same_extends [of s t] i(2) by (simp add: e s' same_pipelines_def)
  qed
qed

lemma draw_inv:
  assumes inv: "pso_inv env d s"
  shows "pso_inv env d (pipelineFor p c s) \<and> same_pipelines s (pipelineFor p c s)"
proof -
  let ?x = "(Draw p c, case pipelineIndex p of Inl _ \<Rightarrow> Threw | Inr _ \<Rightarrow> Lookup)"
  let ?t = "pipelineFor p c s"
  have t: "tasks ?t = tasks s @ [?x]" "preparation ?t = preparation s" "backgroundCompiles ?t = backgroundCompiles s" "same_pipelines s ?t"
    by (simp_all add: pipelineFor_def same_pipelines_def)
  have "holds (snd ?x) = None" by (simp add: holds_def split: sum.split)
  then have "own ?t = own s" using same_own [OF t(4,1)] by simp
  moreover have "live ?t = live s" using t(4) by (simp add: same_pipelines_def)
  moreover have "thread_ok env d ?t ?x"
    by (cases "pipelineIndex p") (auto simp: thread_ok_def compile_args_def is_draw_def dest: index_bounds)
  moreover have "thread_ok env d ?t y" if "y \<in> set (tasks s)" for y
    using thread_ok_mono [of env d s y ?t] inv that same_extends [OF t(4)] t(4) by (auto simp: pso_inv_def same_pipelines_def)
  moreover have "tasks_known ?t"
    unfolding tasks_known_def
  proof (intro allI impI)
    fix m assume m: "m < length (tasks ?t)"
    show "is_draw (fst (tasks ?t ! m)) \<or> preparation ?t = Some m \<or> m \<in> set (backgroundCompiles ?t)
        \<or> (\<exists>j < length (tasks ?t). \<exists>h. snd (tasks ?t ! j) = Enqueue_record h (Some m))"
    proof (cases "m < length (tasks s)")
      case True
      then have "is_draw (fst (tasks s ! m)) \<or> preparation s = Some m \<or> m \<in> set (backgroundCompiles s)
          \<or> (\<exists>j < length (tasks s). \<exists>h. snd (tasks s ! j) = Enqueue_record h (Some m))"
        using inv by (simp add: pso_inv_def tasks_known_def)
      then show ?thesis using True by (auto simp: t nth_append)
    next
      case False
      then have "m = length (tasks s)" using m by (simp add: t(1))
      then show ?thesis by (simp add: t(1) is_draw_def)
    qed
  qed
  ultimately show ?thesis using inv t same_contents [OF t(4)] by (auto simp: pso_inv_def)
qed

lemma new_inv:
  assumes "new_pso env d answer = Inr s"
  shows "pso_inv env d s \<and> alive s"
proof -
  have "live s = Map.empty" "\<And>sl. own s sl = None" "alive s" "contents_ok env d s" "tasks_known s" "\<forall>x \<in> set (tasks s). thread_ok env d s x"
    using assms
    by (auto simp: new_pso_def Let_def own_def held_def contents_ok_def tasks_known_def thread_ok_def compile_args_def index_of_def
        pipelineIndex_def split: if_splits sum.splits slot.split)
  then show ?thesis by (simp add: pso_inv_def owned_once_def)
qed

subsection \<open>The destructor\<close>

lemma destroy_handles_ok:
  "distinct (concat (map (\<lambda>h. case h of None \<Rightarrow> [] | Some h \<Rightarrow> [h]) hs)) \<Longrightarrow> (\<And>h. Some h \<in> set hs \<Longrightarrow> l h \<noteq> None) \<Longrightarrow>
   destroy_handles hs l = (Inr (), \<lambda>h. if Some h \<in> set hs then None else l h)"
proof (induction hs l rule: destroy_handles.induct)
  case (3 h hs l)
  have "h \<notin> set (concat (map (\<lambda>h. case h of None \<Rightarrow> [] | Some h \<Rightarrow> [h]) hs))" using 3(2) by simp
  then have nh: "Some h \<notin> set hs" by force
  have lh: "l h \<noteq> None" using 3(3) by simp
  have "destroy_handles hs (l(h := None)) = (Inr (), \<lambda>g. if Some g \<in> set hs then None else (l(h := None)) g)"
    by (rule 3(1) [OF lh]) (use 3(2,3) nh in auto)
  then show ?case using lh by auto
qed auto

text \<open>The slots of the arrays, in the order of the destructor.\<close>

definition array_slots :: "slot list" where
  "array_slots = map Slot_pipeline [0 ..< 3] @ map Slot_clamped [0 ..< 3] @ map Slot_linked [0 ..< 3] @ map Slot_input [0 ..< 3] @ [Slot_output]"

lemma owned_slots: "owned_handles s = map (own s) array_slots"
  by (simp add: owned_handles_def array_slots_def own_def)

lemma slots_distinct: "distinct array_slots"
  by (simp add: array_slots_def upt_rec)

lemma owned_distinct:
  assumes "owned_once f l" "distinct xs"
  shows "distinct (concat (map (\<lambda>h. case h of None \<Rightarrow> [] | Some h \<Rightarrow> [h]) (map f xs)))"
  using assms(2)
proof (induction xs)
  case (Cons x xs)
  have "h \<notin> set (concat (map (\<lambda>h. case h of None \<Rightarrow> [] | Some h \<Rightarrow> [h]) (map f xs)))" if "f x = Some h" for h
  proof
    assume "h \<in> set (concat (map (\<lambda>h. case h of None \<Rightarrow> [] | Some h \<Rightarrow> [h]) (map f xs)))"
    then obtain y where "y \<in> set xs" "f y = Some h" by (auto split: option.splits)
    then show False using ownedD(2) [OF assms(1) that, of y] Cons.prems by auto
  qed
  then show ?case using Cons by (cases "f x") auto
qed simp

text \<open>When the destructor is past its waits, every task has ended.\<close>

lemma destroy_ended:
  assumes inv: "pso_inv env d s" and can: "can_destroy s"
  shows "\<forall>x \<in> set (tasks s). ended (snd x)"
proof
  fix x assume "x \<in> set (tasks s)"
  then obtain i where i: "i < length (tasks s)" "tasks s ! i = x" by (auto simp: in_set_conv_nth)
  have draws: "is_draw k \<Longrightarrow> ended pc" if "(k, pc) \<in> set (tasks s)" for k pc
    using can that unfolding can_destroy_def by (cases k) (fastforce simp: is_draw_def)+
  have "\<not> (\<exists>j < length (tasks s). \<exists>h. snd (tasks s ! j) = Enqueue_record h (Some i))"
  proof (rule notI, elim exE conjE)
    fix j h assume j: "j < length (tasks s)" "snd (tasks s ! j) = Enqueue_record h (Some i)"
    obtain k where k: "tasks s ! j = (k, Enqueue_record h (Some i))" using j(2) by (cases "tasks s ! j") simp
    have "is_draw k" using thread_at [OF inv j(1) k] by (simp add: thread_ok_def Let_def split: prod.splits)
    then show False using draws [of k "Enqueue_record h (Some i)"] j(1) k nth_mem [OF j(1)] by (simp add: ended_def)
  qed
  then have "is_draw (fst x) \<or> preparation s = Some i \<or> i \<in> set (backgroundCompiles s)"
    using inv i by (auto simp: pso_inv_def tasks_known_def)
  then show "ended (snd x)"
    using draws [of "fst x" "snd x"] \<open>x \<in> set (tasks s)\<close> can i by (auto simp: can_destroy_def)
qed

lemma destroy_all:
  assumes inv: "pso_inv env d s" and can: "can_destroy s"
  shows "fst (destroy_pso s) = Inr () \<and> live (snd (destroy_pso s)) = Map.empty \<and> (\<forall>x \<in> set (tasks (snd (destroy_pso s))). ended (snd x))
    \<and> \<not> alive (snd (destroy_pso s))"
proof -
  have o': "owned_once (own s) (live s)" and c: "contents_ok env d s" using inv by (simp_all add: pso_inv_def)
  have d': "destroy_handles (owned_handles s) (live s) = (Inr (), \<lambda>h. if Some h \<in> set (owned_handles s) then None else live s h)"
  proof (rule destroy_handles_ok)
    show "distinct (concat (map (\<lambda>h. case h of None \<Rightarrow> [] | Some h \<Rightarrow> [h]) (owned_handles s)))"
      unfolding owned_slots by (rule owned_distinct [OF o' slots_distinct])
    show "live s h \<noteq> None" if "Some h \<in> set (owned_handles s)" for h
      using that ownedD(1) [OF o'] by (auto simp: owned_slots)
  qed
  have "Some h \<in> set (owned_handles s)" if "live s h = Some v" for h v
  proof -
    note lv = that
    obtain sl where sl: "own s sl = Some h" using ownedD(3) [OF o' lv] by blast
    have "sl \<in> set array_slots"
    proof (cases sl)
      case (Slot_held i)
      then have h: "held s i = Some h" using sl by (simp add: own_def)
      then have "i < length (tasks s)" "\<not> ended (snd (tasks s ! i))"
        by (auto simp: held_def ended_def split: if_splits pc.splits)
      then show ?thesis using destroy_ended [OF inv can] by auto
    qed (use sl contentsD(1-4) [OF c] built_as_bound in \<open>fastforce simp: own_def array_slots_def\<close>)+
    then show ?thesis using sl by (force simp: owned_slots)
  qed
  then have "(\<lambda>h. if Some h \<in> set (owned_handles s) then None else live s h) = Map.empty"
    by (metis not_None_eq)
  then show ?thesis using destroy_ended [OF inv can] d' by (simp add: destroy_pso_def)
qed

subsection \<open>The property\<close>

lemma reachable_pso_inv:
  "pso_reachable env d s \<Longrightarrow> (alive s \<longrightarrow> pso_inv env (trimmed d) s) \<and> (\<not> alive s \<longrightarrow> live s = Map.empty \<and> (\<forall>x \<in> set (tasks s). ended (snd x)))"
proof (induction rule: pso_reachable.induct)
  case (made answer s)
  then show ?case using new_inv by blast
next
  case (stepped s s')
  from stepped(2) show ?case
  proof (cases rule: pso_step.cases)
    case (run a i)
    then have "alive s" by (simp add: run_task_def split: if_splits)
    then show ?thesis using run_inv [OF _ run(2,1)] stepped(3) by blast
  next
    case (draw p c)
    then show ?thesis using draw_inv stepped(3) by (auto simp: pipelineFor_def)
  next
    case destroy
    then have "alive s" by (simp add: can_destroy_def)
    then show ?thesis using destroy_all destroy stepped(3) by blast
  qed
qed

text \<open>
  C20: A draw always gets a pipeline that renders its state, and no pipeline is lost or destroyed twice.
  However draws, the preparation and the compiler's tasks interleave, and whatever Vulkan and the
  compiler answer: every call of \<open>pipelineFor\<close> that returns has a live pipeline whose state, whether
  compiled whole or linked from libraries, is the create info of a primitive of the same topology with
  the clamp asked for; once ready, a variant stays ready, and an optimised pipeline is never replaced;
  the destructor destroys no handle that is not live, and leaves no pipeline and no running task.
\<close>

theorem draws_get_their_pipeline:
  assumes "pso_reachable env d s"
  shows "(alive s \<longrightarrow> (\<forall>p c r. (Draw p c, Returned r) \<in> set (tasks s) \<longrightarrow>
        (\<exists>h t q pl info. r = Some h \<and> live s h = Some pl \<and> pipelineIndex p = Inr t \<and> pipelineIndex q = Inr t
          \<and> full_create_info env (trimmed d) q (c \<and> \<not> dynamicDepthClamp env) = Inr info \<and> pipeline_info pl = Some info)))
    \<and> (\<forall>s' i h. pso_step env (trimmed d) s s' \<and> alive s' \<and> ready s i = Some h \<longrightarrow>
        ready s' i \<noteq> None \<and> (pipelines s i = Some h \<longrightarrow> ready s' i = Some h))
    \<and> (can_destroy s \<longrightarrow> fst (destroy_pso s) = Inr ())
    \<and> (\<not> alive s \<longrightarrow> live s = Map.empty \<and> (\<forall>x \<in> set (tasks s). ended (snd x)))"
proof (intro conjI impI allI)
  note inv = reachable_pso_inv [OF assms]
  {
    fix p c r assume al: "alive s" and x: "(Draw p c, Returned r) \<in> set (tasks s)"
    have c': "contents_ok env (trimmed d) s" and tk: "thread_ok env (trimmed d) s (Draw p c, Returned r)"
      using inv al x by (auto simp: pso_inv_def)
    let ?cl = "c \<and> \<not> dynamicDepthClamp env"
    obtain h where h: "r = Some h" "pipelineIndex p = Inr (index_of p)" "serves s (index_of p) ?cl h"
      using tk by (auto simp: thread_ok_def compile_args_def Let_def)
    then have "\<exists>pl. live s h = Some pl \<and> built_as env (trimmed d) (index_of p) ?cl pl"
      using contentsD(1-3) [OF c'] by (cases ?cl) (auto simp: serves_def)
    then show "\<exists>h t q pl info. r = Some h \<and> live s h = Some pl \<and> pipelineIndex p = Inr t \<and> pipelineIndex q = Inr t
          \<and> full_create_info env (trimmed d) q ?cl = Inr info \<and> pipeline_info pl = Some info"
      using h unfolding built_as_def by blast
  }
  {
    fix s' i h assume *: "pso_step env (trimmed d) s s' \<and> alive s' \<and> ready s i = Some h"
    from * have "pso_step env (trimmed d) s s'" by blast
    then have "ready s' i \<noteq> None \<and> (pipelines s i = Some h \<longrightarrow> ready s' i = Some h)"
    proof (cases rule: pso_step.cases)
      case (run a j)
      then have "alive s" by (simp add: run_task_def split: if_splits)
      then show ?thesis using run_inv [OF _ run(2,1)] inv * by blast
    next
      case (draw p c)
      then show ?thesis using * by (simp add: pipelineFor_def)
    next
      case destroy
      then show ?thesis using * by (simp add: destroy_pso_def split: prod.splits)
    qed
    then show "ready s' i \<noteq> None" "pipelines s i = Some h \<Longrightarrow> ready s' i = Some h" by blast+
  }
  show "fst (destroy_pso s) = Inr ()" if "can_destroy s"
  proof -
    have "pso_inv env (trimmed d) s" using that inv by (simp add: can_destroy_def)
    then show ?thesis using destroy_all that by blast
  qed
  show "live s = Map.empty" "\<forall>x \<in> set (tasks s). ended (snd x)" if "\<not> alive s" using inv that by blast+
qed

text \<open>A draw that links: nothing is cached, the libraries are built.\<close>

definition example_pipeline_env :: pipeline_env where
  "example_pipeline_env = \<lparr>vkFormat = id, vkBlendFactor = id, vkBlendOp = id, vkWriteMask = id, vkVertexFormat = id,
     hasDepth = (\<lambda>f. False), hasStencil = (\<lambda>f. False), dynamicDepthClamp = True, pipelineLibraries = True, workers = 0\<rparr>"

definition example_descriptor :: render_pipeline_descriptor where
  "example_descriptor = \<lparr>colorAttachments = [], vertexDescriptor = None, inputPrimitiveTopology = Unspecified_topology,
     depthFormat = None, stencilFormat = None, vertexModule = 1, fragmentModule = Some 2, rasterSampleCount = 1\<rparr>"

definition example_answers :: "nat option list \<Rightarrow> answers" where
  "example_answers hs = \<lparr>created = hs, librariesBuilt = Inr True, submission = Inr False\<rparr>"

definition example_pso :: pso where
  "example_pso = pipelineFor TriangleStrip True (projr (new_pso example_pipeline_env example_descriptor (Inr False)))"

lemma example_trimmed [simp]: "trimmed example_descriptor = example_descriptor"
  by (simp add: trimmed_def example_descriptor_def trim_attachments.simps)

lemma example_pso_simps:
  "tasks example_pso = [(Draw TriangleStrip True, Lookup)]" "alive example_pso" "pipelines example_pso = (\<lambda>t. None)"
  "clampedPipelines example_pso = (\<lambda>t. None)" "linkedPipelines example_pso = (\<lambda>t. None)" "vertexInputLibraries example_pso = (\<lambda>t. None)"
  "outputLibrary example_pso = None" "ready example_pso = (\<lambda>t. None)" "live example_pso = Map.empty" "deferred example_pso = (\<lambda>t. False)"
  by (simp_all add: example_pso_def pipelineFor_def new_pso_def prepares_def example_pipeline_env_def pipelineIndex_def)

lemma example_links:
  obtains s where "pso_reachable example_pipeline_env example_descriptor s" "alive s"
    "tasks s = [(Draw TriangleStrip True, Returned (Some 12))]"
proof -
  let ?e = example_pipeline_env and ?d = example_descriptor and ?k = "Draw TriangleStrip True"
  have start: "pso_reachable ?e ?d example_pso"
  proof -
    have n: "new_pso ?e ?d (Inr False) = Inr (projr (new_pso ?e ?d (Inr False)))"
      by (simp add: new_pso_def prepares_def example_pipeline_env_def)
    have "pso_reachable ?e ?d (projr (new_pso ?e ?d (Inr False)))" by (rule made [of _ _ "Inr False"]) (use n in simp)
    then show ?thesis unfolding example_pso_def
      by (rule stepped, intro draw) (simp add: new_pso_def prepares_def example_pipeline_env_def)
  qed
  have arg: "compile_args ?e ?k = (TriangleStrip, False)" "index_of TriangleStrip = 2"
    by (simp_all add: compile_args_def example_pipeline_env_def index_of_def pipelineIndex_def)
  have full: "full_create_info ?e ?d TriangleStrip False \<noteq> Inl e" "input_part ?e ?d 2 \<noteq> Inl e" for e
    by (simp_all add: full_create_info_def input_part_def vertex_input_def example_descriptor_def)
  obtain info where info: "full_create_info ?e ?d TriangleStrip False = Inr info"
    using full(1) by (cases "full_create_info ?e ?d TriangleStrip False") auto
  have libs: "pipelineLibraries ?e" "workers ?e = 0" by (simp_all add: example_pipeline_env_def)
  define run where "run = (\<lambda>hs s. run_task ?e ?d (example_answers hs) 0 s)"
  have go: "pso_reachable ?e ?d s'" if "pso_reachable ?e ?d s" "run hs s = Some s'" "fresh (example_answers hs) s" for s s' hs
    using stepped [OF that(1), of s'] pso_step.run [of ?e ?d "example_answers hs" 0 s s'] that by (simp add: run_def)
  let ?n = "[None, None, None]" and ?h = "[Some 10, Some 11, Some (12 :: nat)]"
  have fr: "fresh (example_answers ?n) s" for s by (auto simp: fresh_def example_answers_def less_Suc_eq numeral_3_eq_3)
  define at_pc where "at_pc = (\<lambda>pc. example_pso\<lparr>tasks := [(?k, pc)]\<rparr>)"
  have at: "at_pc Lookup = example_pso" by (simp add: at_pc_def example_pso_simps(1) [symmetric])
  have r1: "run ?n (at_pc Lookup) = Some (at_pc (Check True))"
    by (simp add: run_def at run_task_def run_pc_def lookup_section_def arg example_pso_simps at_pc_def)
  have r2: "run ?n (at_pc (Check True)) = Some (at_pc (Create True))"
    by (simp add: run_def run_task_def run_pc_def check_section_def variant_def arg example_pso_simps at_pc_def)
  have r3: "run ?n (at_pc (Create True)) = Some (at_pc Link)"
    by (simp add: run_def run_task_def run_pc_def create_call_def arg info libs example_pso_simps at_pc_def example_answers_def after_compile_def)
  obtain ip where ip: "input_part ?e ?d 2 = Inr ip" using full(2) by (cases "input_part ?e ?d 2") auto
  have fh: "fresh (example_answers ?h) (at_pc Link)"
    by (auto simp: fresh_def example_answers_def less_Suc_eq numeral_3_eq_3 at_pc_def example_pso_simps)
  obtain s4 where r4: "run ?h (at_pc Link) = Some s4" and s4: "tasks s4 = [(?k, Enqueue 12)]" "alive s4"
    by (simp add: run_def run_task_def run_pc_def arg example_pso_simps at_pc_def example_answers_def linkPipeline_def link_input_def ip
        link_output_def link_parts_def library_part_def new_handle_def after_link_def Let_def)
  have r5: "run ?n s4 = Some (s4\<lparr>tasks := [(?k, Returned (Some 12))]\<rparr>)"
    by (simp add: run_def run_task_def run_pc_def s4 enqueue_section_def arg libs)
  have "pso_reachable ?e ?d (s4\<lparr>tasks := [(?k, Returned (Some 12))]\<rparr>)"
    using go [OF go [OF go [OF go [OF go [OF start [folded at] r1 fr] r2 fr] r3 fr] r4 fh] r5 fr] .
  then show thesis using that [of "s4\<lparr>tasks := [(?k, Returned (Some 12))]\<rparr>"] s4(2) by simp
qed

theorem draws_get_their_pipeline_witness:
  "\<exists>s pl info q. pso_reachable example_pipeline_env example_descriptor s \<and> live s 12 = Some pl \<and> pipelineIndex q = Inr 2
     \<and> full_create_info example_pipeline_env example_descriptor q False = Inr info \<and> pipeline_info pl = Some info"
proof -
  obtain s where s: "pso_reachable example_pipeline_env example_descriptor s" "alive s"
    "tasks s = [(Draw TriangleStrip True, Returned (Some 12))]" by (rule example_links)
  have "dynamicDepthClamp example_pipeline_env" "pipelineIndex TriangleStrip = Inr 2"
    by (simp_all add: example_pipeline_env_def pipelineIndex_def)
  then show ?thesis using conjunct1 [OF draws_get_their_pipeline [OF s(1)]] s by fastforce
qed

end
