(* ===== verification/ComputePipelines.thy ===== *)
theory ComputePipelines
  imports Prelude
begin

section \<open>Compute pipelines\<close>

text \<open>
  \<open>native/renderer/compute-pipeline.cpp\<close>: a \<open>PrivateComputePipelineState\<close> makes one Vulkan pipeline
  for each threadgroup size its dispatches use. Any number of threads call \<open>createPipeline\<close>; the
  call that finds neither a pipeline nor a preparation of its size compiles, without the mutex, and
  the others wait on its shared future. A section under the mutex, a driver call and the setting of a
  promise are one step each. A call is its index in \<open>calls\<close>, its promise is kept beside it.
\<close>

subsection \<open>The state\<close>

type_synonym size3 = "u64 \<times> u64 \<times> u64"
type_synonym group_size = "u32 list"

definition group_size_of :: "size3 \<Rightarrow> group_size" where
  "group_size_of z = (case z of (w, h, d) \<Rightarrow> [ucast w, ucast h, ucast d])"

text \<open>What the state is made from: the limits of the device, the module of the function and the layout.\<close>

record compute_limits =
  maxSubgroupSize :: u32
  maxComputeWorkGroupInvocations :: u32
  maxComputeSharedMemorySize :: u32

record compute_env =
  cs_module :: nat
  cs_layout :: nat

text \<open>A specialisation: the map entries (constant, offset, size) and the words they read.\<close>

record compute_info =
  ci_module :: nat
  ci_entry :: string
  ci_map :: "(nat \<times> nat \<times> nat) list"
  ci_data :: "u32 list"
  ci_layout :: nat

definition map_entries :: "(nat \<times> nat \<times> nat) list" where
  "map_entries = map (\<lambda>i. (i, i * 4, 4)) [0 ..< 3]"

definition compute_create_info :: "compute_env \<Rightarrow> group_size \<Rightarrow> compute_info" where
  "compute_create_info env k =
     \<lparr>ci_module = cs_module env, ci_entry = ''main'', ci_map = map_entries, ci_data = k, ci_layout = cs_layout env\<rparr>"

text \<open>The value Vulkan gives a constant of the module: the word of the data at the offset of its entry.\<close>

definition constant_value :: "compute_info \<Rightarrow> nat \<Rightarrow> u32 option" where
  "constant_value c i = (case map_of (ci_map c) i of
       Some (offset, bytes) \<Rightarrow> if bytes = 4 \<and> offset mod 4 = 0 \<and> offset div 4 < length (ci_data c) then Some (ci_data c ! (offset div 4)) else None
     | None \<Rightarrow> None)"

datatype compute_pc =
    Enter
  | Await nat
  | Creating
  | Created nat
  | Set_value nat
  | Caught failure "nat option"
  | Destroying failure "nat option"
  | Unprepare failure
  | Done "nat outcome"

record compute_call =
  group :: size3
  pc :: compute_pc
  promise :: "nat outcome option"

definition key :: "compute_call \<Rightarrow> group_size" where
  "key c = group_size_of (group c)"

lemma key_upd [simp]: "key (c\<lparr>pc := p\<rparr>) = key c" "key (c\<lparr>promise := r\<rparr>) = key c"
  by (simp_all add: key_def)

record compute_state =
  compiled :: "(group_size \<times> nat) list"
  preparing :: "group_size \<rightharpoonup> nat"
  calls :: "compute_call list"
  live :: "nat \<rightharpoonup> compute_info"
  maxTotalThreadsPerThreadgroup :: nat
  threadExecutionWidth :: nat
  staticThreadgroupMemoryLength :: nat

text \<open>The constructor; \<open>stage_input\<close> tells a descriptor with stage-in parameters, \<open>layout\<close> is what the
  driver answers for the pipeline layout.\<close>

definition new_compute_state :: "bool \<Rightarrow> nat option \<Rightarrow> nat \<Rightarrow> compute_limits \<Rightarrow> (compute_env \<times> compute_state) outcome" where
  "new_compute_state stage_input layout module limits =
     (if stage_input then Inl (Throw ''TODO: support stage-in parameters in compute shaders'')
      else case layout of
        None \<Rightarrow> Inl Abort
      | Some l \<Rightarrow> Inr (\<lparr>cs_module = module, cs_layout = l\<rparr>,
          \<lparr>compiled = [], preparing = Map.empty, calls = [], live = Map.empty,
           maxTotalThreadsPerThreadgroup = unat (maxSubgroupSize limits),
           threadExecutionWidth = unat (maxComputeWorkGroupInvocations limits),
           staticThreadgroupMemoryLength = unat (maxComputeSharedMemorySize limits)\<rparr>))"

subsection \<open>The sections of a call\<close>

definition goto :: "nat \<Rightarrow> compute_pc \<Rightarrow> compute_state \<Rightarrow> compute_state" where
  "goto i p s = s\<lparr>calls := (calls s)[i := (calls s ! i)\<lparr>pc := p\<rparr>]\<rparr>"

definition settle :: "nat \<Rightarrow> nat outcome \<Rightarrow> compute_pc \<Rightarrow> compute_state \<Rightarrow> compute_state" where
  "settle i r p s = s\<lparr>calls := (calls s)[i := (calls s ! i)\<lparr>pc := p, promise := Some r\<rparr>]\<rparr>"

definition createPipeline :: "size3 \<Rightarrow> compute_state \<Rightarrow> compute_state" where
  "createPipeline z s = s\<lparr>calls := calls s @ [\<lparr>group = z, pc = Enter, promise = None\<rparr>]\<rparr>"

definition enter_section :: "nat \<Rightarrow> compute_state \<Rightarrow> compute_state" where
  "enter_section i s =
     (let k = key (calls s ! i) in
      case map_of (compiled s) k of
        Some h \<Rightarrow> goto i (Done (Inr h)) s
      | None \<Rightarrow> (case preparing s k of
            Some j \<Rightarrow> goto i (Await j) s
          | None \<Rightarrow> (goto i Creating s)\<lparr>preparing := (preparing s)(k \<mapsto> i)\<rparr>))"

text \<open>\<open>created\<close> is the handle the driver made, \<open>None\<close> when it failed; \<open>stored\<close> tells whether the map took
  the pipeline or had no memory for it.\<close>

definition create_compute :: "compute_env \<Rightarrow> nat option \<Rightarrow> nat \<Rightarrow> compute_state \<Rightarrow> compute_state" where
  "create_compute env created i s =
     (case created of
        None \<Rightarrow> goto i (Caught (Throw ''Could not create compute pipeline'') None) s
      | Some h \<Rightarrow> (goto i (Created h) s)\<lparr>live := (live s)(h \<mapsto> compute_create_info env (key (calls s ! i)))\<rparr>)"

definition publish_compute :: "bool \<Rightarrow> nat \<Rightarrow> nat \<Rightarrow> compute_state \<Rightarrow> compute_state" where
  "publish_compute stored i h s =
     (let k = key (calls s ! i) in
      if \<not> stored then goto i (Caught (Throw ''std::bad_alloc'') (Some h)) s
      else (goto i (Set_value h) s)
        \<lparr>compiled := (if map_of (compiled s) k = None then compiled s @ [(k, h)] else compiled s),
         preparing := (preparing s)(k := None)\<rparr>)"

definition destroy_call :: "nat option \<Rightarrow> compute_state \<Rightarrow> compute_state" where
  "destroy_call h s = (case h of None \<Rightarrow> s | Some h \<Rightarrow> s\<lparr>live := (live s)(h := None)\<rparr>)"

text \<open>One step of the call \<open>i\<close>; \<open>None\<close> when it has returned or waits for a future that is not ready.\<close>

definition run_call :: "compute_env \<Rightarrow> nat option \<Rightarrow> bool \<Rightarrow> nat \<Rightarrow> compute_state \<Rightarrow> compute_state option" where
  "run_call env created stored i s =
     (case pc (calls s ! i) of
        Enter \<Rightarrow> Some (enter_section i s)
      | Await j \<Rightarrow> map_option (\<lambda>r. goto i (Done r) s) (promise (calls s ! j))
      | Creating \<Rightarrow> Some (create_compute env created i s)
      | Created h \<Rightarrow> Some (publish_compute stored i h s)
      | Set_value h \<Rightarrow> Some (settle i (Inr h) (Done (Inr h)) s)
      | Caught e h \<Rightarrow> Some (settle i (Inl e) (Destroying e h) s)
      | Destroying e h \<Rightarrow> Some (goto i (Unprepare e) (destroy_call h s))
      | Unprepare e \<Rightarrow> Some ((goto i (Done (Inl e)) s)\<lparr>preparing := (preparing s)(key (calls s ! i) := None)\<rparr>)
      | Done r \<Rightarrow> None)"

text \<open>The destructor runs when no call is in the object: each pipeline of the map is destroyed.\<close>

definition destroy_compute_state :: "compute_state \<Rightarrow> compute_state" where
  "destroy_compute_state s = s\<lparr>compiled := [], live := fold (\<lambda>h l. l(h := None)) (map snd (compiled s)) (live s)\<rparr>"

subsection \<open>Steps\<close>

text \<open>The driver never hands out a handle that is alive.\<close>

inductive call_step :: "compute_env \<Rightarrow> compute_state \<Rightarrow> compute_state \<Rightarrow> bool" for env where
  run: "i < length (calls s) \<Longrightarrow> (\<And>h. created = Some h \<Longrightarrow> live s h = None) \<Longrightarrow> run_call env created stored i s = Some s'
    \<Longrightarrow> call_step env s s'"

inductive compute_reachable :: "compute_env \<Rightarrow> compute_state \<Rightarrow> bool" for env where
  made: "new_compute_state stage_input layout module limits = Inr (env, s) \<Longrightarrow> compute_reachable env s"
| asked: "compute_reachable env s \<Longrightarrow> compute_reachable env (createPipeline z s)"
| stepped: "compute_reachable env s \<Longrightarrow> call_step env s s' \<Longrightarrow> compute_reachable env s'"

inductive_cases call_stepE: "call_step env s s'"

end
