(* ===== verification/ComputeProperties.thy ===== *)
theory ComputeProperties
  imports ComputePipelines Ownership
begin

section \<open>What calls for compute pipelines return\<close>

text \<open>
  The invariant of a \<open>PrivateComputePipelineState\<close> while its calls interleave: every live pipeline is
  in the map or held by the call that made it, each size in preparation has one call that compiles
  it, and a call waits only for one that has settled its promise or is going to.
\<close>

subsection \<open>What holds while the calls interleave\<close>

definition owning :: "compute_pc \<Rightarrow> bool" where
  "owning p = (case p of Creating \<Rightarrow> True | Created _ \<Rightarrow> True | Caught _ _ \<Rightarrow> True | Destroying _ _ \<Rightarrow> True | Unprepare _ \<Rightarrow> True | _ \<Rightarrow> False)"

definition holds :: "compute_pc \<Rightarrow> nat option" where
  "holds p = (case p of Created h \<Rightarrow> Some h | Caught _ h \<Rightarrow> h | Destroying _ h \<Rightarrow> h | _ \<Rightarrow> None)"

lemma owning_simps [simp]:
  "\<not> owning Enter" "\<not> owning (Await j)" "owning Creating" "owning (Created h)" "\<not> owning (Set_value h)"
  "owning (Caught e g)" "owning (Destroying e g)" "owning (Unprepare e)" "\<not> owning (Done r)"
  by (simp_all add: owning_def)

lemma holds_simps [simp]:
  "holds Enter = None" "holds (Await j) = None" "holds Creating = None" "holds (Created h) = Some h" "holds (Set_value h) = None"
  "holds (Caught e g) = g" "holds (Destroying e g) = g" "holds (Unprepare e) = None" "holds (Done r) = None"
  by (simp_all add: holds_def)

text \<open>The owner of a handle is an entry of the map or a call.\<close>

definition pipeline_owner :: "compute_state \<Rightarrow> group_size + nat \<Rightarrow> nat option" where
  "pipeline_owner s x = (case x of Inl k \<Rightarrow> map_of (compiled s) k
     | Inr i \<Rightarrow> if i < length (calls s) then holds (pc (calls s ! i)) else None)"

text \<open>A call that is going to settle its promise, or has.\<close>

definition settles :: "compute_call \<Rightarrow> bool" where
  "settles c \<longleftrightarrow> promise c \<noteq> None \<or> owning (pc c) \<or> (\<exists>h. pc c = Set_value h)"

definition call_ok :: "compute_env \<Rightarrow> compute_state \<Rightarrow> nat \<Rightarrow> bool" where
  "call_ok env s i \<longleftrightarrow> (let c = calls s ! i in
     (owning (pc c) \<longrightarrow> preparing s (key c) = Some i \<and> map_of (compiled s) (key c) = None)
     \<and> (\<forall>h. holds (pc c) = Some h \<longrightarrow> live s h = Some (compute_create_info env (key c)))
     \<and> (\<forall>h. promise c = Some (Inr h) \<or> pc c = Done (Inr h) \<or> pc c = Set_value h \<longrightarrow> map_of (compiled s) (key c) = Some h)
     \<and> (\<forall>j. pc c = Await j \<longrightarrow> j < length (calls s) \<and> key (calls s ! j) = key c \<and> settles (calls s ! j))
     \<and> (\<forall>e h. pc c = Destroying e h \<or> pc c = Unprepare e \<longrightarrow> promise c \<noteq> None))"

definition compute_inv :: "compute_env \<Rightarrow> compute_state \<Rightarrow> bool" where
  "compute_inv env s \<longleftrightarrow>
     owned_once (pipeline_owner s) (live s) \<and> distinct (map fst (compiled s))
     \<and> (\<forall>k h. map_of (compiled s) k = Some h \<longrightarrow> live s h = Some (compute_create_info env k))
     \<and> (\<forall>k i. preparing s k = Some i \<longrightarrow> i < length (calls s) \<and> key (calls s ! i) = k \<and> owning (pc (calls s ! i)))
     \<and> (\<forall>i < length (calls s). call_ok env s i)"

lemma goto_simps [simp]:
  "compiled (goto i p s) = compiled s" "preparing (goto i p s) = preparing s" "live (goto i p s) = live s"
  "length (calls (goto i p s)) = length (calls s)"
  "compiled (settle i r p s) = compiled s" "preparing (settle i r p s) = preparing s" "live (settle i r p s) = live s"
  "length (calls (settle i r p s)) = length (calls s)"
  by (simp_all add: goto_def settle_def)

lemma goto_call:
  "i < length (calls s) \<Longrightarrow> calls (goto i p s) ! j = (if j = i then (calls s ! i)\<lparr>pc := p\<rparr> else calls s ! j)"
  "i < length (calls s) \<Longrightarrow> calls (settle i r p s) ! j = (if j = i then (calls s ! i)\<lparr>pc := p, promise := Some r\<rparr> else calls s ! j)"
  by (auto simp: goto_def settle_def nth_list_update)

lemma owner_goto:
  assumes "i < length (calls s)"
  shows "pipeline_owner (goto i p s) = (pipeline_owner s)(Inr i := holds p)"
    "pipeline_owner (settle i r p s) = (pipeline_owner s)(Inr i := holds p)"
  using assms by (auto simp: pipeline_owner_def goto_call fun_eq_iff split: sum.splits)

lemma owner_upd [simp]: "pipeline_owner (s\<lparr>preparing := a\<rparr>) = pipeline_owner s" "pipeline_owner (s\<lparr>live := l\<rparr>) = pipeline_owner s"
  by (auto simp: pipeline_owner_def fun_eq_iff split: sum.splits)

lemma compute_invD:
  assumes "compute_inv env s" "i < length (calls s)"
  shows "call_ok env s i"
  using assms by (simp add: compute_inv_def)

lemma settles_goto: "settles (c\<lparr>pc := p, promise := Some r\<rparr>)" "promise c \<noteq> None \<Longrightarrow> settles (c\<lparr>pc := p\<rparr>)"
  "owning p \<Longrightarrow> settles (c\<lparr>pc := p\<rparr>)" "settles (c\<lparr>pc := Set_value h\<rparr>)"
  by (auto simp: settles_def)

lemma preparingD:
  "compute_inv env s \<Longrightarrow> preparing s k = Some i \<Longrightarrow> i < length (calls s) \<and> key (calls s ! i) = k \<and> owning (pc (calls s ! i))"
  by (auto simp: compute_inv_def)

lemma call_okI:
  assumes "calls s ! i = c"
    "owning (pc c) \<Longrightarrow> preparing s (key c) = Some i \<and> map_of (compiled s) (key c) = None"
    "\<And>h. holds (pc c) = Some h \<Longrightarrow> live s h = Some (compute_create_info env (key c))"
    "\<And>h. promise c = Some (Inr h) \<Longrightarrow> map_of (compiled s) (key c) = Some h"
    "\<And>h. pc c = Done (Inr h) \<Longrightarrow> map_of (compiled s) (key c) = Some h"
    "\<And>h. pc c = Set_value h \<Longrightarrow> map_of (compiled s) (key c) = Some h"
    "\<And>j. pc c = Await j \<Longrightarrow> j < length (calls s) \<and> key (calls s ! j) = key c \<and> settles (calls s ! j)"
    "\<And>e h. pc c = Destroying e h \<or> pc c = Unprepare e \<Longrightarrow> promise c \<noteq> None"
  shows "call_ok env s i"
  using assms(2-) unfolding call_ok_def assms(1) Let_def by blast

lemma call_okD:
  assumes "call_ok env s i"
  shows "owning (pc (calls s ! i)) \<Longrightarrow> preparing s (key (calls s ! i)) = Some i"
    "owning (pc (calls s ! i)) \<Longrightarrow> map_of (compiled s) (key (calls s ! i)) = None"
    "holds (pc (calls s ! i)) = Some h \<Longrightarrow> live s h = Some (compute_create_info env (key (calls s ! i)))"
    "promise (calls s ! i) = Some (Inr h) \<Longrightarrow> map_of (compiled s) (key (calls s ! i)) = Some h"
    "pc (calls s ! i) = Done (Inr h) \<Longrightarrow> map_of (compiled s) (key (calls s ! i)) = Some h"
    "pc (calls s ! i) = Set_value h \<Longrightarrow> map_of (compiled s) (key (calls s ! i)) = Some h"
    "pc (calls s ! i) = Await j \<Longrightarrow> j < length (calls s) \<and> key (calls s ! j) = key (calls s ! i) \<and> settles (calls s ! j)"
    "pc (calls s ! i) = Destroying e g \<or> pc (calls s ! i) = Unprepare e \<Longrightarrow> promise (calls s ! i) \<noteq> None"
  using assms unfolding call_ok_def Let_def by blast+

text \<open>What a step of another call keeps of a call.\<close>

lemma call_ok_other:
  assumes "call_ok env s j" "calls t ! j = calls s ! j" "length (calls s) \<le> length (calls t)"
    "owning (pc (calls s ! j)) \<Longrightarrow> preparing t (key (calls s ! j)) = preparing s (key (calls s ! j))
       \<and> map_of (compiled t) (key (calls s ! j)) = map_of (compiled s) (key (calls s ! j))"
    "\<And>k h. map_of (compiled s) k = Some h \<Longrightarrow> map_of (compiled t) k = Some h"
    "\<And>h. holds (pc (calls s ! j)) = Some h \<Longrightarrow> live t h = live s h"
    "\<And>m. m < length (calls s) \<Longrightarrow> key (calls t ! m) = key (calls s ! m) \<and> (settles (calls s ! m) \<longrightarrow> settles (calls t ! m))"
  shows "call_ok env t j"
proof (rule call_okI [OF assms(2)])
  note ok = call_okD [OF assms(1)]
  show "preparing t (key (calls s ! j)) = Some j \<and> map_of (compiled t) (key (calls s ! j)) = None" if "owning (pc (calls s ! j))"
    using assms(4) [OF that] ok(1,2) [OF that] by simp
  show "live t h = Some (compute_create_info env (key (calls s ! j)))" if "holds (pc (calls s ! j)) = Some h" for h
    using assms(6) [OF that] ok(3) [OF that] by simp
  show "map_of (compiled t) (key (calls s ! j)) = Some h" if "promise (calls s ! j) = Some (Inr h)" for h
    using assms(5) [OF ok(4) [OF that]] .
  show "map_of (compiled t) (key (calls s ! j)) = Some h" if "pc (calls s ! j) = Done (Inr h)" for h
    using assms(5) [OF ok(5) [OF that]] .
  show "map_of (compiled t) (key (calls s ! j)) = Some h" if "pc (calls s ! j) = Set_value h" for h
    using assms(5) [OF ok(6) [OF that]] .
  show "m < length (calls t) \<and> key (calls t ! m) = key (calls s ! j) \<and> settles (calls t ! m)" if "pc (calls s ! j) = Await m" for m
    using ok(7) [OF that] assms(3) assms(7) [of m] by simp
  show "promise (calls s ! j) \<noteq> None" if "pc (calls s ! j) = Destroying e g \<or> pc (calls s ! j) = Unprepare e" for e g
    using ok(8) [OF that] .
qed

lemma key_goto: "i < length (calls s) \<Longrightarrow> key (calls (goto i p s) ! m) = key (calls s ! m)"
  "i < length (calls s) \<Longrightarrow> key (calls (settle i r p s) ! m) = key (calls s ! m)"
  by (simp_all add: goto_call)

lemma settles_kept:
  assumes "i < length (calls s)" "settles (calls s ! m)"
    "owning (pc (calls s ! i)) \<or> (\<exists>h. pc (calls s ! i) = Set_value h) \<Longrightarrow> owning p \<or> (\<exists>h. p = Set_value h)"
  shows "settles (calls (goto i p s) ! m)"
  using assms by (cases "m = i") (auto simp: goto_call settles_def)

text \<open>A call that moves without touching what others read.\<close>

lemma inv_goto:
  assumes "compute_inv env s" "i < length (calls s)" "holds p = holds (pc (calls s ! i))" "owning p = owning (pc (calls s ! i))"
    "\<And>h. p = Set_value h \<Longrightarrow> False" "\<And>h. pc (calls s ! i) = Set_value h \<Longrightarrow> False"
    "\<And>h. p = Done (Inr h) \<Longrightarrow> map_of (compiled s) (key (calls s ! i)) = Some h"
    "\<And>j. p = Await j \<Longrightarrow> j < length (calls s) \<and> key (calls s ! j) = key (calls s ! i) \<and> settles (calls s ! j)"
    "\<And>e h. p = Destroying e h \<or> p = Unprepare e \<Longrightarrow> promise (calls s ! i) \<noteq> None"
  shows "compute_inv env (goto i p s)"
proof -
  have o: "pipeline_owner (goto i p s) = pipeline_owner s"
    using assms(2,3) by (auto simp: owner_goto pipeline_owner_def fun_eq_iff split: sum.splits)
  have st: "settles (calls (goto i p s) ! j) = settles (calls s ! j)" for j
    using assms(2,4-6) by (auto simp: goto_call settles_def)
  have "call_ok env (goto i p s) j" if "j < length (calls s)" for j
  proof (cases "j = i")
    case True
    note ok = call_okD [OF compute_invD [OF assms(1,2)]]
    have c: "calls (goto i p s) ! i = (calls s ! i)\<lparr>pc := p\<rparr>" by (simp add: goto_call(1) [OF assms(2)])
    have "call_ok env (goto i p s) i"
    proof (rule call_okI [OF c])
      show "m < length (calls (goto i p s)) \<and> key (calls (goto i p s) ! m) = key ((calls s ! i)\<lparr>pc := p\<rparr>) \<and> settles (calls (goto i p s) ! m)"
        if "pc ((calls s ! i)\<lparr>pc := p\<rparr>) = Await m" for m
        using assms(8) [of m] that unfolding st key_goto(1) [OF assms(2)] key_upd goto_simps by simp
    qed (use ok(1-4) assms(3-5,7,9) in simp_all)
    then show ?thesis using True by simp
  next
    case False
    show ?thesis
      by (rule call_ok_other [OF compute_invD [OF assms(1) that]]) (use False in \<open>simp_all only: st key_goto [OF assms(2)] goto_simps, simp_all add: goto_call assms(2)\<close>)
  qed
  then show ?thesis using assms(1,2,4) by (simp add: compute_inv_def o goto_call)
qed

lemma inv_asked: "compute_inv env s \<Longrightarrow> compute_inv env (createPipeline z s)"
proof -
  assume inv: "compute_inv env s"
  let ?s = "createPipeline z s"
  have c: "calls ?s ! j = (if j < length (calls s) then calls s ! j else \<lparr>group = z, pc = Enter, promise = None\<rparr>)"
    if "j < length (calls ?s)" for j using that by (auto simp: createPipeline_def nth_append)
  have l: "length (calls ?s) = Suc (length (calls s))" "compiled ?s = compiled s" "preparing ?s = preparing s" "live ?s = live s"
    by (simp_all add: createPipeline_def)
  have "pipeline_owner ?s = pipeline_owner s"
    by (auto simp: pipeline_owner_def fun_eq_iff l c split: sum.splits)
  moreover have "call_ok env ?s j" if "j < length (calls ?s)" for j
  proof (cases "j < length (calls s)")
    case True
    show ?thesis by (rule call_ok_other [OF compute_invD [OF inv True]]) (use True in \<open>simp_all add: l c\<close>)
  qed (use that in \<open>simp add: call_ok_def c\<close>)
  moreover have "preparing ?s k = Some j \<Longrightarrow> j < length (calls ?s) \<and> key (calls ?s ! j) = k \<and> owning (pc (calls ?s ! j))" for k j
    using preparingD [OF inv, of k j] by (simp add: l c)
  ultimately show ?thesis using inv by (simp add: compute_inv_def l)
qed

lemma inv_enter:
  assumes "compute_inv env s" "i < length (calls s)" "pc (calls s ! i) = Enter"
  shows "compute_inv env (enter_section i s)"
proof -
  let ?k = "key (calls s ! i)"
  consider h where "map_of (compiled s) ?k = Some h" | j where "map_of (compiled s) ?k = None" "preparing s ?k = Some j"
    | "map_of (compiled s) ?k = None" "preparing s ?k = None" by (cases "map_of (compiled s) ?k"; cases "preparing s ?k") auto
  then show ?thesis
  proof cases
    case 1
    have "compute_inv env (goto i (Done (Inr h)) s)" by (rule inv_goto [OF assms(1,2)]) (simp_all add: assms(3) 1)
    then show ?thesis using 1 by (simp add: enter_section_def)
  next
    case 2
    have "j < length (calls s) \<and> key (calls s ! j) = ?k \<and> owning (pc (calls s ! j))" using preparingD [OF assms(1) 2(2)] .
    then have w: "m < length (calls s) \<and> key (calls s ! m) = ?k \<and> settles (calls s ! m)" if "Await j = Await m" for m
      using that by (simp add: settles_def)
    have "compute_inv env (goto i (Await j) s)" by (rule inv_goto [OF assms(1,2) _ _ _ _ _ w]) (simp_all add: assms(3))
    then show ?thesis using 2 by (simp add: enter_section_def)
  next
    case 3
    let ?s = "(goto i Creating s)\<lparr>preparing := (preparing s)(?k \<mapsto> i)\<rparr>"
    have c: "calls ?s ! j = (if j = i then (calls s ! i)\<lparr>pc := Creating\<rparr> else calls s ! j)" for j using assms(2) by (simp add: goto_call)
    have o: "pipeline_owner ?s = pipeline_owner s"
      using assms(2,3) by (auto simp: owner_goto pipeline_owner_def fun_eq_iff split: sum.splits)
    have "call_ok env ?s j" if "j < length (calls s)" for j
    proof (cases "j = i")
      case True
      have ci: "calls ?s ! i = (calls s ! i)\<lparr>pc := Creating\<rparr>" using c by simp
      have "call_ok env ?s i" by (rule call_okI [OF ci]) (use call_okD(4) [OF compute_invD [OF assms(1,2)]] 3 in simp_all)
      then show ?thesis using True by simp
    next
      case False
      have "owning (pc (calls s ! j)) \<Longrightarrow> key (calls s ! j) \<noteq> ?k"
        using call_okD(1) [OF compute_invD [OF assms(1) that]] 3(2) by auto
      then show ?thesis
        by (intro call_ok_other [OF compute_invD [OF assms(1) that]]) (use False assms(2) in \<open>simp_all add: goto_call settles_def\<close>)
    qed
    moreover have "preparing ?s k = Some j \<Longrightarrow> j < length (calls ?s) \<and> key (calls ?s ! j) = k \<and> owning (pc (calls ?s ! j))" for k j
      using preparingD [OF assms(1), of k j] assms(2) by (auto simp: goto_call split: if_splits)
    ultimately have "compute_inv env ?s" using assms(1) o by (simp add: compute_inv_def)
    then show ?thesis using 3 by (simp add: enter_section_def)
  qed
qed

lemma inv_create:
  assumes "compute_inv env s" "i < length (calls s)" "pc (calls s ! i) = Creating" "\<And>h. created = Some h \<Longrightarrow> live s h = None"
  shows "compute_inv env (create_compute env created i s)"
proof (cases created)
  case None
  have "compute_inv env (goto i (Caught (Throw ''Could not create compute pipeline'') None) s)"
    by (rule inv_goto [OF assms(1,2)]) (simp_all add: assms(3))
  then show ?thesis using None by (simp add: create_compute_def)
next
  case (Some h)
  let ?s = "(goto i (Created h) s)\<lparr>live := (live s)(h \<mapsto> compute_create_info env (key (calls s ! i)))\<rparr>"
  have c: "calls ?s ! j = (if j = i then (calls s ! i)\<lparr>pc := Created h\<rparr> else calls s ! j)" for j using assms(2) by (simp add: goto_call)
  have own: "owned_once (pipeline_owner s) (live s)" using assms(1) by (simp add: compute_inv_def)
  have "pipeline_owner s (Inr i) = None" using assms(3) by (simp add: pipeline_owner_def)
  with own have o: "owned_once (pipeline_owner ?s) (live ?s)"
    using owned_create assms(2,4) Some by (simp add: owner_goto)
  have "call_ok env ?s j" if "j < length (calls s)" for j
  proof (cases "j = i")
    case True
    note ok = call_okD [OF compute_invD [OF assms(1,2)]]
    have ci: "calls ?s ! i = (calls s ! i)\<lparr>pc := Created h\<rparr>" using c by simp
    have "call_ok env ?s i" by (rule call_okI [OF ci]) (use ok(1,2,4) assms(3) in simp_all)
    then show ?thesis using True by simp
  next
    case False
    have "holds (pc (calls s ! j)) \<noteq> Some h"
      using call_okD(3) [OF compute_invD [OF assms(1) that]] assms(4) [OF Some] by auto
    then show ?thesis
      by (intro call_ok_other [OF compute_invD [OF assms(1) that]]) (use False assms(2) in \<open>auto simp: goto_call settles_def\<close>)
  qed
  moreover have "live ?s h' = Some (compute_create_info env k)" if "map_of (compiled s) k = Some h'" for k h'
    using assms(1) that assms(4) [OF Some] by (auto simp: compute_inv_def)
  moreover have "preparing ?s k = Some j \<Longrightarrow> j < length (calls ?s) \<and> key (calls ?s ! j) = k \<and> owning (pc (calls ?s ! j))" for k j
    using preparingD [OF assms(1), of k j] assms(2) by (auto simp: goto_call)
  ultimately have "compute_inv env ?s" using assms(1) o by (simp add: compute_inv_def)
  then show ?thesis using Some by (simp add: create_compute_def)
qed

lemma inv_publish:
  assumes "compute_inv env s" "i < length (calls s)" "pc (calls s ! i) = Created h"
  shows "compute_inv env (publish_compute stored i h s)"
proof (cases stored)
  case False
  have "compute_inv env (goto i (Caught (Throw ''std::bad_alloc'') (Some h)) s)"
    by (rule inv_goto [OF assms(1,2)]) (simp_all add: assms(3))
  then show ?thesis using False by (simp add: publish_compute_def)
next
  case True
  let ?k = "key (calls s ! i)"
  let ?s = "(goto i (Set_value h) s)\<lparr>compiled := compiled s @ [(?k, h)], preparing := (preparing s)(?k := None)\<rparr>"
  have ok: "call_ok env s i" using compute_invD [OF assms(1,2)] .
  then have n: "preparing s ?k = Some i" "map_of (compiled s) ?k = None" "live s h = Some (compute_create_info env ?k)"
    using call_okD(1-3) [OF ok] assms(3) by simp_all
  have c: "calls ?s ! j = (if j = i then (calls s ! i)\<lparr>pc := Set_value h\<rparr> else calls s ! j)" for j using assms(2) by (simp add: goto_call)
  have m: "map_of (compiled ?s) = (map_of (compiled s))(?k \<mapsto> h)" using n(2) by (auto simp: map_add_def fun_eq_iff split: option.splits)
  have "pipeline_owner s (Inr i) = Some h" "pipeline_owner s (Inl ?k) = None" using assms(2,3) n(2) by (simp_all add: pipeline_owner_def)
  then have o: "owned_once ((pipeline_owner s)(Inr i := None, Inl ?k := Some h)) (live s)"
    by (intro owned_move) (use assms(1) in \<open>simp_all add: compute_inv_def\<close>)
  have po: "pipeline_owner ?s = (pipeline_owner s)(Inr i := None, Inl ?k := Some h)"
    using assms(2) n(2) by (auto simp: pipeline_owner_def fun_eq_iff goto_call map_add_def split: sum.splits option.splits)
  have st: "settles (calls s ! j) \<Longrightarrow> settles (calls ?s ! j)" for j using c by (auto simp: settles_def)
  have other: "j = i" if "j < length (calls s)" "owning (pc (calls s ! j))" "key (calls s ! j) = ?k" for j
    using call_okD(1) [OF compute_invD [OF assms(1) that(1)] that(2)] that(3) n(1) by simp
  have "call_ok env ?s j" if j: "j < length (calls s)" for j
  proof (cases "j = i")
    case True
    have ci: "calls ?s ! i = (calls s ! i)\<lparr>pc := Set_value h\<rparr>" using c by simp
    have "promise (calls s ! i) \<noteq> Some (Inr h')" for h' using call_okD(4) [OF ok] n(2) by auto
    then have "call_ok env ?s i" by (intro call_okI [OF ci]) (use m in simp_all)
    then show ?thesis using True by simp
  next
    case False
    have "key (calls s ! j) \<noteq> ?k" if "owning (pc (calls s ! j))" using other [OF j that] False by blast
    then show ?thesis
      by (intro call_ok_other [OF compute_invD [OF assms(1) j]] impI conjI) (use False assms(2) n(2) st c m in auto)
  qed
  moreover have "distinct (map fst (compiled ?s))" using assms(1) n(2) by (auto simp: compute_inv_def map_of_eq_None_iff)
  moreover have "preparing ?s k = Some j \<Longrightarrow> j < length (calls ?s) \<and> key (calls ?s ! j) = k \<and> owning (pc (calls ?s ! j))" for k j
    using preparingD [OF assms(1), of k j] n(1) assms(2) by (auto simp: goto_call split: if_splits)
  moreover have "map_of (compiled ?s) k = Some h' \<Longrightarrow> live ?s h' = Some (compute_create_info env k)" for k h'
    using assms(1) n(3) m by (auto simp: compute_inv_def split: if_splits)
  ultimately have "compute_inv env ?s" using o po by (simp add: compute_inv_def)
  then show ?thesis using True n(2) by (simp add: publish_compute_def Let_def)
qed

lemma inv_settle:
  assumes "compute_inv env s" "i < length (calls s)"
    "(\<exists>h. pc (calls s ! i) = Set_value h \<and> r = Inr h \<and> p = Done (Inr h))
     \<or> (\<exists>e h. pc (calls s ! i) = Caught e h \<and> r = Inl e \<and> p = Destroying e h)"
  shows "compute_inv env (settle i r p s)"
proof -
  let ?s = "settle i r p s"
  have c: "calls ?s ! i = (calls s ! i)\<lparr>pc := p, promise := Some r\<rparr>" by (simp add: goto_call(2) [OF assms(2)])
  note ok = call_okD [OF compute_invD [OF assms(1,2)]]
  have "holds p = holds (pc (calls s ! i))" using assms(3) by auto
  then have o: "pipeline_owner ?s = pipeline_owner s"
    using assms(2) by (auto simp: owner_goto pipeline_owner_def fun_eq_iff split: sum.splits)
  have "call_ok env ?s j" if "j < length (calls s)" for j
  proof (cases "j = i")
    case True
    have "call_ok env ?s i" by (rule call_okI [OF c]) (use ok(1,2,3,6) assms(3) in auto)
    then show ?thesis using True by simp
  next
    case False
    show ?thesis by (rule call_ok_other [OF compute_invD [OF assms(1) that]]) (use False assms(2) in \<open>simp_all add: goto_call settles_def\<close>)
  qed
  moreover have "preparing ?s k = Some j \<Longrightarrow> j < length (calls ?s) \<and> key (calls ?s ! j) = k \<and> owning (pc (calls ?s ! j))" for k j
    using preparingD [OF assms(1), of k j] assms(2,3) by (auto simp: goto_call)
  ultimately show ?thesis using assms(1) o by (simp add: compute_inv_def)
qed

lemma inv_destroy_call:
  assumes "compute_inv env s" "i < length (calls s)" "pc (calls s ! i) = Destroying e h" "promise (calls s ! i) \<noteq> None"
  shows "compute_inv env (goto i (Unprepare e) (destroy_call h s))"
proof (cases h)
  case None
  have "compute_inv env (goto i (Unprepare e) s)" by (rule inv_goto [OF assms(1,2)]) (simp_all add: assms(3,4) None)
  then show ?thesis by (simp add: None destroy_call_def)
next
  case (Some g)
  let ?s = "goto i (Unprepare e) (s\<lparr>live := (live s)(g := None)\<rparr>)"
  have l: "i < length (calls (s\<lparr>live := (live s)(g := None)\<rparr>))" using assms(2) by simp
  have c: "calls ?s ! i = (calls s ! i)\<lparr>pc := Unprepare e\<rparr>" using goto_call(1) [OF l] by simp
  note ok = call_okD [OF compute_invD [OF assms(1,2)]]
  have own: "owned_once (pipeline_owner s) (live s)" using assms(1) by (simp add: compute_inv_def)
  have oi: "pipeline_owner s (Inr i) = Some g" using assms(2,3) Some by (simp add: pipeline_owner_def)
  have "owned_once ((pipeline_owner s)(Inr i := None)) ((live s)(g := None))" by (rule owned_destroy [OF own oi])
  then have o: "owned_once (pipeline_owner ?s) (live ?s)" by (simp add: owner_goto(1) [OF l])
  have "call_ok env ?s j" if "j < length (calls s)" for j
  proof (cases "j = i")
    case True
    have "call_ok env ?s i" by (rule call_okI [OF c]) (use ok(1,2,4) assms(3,4) in simp_all)
    then show ?thesis using True by simp
  next
    case False
    have "holds (pc (calls s ! j)) \<noteq> Some g"
      using ownedD(2) [OF own oi, of "Inr j"] False that by (auto simp: pipeline_owner_def)
    then show ?thesis by (intro call_ok_other [OF compute_invD [OF assms(1) that]]) (use False l in \<open>auto simp: goto_call settles_def\<close>)
  qed
  moreover have "preparing ?s k = Some j \<Longrightarrow> j < length (calls ?s) \<and> key (calls ?s ! j) = k \<and> owning (pc (calls ?s ! j))" for k j
    using preparingD [OF assms(1), of k j] l by (auto simp: goto_call)
  moreover have "live ?s h' = Some (compute_create_info env k)" if "map_of (compiled s) k = Some h'" for k h'
  proof -
    have "h' \<noteq> g" using ownedD(2) [OF own oi, of "Inl k"] that by (auto simp: pipeline_owner_def)
    then show ?thesis using assms(1) that by (simp add: compute_inv_def)
  qed
  ultimately have "compute_inv env ?s" using assms(1) o by (simp add: compute_inv_def)
  then show ?thesis using Some by (simp add: destroy_call_def)
qed

lemma inv_unprepare:
  assumes "compute_inv env s" "i < length (calls s)" "pc (calls s ! i) = Unprepare e"
  shows "compute_inv env ((goto i (Done (Inl e)) s)\<lparr>preparing := (preparing s)(key (calls s ! i) := None)\<rparr>)"
proof -
  let ?k = "key (calls s ! i)"
  let ?s = "(goto i (Done (Inl e)) s)\<lparr>preparing := (preparing s)(?k := None)\<rparr>"
  have c: "calls ?s ! i = (calls s ! i)\<lparr>pc := Done (Inl e)\<rparr>" using goto_call(1) [OF assms(2)] by simp
  note ok = call_okD [OF compute_invD [OF assms(1,2)]]
  have pr: "preparing s ?k = Some i" using ok(1) assms(3) by simp
  have o: "pipeline_owner ?s = pipeline_owner s"
    using assms(2,3) by (auto simp: owner_goto pipeline_owner_def fun_eq_iff split: sum.splits)
  have "call_ok env ?s j" if "j < length (calls s)" for j
  proof (cases "j = i")
    case True
    have "call_ok env ?s i" by (rule call_okI [OF c]) (use ok(4) in simp_all)
    then show ?thesis using True by simp
  next
    case False
    have "owning (pc (calls s ! j)) \<Longrightarrow> key (calls s ! j) \<noteq> ?k"
      using call_okD(1) [OF compute_invD [OF assms(1) that]] pr False by auto
    moreover have "settles (calls ?s ! m)" if "settles (calls s ! m)" for m
      using that ok(8) [of e] assms(2,3) by (auto simp: goto_call settles_def)
    ultimately show ?thesis
      by (intro call_ok_other [OF compute_invD [OF assms(1) that]]) (use False assms(2) in \<open>simp_all add: goto_call\<close>)
  qed
  moreover have "preparing ?s k = Some j \<Longrightarrow> j < length (calls ?s) \<and> key (calls ?s ! j) = k \<and> owning (pc (calls ?s ! j))" for k j
    using preparingD [OF assms(1), of k j] assms(2) pr by (auto simp: goto_call split: if_splits)
  ultimately show ?thesis using assms(1) o by (simp add: compute_inv_def)
qed

lemma inv_call_step:
  assumes "call_step env s s'" "compute_inv env s"
  shows "compute_inv env s'"
  using assms(1)
proof (cases rule: call_step.cases)
  case (run i created stored)
  show ?thesis
  proof (cases "pc (calls s ! i)")
    case Enter
    then show ?thesis using inv_enter [OF assms(2) run(1)] run(3) by (simp add: run_call_def)
  next
    case (Await j)
    then obtain r where r: "promise (calls s ! j) = Some r" "s' = goto i (Done r) s" using run(3) by (auto simp: run_call_def)
    have j: "j < length (calls s)" "key (calls s ! j) = key (calls s ! i)"
      using call_okD(7) [OF compute_invD [OF assms(2) run(1)] Await] by simp_all
    have "map_of (compiled s) (key (calls s ! i)) = Some h" if "Done r = Done (Inr h)" for h
      using call_okD(4) [OF compute_invD [OF assms(2) j(1)]] r(1) that j(2) by simp
    then show ?thesis unfolding r(2) by (intro inv_goto [OF assms(2) run(1)]) (simp_all add: Await)
  next
    case Creating
    have "compute_inv env (create_compute env created i s)" by (rule inv_create [OF assms(2) run(1) Creating]) (rule run(2))
    then show ?thesis using run(3) Creating by (simp add: run_call_def)
  next
    case (Created h)
    then show ?thesis using inv_publish [OF assms(2) run(1) Created, of stored] run(3) by (simp add: run_call_def)
  next
    case (Set_value h)
    then show ?thesis using inv_settle [OF assms(2) run(1), of "Inr h"] run(3) by (simp add: run_call_def)
  next
    case (Caught e h)
    then show ?thesis using inv_settle [OF assms(2) run(1), of "Inl e"] run(3) by (simp add: run_call_def)
  next
    case (Destroying e h)
    have "promise (calls s ! i) \<noteq> None" using call_okD(8) [OF compute_invD [OF assms(2) run(1)]] Destroying by blast
    then show ?thesis using inv_destroy_call [OF assms(2) run(1) Destroying] Destroying run(3) by (simp add: run_call_def)
  next
    case (Unprepare e)
    then show ?thesis using inv_unprepare [OF assms(2) run(1) Unprepare] run(3) by (simp add: run_call_def)
  next
    case (Done r)
    then show ?thesis using run(3) by (simp add: run_call_def)
  qed
qed

lemma inv_made:
  assumes "new_compute_state stage_input layout module limits = Inr (env, s)"
  shows "compute_inv env s"
proof -
  have "compiled s = []" "preparing s = Map.empty" "calls s = []" "live s = Map.empty"
    using assms by (auto simp: new_compute_state_def split: if_splits option.splits)
  then show ?thesis
    by (simp add: compute_inv_def owned_once_def pipeline_owner_def split: sum.splits)
qed

lemma compute_reachable_inv: "compute_reachable env s \<Longrightarrow> compute_inv env s"
  by (induction rule: compute_reachable.induct) (simp_all add: inv_made inv_asked inv_call_step)

subsection \<open>One pipeline for each size\<close>

definition is_done :: "compute_pc \<Rightarrow> bool" where
  "is_done p = (case p of Done r \<Rightarrow> True | _ \<Rightarrow> False)"

definition all_done :: "compute_state \<Rightarrow> bool" where
  "all_done s = list_all (\<lambda>c. is_done (pc c)) (calls s)"

lemma is_done_iff: "is_done p \<longleftrightarrow> (\<exists>r. p = Done r)"
  by (simp add: is_done_def split: compute_pc.split)

lemma all_doneD: "all_done s \<Longrightarrow> i < length (calls s) \<Longrightarrow> \<exists>r. pc (calls s ! i) = Done r"
  by (simp add: all_done_def list_all_length is_done_iff)

lemma constant_values:
  "constant_value (compute_create_info env (group_size_of z)) d = (if d < 3 then Some (group_size_of z ! d) else None)"
proof -
  have "[0 ..< 3] = [0, 1, 2 :: nat]" by (simp add: upt_rec)
  then show ?thesis
    by (cases z) (auto simp: constant_value_def compute_create_info_def map_entries_def group_size_of_def less_Suc_eq numeral_3_eq_3)
qed

lemma compiled_injective:
  assumes "compute_inv env s" "map_of (compiled s) k = Some h" "map_of (compiled s) k' = Some h"
  shows "k = k'"
proof -
  have "owned_once (pipeline_owner s) (live s)" using assms(1) by (simp add: compute_inv_def)
  then have "(Inl k :: group_size + nat) = Inl k'" by (rule ownedD(2)) (simp_all add: pipeline_owner_def assms(2,3))
  then show ?thesis by simp
qed

lemma destroyed_live: "fold (\<lambda>h l. l(h := None)) hs (l :: nat \<rightharpoonup> 'a) = l |` (- set hs)"
proof (induction hs arbitrary: l)
  case (Cons h hs)
  have "l(h := None) |` (- set hs) = l |` (- set (h # hs))" by (auto simp: restrict_map_def fun_eq_iff)
  then show ?case by (simp only: fold_simps Cons.IH)
qed (simp add: restrict_map_def)

text \<open>Once every call has returned nothing is being prepared, and the destructor leaves no pipeline.\<close>

lemma done_state:
  assumes "compute_inv env s" "all_done s"
  shows "preparing s = Map.empty" "live (destroy_compute_state s) = Map.empty" "distinct (map snd (compiled s))"
proof -
  have "preparing s k = None" for k
    using preparingD [OF assms(1), of k] all_doneD [OF assms(2)] by (cases "preparing s k") fastforce+
  then show "preparing s = Map.empty" by auto
  have "h \<in> set (map snd (compiled s))" if lv: "live s h = Some c" for h c
  proof -
    obtain x where x: "pipeline_owner s x = Some h" using assms(1) ownedD(3) [of "pipeline_owner s" "live s", OF _ lv] by (auto simp: compute_inv_def)
    show ?thesis
    proof (cases x)
      case (Inl k)
      then have "(k, h) \<in> set (compiled s)" using x by (auto simp: pipeline_owner_def dest: map_of_SomeD)
      then show ?thesis by force
    next
      case (Inr i)
      then have "i < length (calls s)" "holds (pc (calls s ! i)) = Some h" using x by (auto simp: pipeline_owner_def split: if_splits)
      then show ?thesis using all_doneD [OF assms(2), of i] by auto
    qed
  qed
  then show "live (destroy_compute_state s) = Map.empty"
    unfolding destroy_compute_state_def destroyed_live restrict_map_def by (intro ext) (simp, metis not_None_eq)
  have d: "distinct (map fst (compiled s))" using assms(1) by (simp add: compute_inv_def)
  then have "inj_on snd (set (compiled s))"
    using compiled_injective [OF assms(1)] by (intro inj_onI) (metis map_of_eq_Some_iff prod.collapse)
  then show "distinct (map snd (compiled s))" using d by (simp add: distinct_map)
qed

text \<open>
  C24: Dispatches of one threadgroup size share one compute pipeline, specialised for that size.
  However the calls of \<open>createPipeline\<close> interleave and whatever the driver answers, a call that has
  returned gives a live pipeline whose constants 0, 1 and 2 are the width, height and depth it asked
  for, in 32 bits; calls for the same size get the same pipeline, calls for different sizes different
  ones; at any time at most one call compiles a size. When every call has returned, by value or by
  exception, no size is left in preparation, so a failed size is compiled again by the next call, and
  the destructor destroys each pipeline once and leaves none.
\<close>

theorem compute_pipelines_shared:
  assumes "compute_reachable env s"
  shows "(\<forall>i < length (calls s). \<forall>h. pc (calls s ! i) = Done (Inr h) \<longrightarrow>
       (\<exists>c. live s h = Some c \<and> ci_module c = cs_module env \<and> ci_layout c = cs_layout env
         \<and> (\<forall>d < 3. constant_value c d = Some (group_size_of (group (calls s ! i)) ! d))))
    \<and> (\<forall>i < length (calls s). \<forall>j < length (calls s). \<forall>h g. pc (calls s ! i) = Done (Inr h) \<longrightarrow> pc (calls s ! j) = Done (Inr g) \<longrightarrow>
         (h = g \<longleftrightarrow> group_size_of (group (calls s ! i)) = group_size_of (group (calls s ! j))))
    \<and> (\<forall>i < length (calls s). \<forall>j < length (calls s). owning (pc (calls s ! i)) \<longrightarrow> owning (pc (calls s ! j)) \<longrightarrow>
         group_size_of (group (calls s ! i)) = group_size_of (group (calls s ! j)) \<longrightarrow> i = j)
    \<and> (all_done s \<longrightarrow> preparing s = Map.empty \<and> distinct (map snd (compiled s)) \<and> live (destroy_compute_state s) = Map.empty)"
proof -
  note inv = compute_reachable_inv [OF assms]
  note ok = call_okD [OF compute_invD [OF inv]]
  have returned: "map_of (compiled s) (key (calls s ! i)) = Some h" if "i < length (calls s)" "pc (calls s ! i) = Done (Inr h)" for i h
    using ok(5) [OF that] .
  have "live s h = Some (compute_create_info env (key (calls s ! i)))" if "i < length (calls s)" "pc (calls s ! i) = Done (Inr h)" for i h
    using inv returned [OF that] by (simp add: compute_inv_def)
  then have "\<exists>c. live s h = Some c \<and> ci_module c = cs_module env \<and> ci_layout c = cs_layout env
      \<and> (\<forall>d < 3. constant_value c d = Some (group_size_of (group (calls s ! i)) ! d))"
    if "i < length (calls s)" "pc (calls s ! i) = Done (Inr h)" for i h
    using that by (intro exI [of _ "compute_create_info env (key (calls s ! i))"]) (simp add: key_def constant_values, simp add: compute_create_info_def)
  moreover have "h = g \<longleftrightarrow> group_size_of (group (calls s ! i)) = group_size_of (group (calls s ! j))"
    if "i < length (calls s)" "j < length (calls s)" "pc (calls s ! i) = Done (Inr h)" "pc (calls s ! j) = Done (Inr g)" for i j h g
    using returned [OF that(1,3)] returned [OF that(2,4)] compiled_injective [OF inv, of _ h] unfolding key_def by (metis option.inject)
  moreover have "i = j" if "i < length (calls s)" "j < length (calls s)" "owning (pc (calls s ! i))" "owning (pc (calls s ! j))"
    "group_size_of (group (calls s ! i)) = group_size_of (group (calls s ! j))" for i j
    using ok(1) [OF that(1,3)] ok(1) [OF that(2,4)] that(5) by (simp add: key_def)
  moreover note done_state [OF inv]
  ultimately show ?thesis by blast
qed

subsection \<open>Every call returns\<close>

definition pc_steps :: "compute_pc \<Rightarrow> nat" where
  "pc_steps p = (case p of Enter \<Rightarrow> 6 | Creating \<Rightarrow> 5 | Created h \<Rightarrow> 4 | Caught e h \<Rightarrow> 3 | Destroying e h \<Rightarrow> 2
     | Await j \<Rightarrow> 1 | Set_value h \<Rightarrow> 1 | Unprepare e \<Rightarrow> 1 | Done r \<Rightarrow> 0)"

definition calls_left :: "compute_state \<Rightarrow> nat" where
  "calls_left s = sum_list (map (\<lambda>c. pc_steps (pc c)) (calls s))"

lemma calls_left_update:
  assumes "i < length (calls s)" "calls s' = (calls s)[i := c]" "pc_steps (pc c) < pc_steps (pc (calls s ! i))"
  shows "calls_left s' < calls_left s"
  using sum_list_map_update [OF assms(1), of "\<lambda>c. pc_steps (pc c)" c] assms(2,3) by (simp add: calls_left_def)

lemma call_step_decreases:
  assumes "call_step env s s'"
  shows "calls_left s' < calls_left s"
  using assms
proof (cases rule: call_step.cases)
  case (run i created stored)
  let ?c = "calls s ! i"
  have "\<exists>c. calls s' = (calls s)[i := c] \<and> pc_steps (pc c) < pc_steps (pc ?c)"
  proof (cases "pc ?c")
    case Enter
    then have "calls s' = calls (enter_section i s)" using run(3) by (simp add: run_call_def)
    then show ?thesis using Enter
      by (auto simp: enter_section_def Let_def goto_def pc_steps_def split: option.splits intro!: exI [of _ "?c\<lparr>pc := _\<rparr>"])
  next
    case (Created h)
    then have "s' = publish_compute stored i h s" using run(3) by (simp add: run_call_def)
    then show ?thesis using Created by (cases stored) (auto simp: publish_compute_def Let_def goto_def pc_steps_def intro!: exI [of _ "?c\<lparr>pc := _\<rparr>"])
  next
    case Creating
    then have "s' = create_compute env created i s" using run(3) by (simp add: run_call_def)
    then show ?thesis using Creating
      by (cases created) (auto simp: create_compute_def goto_def pc_steps_def intro!: exI [of _ "?c\<lparr>pc := _\<rparr>"])
  next
    case (Set_value h)
    then have "calls s' = (calls s)[i := ?c\<lparr>pc := Done (Inr h), promise := Some (Inr h)\<rparr>]" using run(3) by (auto simp: run_call_def settle_def)
    then show ?thesis using Set_value by (intro exI) (auto simp: pc_steps_def)
  next
    case (Caught e h)
    then have "calls s' = (calls s)[i := ?c\<lparr>pc := Destroying e h, promise := Some (Inl e)\<rparr>]" using run(3) by (auto simp: run_call_def settle_def)
    then show ?thesis using Caught by (intro exI) (auto simp: pc_steps_def)
  next
    case (Destroying e h)
    then have "calls s' = (calls s)[i := ?c\<lparr>pc := Unprepare e\<rparr>]" using run(3) by (cases h) (auto simp: run_call_def goto_def destroy_call_def)
    then show ?thesis using Destroying by (intro exI) (auto simp: pc_steps_def)
  next
    case (Unprepare e)
    then have "calls s' = (calls s)[i := ?c\<lparr>pc := Done (Inl e)\<rparr>]" using run(3) by (auto simp: run_call_def goto_def)
    then show ?thesis using Unprepare by (intro exI) (auto simp: pc_steps_def)
  next
    case (Await j)
    then obtain r where "calls s' = (calls s)[i := ?c\<lparr>pc := Done r\<rparr>]" using run(3) by (auto simp: run_call_def goto_def)
    then show ?thesis using Await by (intro exI) (auto simp: pc_steps_def)
  qed (use run(3) in \<open>simp add: run_call_def\<close>)
  then show ?thesis using calls_left_update [OF run(1)] by blast
qed

lemma call_steps_bounded: "(call_step env ^^ n) s s' \<Longrightarrow> n + calls_left s' \<le> calls_left s"
proof (induction n arbitrary: s')
  case (Suc n)
  then obtain t where "(call_step env ^^ n) s t" "call_step env t s'" by auto
  then show ?case using Suc.IH [of t] call_step_decreases [of env t s'] by simp
qed simp

lemma call_steps_reachable: "(call_step env ^^ n) s s' \<Longrightarrow> compute_reachable env s \<Longrightarrow> compute_reachable env s'"
  by (induction n arbitrary: s') (auto intro: stepped)

text \<open>A call that has not returned can step, or waits for one that can.\<close>

lemma not_stuck:
  assumes "compute_inv env s" "i < length (calls s)" "\<not> is_done (pc (calls s ! i))"
  shows "\<exists>s'. call_step env s s'"
proof (cases "\<exists>j. pc (calls s ! i) = Await j")
  case False
  then obtain s' where "run_call env None True i s = Some s'"
    using assms(3) by (cases "pc (calls s ! i)") (auto simp: run_call_def is_done_iff)
  then show ?thesis using call_step.run [OF assms(2), of None env True s'] by auto
next
  case True
  then obtain j where j: "pc (calls s ! i) = Await j" by blast
  have w: "j < length (calls s)" "settles (calls s ! j)" using call_okD(7) [OF compute_invD [OF assms(1,2)] j] by simp_all
  show ?thesis
  proof (cases "promise (calls s ! j)")
    case None
    then have "owning (pc (calls s ! j)) \<or> (\<exists>h. pc (calls s ! j) = Set_value h)" using w(2) by (simp add: settles_def)
    then obtain s' where "run_call env None True j s = Some s'"
      by (cases "pc (calls s ! j)") (auto simp: run_call_def)
    then show ?thesis using call_step.run [OF w(1), of None env True s'] by auto
  next
    case (Some r)
    then have "run_call env None True i s = Some (goto i (Done r) s)" using j by (simp add: run_call_def)
    then show ?thesis using call_step.run [OF assms(2), of None env True] by auto
  qed
qed


subsection \<open>An example\<close>

text \<open>Steps one after the other: the call, the driver's handle and whether the map takes it.\<close>

fun run_calls :: "compute_env \<Rightarrow> (nat \<times> nat option \<times> bool) list \<Rightarrow> compute_state \<Rightarrow> compute_state option" where
  "run_calls env [] s = Some s"
| "run_calls env ((i, created, stored) # ops) s =
     (if i < length (calls s) \<and> (case created of Some h \<Rightarrow> live s h = None | None \<Rightarrow> True)
      then Option.bind (run_call env created stored i s) (run_calls env ops) else None)"

lemma run_calls_reachable: "run_calls env ops s = Some s' \<Longrightarrow> compute_reachable env s \<Longrightarrow> compute_reachable env s'"
proof (induction env ops s rule: run_calls.induct)
  case (2 env i created stored ops s)
  then obtain t where t: "i < length (calls s)" "case created of Some h \<Rightarrow> live s h = None | None \<Rightarrow> True"
    "run_call env created stored i s = Some t" "run_calls env ops t = Some s'"
    by (auto split: if_splits option.splits simp: bind_eq_Some_conv)
  then have "call_step env s t" by (intro call_step.run [OF t(1) _ t(3)]) (simp split: option.splits)
  then show ?case using 2 t by (auto intro: stepped)
qed simp

text \<open>Two dispatches of 8 x 8 x 1 threads and one of 2 x 2 x 2: the first compilation fails, the second call shares the
  failure, and a later call compiles the size again.\<close>

definition example_env :: compute_env where
  "example_env = \<lparr>cs_module = 5, cs_layout = 9\<rparr>"

definition example_start :: compute_state where
  "example_start = \<lparr>compiled = [], preparing = Map.empty, calls = [], live = Map.empty, maxTotalThreadsPerThreadgroup = 32,
     threadExecutionWidth = 1024, staticThreadgroupMemoryLength = 32768\<rparr>"

definition example_calls :: compute_state where
  "example_calls = createPipeline (8, 8, 1) (createPipeline (2, 2, 2) (createPipeline (8, 8, 1) (createPipeline (8, 8, 1) example_start)))"

lemma example_calls_reachable: "compute_reachable example_env example_calls"
proof -
  have "new_compute_state False (Some 9) 5 \<lparr>maxSubgroupSize = 32, maxComputeWorkGroupInvocations = 1024, maxComputeSharedMemorySize = 32768\<rparr>
      = Inr (example_env, example_start)"
    by (simp add: new_compute_state_def example_env_def example_start_def)
  then have "compute_reachable example_env example_start" by (rule made)
  then show ?thesis unfolding example_calls_def by (intro asked)
qed

definition example_ops :: "(nat \<times> nat option \<times> bool) list" where
  "example_ops = [(0, None, True), (1, None, True), (2, None, True), (0, None, True), (2, Some 3, True), (0, None, True), (1, None, True),
     (0, None, True), (0, None, True), (2, None, True), (3, None, True), (3, Some 4, True), (2, None, True), (3, None, True), (3, None, True)]"

definition example_end :: compute_state where
  "example_end = example_calls\<lparr>compiled := [([2, 2, 2], 3), ([8, 8, 1], 4)],
     live := [3 \<mapsto> compute_create_info example_env [2, 2, 2], 4 \<mapsto> compute_create_info example_env [8, 8, 1]],
     calls := [\<lparr>group = (8, 8, 1), pc = Done (Inl (Throw ''Could not create compute pipeline'')), promise = Some (Inl (Throw ''Could not create compute pipeline''))\<rparr>,
       \<lparr>group = (8, 8, 1), pc = Done (Inl (Throw ''Could not create compute pipeline'')), promise = None\<rparr>,
       \<lparr>group = (2, 2, 2), pc = Done (Inr 3), promise = Some (Inr 3)\<rparr>,
       \<lparr>group = (8, 8, 1), pc = Done (Inr 4), promise = Some (Inr 4)\<rparr>]\<rparr>"

lemma example_end_run: "run_calls example_env example_ops example_calls = Some example_end"
  by (simp add: example_ops_def example_calls_def example_end_def example_start_def createPipeline_def run_call_def enter_section_def
    create_compute_def publish_compute_def goto_def settle_def destroy_call_def group_size_of_def key_def Let_def)

theorem compute_pipelines_shared_witness:
  "live example_end 4 \<noteq> None \<and> preparing example_end = Map.empty \<and> live (destroy_compute_state example_end) = Map.empty
   \<and> (\<exists>c. live example_end 4 = Some c \<and> constant_value c 2 = Some 1)"
proof -
  have r: "compute_reachable example_env example_end"
    using run_calls_reachable [OF example_end_run example_calls_reachable] .
  have d: "all_done example_end" "length (calls example_end) = 4" "calls example_end ! 3 = \<lparr>group = (8, 8, 1), pc = Done (Inr 4), promise = Some (Inr 4)\<rparr>"
    by (simp_all add: all_done_def is_done_def example_end_def)
  have g: "group_size_of (8, 8, 1) ! 2 = 1" by (simp add: group_size_of_def)
  note all = compute_pipelines_shared [OF r]
  have "\<exists>c. live example_end 4 = Some c \<and> (\<forall>d < 3. constant_value c d = Some (group_size_of (group (calls example_end ! 3)) ! d))"
    using spec [OF conjunct1 [OF all], of 3] d(2,3) by auto
  then obtain c where "live example_end 4 = Some c" "constant_value c 2 = Some 1" using g d(3) by force
  moreover have "preparing example_end = Map.empty \<and> live (destroy_compute_state example_end) = Map.empty"
    using all d(1) by blast
  ultimately show ?thesis by simp
qed


end
