(* ===== verification/GraphicsLibraries.thy ===== *)
theory GraphicsLibraries
  imports RenderPipelines
begin

section \<open>Shared shader libraries\<close>

text \<open>
  \<open>GraphicsLibraries\<close> of \<open>native/renderer/render-pipeline.cpp\<close>: one pipeline library for each shader
  module and stage, shared by all pipeline states, built by the first thread that asks or in the
  background when the module is loaded. A key is a module and a stage; the library without fragment
  shader has no module. An object is its index in \<open>objects\<close>; a shared pointer to it is a slot or a
  thread that names it, a weak pointer is locked when there is one. \<open>modules\<close> are the shader modules
  Vulkan holds: the state includes what the destructors of a \<open>PrivateLibrary\<close> and of the device do
  around \<open>release\<close> and \<open>close\<close>.
\<close>

datatype library_key = Shader nat function_type | Empty_fragment

fun key_module :: "library_key \<Rightarrow> nat option" where
  "key_module (Shader m t) = Some m"
| "key_module Empty_fragment = None"

fun key_stage :: "library_key \<Rightarrow> function_type" where
  "key_stage (Shader m t) = t"
| "key_stage Empty_fragment = Fragment_function"

datatype once = Unset | Busy | Set

record shader_library =
  once :: once
  built :: "(nat \<times> part) option"
  made_for :: library_key

text \<open>
  Where a thread is. \<open>Once_get\<close> and \<open>Build_get\<close>: \<open>get\<close> before and inside \<open>call_once\<close>; \<open>Got\<close>: it has
  returned its library. \<open>Queued\<close> to \<open>Saving\<close>: a background build. \<open>Releasing\<close>: \<open>release\<close> with the
  libraries it still has to cancel or wait for, and all it removed. \<open>Closing\<close>: \<open>close\<close> in its wait.
\<close>

datatype library_pc =
    Once_get library_key nat
  | Build_get library_key nat
  | Got library_key nat
  | Get_threw
  | Queued library_key nat
  | Counted library_key nat
  | Once_job library_key nat
  | Build_job library_key nat
  | Saving
  | Releasing nat "nat list" "nat list"
  | Closing
  | Ended

record library_store =
  entries :: "nat \<times> function_type \<Rightarrow> nat option"
  emptyFragment :: "nat option"
  objects :: "shader_library list"
  running :: nat
  closed :: bool
  threads :: "library_pc list"
  modules :: "nat list"
  device_alive :: bool

definition new_store :: library_store where
  "new_store = \<lparr>entries = (\<lambda>k. None), emptyFragment = None, objects = [], running = 0, closed = False, threads = [], modules = [], device_alive = True\<rparr>"

subsection \<open>Finding a library\<close>

definition slot_of :: "library_store \<Rightarrow> library_key \<Rightarrow> nat option" where
  "slot_of s k = (case k of Empty_fragment \<Rightarrow> emptyFragment s | Shader m t \<Rightarrow> entries s (m, t))"

definition set_slot :: "library_key \<Rightarrow> nat option \<Rightarrow> library_store \<Rightarrow> library_store" where
  "set_slot k l s = (case k of Empty_fragment \<Rightarrow> s\<lparr>emptyFragment := l\<rparr> | Shader m t \<Rightarrow> s\<lparr>entries := (entries s)((m, t) := l)\<rparr>)"

definition library_entry :: "library_key \<Rightarrow> library_store \<Rightarrow> nat \<times> library_store" where
  "library_entry k s =
     (case slot_of s k of
        Some l \<Rightarrow> (l, s)
      | None \<Rightarrow> (length (objects s), set_slot k (Some (length (objects s))) (s\<lparr>objects := objects s @ [\<lparr>once = Unset, built = None, made_for = k\<rparr>]\<rparr>)))"

definition spawn :: "library_pc \<Rightarrow> library_store \<Rightarrow> library_store" where
  "spawn p s = s\<lparr>threads := threads s @ [p]\<rparr>"

definition jump :: "nat \<Rightarrow> library_pc \<Rightarrow> library_store \<Rightarrow> library_store" where
  "jump i p s = s\<lparr>threads := (threads s)[i := p]\<rparr>"

definition put_object :: "nat \<Rightarrow> (shader_library \<Rightarrow> shader_library) \<Rightarrow> library_store \<Rightarrow> library_store" where
  "put_object l f s = s\<lparr>objects := (objects s)[l := f (objects s ! l)]\<rparr>"

text \<open>\<open>get\<close> and \<open>emptyFragment\<close> up to their \<open>call_once\<close>.\<close>

definition get_library :: "library_key \<Rightarrow> library_store \<Rightarrow> library_store" where
  "get_library k s = (let (l, s) = library_entry k s in spawn (Once_get k l) s)"

text \<open>\<open>prepare\<close>; \<open>enabled\<close>: there are compiler threads and \<open>RBX_NO_LIBRARY_PRECOMPILE\<close> is not set;
  \<open>queued\<close>: the pool took the job.\<close>

definition prepare_library :: "bool \<Rightarrow> bool \<Rightarrow> nat \<Rightarrow> function_type \<Rightarrow> library_store \<Rightarrow> library_store" where
  "prepare_library enabled queued m t s =
     (if \<not> isGraphicsStage t \<or> \<not> enabled then s
      else let (l, s) = library_entry (Shader m t) s in if queued then spawn (Queued (Shader m t) l) s else s)"

definition release_module :: "nat \<Rightarrow> library_store \<Rightarrow> library_store" where
  "release_module m s =
     (let removed = List.map_filter (\<lambda>t. entries s (m, t)) [Vertex_function, Fragment_function] in
      spawn (Releasing m removed removed)
        (s\<lparr>entries := (\<lambda>k. if k = (m, Vertex_function) \<or> k = (m, Fragment_function) then None else entries s k)\<rparr>))"

definition close_libraries :: "library_store \<Rightarrow> library_store" where
  "close_libraries s = spawn Closing (s\<lparr>closed := True\<rparr>)"

subsection \<open>The steps of a thread\<close>

text \<open>The objects a thread holds a shared pointer to.\<close>

definition holds_library :: "library_pc \<Rightarrow> nat \<Rightarrow> bool" where
  "holds_library p l = (case p of
       Once_get k l' \<Rightarrow> l' = l | Build_get k l' \<Rightarrow> l' = l | Got k l' \<Rightarrow> l' = l | Once_job k l' \<Rightarrow> l' = l | Build_job k l' \<Rightarrow> l' = l
     | Releasing m todo removed \<Rightarrow> l \<in> set removed | _ \<Rightarrow> False)"

definition weak_lock :: "library_store \<Rightarrow> library_key \<Rightarrow> nat \<Rightarrow> bool" where
  "weak_lock s k l \<longleftrightarrow> slot_of s k = Some l \<or> list_ex (\<lambda>p. holds_library p l) (threads s)"

text \<open>The answer to a build: an exception, or the pipeline Vulkan made, \<open>None\<close> when it failed.\<close>

type_synonym build_answer = "nat option outcome"

definition compile_library :: "pipeline_env \<Rightarrow> library_key \<Rightarrow> nat option \<Rightarrow> shader_library \<Rightarrow> shader_library" where
  "compile_library env k h o' = o'\<lparr>once := Set, built := map_option (\<lambda>h. (h, shader_part env (key_stage k) (key_module k))) h\<rparr>"

text \<open>Entering \<open>call_once\<close> with a build: \<open>done\<close> is the place after it.\<close>

definition enter_once :: "nat \<Rightarrow> nat \<Rightarrow> library_pc \<Rightarrow> library_pc \<Rightarrow> library_store \<Rightarrow> library_store option" where
  "enter_once i l build after s =
     (case once (objects s ! l) of
        Unset \<Rightarrow> Some (jump i build (put_object l (\<lambda>o'. o'\<lparr>once := Busy\<rparr>) s))
      | Busy \<Rightarrow> None
      | Set \<Rightarrow> Some (jump i after s))"

definition finish_once :: "pipeline_env \<Rightarrow> build_answer \<Rightarrow> nat \<Rightarrow> library_key \<Rightarrow> nat \<Rightarrow> library_pc \<Rightarrow> library_pc \<Rightarrow> library_store \<Rightarrow> library_store" where
  "finish_once env a i k l after thrown s =
     (case a of
        Inl e \<Rightarrow> jump i thrown (put_object l (\<lambda>o'. o'\<lparr>once := Unset\<rparr>) s)
      | Inr h \<Rightarrow> jump i after (put_object l (compile_library env k h) s))"

definition run_library :: "pipeline_env \<Rightarrow> build_answer \<Rightarrow> nat \<Rightarrow> library_store \<Rightarrow> library_store option" where
  "run_library env a i s =
     (case threads s ! i of
        Once_get k l \<Rightarrow> enter_once i l (Build_get k l) (Got k l) s
      | Build_get k l \<Rightarrow> Some (finish_once env a i k l (Got k l) Get_threw s)
      | Got k l \<Rightarrow> Some (jump i Ended s)
      | Queued k l \<Rightarrow> Some (if closed s then jump i Ended s else (jump i (Counted k l) s)\<lparr>running := running s + 1\<rparr>)
      | Counted k l \<Rightarrow> Some (jump i (if weak_lock s k l then Once_job k l else Saving) s)
      | Once_job k l \<Rightarrow> enter_once i l (Build_job k l) Saving s
      | Build_job k l \<Rightarrow> Some (finish_once env a i k l Saving Saving s)
      | Saving \<Rightarrow> Some ((jump i Ended s)\<lparr>running := running s - 1\<rparr>)
      | Releasing m todo removed \<Rightarrow> (case todo of
            [] \<Rightarrow> Some ((jump i Ended s)\<lparr>modules := removeAll m (modules s)\<rparr>)
          | l # ls \<Rightarrow> (case once (objects s ! l) of
                Unset \<Rightarrow> Some (jump i (Releasing m ls removed) (put_object l (\<lambda>o'. o'\<lparr>once := Set\<rparr>) s))
              | Busy \<Rightarrow> None
              | Set \<Rightarrow> Some (jump i (Releasing m ls removed) s)))
      | Closing \<Rightarrow> (if running s = 0 then Some ((jump i Ended s)\<lparr>entries := (\<lambda>k. None), emptyFragment := None, device_alive := False\<rparr>) else None)
      | Get_threw \<Rightarrow> None
      | Ended \<Rightarrow> None)"

subsection \<open>Interleavings\<close>

text \<open>A module is referenced until the destructor of its library starts.\<close>

definition referenced :: "library_store \<Rightarrow> nat \<Rightarrow> bool" where
  "referenced s m \<longleftrightarrow> m \<in> set (modules s) \<and> list_all (\<lambda>p. case p of Releasing m' todo removed \<Rightarrow> m' \<noteq> m | _ \<Rightarrow> True) (threads s)"

definition getting :: "library_pc \<Rightarrow> library_key option" where
  "getting p = (case p of Once_get k l \<Rightarrow> Some k | Build_get k l \<Rightarrow> Some k | _ \<Rightarrow> None)"

definition idle_client :: "library_pc \<Rightarrow> bool" where
  "idle_client p = (case p of Once_get k l \<Rightarrow> False | Build_get k l \<Rightarrow> False | Got k l \<Rightarrow> False | Releasing m todo removed \<Rightarrow> False | _ \<Rightarrow> True)"

text \<open>
  What a client may do follows from who holds what: a thread in \<open>get\<close> holds the function, hence the
  library of its module; the destructor of the library runs when nobody holds it; the device's, when
  neither pipeline states nor libraries are left. A new module may have the handle of a destroyed one.
\<close>

inductive library_client :: "library_store \<Rightarrow> library_store \<Rightarrow> bool" where
  loads: "\<not> closed s \<Longrightarrow> m \<notin> set (modules s) \<Longrightarrow> library_client s (s\<lparr>modules := modules s @ [m]\<rparr>)"
| prepares: "\<not> closed s \<Longrightarrow> referenced s m \<Longrightarrow> library_client s (prepare_library enabled queued m t s)"
| gets: "\<not> closed s \<Longrightarrow> referenced s m \<Longrightarrow> isGraphicsStage t \<Longrightarrow> library_client s (get_library (Shader m t) s)"
| gets_empty: "\<not> closed s \<Longrightarrow> library_client s (get_library Empty_fragment s)"
| releases: "referenced s m \<Longrightarrow> (\<And>p t. p \<in> set (threads s) \<Longrightarrow> getting p \<noteq> Some (Shader m t)) \<Longrightarrow> library_client s (release_module m s)"
| closes: "\<not> closed s \<Longrightarrow> modules s = [] \<Longrightarrow> list_all idle_client (threads s) \<Longrightarrow> library_client s (close_libraries s)"

inductive library_step :: "pipeline_env \<Rightarrow> library_store \<Rightarrow> library_store \<Rightarrow> bool" for env where
  thread_runs: "i < length (threads s) \<Longrightarrow> run_library env a i s = Some s' \<Longrightarrow> library_step env s s'"

inductive library_reachable :: "pipeline_env \<Rightarrow> library_store \<Rightarrow> bool" for env where
  library_start: "library_reachable env new_store"
| library_call: "library_reachable env s \<Longrightarrow> library_client s s' \<Longrightarrow> library_reachable env s'"
| library_runs: "library_reachable env s \<Longrightarrow> library_step env s s' \<Longrightarrow> library_reachable env s'"

inductive_cases library_stepE: "library_step env s s'"
inductive_cases library_clientE: "library_client s s'"

end
