(* ===== verification/LibrarySafety.thy ===== *)
theory LibrarySafety
  imports GraphicsLibraries
begin

section \<open>What holds of the shared shader libraries\<close>

text \<open>
  The invariant of \<open>GraphicsLibraries\<close>: a library that is not built, nor cancelled, is in its slot
  and its module is referenced, or the release of its module still has to cancel it; so a build in
  progress is always one of a module that is not destroyed.
\<close>

definition builds :: "library_pc \<Rightarrow> nat option" where
  "builds p = (case p of Build_get k l \<Rightarrow> Some l | Build_job k l \<Rightarrow> Some l | _ \<Rightarrow> None)"

definition counts :: "library_pc \<Rightarrow> nat" where
  "counts p = (case p of Counted k l \<Rightarrow> 1 | Once_job k l \<Rightarrow> 1 | Build_job k l \<Rightarrow> 1 | Saving \<Rightarrow> 1 | _ \<Rightarrow> 0)"

definition releasing :: "library_pc \<Rightarrow> nat option" where
  "releasing p = (case p of Releasing m todo removed \<Rightarrow> Some m | _ \<Rightarrow> None)"

definition todo_of :: "library_pc \<Rightarrow> nat list" where
  "todo_of p = (case p of Releasing m todo removed \<Rightarrow> todo | _ \<Rightarrow> [])"

lemma pc_simps [simp]:
  "builds (Once_get k l) = None" "builds (Build_get k l) = Some l" "builds (Got k l) = None" "builds Get_threw = None"
  "builds (Queued k l) = None" "builds (Counted k l) = None" "builds (Once_job k l) = None" "builds (Build_job k l) = Some l"
  "builds Saving = None" "builds (Releasing m td rm) = None" "builds Closing = None" "builds Ended = None"
  "counts (Once_get k l) = 0" "counts (Build_get k l) = 0" "counts (Got k l) = 0" "counts Get_threw = 0"
  "counts (Queued k l) = 0" "counts (Counted k l) = 1" "counts (Once_job k l) = 1" "counts (Build_job k l) = 1"
  "counts Saving = 1" "counts (Releasing m td rm) = 0" "counts Closing = 0" "counts Ended = 0"
  "releasing (Once_get k l) = None" "releasing (Build_get k l) = None" "releasing (Got k l) = None" "releasing Get_threw = None"
  "releasing (Queued k l) = None" "releasing (Counted k l) = None" "releasing (Once_job k l) = None" "releasing (Build_job k l) = None"
  "releasing Saving = None" "releasing (Releasing m td rm) = Some m" "releasing Closing = None" "releasing Ended = None"
  "todo_of (Once_get k l) = []" "todo_of (Build_get k l) = []" "todo_of (Got k l) = []" "todo_of Get_threw = []"
  "todo_of (Queued k l) = []" "todo_of (Counted k l) = []" "todo_of (Once_job k l) = []" "todo_of (Build_job k l) = []"
  "todo_of Saving = []" "todo_of (Releasing m td rm) = td" "todo_of Closing = []" "todo_of Ended = []"
  by (simp_all add: builds_def counts_def releasing_def todo_of_def)

lemma referenced_iff: "referenced s m \<longleftrightarrow> m \<in> set (modules s) \<and> (\<forall>p \<in> set (threads s). releasing p \<noteq> Some m)"
  by (auto simp: referenced_def list_all_iff releasing_def split: library_pc.splits)

subsection \<open>The invariant\<close>

definition key_alive :: "library_store \<Rightarrow> library_key \<Rightarrow> bool" where
  "key_alive s k \<longleftrightarrow> (case key_module k of None \<Rightarrow> True | Some m \<Rightarrow> referenced s m)"

definition is_object :: "library_store \<Rightarrow> library_key \<Rightarrow> nat \<Rightarrow> bool" where
  "is_object s k l \<longleftrightarrow> l < length (objects s) \<and> made_for (objects s ! l) = k"

definition pc_ok :: "library_store \<Rightarrow> library_pc \<Rightarrow> bool" where
  "pc_ok s p \<longleftrightarrow> (case p of
       Once_get k l \<Rightarrow> is_object s k l \<and> slot_of s k = Some l \<and> key_alive s k \<and> \<not> closed s
     | Build_get k l \<Rightarrow> is_object s k l \<and> slot_of s k = Some l \<and> key_alive s k \<and> \<not> closed s \<and> once (objects s ! l) = Busy
     | Got k l \<Rightarrow> is_object s k l \<and> once (objects s ! l) = Set
     | Queued k l \<Rightarrow> is_object s k l \<and> key_module k \<noteq> None
     | Counted k l \<Rightarrow> is_object s k l \<and> key_module k \<noteq> None
     | Once_job k l \<Rightarrow> is_object s k l \<and> key_module k \<noteq> None
     | Build_job k l \<Rightarrow> is_object s k l \<and> key_module k \<noteq> None \<and> once (objects s ! l) = Busy
     | Releasing m todo removed \<Rightarrow> \<not> closed s \<and> m \<in> set (modules s) \<and> (\<forall>l \<in> set todo. l < length (objects s))
     | Closing \<Rightarrow> closed s
     | _ \<Rightarrow> True)"

definition reachable_object :: "library_store \<Rightarrow> nat \<Rightarrow> bool" where
  "reachable_object s l \<longleftrightarrow> (case made_for (objects s ! l) of Empty_fragment \<Rightarrow> True | Shader m t \<Rightarrow>
     once (objects s ! l) = Set \<or> (entries s (m, t) = Some l \<and> referenced s m) \<or> (\<exists>p \<in> set (threads s). releasing p = Some m \<and> l \<in> set (todo_of p)))"

definition object_ok :: "pipeline_env \<Rightarrow> library_store \<Rightarrow> nat \<Rightarrow> bool" where
  "object_ok env s l \<longleftrightarrow> (let o' = objects s ! l in
     (once o' = Busy \<longrightarrow> (\<exists>p \<in> set (threads s). builds p = Some l))
     \<and> (built o' = None \<or> (\<exists>h. built o' = Some (h, shader_part env (key_stage (made_for o')) (key_module (made_for o'))))))"

definition unique_by :: "(library_pc \<Rightarrow> nat option) \<Rightarrow> library_pc list \<Rightarrow> bool" where
  "unique_by f ts \<longleftrightarrow> (\<forall>i < length ts. \<forall>j < length ts. \<forall>x. f (ts ! i) = Some x \<longrightarrow> f (ts ! j) = Some x \<longrightarrow> i = j)"

definition unique_threads :: "library_pc list \<Rightarrow> bool" where
  "unique_threads ts \<longleftrightarrow> unique_by builds ts \<and> unique_by releasing ts"

lemma unique_by_update:
  assumes "unique_by f ts" "i < length ts" "\<And>x. f q = Some x \<Longrightarrow> f (ts ! i) = Some x \<or> (\<forall>p \<in> set ts. f p \<noteq> Some x)"
  shows "unique_by f (ts[i := q])"
  unfolding unique_by_def
proof (intro allI impI)
  fix j m x assume "j < length (ts[i := q])" "m < length (ts[i := q])" and f: "f (ts[i := q] ! j) = Some x" "f (ts[i := q] ! m) = Some x"
  then have l: "j < length ts" "m < length ts" by simp_all
  have other: "n = i" if "n < length ts" "f (ts ! n) = Some x" "f q = Some x" for n
    using assms(1,2) assms(3) [OF that(3)] that unfolding unique_by_def by (meson nth_mem)
  show "j = m"
  proof (cases "j = i \<or> m = i")
    case True
    then have "f q = Some x" using f assms(2) by auto
    then have at_i: "n = i" if "n < length ts" "f (ts[i := q] ! n) = Some x" for n
      using other [OF that(1)] that(2) by (cases "n = i") simp_all
    show ?thesis using at_i [OF l(1) f(1)] at_i [OF l(2) f(2)] by simp
  next
    case False
    then show ?thesis using assms(1) l f unfolding unique_by_def by (metis nth_list_update_neq)
  qed
qed

lemma unique_by_append:
  assumes "unique_by f ts" "\<And>x p. f q = Some x \<Longrightarrow> p \<in> set ts \<Longrightarrow> f p \<noteq> Some x"
  shows "unique_by f (ts @ [q])"
  using assms unfolding unique_by_def by (auto simp: nth_append less_Suc_eq)

definition library_inv :: "pipeline_env \<Rightarrow> library_store \<Rightarrow> bool" where
  "library_inv env s \<longleftrightarrow>
     (\<forall>p \<in> set (threads s). pc_ok s p) \<and> (\<forall>l < length (objects s). reachable_object s l \<and> object_ok env s l)
     \<and> (\<forall>k l. slot_of s k = Some l \<longrightarrow> is_object s k l) \<and> unique_threads (threads s)
     \<and> (\<forall>m t. entries s (m, t) \<noteq> None \<longrightarrow> isGraphicsStage t \<and> referenced s m)
     \<and> running s = sum_list (map counts (threads s))
     \<and> (closed s \<longrightarrow> modules s = []) \<and> (\<not> device_alive s \<longrightarrow> closed s \<and> running s = 0)"

lemma library_invD:
  assumes "library_inv env s"
  shows "p \<in> set (threads s) \<Longrightarrow> pc_ok s p" "l < length (objects s) \<Longrightarrow> reachable_object s l" "l < length (objects s) \<Longrightarrow> object_ok env s l"
    "slot_of s k = Some l \<Longrightarrow> is_object s k l" "unique_threads (threads s)"
    "entries s (m, t) = Some l \<Longrightarrow> isGraphicsStage t \<and> referenced s m"
    "running s = sum_list (map counts (threads s))" "closed s \<Longrightarrow> modules s = []" "\<not> device_alive s \<Longrightarrow> closed s \<and> running s = 0"
  using assms unfolding library_inv_def by blast+

lemma library_invI:
  assumes "\<And>p. p \<in> set (threads s) \<Longrightarrow> pc_ok s p" "\<And>l. l < length (objects s) \<Longrightarrow> reachable_object s l"
    "\<And>l. l < length (objects s) \<Longrightarrow> object_ok env s l"
    "\<And>k l. slot_of s k = Some l \<Longrightarrow> is_object s k l" "unique_threads (threads s)"
    "\<And>m t l. entries s (m, t) = Some l \<Longrightarrow> isGraphicsStage t \<and> referenced s m"
    "running s = sum_list (map counts (threads s))" "closed s \<Longrightarrow> modules s = []" "\<not> device_alive s \<Longrightarrow> closed s \<and> running s = 0"
  shows "library_inv env s"
  using assms unfolding library_inv_def by blast

lemma unique_update:
  assumes "unique_threads ts" "i < length ts" "releasing q = releasing (ts ! i) \<or> releasing q = None"
    "\<And>l. builds q = Some l \<Longrightarrow> builds (ts ! i) = Some l \<or> (\<forall>p \<in> set ts. builds p \<noteq> Some l)"
  shows "unique_threads (ts[i := q])"
  using assms unfolding unique_threads_def by (auto intro: unique_by_update)

lemma unique_append:
  assumes "unique_threads ts" "builds q = None" "\<And>m p. releasing q = Some m \<Longrightarrow> p \<in> set ts \<Longrightarrow> releasing p \<noteq> Some m"
  shows "unique_threads (ts @ [q])"
  using assms unfolding unique_threads_def by (auto intro: unique_by_append)

lemma pc_okD:
  assumes "pc_ok s p"
  shows "builds p = Some l \<Longrightarrow> l < length (objects s) \<and> once (objects s ! l) = Busy"
    "l \<in> set (todo_of p) \<Longrightarrow> l < length (objects s)" "releasing p = Some m \<Longrightarrow> \<not> closed s \<and> m \<in> set (modules s)"
  using assms by (auto simp: pc_ok_def builds_def todo_of_def releasing_def is_object_def split: library_pc.splits)

text \<open>What the other threads keep when objects and slots change.\<close>

lemma pc_ok_other:
  assumes "pc_ok s p" "length (objects s) \<le> length (objects s')"
    "\<And>l. l < length (objects s) \<Longrightarrow> made_for (objects s' ! l) = made_for (objects s ! l)"
    "\<And>l. l < length (objects s) \<Longrightarrow> once (objects s ! l) = Set \<Longrightarrow> once (objects s' ! l) = Set"
    "\<And>l. builds p = Some l \<Longrightarrow> once (objects s' ! l) = Busy"
    "\<And>k l. getting p = Some k \<Longrightarrow> slot_of s k = Some l \<Longrightarrow> slot_of s' k = Some l"
    "\<And>k. getting p = Some k \<Longrightarrow> key_alive s k \<Longrightarrow> key_alive s' k"
    "closed s' = closed s \<or> closed s' \<and> getting p = None \<and> releasing p = None" "releasing p = None \<or> set (modules s) \<subseteq> set (modules s')"
  shows "pc_ok s' p"
proof -
  have o: "is_object s k l \<Longrightarrow> is_object s' k l" for k l using assms(2) assms(3) [of l] by (auto simp: is_object_def)
  show ?thesis
    using assms(1,4-9) o by (cases p) (auto simp: pc_ok_def getting_def is_object_def)
qed

text \<open>A step in which the thread \<open>i\<close> moves to \<open>q\<close> and objects change; the slots stay.\<close>

lemma inv_thread:
  assumes inv: "library_inv env s" and i: "i < length (threads s)"
    and s': "threads s' = (threads s)[i := q]" "entries s' = entries s" "emptyFragment s' = emptyFragment s" "modules s' = modules s"
      "closed s' = closed s" "device_alive s' = device_alive s" "length (objects s') = length (objects s)"
    and obj: "\<And>l. l < length (objects s) \<Longrightarrow> made_for (objects s' ! l) = made_for (objects s ! l)"
      "\<And>l. l < length (objects s) \<Longrightarrow> once (objects s ! l) = Set \<Longrightarrow> once (objects s' ! l) = Set"
      "\<And>l. l < length (objects s) \<Longrightarrow> once (objects s ! l) = Busy \<Longrightarrow> builds (threads s ! i) \<noteq> Some l \<Longrightarrow> once (objects s' ! l) = Busy"
      "\<And>l. l < length (objects s) \<Longrightarrow> once (objects s' ! l) = Busy \<Longrightarrow> builds q = Some l \<or> (once (objects s ! l) = Busy \<and> builds (threads s ! i) \<noteq> Some l)"
      "\<And>l. l < length (objects s) \<Longrightarrow> built (objects s' ! l) = built (objects s ! l)
         \<or> built (objects s' ! l) = None \<or> (\<exists>h. built (objects s' ! l) = Some (h, shader_part env (key_stage (made_for (objects s ! l))) (key_module (made_for (objects s ! l)))))"
    and q: "pc_ok s' q" "releasing q = releasing (threads s ! i)"
      "\<And>l. builds q = Some l \<Longrightarrow> builds (threads s ! i) = Some l \<or> once (objects s ! l) = Unset"
      "\<And>l. l \<in> set (todo_of (threads s ! i)) \<Longrightarrow> l \<in> set (todo_of q) \<or> once (objects s' ! l) = Set"
      "running s' + counts (threads s ! i) = running s + counts q" "\<not> device_alive s \<Longrightarrow> closed s \<Longrightarrow> running s = 0 \<Longrightarrow> running s' = 0"
  shows "library_inv env s'"
proof (rule library_invI)
  note D = library_invD [OF inv]
  have slot: "slot_of s' k = slot_of s k" for k by (simp add: slot_of_def s' split: library_key.split)
  have rel: "(\<exists>p \<in> set (threads s'). releasing p = Some m) \<longleftrightarrow> (\<exists>p \<in> set (threads s). releasing p = Some m)" for m
    using q(2) i by (simp add: s'(1) in_set_conv_nth Bex_def) (metis (no_types, lifting) length_list_update nth_list_update)
  have ref: "referenced s' m = referenced s m" for m using rel [of m] by (auto simp: referenced_iff s')
  have nobuild: "\<forall>p \<in> set (threads s). builds p \<noteq> Some l" if "once (objects s ! l) = Unset" for l
    using D(1) pc_okD(1) that by fastforce
  show "unique_threads (threads s')" unfolding s'(1)
    by (rule unique_update [OF D(5) i]) (use q(2,3) nobuild in auto)
  show "running s' = sum_list (map counts (threads s'))"
    using sum_list_map_update [OF i, of counts q] D(7) q(5) by (simp add: s'(1))
  show "slot_of s' k = Some l \<Longrightarrow> is_object s' k l" for k l using D(4) [of k l] obj(1) [of l] by (auto simp: slot is_object_def s'(7))
  show "entries s' (m, t) = Some l \<Longrightarrow> isGraphicsStage t \<and> referenced s' m" for m t l using D(6) [of m t l] by (simp add: s'(2) ref)
  show "closed s' \<Longrightarrow> modules s' = []" using D(8) by (simp add: s')
  show "\<not> device_alive s' \<Longrightarrow> closed s' \<and> running s' = 0" using D(9) q(6) by (auto simp: s')
  show "pc_ok s' p" if mem: "p \<in> set (threads s')" for p
  proof (cases "p = q")
    case False
    obtain j where j0: "j < length (threads s)" "threads s' ! j = p" using mem by (auto simp: s'(1) in_set_conv_nth)
    then have j: "j < length (threads s)" "j \<noteq> i" "p = threads s ! j"
      using False i by (auto simp: s'(1) nth_list_update split: if_splits)
    have ok: "pc_ok s p" using D(1) j by simp
    have "builds (threads s ! i) \<noteq> Some l" if "builds p = Some l" for l
      using D(5) i j that by (auto simp: unique_threads_def unique_by_def)
    then have "once (objects s' ! l) = Busy" if "builds p = Some l" for l
      using obj(3) pc_okD(1) [OF ok that] that by blast
    then show ?thesis using ok by (intro pc_ok_other [OF ok]) (simp_all add: s' obj(1,2) slot key_alive_def ref split: option.splits)
  qed (use q(1) in simp)
  show "object_ok env s' l" if "l < length (objects s')" for l
  proof -
    have l: "l < length (objects s)" using that s'(7) by simp
    have "\<exists>p \<in> set (threads s'). builds p = Some l" if b: "once (objects s' ! l) = Busy"
    proof (cases "builds q = Some l")
      case True
      then show ?thesis using i by (intro bexI [of _ q]) (simp_all add: s'(1) set_update_memI)
    next
      case False
      then have "once (objects s ! l) = Busy" "builds (threads s ! i) \<noteq> Some l" using obj(4) [OF l b] by simp_all
      then obtain j where "j < length (threads s)" "builds (threads s ! j) = Some l"
        using D(3) [OF l] by (auto simp: object_ok_def Let_def in_set_conv_nth)
      moreover from this have "j \<noteq> i" using \<open>builds (threads s ! i) \<noteq> Some l\<close> by auto
      ultimately show ?thesis
        by (intro bexI [of _ "threads s ! j"]) (auto simp: s'(1) in_set_conv_nth intro!: exI [of _ j])
    qed
    then show ?thesis using D(3) [OF l] obj(5) [OF l] obj(1) [OF l] unfolding object_ok_def Let_def by metis
  qed
  show "reachable_object s' l" if "l < length (objects s')" for l
  proof -
    have l: "l < length (objects s)" using that s'(7) by simp
    have "\<exists>p \<in> set (threads s'). releasing p = Some m \<and> l \<in> set (todo_of p)"
      if p: "p \<in> set (threads s)" "releasing p = Some m" "l \<in> set (todo_of p)" "once (objects s' ! l) \<noteq> Set" for p m
    proof -
      obtain j where j: "j < length (threads s)" "p = threads s ! j" using p(1) by (auto simp: in_set_conv_nth)
      show ?thesis
      proof (cases "j = i")
        case True
        then have "releasing q = Some m \<and> l \<in> set (todo_of q)" using q(2,4) p j by auto
        then show ?thesis using i by (intro bexI [of _ q]) (auto simp: s'(1) set_update_memI)
      next
        case False
        then have "p \<in> set (threads s')" using j by (auto simp: s'(1) in_set_conv_nth nth_list_update intro!: exI [of _ j])
        then show ?thesis using p by blast
      qed
    qed
    then show ?thesis using D(2) [OF l] obj(1,2) [OF l]
      by (auto simp: reachable_object_def s'(2) ref split: library_key.splits)
  qed
qed

lemma jump_simps [simp]:
  "threads (jump i q s) = (threads s)[i := q]" "entries (jump i q s) = entries s" "emptyFragment (jump i q s) = emptyFragment s"
  "modules (jump i q s) = modules s" "closed (jump i q s) = closed s" "device_alive (jump i q s) = device_alive s"
  "objects (jump i q s) = objects s" "running (jump i q s) = running s"
  "threads (put_object l f s) = threads s" "entries (put_object l f s) = entries s" "emptyFragment (put_object l f s) = emptyFragment s"
  "modules (put_object l f s) = modules s" "closed (put_object l f s) = closed s" "device_alive (put_object l f s) = device_alive s"
  "objects (put_object l f s) = (objects s)[l := f (objects s ! l)]" "running (put_object l f s) = running s"
  by (simp_all add: jump_def put_object_def)

lemma slot_jump [simp]: "slot_of (jump i q s) k = slot_of s k" "slot_of (put_object l f s) k = slot_of s k"
  by (simp_all add: slot_of_def split: library_key.split)

lemma object_jump [simp]:
  "is_object (jump i q s) k l = is_object s k l" "(\<And>o'. made_for (f o') = made_for o') \<Longrightarrow> is_object (put_object n f s) k l = is_object s k l"
  by (cases "n < length (objects s)"; auto simp: is_object_def nth_list_update)+

lemma alive_jump: "releasing q = releasing (threads s ! i) \<Longrightarrow> i < length (threads s) \<Longrightarrow> key_alive s k \<Longrightarrow> key_alive (jump i q s) k"
  by (fastforce simp: key_alive_def referenced_iff in_set_conv_nth nth_list_update split: option.splits if_splits)

lemma alive_objects [simp]: "key_alive (put_object l f s) k = key_alive s k" "key_alive (s\<lparr>running := n\<rparr>) k = key_alive s k"
  by (simp_all add: key_alive_def referenced_iff split: option.splits)

text \<open>A move that touches no object.\<close>

lemma inv_jump:
  assumes "library_inv env s" "i < length (threads s)" "pc_ok (jump i q s) q" "builds q = builds (threads s ! i)"
    "releasing q = releasing (threads s ! i)" "counts q = counts (threads s ! i)"
    "\<And>l. l \<in> set (todo_of (threads s ! i)) \<Longrightarrow> l \<in> set (todo_of q) \<or> once (objects s ! l) = Set"
    "builds q = None"
  shows "library_inv env (jump i q s)"
  by (rule inv_thread [OF assms(1,2), where q = q]) (use assms(3-) in auto)

text \<open>Entering and leaving \<open>call_once\<close>.\<close>

definition build_pc :: "library_pc \<Rightarrow> (library_key \<times> nat \<times> library_pc) option" where
  "build_pc p = (case p of Once_get k l \<Rightarrow> Some (k, l, Build_get k l) | Once_job k l \<Rightarrow> Some (k, l, Build_job k l) | _ \<Rightarrow> None)"

lemma inv_once_enter:
  assumes "library_inv env s" "i < length (threads s)" "build_pc (threads s ! i) = Some (k, l, b)"
    "enter_once i l b a s = Some s'" "a = Got k l \<and> threads s ! i = Once_get k l \<or> a = Saving \<and> threads s ! i = Once_job k l"
  shows "library_inv env s'"
proof -
  have ok: "pc_ok s (threads s ! i)" using library_invD(1) [OF assms(1)] assms(2) by simp
  have l: "is_object s k l" using ok assms(5) by (auto simp: pc_ok_def)
  then have len: "l < length (objects s)" by (simp add: is_object_def)
  show ?thesis
  proof (cases "once (objects s ! l)")
    case Unset
    let ?f = "\<lambda>o'. o'\<lparr>once := Busy\<rparr>"
    have s': "s' = jump i b (put_object l ?f s)" using assms(4) Unset by (simp add: enter_once_def)
    have b: "builds b = Some l" "counts b = counts (threads s ! i)" "releasing b = None" "todo_of b = []"
      "builds (threads s ! i) = None" "releasing (threads s ! i) = None" "todo_of (threads s ! i) = []"
      using assms(3,5) by (auto simp: build_pc_def)
    have "key_alive s' k" if "key_alive s k" using that b assms(2) unfolding s' by (intro alive_jump) simp_all
    then have q: "pc_ok s' b" using ok assms(3,5) len by (auto simp: build_pc_def pc_ok_def s')
    show ?thesis
      by (rule inv_thread [OF assms(1,2), where q = b])
         (use q b len Unset in \<open>auto simp: s' nth_list_update split: if_splits\<close>)
  next
    case Set
    then have s': "s' = jump i a s" using assms(4) by (simp add: enter_once_def)
    show ?thesis unfolding s'
      by (rule inv_jump [OF assms(1,2)]) (use assms(5) l Set in \<open>auto simp: pc_ok_def\<close>)
  qed (use assms(4) in \<open>simp add: enter_once_def\<close>)
qed

lemma inv_once_finish:
  assumes "library_inv env s" "i < length (threads s)"
    "(threads s ! i = Build_get k l \<and> after = Got k l \<and> thrown = Get_threw) \<or> (threads s ! i = Build_job k l \<and> after = Saving \<and> thrown = Saving)"
  shows "library_inv env (finish_once env a i k l after thrown s)"
proof -
  have ok: "pc_ok s (threads s ! i)" using library_invD(1) [OF assms(1)] assms(2) by simp
  then have l: "is_object s k l" "once (objects s ! l) = Busy" using assms(3) by (auto simp: pc_ok_def)
  then have len: "l < length (objects s)" "made_for (objects s ! l) = k" by (simp_all add: is_object_def)
  have b: "builds (threads s ! i) = Some l" "releasing (threads s ! i) = None" "todo_of (threads s ! i) = []" using assms(3) by auto
  show ?thesis
  proof (cases a)
    case (Inl e)
    let ?s = "jump i thrown (put_object l (\<lambda>o'. o'\<lparr>once := Unset\<rparr>) s)"
    have "library_inv env ?s"
      by (rule inv_thread [OF assms(1,2), where q = thrown])
         (use b l len assms(3) in \<open>auto split: if_splits simp: nth_list_update pc_ok_def\<close>)
    then show ?thesis by (simp add: finish_once_def Inl)
  next
    case (Inr h)
    let ?s = "jump i after (put_object l (compile_library env k h) s)"
    have "library_inv env ?s"
      by (rule inv_thread [OF assms(1,2), where q = after])
         (use b l len assms(3) in \<open>auto split: if_splits simp: nth_list_update pc_ok_def is_object_def compile_library_def\<close>)
    then show ?thesis by (simp add: finish_once_def Inr)
  qed
qed

text \<open>The background job, and the cancellations of \<open>release\<close>.\<close>

lemma inv_queued:
  assumes "library_inv env s" "i < length (threads s)" "threads s ! i = Queued k l" "\<not> closed s"
  shows "library_inv env ((jump i (Counted k l) s)\<lparr>running := running s + 1\<rparr>)"
proof -
  have "pc_ok s (Queued k l)" using library_invD(1) [OF assms(1)] assms(2,3) by (metis nth_mem)
  then have "pc_ok ((jump i (Counted k l) s)\<lparr>running := running s + 1\<rparr>) (Counted k l)" by (simp add: pc_ok_def is_object_def)
  then show ?thesis by (intro inv_thread [OF assms(1,2), where q = "Counted k l"]) (use assms(3,4) in auto)
qed

lemma inv_saving:
  assumes "library_inv env s" "i < length (threads s)" "threads s ! i = Saving"
  shows "library_inv env ((jump i Ended s)\<lparr>running := running s - 1\<rparr>)"
proof -
  have "counts (threads s ! i) \<le> sum_list (map counts (threads s))" using assms(2) by (intro member_le_sum_list) simp_all
  then have "0 < running s" using library_invD(7) [OF assms(1)] assms(3) by simp
  then show ?thesis by (intro inv_thread [OF assms(1,2), where q = Ended]) (use assms(3) in \<open>auto simp: pc_ok_def\<close>)
qed

lemma inv_cancel:
  assumes "library_inv env s" "i < length (threads s)" "threads s ! i = Releasing m (l # ls) removed" "once (objects s ! l) \<noteq> Busy"
  shows "library_inv env (jump i (Releasing m ls removed) (put_object l (\<lambda>o'. o'\<lparr>once := Set\<rparr>) s))"
proof -
  have "pc_ok s (Releasing m (l # ls) removed)" using library_invD(1) [OF assms(1)] assms(2,3) by (metis nth_mem)
  then have q: "pc_ok (jump i (Releasing m ls removed) (put_object l (\<lambda>o'. o'\<lparr>once := Set\<rparr>) s)) (Releasing m ls removed)"
    and len: "l < length (objects s)" by (auto simp: pc_ok_def)
  show ?thesis
    by (rule inv_thread [OF assms(1,2), where q = "Releasing m ls removed"])
       (use q len assms(3,4) in \<open>auto simp: nth_list_update split: if_splits\<close>)
qed

lemma put_set_same:
  assumes "once (objects s ! l) = Set"
  shows "put_object l (\<lambda>o'. o'\<lparr>once := Set\<rparr>) s = s"
proof -
  have "(objects s ! l)\<lparr>once := Set\<rparr> = objects s ! l" using assms by simp
  then show ?thesis by (simp add: put_object_def)
qed

subsection \<open>The end of a release and of the device\<close>

lemma releasing_other:
  assumes "unique_threads (threads s)" "i < length (threads s)" "releasing (threads s ! i) = Some m" "releasing q = None"
  shows "(\<exists>p \<in> set ((threads s)[i := q]). releasing p = Some n \<and> P p) \<longleftrightarrow> n \<noteq> m \<and> (\<exists>p \<in> set (threads s). releasing p = Some n \<and> P p)"
proof -
  have only: "j = i" if "j < length (threads s)" "releasing (threads s ! j) = Some m" for j
    using assms(1-3) that by (auto simp: unique_threads_def unique_by_def)
  show ?thesis
  proof
    assume "\<exists>p \<in> set ((threads s)[i := q]). releasing p = Some n \<and> P p"
    then obtain j where j: "j < length (threads s)" "releasing ((threads s)[i := q] ! j) = Some n" "P ((threads s)[i := q] ! j)"
      by (auto simp: in_set_conv_nth)
    then have "j \<noteq> i" using assms(2,4) by auto
    then show "n \<noteq> m \<and> (\<exists>p \<in> set (threads s). releasing p = Some n \<and> P p)" using j only [OF j(1)] nth_mem [OF j(1)] by auto
  next
    assume a: "n \<noteq> m \<and> (\<exists>p \<in> set (threads s). releasing p = Some n \<and> P p)"
    then obtain j where j: "j < length (threads s)" "releasing (threads s ! j) = Some n" "P (threads s ! j)" by (auto simp: in_set_conv_nth)
    then have "j \<noteq> i" using a assms(3) by auto
    then show "\<exists>p \<in> set ((threads s)[i := q]). releasing p = Some n \<and> P p" using j
      by (intro bexI [of _ "threads s ! j"]) (auto simp: in_set_conv_nth intro!: exI [of _ j])
  qed
qed

lemma inv_released:
  assumes inv: "library_inv env s" and i: "i < length (threads s)" and p: "threads s ! i = Releasing m [] removed"
  shows "library_inv env ((jump i Ended s)\<lparr>modules := removeAll m (modules s)\<rparr>)" (is "library_inv env ?s")
proof (rule library_invI)
  note D = library_invD [OF inv]
  have other: "(\<exists>p \<in> set (threads ?s). releasing p = Some n \<and> P p) \<longleftrightarrow> n \<noteq> m \<and> (\<exists>p \<in> set (threads s). releasing p = Some n \<and> P p)" for n P
    using releasing_other [OF D(5) i, of m Ended n P] p by simp
  have "\<exists>q \<in> set (threads s). releasing q = Some m" using nth_mem [OF i] p by (intro bexI [of _ "threads s ! i"]) simp_all
  then have gone: "\<not> referenced s m" by (simp add: referenced_iff)
  have ref: "referenced ?s n \<longleftrightarrow> referenced s n" for n
    using other [of n "\<lambda>p. True"] gone by (cases "n = m") (auto simp: referenced_iff)
  have only: "q = threads s ! i" if "q \<in> set (threads s)" "releasing q = Some m" for q
    using D(5) i p that by (force simp: unique_threads_def unique_by_def in_set_conv_nth)
  have slot: "slot_of ?s k = slot_of s k" for k by (simp add: slot_of_def split: library_key.split)
  show "pc_ok ?s q" if "q \<in> set (threads ?s)" for q
  proof (cases "q = Ended")
    case False
    then have "q \<in> set (threads s)" using that set_update_subset_insert [of "threads s" i Ended] by auto
    then have ok: "pc_ok s q" by (rule D(1))
    show ?thesis
    proof (cases "releasing q")
      case None
      then show ?thesis by (intro pc_ok_other [OF ok]) (use pc_okD(1) [OF ok] in \<open>simp_all add: slot key_alive_def ref split: option.splits\<close>)
    next
      case (Some n)
      then have "n \<noteq> m" using other [of n "\<lambda>p. True"] that by blast
      then show ?thesis using ok Some by (cases q) (auto simp: pc_ok_def)
    qed
  qed (simp add: pc_ok_def)
  show "reachable_object ?s l" if "l < length (objects ?s)" for l
    using D(2) [of l] that other only p ref gone
    by (fastforce simp: reachable_object_def split: library_key.splits)
  show "object_ok env ?s l" if "l < length (objects ?s)" for l
  proof -
    have "q \<in> set (threads ?s)" if q: "q \<in> set (threads s)" "builds q = Some l" for q
    proof -
      obtain j where "j < length (threads s)" "q = threads s ! j" using q(1) by (auto simp: in_set_conv_nth)
      moreover from this have "j \<noteq> i" using q(2) p by auto
      ultimately show ?thesis by (auto simp: in_set_conv_nth intro!: exI [of _ j])
    qed
    then show ?thesis using D(3) [of l] that by (auto simp: object_ok_def Let_def)
  qed
  show "slot_of ?s k = Some l \<Longrightarrow> is_object ?s k l" for k l using D(4) [of k l] by (simp add: slot is_object_def)
  show "unique_threads (threads ?s)" using unique_update [OF D(5) i, of Ended] by simp
  show "entries ?s (n, t) = Some l \<Longrightarrow> isGraphicsStage t \<and> referenced ?s n" for n t l using D(6) [of n t l] by (simp add: ref)
  show "running ?s = sum_list (map counts (threads ?s))" using sum_list_map_update [OF i, of counts Ended] D(7) p by simp
  show "closed ?s \<Longrightarrow> modules ?s = []" using D(8) by simp
  show "\<not> device_alive ?s \<Longrightarrow> closed ?s \<and> running ?s = 0" using D(9) by simp
qed

lemma inv_closed:
  assumes inv: "library_inv env s" and i: "i < length (threads s)" and p: "threads s ! i = Closing" and r: "running s = 0"
  shows "library_inv env ((jump i Ended s)\<lparr>entries := (\<lambda>k. None), emptyFragment := None, device_alive := False\<rparr>)" (is "library_inv env ?s")
proof (rule library_invI)
  note D = library_invD [OF inv]
  have cl: "closed s" using D(1) i p by (force simp: pc_ok_def dest: nth_mem)
  then have mods: "modules s = []" by (rule D(8))
  have q: "q \<in> set (threads s) \<or> q = Ended" if "q \<in> set (threads ?s)" for q
    using that set_update_subset_insert [of "threads s" i Ended] by auto
  have norel: "releasing q = None \<and> getting q = None" if "q \<in> set (threads s)" for q
    using D(1) [OF that] cl by (auto simp: pc_ok_def getting_def releasing_def split: library_pc.splits)
  have none: "slot_of ?s k = None" for k by (simp add: slot_of_def split: library_key.split)
  show "pc_ok ?s x" if "x \<in> set (threads ?s)" for x
    using q [OF that] norel [of x] D(1) [of x]
    by (cases x) (auto simp: pc_ok_def is_object_def getting_def)
  have nobuild: "builds x = None" if "x \<in> set (threads s)" for x
  proof -
    have "counts x = 0" using D(7) r that by (simp add: sum_list_eq_0_iff)
    then show ?thesis using norel [OF that] by (cases x) (auto simp: getting_def)
  qed
  show "object_ok env ?s l" if "l < length (objects ?s)" for l
    using D(3) [of l] that nobuild by (fastforce simp: object_ok_def Let_def)
  show "reachable_object ?s l" if "l < length (objects ?s)" for l
    using D(2) [of l] that norel mods by (fastforce simp: reachable_object_def referenced_iff split: library_key.splits)
  show "slot_of ?s k = Some l \<Longrightarrow> is_object ?s k l" for k l by (simp add: none)
  show "unique_threads (threads ?s)" using unique_update [OF D(5) i, of Ended] by simp
  show "entries ?s (n, t) = Some l \<Longrightarrow> isGraphicsStage t \<and> referenced ?s n" for n t l by simp
  show "running ?s = sum_list (map counts (threads ?s))" using sum_list_map_update [OF i, of counts Ended] D(7) p by simp
  show "closed ?s \<Longrightarrow> modules ?s = []" using mods by simp
  show "\<not> device_alive ?s \<Longrightarrow> closed ?s \<and> running ?s = 0" using cl r by simp
qed

lemma inv_run:
  assumes inv: "library_inv env s" and i: "i < length (threads s)" and run: "run_library env a i s = Some s'"
  shows "library_inv env s'"
proof (cases "threads s ! i")
  case (Once_get k l)
  then show ?thesis using inv_once_enter [OF inv i, of k l "Build_get k l" "Got k l"] run by (simp add: run_library_def build_pc_def)
next
  case (Build_get k l)
  then show ?thesis using inv_once_finish [OF inv i, of k l "Got k l" Get_threw a] run by (simp add: run_library_def)
next
  case (Got k l)
  then have "s' = jump i Ended s" using run by (simp add: run_library_def)
  then show ?thesis using inv_jump [OF inv i, of Ended] Got by (simp add: pc_ok_def)
next
  case (Queued k l)
  then show ?thesis
    using inv_queued [OF inv i Queued] inv_jump [OF inv i, of Ended] run by (auto simp: run_library_def pc_ok_def split: if_splits)
next
  case (Counted k l)
  let ?q = "if weak_lock s k l then Once_job k l else Saving"
  have s': "s' = jump i ?q s" using run Counted by (simp add: run_library_def)
  have "pc_ok s (Counted k l)" using library_invD(1) [OF inv] i Counted by (metis nth_mem)
  then have "pc_ok (jump i ?q s) ?q" by (simp add: pc_ok_def)
  then show ?thesis unfolding s' by (rule inv_jump [OF inv i]) (simp_all add: Counted)
next
  case (Once_job k l)
  then show ?thesis using inv_once_enter [OF inv i, of k l "Build_job k l" Saving] run by (simp add: run_library_def build_pc_def)
next
  case (Build_job k l)
  then show ?thesis using inv_once_finish [OF inv i, of k l Saving Saving a] run by (simp add: run_library_def)
next
  case Saving
  then show ?thesis using inv_saving [OF inv i Saving] run by (simp add: run_library_def)
next
  case (Releasing m todo removed)
  then show ?thesis
    using inv_released [OF inv i] inv_cancel [OF inv i] run put_set_same
    by (force simp: run_library_def split: list.splits once.splits)
next
  case Closing
  then show ?thesis using inv_closed [OF inv i Closing] run by (auto simp: run_library_def split: if_splits)
qed (use run in \<open>simp_all add: run_library_def\<close>)

subsection \<open>What clients do\<close>

lemma inv_loads:
  assumes inv: "library_inv env s" and "\<not> closed s" "m \<notin> set (modules s)"
  shows "library_inv env (s\<lparr>modules := modules s @ [m]\<rparr>)" (is "library_inv env ?s")
proof (rule library_invI)
  note D = library_invD [OF inv]
  have ref: "referenced s n \<Longrightarrow> referenced ?s n" for n by (simp add: referenced_iff)
  have slot: "slot_of ?s k = slot_of s k" for k by (simp add: slot_of_def split: library_key.split)
  show "pc_ok ?s p" if "p \<in> set (threads ?s)" for p
  proof -
    have ok: "pc_ok s p" using D(1) that by simp
    show ?thesis by (rule pc_ok_other [OF ok]) (use pc_okD(1) [OF ok] ref in \<open>auto simp: slot key_alive_def split: option.splits\<close>)
  qed
  show "reachable_object ?s l" if "l < length (objects ?s)" for l
    using D(2) [of l] that ref by (fastforce simp: reachable_object_def split: library_key.splits)
  show "object_ok env ?s l" if "l < length (objects ?s)" for l using D(3) [of l] that by (simp add: object_ok_def)
  show "slot_of ?s k = Some l \<Longrightarrow> is_object ?s k l" for k l using D(4) [of k l] by (simp add: slot is_object_def)
  show "unique_threads (threads ?s)" using D(5) by simp
  show "entries ?s (n, t) = Some l \<Longrightarrow> isGraphicsStage t \<and> referenced ?s n" for n t l using D(6) [of n t l] ref by simp
  show "running ?s = sum_list (map counts (threads ?s))" using D(7) by simp
  show "closed ?s \<Longrightarrow> modules ?s = []" using assms(2) by simp
  show "\<not> device_alive ?s \<Longrightarrow> closed ?s \<and> running ?s = 0" using D(9) by simp
qed

lemma inv_spawn:
  assumes inv: "library_inv env s" and q: "pc_ok s q" "builds q = None" "counts q = 0" "releasing q = None"
  shows "library_inv env (spawn q s)" (is "library_inv env ?s")
proof (rule library_invI)
  note D = library_invD [OF inv]
  have s': "threads ?s = threads s @ [q]" "entries ?s = entries s" "emptyFragment ?s = emptyFragment s" "objects ?s = objects s"
    "modules ?s = modules s" "closed ?s = closed s" "device_alive ?s = device_alive s" "running ?s = running s" by (simp_all add: spawn_def)
  have ref: "referenced ?s n \<longleftrightarrow> referenced s n" for n using q(4) by (auto simp: referenced_iff s')
  have slot: "slot_of ?s k = slot_of s k" for k by (simp add: slot_of_def s' split: library_key.split)
  show "pc_ok ?s p" if "p \<in> set (threads ?s)" for p
  proof -
    have ok: "pc_ok s p" using D(1) that q(1) by (auto simp: s')
    show ?thesis by (rule pc_ok_other [OF ok]) (use pc_okD(1) [OF ok] ref in \<open>auto simp: s' slot key_alive_def split: option.splits\<close>)
  qed
  show "reachable_object ?s l" if "l < length (objects ?s)" for l
    using D(2) [of l] that ref by (fastforce simp: reachable_object_def s' split: library_key.splits)
  show "object_ok env ?s l" if "l < length (objects ?s)" for l using D(3) [of l] that by (auto simp: object_ok_def Let_def s')
  show "slot_of ?s k = Some l \<Longrightarrow> is_object ?s k l" for k l using D(4) [of k l] by (simp add: slot is_object_def s')
  show "unique_threads (threads ?s)" using unique_append [OF D(5), of q] q by (simp add: s')
  show "entries ?s (n, t) = Some l \<Longrightarrow> isGraphicsStage t \<and> referenced ?s n" for n t l using D(6) [of n t l] ref by (simp add: s')
  show "running ?s = sum_list (map counts (threads ?s))" using D(7) q(3) by (simp add: s')
  show "closed ?s \<Longrightarrow> modules ?s = []" using D(8) by (simp add: s')
  show "\<not> device_alive ?s \<Longrightarrow> closed ?s \<and> running ?s = 0" using D(9) by (simp add: s')
qed

lemma set_slot_simps [simp]:
  "threads (set_slot k l s) = threads s" "objects (set_slot k l s) = objects s" "modules (set_slot k l s) = modules s"
  "closed (set_slot k l s) = closed s" "device_alive (set_slot k l s) = device_alive s" "running (set_slot k l s) = running s"
  by (simp_all add: set_slot_def split: library_key.split)

lemma slot_set [simp]: "slot_of (set_slot k l s) k' = (if k' = k then l else slot_of s k')"
  by (cases k; cases k') (auto simp: set_slot_def slot_of_def)

lemma slot_objects [simp]: "slot_of (s\<lparr>objects := x\<rparr>) k = slot_of s k"
  by (simp add: slot_of_def split: library_key.split)

lemma entries_slot: "entries s (m, t) = slot_of s (Shader m t)"
  by (simp add: slot_of_def)

lemma inv_find:
  assumes inv: "library_inv env s" and k: "\<not> closed s" "key_alive s k" "key_module k \<noteq> None \<Longrightarrow> isGraphicsStage (key_stage k)"
    and f: "library_entry k s = (l, s')"
  shows "library_inv env s' \<and> is_object s' k l \<and> slot_of s' k = Some l \<and> key_alive s' k \<and> closed s' = closed s \<and> threads s' = threads s"
proof (cases "slot_of s k")
  case (Some l')
  then show ?thesis using f inv k(2) library_invD(4) [OF inv Some] by (auto simp: library_entry_def)
next
  case None
  let ?o = "\<lparr>once = Unset, built = None, made_for = k\<rparr>"
  let ?s = "set_slot k (Some (length (objects s))) (s\<lparr>objects := objects s @ [?o]\<rparr>)"
  have l: "l = length (objects s)" "s' = ?s" using f None by (auto simp: library_entry_def)
  note D = library_invD [OF inv]
  have ref: "referenced ?s n \<longleftrightarrow> referenced s n" for n by (simp add: referenced_iff)
  have alive: "key_alive ?s k' \<longleftrightarrow> key_alive s k'" for k' by (simp add: key_alive_def ref split: option.split)
  have slot: "slot_of ?s k' = (if k' = k then Some (length (objects s)) else slot_of s k')" for k' by simp
  have obj: "is_object ?s k' l' \<longleftrightarrow> is_object s k' l' \<or> (l' = length (objects s) \<and> k' = k)" for k' l'
    by (auto simp: is_object_def nth_append less_Suc_eq)
  have "library_inv env ?s"
  proof (rule library_invI)
    show "pc_ok ?s p" if "p \<in> set (threads ?s)" for p
    proof -
      have ok: "pc_ok s p" using D(1) that by simp
      show ?thesis
        by (rule pc_ok_other [OF ok]) (use pc_okD(1) [OF ok] None in \<open>auto simp: slot alive nth_append\<close>)
    qed
    show "reachable_object ?s l'" if "l' < length (objects ?s)" for l'
    proof (cases "l' < length (objects s)")
      case True
      show ?thesis
      proof (cases "made_for (objects s ! l')")
        case (Shader m t)
        have "slot_of s (Shader m t) = Some l' \<Longrightarrow> slot_of ?s (Shader m t) = Some l'" using None by (auto simp: slot)
        then show ?thesis using D(2) [OF True] True Shader by (auto simp: reachable_object_def nth_append entries_slot ref)
      qed (use True in \<open>simp add: reachable_object_def nth_append\<close>)
    next
      case False
      then have "l' = length (objects s)" using that by simp
      then show ?thesis using k(2)
        by (cases k) (auto simp: reachable_object_def nth_append entries_slot referenced_iff key_alive_def)
    qed
    show "object_ok env ?s l'" if "l' < length (objects ?s)" for l'
      using D(3) [of l'] that by (cases "l' < length (objects s)") (auto simp: object_ok_def Let_def nth_append less_Suc_eq)
    show "slot_of ?s k' = Some l' \<Longrightarrow> is_object ?s k' l'" for k' l' using D(4) [of k' l'] by (auto simp: slot obj split: if_splits)
    show "unique_threads (threads ?s)" using D(5) by simp
    show "entries ?s (n, t) = Some l' \<Longrightarrow> isGraphicsStage t \<and> referenced ?s n" for n t l'
      using D(6) [of n t l'] k(2,3) by (auto simp: entries_slot slot ref key_alive_def split: if_splits)
    show "running ?s = sum_list (map counts (threads ?s))" using D(7) by simp
    show "closed ?s \<Longrightarrow> modules ?s = []" using k(1) by simp
    show "\<not> device_alive ?s \<Longrightarrow> closed ?s \<and> running ?s = 0" using D(9) by simp
  qed
  then show ?thesis using k(2) by (simp add: l alive slot obj)
qed

lemma inv_release:
  assumes inv: "library_inv env s" and m: "referenced s m" and free: "\<And>p t. p \<in> set (threads s) \<Longrightarrow> getting p \<noteq> Some (Shader m t)"
  shows "library_inv env (release_module m s)" (is "library_inv env ?s")
proof (rule library_invI)
  note D = library_invD [OF inv]
  let ?r = "List.map_filter (\<lambda>t. entries s (m, t)) [Vertex_function, Fragment_function]"
  have s': "threads ?s = threads s @ [Releasing m ?r ?r]" "emptyFragment ?s = emptyFragment s" "objects ?s = objects s" "modules ?s = modules s"
    "closed ?s = closed s" "device_alive ?s = device_alive s" "running ?s = running s"
    "entries ?s = (\<lambda>k. if k = (m, Vertex_function) \<or> k = (m, Fragment_function) then None else entries s k)"
    by (simp_all add: release_module_def Let_def spawn_def)
  have stage: "t = Vertex_function \<or> t = Fragment_function" if "entries s (m, t) = Some l" for t l
    using D(6) [OF that] by (cases t) (simp_all add: isGraphicsStage_def)
  have "l \<in> set ?r \<longleftrightarrow> entries s (m, Vertex_function) = Some l \<or> entries s (m, Fragment_function) = Some l" for l
    by (cases "entries s (m, Vertex_function)"; cases "entries s (m, Fragment_function)") (auto simp: List.map_filter_simps)
  then have removed: "l \<in> set ?r \<longleftrightarrow> (\<exists>t. entries s (m, t) = Some l)" for l using stage by blast
  have ent: "entries ?s (n, t) = (if n = m then None else entries s (n, t))" for n t
    using stage [of t] by (cases "entries s (m, t)") (auto simp: s'(8))
  have ref: "referenced ?s n \<longleftrightarrow> n \<noteq> m \<and> referenced s n" for n by (auto simp: referenced_iff s')
  have nocl: "\<not> closed s" using m D(8) by (auto simp: referenced_iff)
  have r_obj: "l < length (objects s)" if rl: "l \<in> set ?r" for l
  proof -
    obtain t where "entries s (m, t) = Some l" using removed [of l] rl by blast
    then show ?thesis using D(4) [of "Shader m t" l] by (simp add: slot_of_def is_object_def)
  qed
  show "pc_ok ?s p" if "p \<in> set (threads ?s)" for p
  proof (cases "p \<in> set (threads s)")
    case True
    then have ok: "pc_ok s p" by (rule D(1))
    have "key_alive ?s k" "slot_of s k = Some l \<Longrightarrow> slot_of ?s k = Some l" if "getting p = Some k" "key_alive s k" for k l
      using that free [OF True] by (cases k; auto simp: key_alive_def ref slot_of_def ent s'(2))+
    moreover have "key_alive s k" if "getting p = Some k" for k using ok that by (auto simp: getting_def pc_ok_def split: library_pc.splits)
    ultimately show ?thesis by (intro pc_ok_other [OF ok]) (use pc_okD(1) [OF ok] in \<open>auto simp: s'\<close>)
  next
    case False
    then show ?thesis using that nocl m r_obj by (auto simp: s' pc_ok_def referenced_iff)
  qed
  show "reachable_object ?s l" if "l < length (objects ?s)" for l
  proof (cases "made_for (objects s ! l)")
    case (Shader n t)
    have l: "reachable_object s l" using D(2) that by (simp add: s'(3))
    have "(\<exists>p \<in> set (threads ?s). releasing p = Some m \<and> l \<in> set (todo_of p))" if "entries s (m, t) = Some l"
      using that by (intro bexI [of _ "Releasing m ?r ?r"]) (auto simp: s'(1) removed simp del: List.map_filter_simps)
    then show ?thesis using l Shader by (auto simp: reachable_object_def s'(1,3) ent ref simp del: List.map_filter_simps)
  qed (simp add: reachable_object_def s')
  show "object_ok env ?s l" if "l < length (objects ?s)" for l using D(3) [of l] that by (auto simp: object_ok_def Let_def s')
  show "slot_of ?s k = Some l \<Longrightarrow> is_object ?s k l" for k l
    using D(4) [of k l] by (cases k) (auto simp: slot_of_def ent is_object_def s'(2,3) split: if_splits)
  show "unique_threads (threads ?s)"
    unfolding s'(1) by (rule unique_append [OF D(5)]) (use m in \<open>simp_all add: referenced_iff\<close>)
  show "entries ?s (n, t) = Some l \<Longrightarrow> isGraphicsStage t \<and> referenced ?s n" for n t l
    using D(6) [of n t l] by (auto simp: ent ref split: if_splits)
  show "running ?s = sum_list (map counts (threads ?s))" using D(7) by (simp add: s')
  show "closed ?s \<Longrightarrow> modules ?s = []" using D(8) by (simp add: s')
  show "\<not> device_alive ?s \<Longrightarrow> closed ?s \<and> running ?s = 0" using D(9) by (simp add: s')
qed

lemma inv_close:
  assumes inv: "library_inv env s" and c: "modules s = []" "list_all idle_client (threads s)"
  shows "library_inv env (close_libraries s)" (is "library_inv env ?s")
proof (rule library_invI)
  note D = library_invD [OF inv]
  have s': "threads ?s = threads s @ [Closing]" "entries ?s = entries s" "emptyFragment ?s = emptyFragment s" "objects ?s = objects s"
    "modules ?s = modules s" "closed ?s" "device_alive ?s = device_alive s" "running ?s = running s" by (simp_all add: close_libraries_def spawn_def)
  have idle: "getting p = None \<and> releasing p = None" if "p \<in> set (threads s)" for p
    using c(2) that by (cases p) (auto simp: list_all_iff idle_client_def getting_def)
  have ref: "referenced ?s n \<longleftrightarrow> referenced s n" for n by (auto simp: referenced_iff s')
  have slot: "slot_of ?s k = slot_of s k" for k by (simp add: slot_of_def s' split: library_key.split)
  show "pc_ok ?s p" if "p \<in> set (threads ?s)" for p
  proof (cases "p = Closing")
    case False
    then have p: "p \<in> set (threads s)" using that by (simp add: s')
    then have ok: "pc_ok s p" by (rule D(1))
    show ?thesis by (rule pc_ok_other [OF ok]) (use pc_okD(1) [OF ok] idle [OF p] in \<open>simp_all add: s'\<close>)
  qed (simp add: pc_ok_def s')
  show "reachable_object ?s l" if "l < length (objects ?s)" for l
    using D(2) [of l] that by (auto simp: reachable_object_def s' ref split: library_key.splits)
  show "object_ok env ?s l" if "l < length (objects ?s)" for l using D(3) [of l] that by (auto simp: object_ok_def Let_def s')
  show "slot_of ?s k = Some l \<Longrightarrow> is_object ?s k l" for k l using D(4) [of k l] by (simp add: slot is_object_def s')
  show "unique_threads (threads ?s)" using unique_append [OF D(5), of Closing] by (simp add: s')
  show "entries ?s (n, t) = Some l \<Longrightarrow> isGraphicsStage t \<and> referenced ?s n" for n t l using D(6) [of n t l] ref by (simp add: s')
  show "running ?s = sum_list (map counts (threads ?s))" using D(7) by (simp add: s')
  show "closed ?s \<Longrightarrow> modules ?s = []" using c(1) by (simp add: s')
  show "\<not> device_alive ?s \<Longrightarrow> closed ?s \<and> running ?s = 0" using D(9) by (simp add: s')
qed

lemma inv_get:
  assumes "library_inv env s" "\<not> closed s" "key_alive s k" "\<And>m t. k = Shader m t \<Longrightarrow> isGraphicsStage t"
  shows "library_inv env (get_library k s)"
proof -
  obtain l s' where f: "library_entry k s = (l, s')" by (cases "library_entry k s")
  have g: "key_module k \<noteq> None \<Longrightarrow> isGraphicsStage (key_stage k)" using assms(4) by (cases k) auto
  note r = inv_find [OF assms(1-3) g f]
  then have "library_inv env (spawn (Once_get k l) s')" using assms(2) by (intro inv_spawn) (simp_all add: pc_ok_def)
  then show ?thesis by (simp add: get_library_def f)
qed

lemma inv_prepare:
  assumes "library_inv env s" "\<not> closed s" "referenced s m"
  shows "library_inv env (prepare_library enabled queued m t s)"
proof (cases "isGraphicsStage t \<and> enabled")
  case True
  obtain l s' where f: "library_entry (Shader m t) s = (l, s')" by (cases "library_entry (Shader m t) s")
  have k: "key_alive s (Shader m t)" using assms(3) by (simp add: key_alive_def)
  note r = inv_find [OF assms(1,2) k _ f]
  then have "library_inv env (spawn (Queued (Shader m t) l) s')" using True by (intro inv_spawn) (simp_all add: pc_ok_def)
  then show ?thesis using r True by (simp add: prepare_library_def f)
next
  case False
  then show ?thesis using assms(1) by (auto simp: prepare_library_def)
qed

lemma inv_client: "library_client s s' \<Longrightarrow> library_inv env s \<Longrightarrow> library_inv env s'"
  by (erule library_clientE)
     (auto simp: key_alive_def intro: inv_loads inv_prepare inv_get inv_release inv_close)

lemma inv_new_store: "library_inv env new_store"
  by (rule library_invI) (simp_all add: new_store_def slot_of_def unique_threads_def unique_by_def split: library_key.splits)

lemma library_reachable_inv: "library_reachable env s \<Longrightarrow> library_inv env s"
proof (induction rule: library_reachable.induct)
  case (library_runs s s')
  then show ?case by (auto elim!: library_stepE intro: inv_run)
qed (simp_all add: inv_new_store inv_client)

subsection \<open>Builds and destroyed modules\<close>

lemma build_alive:
  assumes "library_inv env s" "p \<in> set (threads s)" "builds p = Some l"
  shows "device_alive s \<and> once (objects s ! l) = Busy \<and> (\<forall>m t. made_for (objects s ! l) = Shader m t \<longrightarrow> m \<in> set (modules s))"
proof (intro conjI allI impI)
  note D = library_invD [OF assms(1)]
  note ok = D(1) [OF assms(2)]
  have l: "l < length (objects s)" "once (objects s ! l) = Busy" using pc_okD(1) [OF ok assms(3)] by simp_all
  then show "once (objects s ! l) = Busy" by simp
  show "device_alive s"
  proof (rule ccontr)
    assume d: "\<not> device_alive s"
    then have "counts p = 0" using D(7,9) assms(2) by (simp add: sum_list_eq_0_iff)
    then show False using D(9) [OF d] assms(3) ok by (cases p) (auto simp: pc_ok_def)
  qed
  show "m \<in> set (modules s)" if "made_for (objects s ! l) = Shader m t" for m t
    using D(2) [OF l(1)] that l(2) pc_okD(3) [OF D(1)] by (auto simp: reachable_object_def referenced_iff)
qed

text \<open>
  C26: The background builds of shader libraries never touch a shader module or a device that is gone.
  However loads, draws, background jobs and destructors interleave, and even when Vulkan gives a new
  module the handle of a destroyed one: a thread that is building a library is the only one that
  does, the device is alive and the module has not been destroyed, for \<open>release\<close> cancels a queued
  build and waits for a running one; what \<open>get\<close> returned was built from the module and for the stage
  that was asked for, or its build failed; a destroyed module has no entry; and once \<open>close\<close> has
  returned no job builds or uses the device.
\<close>

theorem shader_libraries_safe:
  assumes "library_reachable env s"
  shows "(\<forall>i < length (threads s). \<forall>l. builds (threads s ! i) = Some l \<longrightarrow>
        device_alive s \<and> (\<forall>m t. made_for (objects s ! l) = Shader m t \<longrightarrow> m \<in> set (modules s))
        \<and> (\<forall>j < length (threads s). builds (threads s ! j) = Some l \<longrightarrow> j = i))
    \<and> (\<forall>k l. Got k l \<in> set (threads s) \<longrightarrow> once (objects s ! l) = Set
        \<and> (built (objects s ! l) = None \<or> (\<exists>h. built (objects s ! l) = Some (h, shader_part env (key_stage k) (key_module k)))))
    \<and> (\<forall>m t. m \<notin> set (modules s) \<longrightarrow> entries s (m, t) = None)
    \<and> (\<not> device_alive s \<longrightarrow> (\<forall>p \<in> set (threads s). builds p = None \<and> counts p = 0))"
proof (intro conjI allI impI ballI)
  note inv = library_reachable_inv [OF assms]
  note D = library_invD [OF inv]
  show "device_alive s" "made_for (objects s ! l) = Shader m t \<Longrightarrow> m \<in> set (modules s)"
    if "i < length (threads s)" "builds (threads s ! i) = Some l" for i l m t
    using build_alive [OF inv nth_mem [OF that(1)] that(2)] by blast+
  show "j = i" if "i < length (threads s)" "builds (threads s ! i) = Some l" "j < length (threads s)" "builds (threads s ! j) = Some l" for i j l
    using D(5) that by (auto simp: unique_threads_def unique_by_def)
  show "once (objects s ! l) = Set" if "Got k l \<in> set (threads s)" for k l using D(1) [OF that] by (simp add: pc_ok_def)
  show "built (objects s ! l) = None \<or> (\<exists>h. built (objects s ! l) = Some (h, shader_part env (key_stage k) (key_module k)))"
    if "Got k l \<in> set (threads s)" for k l
  proof -
    have l: "l < length (objects s)" "made_for (objects s ! l) = k" using D(1) [OF that] by (simp_all add: pc_ok_def is_object_def)
    then show ?thesis using D(3) [OF l(1)] by (simp add: object_ok_def Let_def)
  qed
  show "entries s (m, t) = None" if "m \<notin> set (modules s)" for m t
    using D(6) [of m t] that by (cases "entries s (m, t)") (auto simp: referenced_iff)
  fix p assume d: "\<not> device_alive s" and p: "p \<in> set (threads s)"
  show "builds p = None" using build_alive [OF inv p] d by (cases "builds p") auto
  show "counts p = 0" using D(7) D(9) [OF d] p by (simp add: sum_list_eq_0_iff)
qed

subsection \<open>Releases and the closing return\<close>

definition pc_left :: "library_pc \<Rightarrow> nat" where
  "pc_left p = (case p of Once_get k l \<Rightarrow> 3 | Build_get k l \<Rightarrow> 2 | Got k l \<Rightarrow> 1 | Get_threw \<Rightarrow> 0 | Queued k l \<Rightarrow> 5 | Counted k l \<Rightarrow> 4
     | Once_job k l \<Rightarrow> 3 | Build_job k l \<Rightarrow> 2 | Saving \<Rightarrow> 1 | Releasing m todo removed \<Rightarrow> length todo + 1 | Closing \<Rightarrow> 1 | Ended \<Rightarrow> 0)"

definition store_left :: "library_store \<Rightarrow> nat" where
  "store_left s = sum_list (map pc_left (threads s))"

lemma library_step_decreases:
  assumes "library_step env s s'"
  shows "store_left s' < store_left s"
proof -
  obtain i a where i: "i < length (threads s)" and run: "run_library env a i s = Some s'" using assms by (auto elim: library_stepE)
  have "\<exists>q. threads s' = (threads s)[i := q] \<and> pc_left q < pc_left (threads s ! i)"
    using run
    by (cases "threads s ! i") (auto simp: run_library_def enter_once_def finish_once_def pc_left_def split: once.splits list.splits if_splits sum.splits)
  then obtain q where "threads s' = (threads s)[i := q]" "pc_left q < pc_left (threads s ! i)" by blast
  then show ?thesis using sum_list_map_update [OF i, of pc_left q] by (simp add: store_left_def)
qed

lemma library_steps_bounded: "(library_step env ^^ n) s s' \<Longrightarrow> n + store_left s' \<le> store_left s"
proof (induction n arbitrary: s')
  case (Suc n)
  then obtain t where "(library_step env ^^ n) s t" "library_step env t s'" by auto
  then show ?case using Suc.IH [of t] library_step_decreases [of env t s'] by simp
qed simp

lemma library_steps_reachable: "(library_step env ^^ n) s s' \<Longrightarrow> library_reachable env s \<Longrightarrow> library_reachable env s'"
  by (induction n arbitrary: s') (auto intro: library_runs)

lemma builder_steps:
  assumes "library_inv env s" "l < length (objects s)" "once (objects s ! l) = Busy"
  shows "\<exists>s'. library_step env s s'"
proof -
  obtain p where "p \<in> set (threads s)" "builds p = Some l" using library_invD(3) [OF assms(1,2)] assms(3) by (auto simp: object_ok_def Let_def)
  then obtain i where i: "i < length (threads s)" "builds (threads s ! i) = Some l" by (auto simp: in_set_conv_nth)
  then have "\<exists>s'. run_library env (Inr None) i s = Some s'" by (cases "threads s ! i") (auto simp: run_library_def)
  then show ?thesis using thread_runs [OF i(1)] by blast
qed

lemma counted_steps:
  assumes "library_inv env s" "p \<in> set (threads s)" "counts p \<noteq> 0"
  shows "\<exists>s'. library_step env s s'"
proof -
  obtain i where i: "i < length (threads s)" "threads s ! i = p" using assms(2) by (auto simp: in_set_conv_nth)
  show ?thesis
  proof (cases "run_library env (Inr None) i s")
    case None
    then obtain k l where p: "p = Once_job k l" "once (objects s ! l) = Busy"
      using assms(3) i by (cases p) (auto simp: run_library_def enter_once_def split: once.splits)
    then have "l < length (objects s)" using library_invD(1) [OF assms(1,2)] by (simp add: pc_ok_def is_object_def)
    then show ?thesis using builder_steps [OF assms(1)] p by blast
  qed (use thread_runs [OF i(1)] in blast)
qed

lemma library_not_stuck:
  assumes inv: "library_inv env s" and p: "p \<in> set (threads s)" "p \<noteq> Ended" "p \<noteq> Get_threw"
  shows "\<exists>s'. library_step env s s'"
proof -
  obtain i where i: "i < length (threads s)" "threads s ! i = p" using p(1) by (auto simp: in_set_conv_nth)
  note ok = library_invD(1) [OF inv p(1)]
  show ?thesis
  proof (cases "run_library env (Inr None) i s")
    case None
    then consider l where "l < length (objects s)" "once (objects s ! l) = Busy" | "running s \<noteq> 0"
      using p i ok by (cases p) (auto simp: run_library_def enter_once_def pc_ok_def is_object_def split: once.splits list.splits if_splits)
    then show ?thesis
    proof cases
      case 2
      then obtain q where "q \<in> set (threads s)" "counts q \<noteq> 0" using library_invD(7) [OF inv] by (auto simp: sum_list_eq_0_iff)
      then show ?thesis using counted_steps [OF inv] by blast
    qed (use builder_steps [OF inv] in blast)
  qed (use thread_runs [OF i(1)] in blast)
qed

text \<open>
  C27: No destructor waits for ever for a build. From every reachable state the threads inside the
  shader libraries can make a bounded number of steps, whatever Vulkan answers and even when builds
  throw, and as long as one of them has not returned, one of them can step: when none can, every
  \<open>get\<close>, background job, \<open>release\<close> and \<open>close\<close> has ended.
\<close>

theorem releases_return:
  assumes "library_reachable env s" "(library_step env ^^ n) s s'"
  shows "n \<le> store_left s \<and> ((\<nexists>s''. library_step env s' s'') \<longrightarrow> (\<forall>p \<in> set (threads s'). p = Ended \<or> p = Get_threw))"
  using library_steps_bounded [OF assms(2)] library_not_stuck [OF library_reachable_inv [OF library_steps_reachable [OF assms(2,1)]]]
  by fastforce

subsection \<open>An example\<close>

text \<open>Steps one after the other: the thread and the answer to its build.\<close>

fun run_threads :: "pipeline_env \<Rightarrow> (nat \<times> build_answer) list \<Rightarrow> library_store \<Rightarrow> library_store option" where
  "run_threads env [] s = Some s"
| "run_threads env ((i, a) # ops) s = (if i < length (threads s) then Option.bind (run_library env a i s) (run_threads env ops) else None)"

lemma run_threads_reachable: "run_threads env ops s = Some s' \<Longrightarrow> library_reachable env s \<Longrightarrow> library_reachable env s'"
proof (induction env ops s rule: run_threads.induct)
  case (2 env i a ops s)
  then obtain t where t: "i < length (threads s)" "run_library env a i s = Some t" "run_threads env ops t = Some s'"
    by (auto split: if_splits simp: bind_eq_Some_conv)
  then have "library_step env s t" by (intro thread_runs)
  then show ?case using 2 t by (auto intro: library_runs)
qed simp

definition example_libraries :: pipeline_env where
  "example_libraries = \<lparr>vkFormat = (\<lambda>f. f), vkBlendFactor = (\<lambda>f. f), vkBlendOp = (\<lambda>f. f), vkWriteMask = (\<lambda>f. f), vkVertexFormat = (\<lambda>f. f),
     hasDepth = (\<lambda>f. True), hasStencil = (\<lambda>f. False), dynamicDepthClamp = True, pipelineLibraries = True, workers = 2\<rparr>"

text \<open>Module 7 is loaded; its background build has started when its library is released, so the release waits.\<close>

definition example_loaded :: library_store where
  "example_loaded = prepare_library True True 7 Vertex_function (new_store\<lparr>modules := [7]\<rparr>)"

definition example_building :: library_store where
  "example_building = the (run_threads example_libraries [(0, Inr None), (0, Inr None), (0, Inr None)] example_loaded)"

definition example_releasing :: library_store where
  "example_releasing = release_module 7 example_building"

lemmas example_defs = example_loaded_def prepare_library_def new_store_def library_entry_def slot_of_def set_slot_def spawn_def
  run_library_def jump_def put_object_def enter_once_def weak_lock_def holds_library_def isGraphicsStage_def

lemma example_building:
  "run_threads example_libraries [(0, Inr None), (0, Inr None), (0, Inr None)] example_loaded = Some example_building"
  "threads example_building = [Build_job (Shader 7 Vertex_function) 0]" "modules example_building = [7]"
  "entries example_building (7, Vertex_function) = Some 0" "entries example_building (7, Fragment_function) = None"
  "objects example_building = [\<lparr>once = Busy, built = None, made_for = Shader 7 Vertex_function\<rparr>]"
  by (simp_all add: example_building_def example_defs)

lemma example_releasing:
  "threads example_releasing = [Build_job (Shader 7 Vertex_function) 0, Releasing 7 [0] [0]]"
  "objects example_releasing = [\<lparr>once = Busy, built = None, made_for = Shader 7 Vertex_function\<rparr>]"
  by (simp_all add: example_releasing_def release_module_def Let_def spawn_def example_building List.map_filter_simps)

lemma example_releasing_reachable: "library_reachable example_libraries example_releasing"
proof -
  have "library_client new_store (new_store\<lparr>modules := modules new_store @ [7]\<rparr>)"
    by (rule loads) (simp_all add: new_store_def)
  then have "library_reachable example_libraries (new_store\<lparr>modules := [7]\<rparr>)"
    using library_call [OF library_start] by (simp add: new_store_def)
  moreover have "library_client (new_store\<lparr>modules := [7]\<rparr>) example_loaded"
    unfolding example_loaded_def by (rule prepares) (simp_all add: new_store_def referenced_def)
  ultimately have "library_reachable example_libraries example_loaded" by (rule library_call)
  then have "library_reachable example_libraries example_building"
    using run_threads_reachable [OF example_building(1)] by simp
  moreover have "library_client example_building example_releasing"
    unfolding example_releasing_def by (rule releases) (simp_all add: example_building referenced_def getting_def)
  ultimately show ?thesis by (rule library_call)
qed

theorem shader_libraries_safe_witness:
  "builds (threads example_releasing ! 0) = Some 0 \<and> device_alive example_releasing \<and> 7 \<in> set (modules example_releasing)
   \<and> run_library example_libraries (Inr None) 1 example_releasing = None"
proof -
  have "builds (threads example_releasing ! 0) = Some 0" "0 < length (threads example_releasing)"
    "made_for (objects example_releasing ! 0) = Shader 7 Vertex_function" by (simp_all add: example_releasing)
  moreover from this have "device_alive example_releasing \<and> 7 \<in> set (modules example_releasing)"
    using conjunct1 [OF shader_libraries_safe [OF example_releasing_reachable]] by blast
  moreover have "run_library example_libraries (Inr None) 1 example_releasing = None"
    by (simp add: run_library_def example_releasing)
  ultimately show ?thesis by simp
qed

text \<open>One step: the build finishes.\<close>

theorem releases_return_witness:
  "\<exists>s. (library_step example_libraries ^^ 1) example_releasing s \<and> 1 \<le> store_left example_releasing \<and> threads s ! 0 = Saving"
proof -
  let ?s = "finish_once example_libraries (Inr (Some 20)) 0 (Shader 7 Vertex_function) 0 Saving Saving example_releasing"
  have "run_library example_libraries (Inr (Some 20)) 0 example_releasing = Some ?s" by (simp add: run_library_def example_releasing)
  then have "library_step example_libraries example_releasing ?s" by (intro thread_runs [of 0]) (simp_all add: example_releasing)
  then have st: "(library_step example_libraries ^^ 1) example_releasing ?s" by auto
  have "threads ?s ! 0 = Saving" by (simp add: finish_once_def example_releasing)
  with releases_return [OF example_releasing_reachable st] st show ?thesis by blast
qed

end
