(* ===== verification/AudioFormats.thy ===== *)
theory AudioFormats
  imports Complex_Main Prelude
begin

section \<open>Audio formats and sample conversion\<close>

text \<open>
  The formats of the CoreAudio layer under \<open>runtime/optimized/audio\<close>: \<open>AUHAL::ValidFormat\<close>, the
  stream format of a device (\<open>AudioHardwareImpl\<close>), its translation to a PulseAudio sample
  specification (\<open>AudioHardwareImplPA\<close>) and the conversion between signed and unsigned samples
  (\<open>AudioHardwareStreamPA\<close>). A sample rate is a rational number: a finite \<open>Float64\<close>. The host is
  little-endian, so \<open>kAudioFormatFlagsNativeEndian\<close> has no bit set.
\<close>

subsection \<open>Stream descriptions\<close>

datatype format_id = LinearPCM | Other_format nat

datatype format_flag = IsFloat | IsBigEndian | IsSignedInteger | IsPacked | IsNonInterleaved

record asbd =
  mSampleRate :: rat
  mFormatID :: format_id
  mFormatFlags :: "format_flag set"
  mBytesPerPacket :: u32
  mFramesPerPacket :: u32
  mBytesPerFrame :: u32
  mChannelsPerFrame :: u32
  mBitsPerChannel :: u32

definition frame_bytes :: "asbd \<Rightarrow> u32" where
  "frame_bytes f = mChannelsPerFrame f * mBitsPerChannel f div 8"

text \<open>The format of a new device.\<close>

definition initial_format :: asbd where
  "initial_format = \<lparr>mSampleRate = 44100, mFormatID = LinearPCM, mFormatFlags = {IsFloat, IsPacked}, mBytesPerPacket = 8,
     mFramesPerPacket = 1, mBytesPerFrame = 8, mChannelsPerFrame = 2, mBitsPerChannel = 32\<rparr>"

definition ValidFormat :: "asbd \<Rightarrow> bool" where
  "ValidFormat f \<longleftrightarrow>
     (if mFormatID f \<noteq> LinearPCM \<or> IsNonInterleaved \<in> mFormatFlags f \<or> mSampleRate f < 1 \<or> mSampleRate f > 384000
         \<or> mChannelsPerFrame f = 0 \<or> mChannelsPerFrame f > 32 \<or> mFramesPerPacket f \<noteq> 1 \<or> mBytesPerPacket f \<noteq> mBytesPerFrame f
         \<or> mBytesPerFrame f \<noteq> frame_bytes f
      then False
      else if IsFloat \<in> mFormatFlags f then mBitsPerChannel f = 32
      else mBitsPerChannel f = 8 \<or> mBitsPerChannel f = 16 \<or> mBitsPerChannel f = 32
        \<or> (mBitsPerChannel f = 24 \<and> IsSignedInteger \<in> mFormatFlags f))"

subsection \<open>The PulseAudio sample specification\<close>

datatype pa_format = PA_INVALID | PA_U8 | PA_S16LE | PA_S16BE | PA_S24LE | PA_S24BE | PA_S24_32LE | PA_S24_32BE
  | PA_S32LE | PA_S32BE | PA_FLOAT32LE | PA_FLOAT32BE

record pa_spec =
  pa_fmt :: pa_format
  pa_rate :: u32
  pa_channels :: u8

text \<open>The format, and whether samples have to be converted between signed and unsigned.\<close>

definition pa_format_of :: "asbd \<Rightarrow> pa_format \<times> bool" where
  "pa_format_of f =
     (let flags = mFormatFlags f; be = IsBigEndian \<in> flags; signed = IsSignedInteger \<in> flags in
      if mFormatID f \<noteq> LinearPCM then (PA_INVALID, False)
      else if IsFloat \<in> flags then (if be then PA_FLOAT32BE else PA_FLOAT32LE, False)
      else if mBitsPerChannel f = 8 then (PA_U8, signed)
      else if mBitsPerChannel f = 16 then (if be then PA_S16BE else PA_S16LE, \<not> signed)
      else if mBitsPerChannel f = 24 then
        (if IsPacked \<in> flags then (if be then PA_S24BE else PA_S24LE) else (if be then PA_S24_32BE else PA_S24_32LE), \<not> signed)
      else if mBitsPerChannel f = 32 then (if be then PA_S32BE else PA_S32LE, \<not> signed)
      else (PA_INVALID, False))"

definition paSampleSpecForASBD :: "asbd \<Rightarrow> pa_spec \<times> bool" where
  "paSampleSpecForASBD f =
     (let (fmt, convert) = pa_format_of f in
      (\<lparr>pa_fmt = fmt, pa_rate = of_int \<lfloor>mSampleRate f\<rfloor>, pa_channels = ucast (mChannelsPerFrame f)\<rparr>, convert))"

text \<open>\<open>setPropertyData\<close> for the stream format of a device; \<open>spec_valid\<close> is \<open>pa_sample_spec_valid\<close>.\<close>

datatype audio_status = NoError | BadPropertySize | UnsupportedFormat

definition set_stream_format :: "(pa_spec \<Rightarrow> bool) \<Rightarrow> bool \<Rightarrow> asbd \<Rightarrow> asbd \<Rightarrow> audio_status \<times> asbd" where
  "set_stream_format spec_valid size_ok setting old =
     (if \<not> size_ok then (BadPropertySize, old)
      else if mFormatID setting \<noteq> LinearPCM then (UnsupportedFormat, old)
      else if \<not> spec_valid (fst (paSampleSpecForASBD setting)) then (UnsupportedFormat, old)
      else (NoError, setting\<lparr>mFramesPerPacket := 1, mBytesPerPacket := frame_bytes setting, mBytesPerFrame := frame_bytes setting\<rparr>))"

subsection \<open>Signed and unsigned samples\<close>

definition word16 :: "u8 \<Rightarrow> u8 \<Rightarrow> u16" where
  "word16 a b = ucast a OR push_bit 8 (ucast b)"

definition bytes16 :: "u16 \<Rightarrow> u8 list" where
  "bytes16 v = [ucast v, ucast (drop_bit 8 v)]"

definition word32 :: "u8 \<Rightarrow> u8 \<Rightarrow> u8 \<Rightarrow> u8 \<Rightarrow> u32" where
  "word32 a b c d = ucast a OR push_bit 8 (ucast b) OR push_bit 16 (ucast c) OR push_bit 24 (ucast d)"

definition bytes32 :: "u32 \<Rightarrow> u8 list" where
  "bytes32 v = [ucast v, ucast (drop_bit 8 v), ucast (drop_bit 16 v), ucast (drop_bit 24 v)]"

definition bswap16 :: "u16 \<Rightarrow> u16" where
  "bswap16 v = word16 (ucast (drop_bit 8 v)) (ucast v)"

definition bswap32 :: "u32 \<Rightarrow> u32" where
  "bswap32 v = word32 (ucast (drop_bit 24 v)) (ucast (drop_bit 16 v)) (ucast (drop_bit 8 v)) (ucast v)"

text \<open>The loops over the words of a buffer; bytes after the last whole word stay.\<close>

fun over16 :: "(u16 \<Rightarrow> u16) \<Rightarrow> u8 list \<Rightarrow> u8 list" where
  "over16 f (a # b # bs) = bytes16 (f (word16 a b)) @ over16 f bs"
| "over16 f bs = bs"

fun over32 :: "(u32 \<Rightarrow> u32) \<Rightarrow> u8 list \<Rightarrow> u8 list" where
  "over32 f (a # b # c # d # bs) = bytes32 (f (word32 a b c d)) @ over32 f bs"
| "over32 f bs = bs"

text \<open>\<open>transform<T>\<close> adds the least signed value, with wrap-around.\<close>

definition transform :: "'a::len word \<Rightarrow> 'a word" where
  "transform v = v + push_bit (LENGTH('a) - 1) 1"

definition transform24 :: "bool \<Rightarrow> u32 \<Rightarrow> u32" where
  "transform24 revEndian v =
     (let v = (if revEndian then bswap32 v else v);
          v = (if v AND 0x800000 \<noteq> 0 then v OR 0xff000000 else v);
          v = transform v AND 0xffffff
      in if revEndian then bswap32 v else v)"

definition transform_buffer :: "asbd \<Rightarrow> u8 list \<Rightarrow> u8 list" where
  "transform_buffer f bs =
     (let revEndian = IsBigEndian \<in> mFormatFlags f; bits = mBitsPerChannel f in
      if bits = 8 then map transform bs
      else if bits = 16 then over16 (\<lambda>v. if revEndian then bswap16 (transform (bswap16 v)) else transform v) bs
      else if bits = 24 then over32 (transform24 revEndian) bs
      else if bits = 32 then over32 (\<lambda>v. if revEndian then bswap32 (transform (bswap32 v)) else transform v) bs
      else bs)"

definition transformSignedUnsigned :: "asbd \<Rightarrow> u8 list list \<Rightarrow> u8 list list" where
  "transformSignedUnsigned f buffers = map (transform_buffer f) buffers"

subsection \<open>Words and bytes\<close>

lemma word_bytes16 [simp]: "word16 (ucast v) (ucast (drop_bit 8 v)) = v"
  by (rule bit_word_eqI) (auto simp: word16_def bit_simps)

lemma word_bytes32 [simp]: "word32 (ucast v) (ucast (drop_bit 8 v)) (ucast (drop_bit 16 v)) (ucast (drop_bit 24 v)) = v"
proof (rule bit_word_eqI)
  fix n assume "n < LENGTH(32)"
  then consider "n < 8" | "8 \<le> n" "n < 16" | "16 \<le> n" "n < 24" | "24 \<le> n" "n < 32" by fastforce
  then show "bit (word32 (ucast v) (ucast (drop_bit 8 v)) (ucast (drop_bit 16 v)) (ucast (drop_bit 24 v))) n = bit v n"
    by cases (auto simp: word32_def bit_simps)
qed

lemma high_bits [simp]: "8 \<le> n \<Longrightarrow> \<not> bit (a :: u8) n"
  using bit_imp_le_length [of a n] by auto

lemma bytes_word16 [simp]: "bytes16 (word16 a b) = [a, b]"
  by (auto simp: bytes16_def word16_def intro!: bit_word_eqI simp: bit_simps)

lemma bytes_word32 [simp]: "bytes32 (word32 a b c d) = [a, b, c, d]"
  by (auto simp: bytes32_def word32_def intro!: bit_word_eqI simp: bit_simps)

lemma bswap16_word: "bswap16 (word16 a b) = word16 b a"
  using bytes_word16 [of a b] by (simp add: bswap16_def bytes16_def)

lemma bswap32_word: "bswap32 (word32 a b c d) = word32 d c b a"
  using bytes_word32 [of a b c d] by (simp add: bswap32_def bytes32_def)

lemma bswap16_bswap16 [simp]: "bswap16 (bswap16 v) = v"
  using bswap16_word [of "ucast v" "ucast (drop_bit 8 v)"] by (simp add: bswap16_word)

lemma bswap32_bswap32 [simp]: "bswap32 (bswap32 v) = v"
  using bswap32_word [of "ucast v" "ucast (drop_bit 8 v)" "ucast (drop_bit 16 v)" "ucast (drop_bit 24 v)"] by (simp add: bswap32_word)

lemma transform_transform [simp]: "transform (transform v) = (v :: 'a::len word)"
proof -
  have "push_bit (LENGTH('a) - 1) 1 + push_bit (LENGTH('a) - 1) 1 = (0 :: 'a word)"
    by (simp add: push_bit_eq_mult flip: mult_2 power_Suc)
  then show ?thesis by (simp add: transform_def add.assoc)
qed

lemma sint_transform: "sint (transform v) = uint v - 2 ^ (LENGTH('a) - 1)" for v :: "'a::len word"
proof -
  let ?n = "LENGTH('a) - 1"
  have S: "Suc ?n = LENGTH('a)" by simp
  have "transform v = word_of_int (uint v + 2 ^ ?n)" by (simp add: transform_def push_bit_eq_mult)
  then have "sint (transform v) = signed_take_bit ?n (uint v + 2 ^ ?n)" by (simp only: sint_sbintrunc')
  also have "\<dots> = take_bit (Suc ?n) (uint v + 2 ^ ?n + 2 ^ ?n) - 2 ^ ?n" by (rule signed_take_bit_eq_take_bit_shift)
  also have "uint v + 2 ^ ?n + 2 ^ ?n = uint v + 2 ^ LENGTH('a)" using S by (metis (no_types) add.assoc mult_2 power_Suc)
  also have "take_bit (Suc ?n) (uint v + 2 ^ LENGTH('a)) = uint v" using S by (simp add: take_bit_eq_mod)
  finally show ?thesis .
qed

subsection \<open>What the conversion does to samples\<close>

lemma over16_over16: "over16 f (over16 g bs) = over16 (\<lambda>v. f (g v)) bs"
  by (induction g bs rule: over16.induct) (simp_all add: bytes16_def)

lemma over32_over32: "over32 f (over32 g bs) = over32 (\<lambda>v. f (g v)) bs"
  by (induction g bs rule: over32.induct) (simp_all add: bytes32_def)

lemma over16_id [simp]: "over16 (\<lambda>v. v) bs = bs"
  by (induction "\<lambda>v :: u16. v" bs rule: over16.induct) simp_all

lemma over32_id [simp]: "over32 (\<lambda>v. v) bs = bs"
  by (induction "\<lambda>v :: u32. v" bs rule: over32.induct) simp_all

lemma length_over16 [simp]: "length (over16 f bs) = length bs"
  by (induction f bs rule: over16.induct) (simp_all add: bytes16_def)

lemma length_over32 [simp]: "length (over32 f bs) = length bs"
  by (induction f bs rule: over32.induct) (simp_all add: bytes32_def)

text \<open>A sample of a buffer, read in the byte order of the format.\<close>

definition sample16 :: "bool \<Rightarrow> u8 list \<Rightarrow> nat \<Rightarrow> u16" where
  "sample16 be bs j = (let a = bs ! (2 * j); b = bs ! (2 * j + 1) in if be then word16 b a else word16 a b)"

definition sample32 :: "bool \<Rightarrow> u8 list \<Rightarrow> nat \<Rightarrow> u32" where
  "sample32 be bs j =
     (let a = bs ! (4 * j); b = bs ! (4 * j + 1); c = bs ! (4 * j + 2); d = bs ! (4 * j + 3) in
      if be then word32 d c b a else word32 a b c d)"

lemma nth_bytes [simp]:
  "word16 (bytes16 v ! 0) (bytes16 v ! Suc 0) = v"
  "word32 (bytes32 w ! 0) (bytes32 w ! Suc 0) (bytes32 w ! 2) (bytes32 w ! 3) = w"
  by (simp_all add: bytes16_def bytes32_def numeral_3_eq_3 numeral_2_eq_2)

lemma sample16_over:
  assumes "2 * j + 1 < length bs"
  shows "sample16 False (over16 f bs) j = f (sample16 False bs j)"
  using assms
proof (induction f bs arbitrary: j rule: over16.induct)
  case (1 f a b bs)
  then show ?case by (cases j) (simp_all add: sample16_def bytes16_def)
qed simp_all

lemma sample32_over:
  assumes "4 * j + 3 < length bs"
  shows "sample32 False (over32 f bs) j = f (sample32 False bs j)"
  using assms
proof (induction f bs arbitrary: j rule: over32.induct)
  case (1 f a b c d bs)
  then show ?case by (cases j) (simp_all add: sample32_def bytes32_def numeral_3_eq_3 numeral_2_eq_2)
qed simp_all

lemma sample_swap: "sample16 True bs j = bswap16 (sample16 False bs j)" "sample32 True bs j = bswap32 (sample32 False bs j)"
  by (simp_all add: sample16_def sample32_def bswap16_word bswap32_word)


text \<open>The same conversion of 24 bit samples changes none of their 24 bits.\<close>

lemma transform24_le: "transform24 False v = v AND 0xffffff"
proof -
  have mask: "x AND 0xffffff = take_bit 24 x" for x :: u32
    by (simp add: take_bit_eq_mask mask_eq_exp_minus_1)
  have "take_bit 24 (v OR 0xff000000) = take_bit 24 v" by (simp add: take_bit_or take_bit_numeral_bit1 take_bit_numeral_bit0)
  moreover have "take_bit 24 (transform x) = take_bit 24 x" for x :: u32
  proof -
    have "take_bit 24 (k + 2147483648) = take_bit 24 k" for k :: int using mod_mult_self1 [of k 128 16777216] by (simp add: take_bit_eq_mod)
    then have "take_bit 24 (x + 2147483648) = take_bit 24 x" by transfer simp
    then show ?thesis by (simp add: transform_def)
  qed
  ultimately show ?thesis by (simp add: transform24_def mask)
qed

lemma transform24_be: "transform24 True v = bswap32 (transform24 False (bswap32 v))"
  by (simp add: transform24_def Let_def)

text \<open>
  The conversion of 24 bit samples does not convert. Every 32 bit word of the buffer, read in the
  byte order of the format, keeps its low 24 bits and loses its high byte: an unsigned sample is
  handed to PulseAudio as it is although the format says signed, and in a packed stream, whose
  samples have three bytes, every fourth byte is overwritten by zero.
\<close>

theorem unsigned24_not_converted:
  assumes "mBitsPerChannel f = 24"
  shows "(\<forall>j. 4 * j + 3 < length bs \<longrightarrow>
       sample32 (IsBigEndian \<in> mFormatFlags f) (transform_buffer f bs) j = sample32 (IsBigEndian \<in> mFormatFlags f) bs j AND 0xffffff)
    \<and> (IsBigEndian \<notin> mFormatFlags f \<longrightarrow> (\<forall>j. 4 * j + 3 < length bs \<longrightarrow> transform_buffer f bs ! (4 * j + 3) = 0))"
proof -
  let ?be = "IsBigEndian \<in> mFormatFlags f"
  have all: "sample32 ?be (transform_buffer f bs) j = sample32 ?be bs j AND 0xffffff" if "4 * j + 3 < length bs" for j
    using assms sample32_over [OF that, of "transform24 ?be"]
    by (cases ?be) (simp_all add: transform_buffer_def sample_swap transform24_le transform24_be)
  moreover have "transform_buffer f bs ! (4 * j + 3) = 0" if be: "\<not> ?be" and j: "4 * j + 3 < length bs" for j
  proof -
    have "drop_bit 24 (sample32 False (transform_buffer f bs) j) = (0 :: u32)" using all [OF j] be by (simp add: drop_bit_and)
    moreover have "ucast (drop_bit 24 (sample32 False (transform_buffer f bs) j)) = transform_buffer f bs ! (4 * j + 3)"
      using bytes_word32 by (simp add: sample32_def bytes32_def Let_def)
    ultimately show ?thesis by simp
  qed
  ultimately show ?thesis by blast
qed

text \<open>Two packed little-endian samples of three bytes: the fourth byte belongs to the second sample.\<close>

theorem unsigned24_not_converted_witness:
  "transform_buffer (initial_format\<lparr>mFormatFlags := {IsPacked}, mBitsPerChannel := 24\<rparr>) [0, 0, 0x80, 0x11, 0x22, 0x90] ! 3 = 0
   \<and> snd (paSampleSpecForASBD (initial_format\<lparr>mFormatFlags := {IsPacked}, mBitsPerChannel := 24\<rparr>))"
proof -
  let ?f = "initial_format\<lparr>mFormatFlags := {IsPacked}, mBitsPerChannel := 24\<rparr>"
  have "mBitsPerChannel ?f = 24" "IsBigEndian \<notin> mFormatFlags ?f" by (simp_all add: initial_format_def)
  moreover from this have "4 * 0 + 3 < length [0, 0, 0x80, 0x11, 0x22, 0x90 :: u8] \<longrightarrow> transform_buffer ?f [0, 0, 0x80, 0x11, 0x22, 0x90] ! (4 * 0 + 3) = 0"
    using unsigned24_not_converted [of ?f "[0, 0, 0x80, 0x11, 0x22, 0x90]"] by blast
  ultimately show ?thesis by (simp add: paSampleSpecForASBD_def pa_format_of_def initial_format_def Let_def)
qed


subsection \<open>The frames of a unit and of its stream\<close>

text \<open>The size of a PulseAudio sample.\<close>

fun pa_sample_bytes :: "pa_format \<Rightarrow> nat" where
  "pa_sample_bytes PA_INVALID = 0"
| "pa_sample_bytes PA_U8 = 1"
| "pa_sample_bytes PA_S16LE = 2"
| "pa_sample_bytes PA_S16BE = 2"
| "pa_sample_bytes PA_S24LE = 3"
| "pa_sample_bytes PA_S24BE = 3"
| "pa_sample_bytes PA_S24_32LE = 4"
| "pa_sample_bytes PA_S24_32BE = 4"
| "pa_sample_bytes PA_S32LE = 4"
| "pa_sample_bytes PA_S32BE = 4"
| "pa_sample_bytes PA_FLOAT32LE = 4"
| "pa_sample_bytes PA_FLOAT32BE = 4"

lemma valid_bits:
  assumes "ValidFormat f"
  shows "mBitsPerChannel f \<in> {8, 16, 24, 32}" "IsFloat \<in> mFormatFlags f \<Longrightarrow> mBitsPerChannel f = 32"
    "mBitsPerChannel f = 24 \<Longrightarrow> IsSignedInteger \<in> mFormatFlags f \<and> IsFloat \<notin> mFormatFlags f"
    "mChannelsPerFrame f \<noteq> 0" "mChannelsPerFrame f \<le> 32" "mBytesPerFrame f = frame_bytes f" "mFormatID f = LinearPCM"
    "1 \<le> mSampleRate f" "mSampleRate f \<le> 384000"
  using assms by (auto simp: ValidFormat_def split: if_splits)

lemma valid_frame:
  assumes "ValidFormat f"
  shows "unat (mBytesPerFrame f) = unat (mChannelsPerFrame f) * unat (mBitsPerChannel f) div 8"
    "1 \<le> unat (mChannelsPerFrame f)" "unat (mChannelsPerFrame f) \<le> 32"
proof -
  note v = valid_bits [OF assms]
  show c: "1 \<le> unat (mChannelsPerFrame f)" using v(4) by (simp add: Suc_le_eq unat_gt_0)
  show c32: "unat (mChannelsPerFrame f) \<le> 32" using v(5) by (simp add: word_le_nat_alt)
  have b: "unat (mBitsPerChannel f) \<le> 32" using v(1) by auto
  have "unat (mChannelsPerFrame f) * unat (mBitsPerChannel f) \<le> 32 * 32" using c32 b by (rule mult_le_mono)
  then have "unat (mChannelsPerFrame f * mBitsPerChannel f) = unat (mChannelsPerFrame f) * unat (mBitsPerChannel f)"
    by (simp add: unat_word_ariths)
  then show "unat (mBytesPerFrame f) = unat (mChannelsPerFrame f) * unat (mBitsPerChannel f) div 8"
    using v(6) by (simp add: frame_bytes_def unat_div)
qed



text \<open>
  A device accepts stream formats whose frames are empty or not those it streams. The bits of a
  float format are never looked at and the channels are narrowed to eight bits before they are
  checked: provided PulseAudio takes an ordinary stereo float specification, a float format of 0 bits
  is stored with frames of 0 bytes, by which the stream's callbacks divide, and one of 258 channels
  with frames of 1032 bytes for a stream of two channels.
\<close>

theorem device_formats_unchecked:
  assumes "spec_valid \<lparr>pa_fmt = PA_FLOAT32LE, pa_rate = 44100, pa_channels = 2\<rparr>"
  shows "fst (set_stream_format spec_valid True (initial_format\<lparr>mBitsPerChannel := 0\<rparr>) old) = NoError
    \<and> mBytesPerFrame (snd (set_stream_format spec_valid True (initial_format\<lparr>mBitsPerChannel := 0\<rparr>) old)) = 0
    \<and> fst (set_stream_format spec_valid True (initial_format\<lparr>mChannelsPerFrame := 258\<rparr>) old) = NoError
    \<and> mBytesPerFrame (snd (set_stream_format spec_valid True (initial_format\<lparr>mChannelsPerFrame := 258\<rparr>) old)) = 1032
    \<and> pa_channels (fst (paSampleSpecForASBD (initial_format\<lparr>mChannelsPerFrame := 258\<rparr>))) = 2"
proof -
  let ?s = "\<lparr>pa_fmt = PA_FLOAT32LE, pa_rate = 44100, pa_channels = 2\<rparr>"
  have "fst (paSampleSpecForASBD (initial_format\<lparr>mBitsPerChannel := 0\<rparr>)) = ?s" "fst (paSampleSpecForASBD (initial_format\<lparr>mChannelsPerFrame := 258\<rparr>)) = ?s"
    by (simp_all add: paSampleSpecForASBD_def pa_format_of_def initial_format_def)
  moreover have "frame_bytes (initial_format\<lparr>mBitsPerChannel := 0\<rparr>) = 0" "frame_bytes (initial_format\<lparr>mChannelsPerFrame := 258\<rparr>) = 1032"
    by (simp_all add: frame_bytes_def initial_format_def)
  moreover have "mFormatID initial_format = LinearPCM" by (simp add: initial_format_def)
  ultimately show ?thesis using assms by (simp add: set_stream_format_def)
qed

theorem device_formats_unchecked_witness:
  "mBytesPerFrame (snd (set_stream_format (\<lambda>s. pa_fmt s \<noteq> PA_INVALID \<and> 0 < pa_channels s \<and> pa_channels s \<le> 32 \<and> 0 < pa_rate s \<and> pa_rate s \<le> 384000)
     True (initial_format\<lparr>mBitsPerChannel := 0\<rparr>) initial_format)) = 0"
  using device_formats_unchecked [of "\<lambda>s. pa_fmt s \<noteq> PA_INVALID \<and> 0 < pa_channels s \<and> pa_channels s \<le> 32 \<and> 0 < pa_rate s \<and> pa_rate s \<le> 384000" initial_format]
  by (simp add: word_less_nat_alt word_le_nat_alt)

end
