(* ===== verification/AudioStreams.thy ===== *)
theory AudioStreams
  imports AudioFormats
begin

section \<open>Recording and playback streams\<close>

text \<open>
  How audio data moves between PulseAudio and the client of an audio unit: the read and write
  callbacks of \<open>AudioHardwareStreamPAInput\<close> and \<open>AudioHardwareStreamPAOutput\<close>, and
  \<open>AUHAL::doRecord\<close>, which cuts a recorded packet into slices the client fetches with \<open>Render\<close>.
  Buffers are lists of bytes. What PulseAudio and the client answer is an argument.
\<close>

subsection \<open>Slices of a recorded packet\<close>

record capture =
  m_dataAvailable :: bool
  m_buffer :: "u8 list"
  m_bufferSize :: nat
  m_bufferUsed :: nat

definition new_capture :: capture where
  "new_capture = \<lparr>m_dataAvailable = False, m_buffer = [], m_bufferSize = 0, m_bufferUsed = 0\<rparr>"

text \<open>\<open>Render\<close> with a buffer of \<open>capacity\<close> bytes; \<open>None\<close> while it waits for data.\<close>

definition Render :: "nat \<Rightarrow> capture \<Rightarrow> u8 list option" where
  "Render capacity s = (if m_dataAvailable s then Some (take (min capacity (m_bufferUsed s)) (m_buffer s)) else None)"

definition store_slice :: "u8 list \<Rightarrow> capture \<Rightarrow> capture" where
  "store_slice bytes s =
     (let s = (if m_bufferSize s < length bytes then s\<lparr>m_buffer := replicate (length bytes) 0, m_bufferSize := length bytes\<rparr> else s)
      in s\<lparr>m_bufferUsed := length bytes, m_buffer := bytes @ drop (length bytes) (m_buffer s), m_dataAvailable := True\<rparr>)"

text \<open>A call of the client: the frames to add to the sample time, the number of frames, and what it can render.\<close>

record delivery =
  d_time :: nat
  d_frames :: nat
  d_state :: capture

function record_loop :: "nat \<Rightarrow> nat \<Rightarrow> bool \<Rightarrow> u8 list \<Rightarrow> nat \<Rightarrow> capture \<Rightarrow> delivery list \<times> capture" where
  "record_loop maxBytes frame callback data offset s =
     (if offset < length data \<and> maxBytes \<noteq> 0
      then let bytes = min maxBytes (length data - offset);
               s = store_slice (take bytes (drop offset data)) s;
               (ds, t) = record_loop maxBytes frame callback data (offset + bytes) s
           in ((if callback then [\<lparr>d_time = offset div frame, d_frames = bytes div frame, d_state = s\<rparr>] else []) @ ds, t)
      else ([], s))"
  by pat_completeness auto
termination by (relation "measure (\<lambda>(m, f, c, data, offset, s). length data - offset)") auto

declare record_loop.simps [simp del]

definition doRecord :: "u32 \<Rightarrow> asbd \<Rightarrow> bool \<Rightarrow> u8 list \<Rightarrow> capture \<Rightarrow> delivery list outcome \<times> capture" where
  "doRecord maxFrames f callback data s =
     (let maxBytes = unat maxFrames * unat (mBytesPerFrame f) in
      if maxBytes = 0 then (Inl (Throw ''kAudioUnitErr_TooManyFramesToProcess''), s)
      else let (ds, t) = record_loop maxBytes (unat (mBytesPerFrame f)) callback data 0 s in (Inr ds, t))"

subsection \<open>The read callback\<close>

text \<open>A peek gives data or a hole of some length; with it, whether the client's call succeeds. An empty
  peek or the end of the list ends the loop.\<close>

datatype peek = Data "u8 list" | Hole nat

definition peek_bytes :: "peek \<Rightarrow> nat" where
  "peek_bytes p = (case p of Data bs \<Rightarrow> length bs | Hole n \<Rightarrow> n)"

definition resize_hole :: "nat \<Rightarrow> u8 list \<Rightarrow> u8 list" where
  "resize_hole n h = take n h @ replicate (n - length h) 0"

record reading =
  r_calls :: "(nat \<times> u8 list) list"
  r_drops :: nat
  r_corked :: bool
  r_time :: nat

text \<open>\<open>hole\<close> is the vector declared before the loop; the data of a hole is that vector, so it is converted in place.\<close>

fun read_loop :: "asbd \<Rightarrow> bool \<Rightarrow> (peek \<times> bool) list \<Rightarrow> u8 list \<Rightarrow> reading \<Rightarrow> reading outcome" where
  "read_loop f convert [] hole r = Inr r"
| "read_loop f convert ((p, ok) # ps) hole r =
     (if peek_bytes p = 0 then Inr r
      else if mBytesPerFrame f = 0 then Inl Undefined
      else let raw = (case p of Data bs \<Rightarrow> bs | Hole n \<Rightarrow> resize_hole n hole);
               bytes = (if convert then transform_buffer f raw else raw);
               hole = (case p of Data bs \<Rightarrow> hole | Hole n \<Rightarrow> bytes);
               r = r\<lparr>r_calls := r_calls r @ [(r_time r, bytes)], r_time := r_time r + peek_bytes p div unat (mBytesPerFrame f),
                     r_drops := r_drops r + 1\<rparr>
           in if ok then read_loop f convert ps hole r else Inr (r\<lparr>r_corked := True\<rparr>))"

definition paStreamReadCB :: "asbd \<Rightarrow> bool \<Rightarrow> bool \<Rightarrow> (peek \<times> bool) list \<Rightarrow> nat \<Rightarrow> reading outcome" where
  "paStreamReadCB f convert running peeks time =
     (let r = \<lparr>r_calls = [], r_drops = 0, r_corked = False, r_time = time\<rparr> in
      if running then read_loop f convert peeks [] r else Inr r)"

subsection \<open>The write callback\<close>

text \<open>The answers of one round: the space \<open>pa_stream_begin_write\<close> gives (\<open>None\<close> when it fails), whether the
  client's call succeeds and what it produced, whether the write succeeds and the stream still runs after it.\<close>

record round =
  w_granted :: "nat option"
  w_ok :: bool
  w_bytes :: "u8 list"
  w_written :: bool
  w_running :: bool

record writing =
  w_blocks :: "u8 list list"
  w_time :: nat
  w_corked :: bool

definition fill_block :: "asbd \<Rightarrow> bool \<Rightarrow> u8 \<Rightarrow> nat \<Rightarrow> round \<Rightarrow> u8 list" where
  "fill_block f convert silence granted a =
     (if \<not> w_ok a \<or> w_bytes a = [] \<or> granted < length (w_bytes a) then replicate granted silence
      else if convert then transform_buffer f (w_bytes a) else w_bytes a)"

lemma transform_buffer_length [simp]: "length (transform_buffer f bs) = length bs"
  by (simp add: transform_buffer_def Let_def)

lemma fill_block_length:
  assumes "granted \<noteq> 0"
  shows "0 < length (fill_block f convert silence granted a)" "length (fill_block f convert silence granted a) \<le> granted"
proof -
  have "w_bytes a \<noteq> [] \<Longrightarrow> 0 < length (w_bytes a)" by simp
  then show "0 < length (fill_block f convert silence granted a)"
    using assms unfolding fill_block_def by (simp del: length_greater_0_conv split: if_splits)
  show "length (fill_block f convert silence granted a) \<le> granted"
    unfolding fill_block_def by simp
qed

lemma block_progress:
  assumes "granted \<noteq> 0" "done < (n :: nat)"
  shows "n - (done + length (fill_block f convert silence granted a)) < n - done"
  using fill_block_length(1) [OF assms(1)] assms(2) by (metis diff_less_mono2 less_add_same_cancel1)

function write_loop :: "asbd \<Rightarrow> bool \<Rightarrow> u8 \<Rightarrow> (nat \<Rightarrow> nat \<Rightarrow> round) \<Rightarrow> nat \<Rightarrow> nat \<Rightarrow> nat \<Rightarrow> nat \<Rightarrow> bool \<Rightarrow> writing \<Rightarrow> writing outcome" where
  "write_loop f convert silence answer bufferSize length' i done running w =
     (if done < length' \<and> running
      then let request = min bufferSize ((length' - done) mod 2 ^ 32); a = answer i request in
        (case w_granted a of
           None \<Rightarrow> Inr w
         | Some granted \<Rightarrow>
             if granted = 0 then Inr w
             else let block = fill_block f convert silence granted a in
               if \<not> w_written a then Inr w
               else if mBytesPerFrame f = 0 then Inl Undefined
               else write_loop f convert silence answer bufferSize length' (i + 1) (done + length block) (w_running a)
                 (w\<lparr>w_blocks := w_blocks w @ [block], w_time := w_time w + length block div unat (mBytesPerFrame f)\<rparr>))
      else Inr w)"
  by pat_completeness auto

termination
  by (relation "measure (\<lambda>(f, c, s, a, b, l, i, d, r, w). l - d)")
    (simp_all only: wf_measure in_measure prod.case block_progress not_False_eq_True not_not)

declare write_loop.simps [simp del]

definition paStreamWriteCB :: "asbd \<Rightarrow> pa_spec \<Rightarrow> bool \<Rightarrow> (nat \<Rightarrow> nat \<Rightarrow> round) \<Rightarrow> nat \<Rightarrow> nat \<Rightarrow> bool \<Rightarrow> nat \<Rightarrow> writing outcome" where
  "paStreamWriteCB f spec convert answer bufferSize length' running time =
     (let w = \<lparr>w_blocks = [], w_time = time, w_corked = False\<rparr>; silence = (if pa_fmt spec = PA_U8 then 0x80 else 0) in
      if running then write_loop f convert silence answer bufferSize length' 0 0 True w else Inr (w\<lparr>w_corked := True\<rparr>))"

subsection \<open>Slices reach the client\<close>

text \<open>What is copied stays inside the buffer.\<close>

definition capture_wf :: "capture \<Rightarrow> bool" where
  "capture_wf s \<longleftrightarrow> length (m_buffer s) = m_bufferSize s \<and> m_bufferUsed s \<le> m_bufferSize s"

lemma new_capture_wf [simp]: "capture_wf new_capture"
  by (simp add: capture_wf_def new_capture_def)

lemma store_slice_wf [simp]: "capture_wf s \<Longrightarrow> capture_wf (store_slice bytes s)"
  by (simp add: capture_wf_def store_slice_def Let_def)

lemma render_store_slice [simp]: "length bytes \<le> capacity \<Longrightarrow> Render capacity (store_slice bytes s) = Some bytes"
  by (simp add: Render_def store_slice_def Let_def)

text \<open>A run of deliveries: each starts where the one before it ended.\<close>

fun deliveries :: "nat \<Rightarrow> nat \<Rightarrow> nat \<Rightarrow> delivery list \<Rightarrow> u8 list \<Rightarrow> bool" where
  "deliveries maxFrames frame t [] data \<longleftrightarrow> data = []"
| "deliveries maxFrames frame t (d # ds) data \<longleftrightarrow>
     d_time d = t \<and> 0 < d_frames d \<and> d_frames d \<le> maxFrames \<and> capture_wf (d_state d)
     \<and> Render (maxFrames * frame) (d_state d) = Some (take (d_frames d * frame) data) \<and> d_frames d * frame \<le> length data
     \<and> deliveries maxFrames frame (t + d_frames d) ds (drop (d_frames d * frame) data)"

lemma deliveries_concat:
  "deliveries maxFrames frame t ds data \<Longrightarrow> concat (map (\<lambda>d. the (Render (maxFrames * frame) (d_state d))) ds) = data"
  by (induction maxFrames frame t ds data rule: deliveries.induct) auto

lemma record_loop_deliveries:
  assumes "0 < frame" "0 < maxFrames" "frame dvd length data" "frame dvd offset" "capture_wf s"
  shows "deliveries maxFrames frame (offset div frame) (fst (record_loop (maxFrames * frame) frame True data offset s)) (drop offset data)
    \<and> capture_wf (snd (record_loop (maxFrames * frame) frame True data offset s))"
  using assms
proof (induction "maxFrames * frame" frame True data offset s rule: record_loop.induct)
  case (1 frame data offset s)
  let ?max = "maxFrames * frame"
  show ?case
  proof (cases "offset < length data")
    case False
    then show ?thesis using 1(6) by (simp add: record_loop.simps [of ?max])
  next
    case True
    let ?n = "min ?max (length data - offset)"
    let ?s = "store_slice (take ?n (drop offset data)) s"
    obtain ds t where rest: "record_loop ?max frame True data (offset + ?n) ?s = (ds, t)" by fastforce
    have dvd: "frame dvd ?n" using 1(4,5) by (simp add: min_def)
    then obtain k where k: "?n = k * frame" by (metis dvdE mult.commute)
    have pos: "0 < ?n" using True 1(2,3) by simp
    have len: "?n \<le> length data - offset" by simp
    have slice: "length (take ?n (drop offset data)) = ?n" by simp
    have frames: "?n div frame = k" using k 1(2) by simp
    have IH: "deliveries maxFrames frame ((offset + ?n) div frame) ds (drop (offset + ?n) data) \<and> capture_wf t"
      using 1(1) [of ?n ?s] rest True 1(2-6) dvd by simp
    have time: "(offset + ?n) div frame = offset div frame + k"
      using 1(2,5) k by (simp add: div_plus_div_distrib_dvd_left)
    have k0: "0 < k" using pos unfolding k by simp
    have "k \<le> maxFrames" using k 1(2) by (metis min.cobounded1 mult_le_cancel2)
    then have d: "deliveries maxFrames frame (offset div frame)
        (\<lparr>d_time = offset div frame, d_frames = k, d_state = ?s\<rparr> # ds) (drop offset data)"
      using IH k0 k time len slice 1(6) by (simp add: add.commute mult.commute)
    have go: "(offset < length data \<and> ?max \<noteq> 0) = True" using True 1(2,3) by simp
    have "record_loop ?max frame True data offset s = (\<lparr>d_time = offset div frame, d_frames = k, d_state = ?s\<rparr> # ds, t)"
      by (subst record_loop.simps) (simp only: go if_True Let_def rest prod.case frames append.simps)
    then show ?thesis using d IH by (simp only: fst_conv snd_conv simp_thms)
  qed
qed

text \<open>
  C30: A recorded packet reaches the client whole, in order and in pieces it can hold. Whatever the size
  of the packet, \<open>doRecord\<close> cuts it into slices of at most the maximal number of frames per slice, none
  of them empty, each stamped with the number of frames before it; rendering inside the callback gives
  that slice, the slices together are the packet, and nothing is written outside the unit's buffer.
\<close>

theorem recorded_packet_delivered:
  assumes "mBytesPerFrame f \<noteq> 0" "maxFrames \<noteq> 0" "unat (mBytesPerFrame f) dvd length data" "capture_wf s"
  shows "\<exists>ds t. doRecord maxFrames f True data s = (Inr ds, t) \<and> capture_wf t
    \<and> concat (map (\<lambda>d. the (Render (unat maxFrames * unat (mBytesPerFrame f)) (d_state d))) ds) = data
    \<and> deliveries (unat maxFrames) (unat (mBytesPerFrame f)) 0 ds data"
proof -
  let ?frame = "unat (mBytesPerFrame f)" and ?max = "unat maxFrames"
  have pos: "0 < ?frame" "0 < ?max" using assms(1,2) by (simp_all add: unat_gt_0)
  obtain ds t where l: "record_loop (?max * ?frame) ?frame True data 0 s = (ds, t)" by fastforce
  have "deliveries ?max ?frame 0 ds data \<and> capture_wf t"
    using record_loop_deliveries [OF pos assms(3) _ assms(4), of 0] l by simp
  moreover have "doRecord maxFrames f True data s = (Inr ds, t)"
    using pos l by (simp add: doRecord_def)
  ultimately show ?thesis using deliveries_concat by blast
qed

theorem recorded_packet_delivered_witness:
  "\<exists>ds t. doRecord 3 initial_format True (replicate 56 7) new_capture = (Inr ds, t)
    \<and> concat (map (\<lambda>d. the (Render (3 * 8) (d_state d))) ds) = replicate 56 7"
  using recorded_packet_delivered [of initial_format 3 "replicate 56 7" new_capture] by (auto simp: initial_format_def)

subsection \<open>Playback keeps the stream filled\<close>

text \<open>A block is silence as long as the space granted, or what the client produced, in the stream's encoding.\<close>

definition block_of :: "asbd \<Rightarrow> bool \<Rightarrow> u8 \<Rightarrow> round \<Rightarrow> u8 list \<Rightarrow> bool" where
  "block_of f convert silence a block \<longleftrightarrow>
     (if w_ok a \<and> w_bytes a \<noteq> [] \<and> length (w_bytes a) \<le> the (w_granted a)
      then block = (if convert then transform_buffer f (w_bytes a) else w_bytes a)
      else block = replicate (the (w_granted a)) silence)"

lemma fill_block_of: "w_granted a = Some granted \<Longrightarrow> block_of f convert silence a (fill_block f convert silence granted a)"
  by (simp add: block_of_def fill_block_def)

text \<open>A round that ends the callback before the stream has all the bytes it asked for.\<close>

definition gave_up :: "round \<Rightarrow> bool" where
  "gave_up a \<longleftrightarrow> w_granted a = None \<or> w_granted a = Some 0 \<or> \<not> w_written a"

text \<open>The blocks of the rounds from \<open>i\<close> on, after \<open>done\<close> of \<open>n\<close> bytes.\<close>

fun playback :: "asbd \<Rightarrow> bool \<Rightarrow> u8 \<Rightarrow> (nat \<Rightarrow> nat \<Rightarrow> round) \<Rightarrow> nat \<Rightarrow> nat \<Rightarrow> nat \<Rightarrow> nat \<Rightarrow> bool \<Rightarrow> u8 list list \<Rightarrow> bool" where
  "playback f convert silence answer bufferSize n i done running [] \<longleftrightarrow>
     done = n \<or> \<not> running \<or> gave_up (answer i (min bufferSize ((n - done) mod 2 ^ 32)))"
| "playback f convert silence answer bufferSize n i done running (b # bs) \<longleftrightarrow>
     (let a = answer i (min bufferSize ((n - done) mod 2 ^ 32)) in
      running \<and> b \<noteq> [] \<and> length b \<le> bufferSize \<and> done + length b \<le> n \<and> block_of f convert silence a b
      \<and> playback f convert silence answer bufferSize n (Suc i) (done + length b) (w_running a) bs)"

lemma playback_total:
  "playback f convert silence answer bufferSize n i done running bs \<Longrightarrow> done \<le> n \<Longrightarrow> done + length (concat bs) \<le> n"
proof (induction bs arbitrary: i "done" running)
  case (Cons b bs)
  let ?a = "answer i (min bufferSize ((n - done) mod 2 ^ 32))"
  from Cons.prems(1) have "playback f convert silence answer bufferSize n (Suc i) (done + length b) (w_running ?a) bs" "done + length b \<le> n"
    by (simp_all add: Let_def)
  from Cons.IH [OF this] show ?case by simp
qed simp

definition grants :: "(nat \<Rightarrow> nat \<Rightarrow> round) \<Rightarrow> bool" where
  "grants answer \<longleftrightarrow> (\<forall>i request granted. w_granted (answer i request) = Some granted \<longrightarrow> granted \<le> request)"

definition frames_of :: "nat \<Rightarrow> u8 list list \<Rightarrow> nat" where
  "frames_of frame bs = sum_list (map (\<lambda>b. length b div frame) bs)"

lemma write_loop_playback:
  assumes "mBytesPerFrame f \<noteq> 0" "grants answer" "done \<le> n"
  shows "\<exists>bs. write_loop f convert silence answer bufferSize n i done running w
        = Inr (w\<lparr>w_blocks := w_blocks w @ bs, w_time := w_time w + frames_of (unat (mBytesPerFrame f)) bs\<rparr>)
      \<and> playback f convert silence answer bufferSize n i done running bs"
  using assms
proof (induction f convert silence answer bufferSize n i "done" running w rule: write_loop.induct)
  case (1 f convert silence answer bufferSize n i "done" running w)
  let ?r = "min bufferSize ((n - done) mod 2 ^ 32)" and ?frame = "unat (mBytesPerFrame f)"
  let ?a = "answer i ?r"
  note unfold = write_loop.simps [of f convert silence answer bufferSize n i "done" running w]
  have stop: ?case if same: "write_loop f convert silence answer bufferSize n i done running w = Inr w"
      and final: "playback f convert silence answer bufferSize n i done running []"
    using same final by (auto simp: frames_of_def intro!: exI [of _ "[]"])
  show ?case
  proof (cases "done < n \<and> running \<and> \<not> gave_up ?a")
    case False
    have "write_loop f convert silence answer bufferSize n i done running w = Inr w"
      using False by (subst unfold) (auto simp: gave_up_def Let_def split: option.splits)
    moreover have "playback f convert silence answer bufferSize n i done running []" using False 1(4) by auto
    ultimately show ?thesis by (rule stop)
  next
    case True
    then obtain granted where a: "w_granted ?a = Some granted" "granted \<noteq> 0" and written: "\<not> \<not> w_written ?a" by (auto simp: gave_up_def)
    have go: "done < n \<and> running" using True by simp
    let ?b = "fill_block f convert silence granted ?a"
    let ?w1 = "w\<lparr>w_blocks := w_blocks w @ [?b], w_time := w_time w + length ?b div ?frame\<rparr>"
    have "granted \<le> ?r" using 1(3) a(1) unfolding grants_def by blast
    moreover note fill_block_length [OF a(2), of f convert silence ?a]
    moreover have "(n - done) mod 2 ^ 32 \<le> n - done" by simp
    ultimately have b: "?b \<noteq> []" "length ?b \<le> bufferSize" "done + length ?b \<le> n" using True by (simp_all, linarith+)
    have step: "write_loop f convert silence answer bufferSize n i done running w
        = write_loop f convert silence answer bufferSize n (i + 1) (done + length ?b) (w_running ?a) ?w1"
      using True a 1(2) written by (subst unfold) (simp add: Let_def)
    obtain bs where bs: "write_loop f convert silence answer bufferSize n (i + 1) (done + length ?b) (w_running ?a) ?w1
        = Inr (?w1\<lparr>w_blocks := w_blocks ?w1 @ bs, w_time := w_time ?w1 + frames_of ?frame bs\<rparr>)"
        "playback f convert silence answer bufferSize n (Suc i) (done + length ?b) (w_running ?a) bs"
      using 1(1) [OF go refl refl a(1,2) refl written 1(2) 1(2,3) b(3)] by (auto simp only: Suc_eq_plus1)
    have "playback f convert silence answer bufferSize n i done running (?b # bs)"
      using b bs(2) fill_block_of [OF a(1)] go by (simp add: Let_def)
    moreover have "write_loop f convert silence answer bufferSize n i done running w
        = Inr (w\<lparr>w_blocks := w_blocks w @ (?b # bs), w_time := w_time w + frames_of ?frame (?b # bs)\<rparr>)"
      using step bs(1) by (simp add: frames_of_def)
    ultimately show ?thesis by blast
  qed
qed

text \<open>
  C31: A playback callback returns and never leaves the stream without data the server asked for. While
  the stream runs it writes one block per round, never empty, at most the size of the buffer and never
  more than is left of the request: what the client produced, converted when the formats differ, or
  silence in the stream's encoding over the whole space when the client failed, produced nothing or
  claims more than there is room for. The sample time advances by the frames written, and it stops
  only when the request is filled, the stream was stopped, or PulseAudio gave no space or refused the
  data. It terminates for every sequence of answers, provided \<open>pa_stream_begin_write\<close> does not give more
  than it was asked for.
\<close>

theorem playback_never_starves:
  assumes "mBytesPerFrame f \<noteq> 0" "grants answer"
  shows "\<exists>bs. paStreamWriteCB f spec convert answer bufferSize n True time
        = Inr \<lparr>w_blocks = bs, w_time = time + frames_of (unat (mBytesPerFrame f)) bs, w_corked = False\<rparr>
      \<and> playback f convert (if pa_fmt spec = PA_U8 then 0x80 else 0) answer bufferSize n 0 0 True bs \<and> length (concat bs) \<le> n"
proof -
  let ?silence = "if pa_fmt spec = PA_U8 then 0x80 else 0 :: u8"
  obtain bs where bs: "write_loop f convert ?silence answer bufferSize n 0 0 True \<lparr>w_blocks = [], w_time = time, w_corked = False\<rparr>
        = Inr \<lparr>w_blocks = bs, w_time = time + frames_of (unat (mBytesPerFrame f)) bs, w_corked = False\<rparr>"
      "playback f convert ?silence answer bufferSize n 0 0 True bs"
    using write_loop_playback [OF assms, of 0 n convert ?silence bufferSize 0 True "\<lparr>w_blocks = [], w_time = time, w_corked = False\<rparr>"]
    by auto
  then have "length (concat bs) \<le> n" using playback_total [OF bs(2)] by simp
  then show ?thesis using bs by (auto simp: paStreamWriteCB_def)
qed

theorem playback_never_starves_witness:
  "\<exists>bs. paStreamWriteCB initial_format \<lparr>pa_fmt = PA_FLOAT32LE, pa_rate = 44100, pa_channels = 2\<rparr> False
        (\<lambda>i request. \<lparr>w_granted = Some request, w_ok = i \<noteq> 1, w_bytes = replicate request 5, w_written = True, w_running = True\<rparr>) 16 40 True 3
      = Inr \<lparr>w_blocks = bs, w_time = 3 + frames_of 8 bs, w_corked = False\<rparr> \<and> length (concat bs) \<le> 40"
  using playback_never_starves [of initial_format "\<lambda>i request. \<lparr>w_granted = Some request, w_ok = i \<noteq> 1, w_bytes = replicate request 5,
      w_written = True, w_running = True\<rparr>" "\<lparr>pa_fmt = PA_FLOAT32LE, pa_rate = 44100, pa_channels = 2\<rparr>" False 16 40 3]
  by (auto simp: initial_format_def grants_def)

subsection \<open>Recording callbacks\<close>

text \<open>What a peek sounds like: a hole is silence. The calls of one callback, for the peeks up to the first
  that is empty or whose call fails, and whether a call fails.\<close>

definition sound :: "asbd \<Rightarrow> bool \<Rightarrow> peek \<Rightarrow> u8 list" where
  "sound f convert p = (let bs = (case p of Data bs \<Rightarrow> bs | Hole n \<Rightarrow> replicate n 0) in if convert then transform_buffer f bs else bs)"

fun served :: "(peek \<times> bool) list \<Rightarrow> peek list" where
  "served [] = []"
| "served ((p, ok) # ps) = (if peek_bytes p = 0 then [] else p # (if ok then served ps else []))"

fun call_failed :: "(peek \<times> bool) list \<Rightarrow> bool" where
  "call_failed [] = False"
| "call_failed ((p, ok) # ps) = (peek_bytes p \<noteq> 0 \<and> (ok \<longrightarrow> call_failed ps))"

fun stamped :: "asbd \<Rightarrow> bool \<Rightarrow> nat \<Rightarrow> peek list \<Rightarrow> (nat \<times> u8 list) list" where
  "stamped f convert t [] = []"
| "stamped f convert t (p # ps) = (t, sound f convert p) # stamped f convert (t + peek_bytes p div unat (mBytesPerFrame f)) ps"

definition is_hole :: "peek \<Rightarrow> bool" where
  "is_hole p \<longleftrightarrow> (case p of Data _ \<Rightarrow> False | Hole _ \<Rightarrow> True)"

definition holes :: "peek list \<Rightarrow> nat" where
  "holes ps = length (filter is_hole ps)"

lemma resize_zeros: "resize_hole n (replicate m 0) = replicate n 0"
  by (simp add: resize_hole_def min_def flip: replicate_add)

lemma read_loop_calls:
  assumes "mBytesPerFrame f \<noteq> 0" "(\<not> convert \<and> hole = replicate m 0) \<or> (hole = [] \<and> holes (served ps) \<le> 1) \<or> holes (served ps) = 0"
  shows "\<exists>t. read_loop f convert ps hole r = Inr (r\<lparr>r_calls := r_calls r @ stamped f convert (r_time r) (served ps),
      r_drops := r_drops r + length (served ps), r_corked := r_corked r \<or> call_failed ps, r_time := t\<rparr>)"
  using assms
proof (induction ps arbitrary: hole r m)
  case Nil
  show ?case by (auto intro!: exI [of _ "r_time r"])
next
  case (Cons x ps)
  obtain p ok where x: "x = (p, ok)" by fastforce
  show ?case
  proof (cases "peek_bytes p = 0")
    case True
    then show ?thesis using x by (auto intro!: exI [of _ "r_time r"])
  next
    case False
    let ?raw = "case p of Data bs \<Rightarrow> bs | Hole n \<Rightarrow> resize_hole n hole"
    let ?bytes = "if convert then transform_buffer f ?raw else ?raw"
    let ?hole = "case p of Data bs \<Rightarrow> hole | Hole n \<Rightarrow> ?bytes"
    let ?r = "r\<lparr>r_calls := r_calls r @ [(r_time r, ?bytes)], r_time := r_time r + peek_bytes p div unat (mBytesPerFrame f), r_drops := r_drops r + 1\<rparr>"
    have bytes: "?bytes = sound f convert p"
      using Cons.prems(2) x False resize_zeros [of _ 0] by (cases p) (auto simp: sound_def Let_def resize_zeros holes_def is_hole_def)
    have step: "read_loop f convert (x # ps) hole r = (if ok then read_loop f convert ps ?hole ?r else Inr (?r\<lparr>r_corked := True\<rparr>))"
      using False Cons.prems(1) x by (simp add: Let_def)
    show ?thesis
    proof (cases ok)
      case stop: False
      then show ?thesis using step bytes x False by (auto intro!: exI [of _ "r_time r + peek_bytes p div unat (mBytesPerFrame f)"])
    next
      case go: True
      have "\<exists>m. (\<not> convert \<and> ?hole = replicate m 0) \<or> (?hole = [] \<and> holes (served ps) \<le> 1) \<or> holes (served ps) = 0"
        using Cons.prems(2) x False go by (cases p) (auto simp: resize_zeros holes_def is_hole_def)
      then obtain m' where m': "(\<not> convert \<and> ?hole = replicate m' 0) \<or> (?hole = [] \<and> holes (served ps) \<le> 1) \<or> holes (served ps) = 0" ..
      from Cons.IH [OF Cons.prems(1) m', of ?r] step go bytes x False show ?thesis by auto
    qed
  qed
qed

text \<open>
  A recording callback passes on everything the server has, in order and stamped with the frames
  before it. For each piece it peeks the client is called once and the piece dropped, holes sound as
  silence in the client's encoding, and it goes on until there is nothing left or a call fails, in
  which case, and only then, the stream is corked. When samples are converted this is so with at most
  one hole per callback.
\<close>

theorem recording_callback_delivers:
  assumes "mBytesPerFrame f \<noteq> 0" "convert \<longrightarrow> holes (served ps) \<le> 1"
  shows "\<exists>r. paStreamReadCB f convert True ps time = Inr r \<and> r_calls r = stamped f convert time (served ps)
    \<and> r_drops r = length (served ps) \<and> (r_corked r \<longleftrightarrow> call_failed ps)"
proof -
  have "(\<not> convert \<and> [] = replicate 0 (0 :: u8)) \<or> (([] :: u8 list) = [] \<and> holes (served ps) \<le> 1) \<or> holes (served ps) = 0"
    using assms(2) by auto
  from read_loop_calls [OF assms(1) this, of "\<lparr>r_calls = [], r_drops = 0, r_corked = False, r_time = time\<rparr>"]
  show ?thesis by (auto simp: paStreamReadCB_def)
qed

theorem recording_callback_delivers_witness:
  "\<exists>r. paStreamReadCB initial_format True True [(Hole 8, True), (Data (replicate 16 3), False), (Data [1], True)] 5 = Inr r
    \<and> map fst (r_calls r) = [5, 6] \<and> r_corked r"
  using recording_callback_delivers [of initial_format True "[(Hole 8, True), (Data (replicate 16 3), False), (Data [1], True)]" 5]
  by (auto simp: initial_format_def peek_bytes_def holes_def is_hole_def)

text \<open>
  Of the holes PulseAudio reports in one read callback only the first is delivered as silence. The
  vector that stands for a hole keeps its contents, and the conversion is in place: for an unsigned
  format the first hole becomes samples of the middle value, the next one of the same length starts
  from these and comes out as zeros, the most negative sample.
\<close>

theorem second_hole_not_silent:
  assumes "mBytesPerFrame f \<noteq> 0" "mBitsPerChannel f \<noteq> 24" "0 < n"
  shows "paStreamReadCB f True True [(Hole n, True), (Hole n, True)] time
    = Inr \<lparr>r_calls = [(time, transform_buffer f (replicate n 0)), (time + n div unat (mBytesPerFrame f), replicate n 0)],
        r_drops = 2, r_corked = False, r_time = time + 2 * (n div unat (mBytesPerFrame f))\<rparr>"
proof -
  have twice: "transform_buffer f (transform_buffer f (replicate n 0)) = replicate n 0"
    using assms(2) by (cases "IsBigEndian \<in> mFormatFlags f")
      (simp_all add: transform_buffer_def Let_def over16_over16 over32_over32 comp_def)
  then show ?thesis using assms(1,3) by (simp add: paStreamReadCB_def peek_bytes_def resize_hole_def Let_def mult_2)
qed

theorem second_hole_not_silent_witness:
  "map snd (r_calls (projr (paStreamReadCB (initial_format\<lparr>mFormatFlags := {IsPacked}, mBitsPerChannel := 8, mBytesPerFrame := 2\<rparr>)
      True True [(Hole 4, True), (Hole 4, True)] 0))) = [[0x80, 0x80, 0x80, 0x80], [0, 0, 0, 0]]"
proof -
  have four: "replicate 4 x = [x, x, x, x]" for x :: u8 by (simp add: numeral_eq_Suc)
  show ?thesis
    using second_hole_not_silent [of "initial_format\<lparr>mFormatFlags := {IsPacked}, mBitsPerChannel := 8, mBytesPerFrame := 2\<rparr>" 4 0]
    by (simp add: transform_buffer_def transform_def four)
qed

end
