(* ===== verification/PulseEvents.thy ===== *)
theory PulseEvents
  imports Prelude
begin

section \<open>The event loop under PulseAudio\<close>

text \<open>
  \<open>PADispatchMainLoop\<close>: PulseAudio's main loop interface (io, time and defer events) on one serial
  dispatch queue. An object has a number where the code has its address; a map that has no entry for
  a number says that the object was deleted. A dispatch source is named by the object whose handlers
  it runs. The result \<open>Undefined\<close> is a use of a deleted object, a null source or a descriptor closed
  twice, \<open>Abort\<close> is libdispatch stopping the process: it does so when a source is resumed more often
  than it was suspended and when a suspended one is released.

  The log, newest entry first, records what the client asked for and which of its functions were called.
\<close>

subsection \<open>Dispatch sources\<close>

datatype cancel_handler = Close_and_delete | Count_down | Delete_timer

record dispatch_source =
  suspensions :: nat
  src_cancelled :: bool
  src_released :: bool
  cancel_ran :: bool
  event_handler :: bool
  on_cancel :: "cancel_handler option"

text \<open>A new source is suspended and has no handlers.\<close>

definition dispatch_source_create :: dispatch_source where
  "dispatch_source_create = \<lparr>suspensions = 1, src_cancelled = False, src_released = False, cancel_ran = False,
     event_handler = False, on_cancel = None\<rparr>"

datatype source_id = Read nat | Write nat | Tick nat

datatype pulse_handle = Io nat | Time nat | Defer nat

datatype log_entry = Issued pulse_handle | Called pulse_handle | Freed pulse_handle | Destroyed pulse_handle | Ran nat

datatype task = Fire nat | Delete nat | Block nat

datatype io_flag = IO_INPUT | IO_OUTPUT | IO_HANGUP | IO_ERROR

subsection \<open>The objects and the loop\<close>

record dual_source =
  readResumed :: bool
  writeResumed :: bool
  io_destroy :: bool
  dual_fd :: nat
  watchFd :: nat
  pendingCancels :: nat

text \<open>\<open>timer_when\<close> is the deadline set for the source, \<open>None\<close> is never.\<close>

record pa_timer =
  timer_when :: "(nat \<times> nat) option"
  timer_tv :: "nat \<times> nat"
  time_destroy :: bool

record defer_event =
  active :: bool
  defer_destroy :: bool

record pulse_loop =
  m_suspended :: bool
  queue_suspensions :: nat
  sources :: "source_id \<Rightarrow> dispatch_source option"
  duals :: "nat \<Rightarrow> dual_source option"
  timers :: "nat \<Rightarrow> pa_timer option"
  defers :: "nat \<Rightarrow> defer_event option"
  allocated :: nat
  queue :: "task list"
  firing :: "nat option"
  open_fds :: "nat set"
  pulse_log :: "log_entry list"

definition new_loop :: pulse_loop where
  "new_loop = \<lparr>m_suspended = True, queue_suspensions = 1, sources = (\<lambda>_. None), duals = (\<lambda>_. None), timers = (\<lambda>_. None),
     defers = (\<lambda>_. None), allocated = 0, queue = [], firing = None, open_fds = {}, pulse_log = []\<rparr>"

type_synonym pulse_result = "unit outcome \<times> pulse_loop"

definition suspend :: "pulse_loop \<Rightarrow> pulse_result" where
  "suspend s = (Inr (), if \<not> m_suspended s then s\<lparr>queue_suspensions := queue_suspensions s + 1, m_suspended := True\<rparr> else s)"

definition resume :: "pulse_loop \<Rightarrow> pulse_result" where
  "resume s =
     (if m_suspended s
      then if queue_suspensions s = 0 then (Inl Abort, s)
        else (Inr (), s\<lparr>queue_suspensions := queue_suspensions s - 1, m_suspended := False\<rparr>)
      else (Inr (), s))"

text \<open>The destructor: releasing a suspended queue aborts.\<close>

definition destroy_loop :: "pulse_loop \<Rightarrow> pulse_result" where
  "destroy_loop s = and_then (resume s) (\<lambda>_ s. if queue_suspensions s \<noteq> 0 then (Inl Abort, s) else (Inr (), s))"

definition logged :: "log_entry \<Rightarrow> pulse_loop \<Rightarrow> pulse_loop" where
  "logged e s = s\<lparr>pulse_log := e # pulse_log s\<rparr>"

definition set_source :: "source_id \<Rightarrow> dispatch_source \<Rightarrow> pulse_loop \<Rightarrow> pulse_loop" where
  "set_source r x s = s\<lparr>sources := (sources s)(r := Some x)\<rparr>"

definition on_source :: "source_id \<Rightarrow> (dispatch_source \<Rightarrow> dispatch_source option) \<Rightarrow> pulse_loop \<Rightarrow> pulse_result" where
  "on_source r f s =
     (case sources s r of
        None \<Rightarrow> (Inl Undefined, s)
      | Some x \<Rightarrow> (case f x of None \<Rightarrow> (Inl Abort, s) | Some y \<Rightarrow> (Inr (), set_source r y s)))"

definition dispatch_resume :: "source_id \<Rightarrow> pulse_loop \<Rightarrow> pulse_result" where
  "dispatch_resume r = on_source r (\<lambda>x. if suspensions x = 0 then None else Some (x\<lparr>suspensions := suspensions x - 1\<rparr>))"

definition dispatch_suspend :: "source_id \<Rightarrow> pulse_loop \<Rightarrow> pulse_result" where
  "dispatch_suspend r = on_source r (\<lambda>x. Some (x\<lparr>suspensions := suspensions x + 1\<rparr>))"

definition dispatch_source_cancel :: "source_id \<Rightarrow> pulse_loop \<Rightarrow> pulse_result" where
  "dispatch_source_cancel r = on_source r (\<lambda>x. Some (x\<lparr>src_cancelled := True\<rparr>))"

definition dispatch_release :: "source_id \<Rightarrow> pulse_loop \<Rightarrow> pulse_result" where
  "dispatch_release r = on_source r (\<lambda>x. if suspensions x \<noteq> 0 then None else Some (x\<lparr>src_released := True\<rparr>))"

subsection \<open>IO events\<close>

definition with_dual :: "nat \<Rightarrow> (dual_source \<Rightarrow> pulse_loop \<Rightarrow> pulse_result) \<Rightarrow> pulse_loop \<Rightarrow> pulse_result" where
  "with_dual i f s = (case duals s i of None \<Rightarrow> (Inl Undefined, s) | Some d \<Rightarrow> f d s)"

definition set_dual :: "nat \<Rightarrow> dual_source \<Rightarrow> pulse_loop \<Rightarrow> pulse_loop" where
  "set_dual i d s = s\<lparr>duals := (duals s)(i := Some d)\<rparr>"

definition close_fd :: "nat \<Rightarrow> pulse_loop \<Rightarrow> pulse_result" where
  "close_fd n s = (if n \<in> open_fds s then (Inr (), s\<lparr>open_fds := open_fds s - {n}\<rparr>) else (Inl Undefined, s))"

definition wants_read :: "io_flag set \<Rightarrow> bool" where
  "wants_read events \<longleftrightarrow> IO_INPUT \<in> events \<or> IO_ERROR \<in> events \<or> IO_HANGUP \<in> events"

definition wants_write :: "io_flag set \<Rightarrow> bool" where
  "wants_write events \<longleftrightarrow> IO_OUTPUT \<in> events"

text \<open>\<open>io_new\<close>: the duplicated descriptor, or \<open>None\<close> when that fails, and which sources can be created.\<close>

definition io_new :: "nat option \<Rightarrow> bool \<Rightarrow> bool \<Rightarrow> nat \<Rightarrow> io_flag set \<Rightarrow> pulse_loop \<Rightarrow> pulse_result" where
  "io_new dup canRead canWrite fd events s =
     (case dup of
        None \<Rightarrow> (Inr (), s)
      | Some n \<Rightarrow>
          let i = allocated s;
              d = \<lparr>readResumed = False, writeResumed = False, io_destroy = False, dual_fd = fd, watchFd = n, pendingCancels = 2\<rparr>;
              s = s\<lparr>open_fds := insert n (open_fds s)\<rparr>
          in if \<not> canRead then close_fd n s
            else let s = set_dual i d (s\<lparr>allocated := Suc i\<rparr>) in
              if \<not> canWrite
              then let s = set_source (Read i) (dispatch_source_create\<lparr>on_cancel := Some Close_and_delete\<rparr>) s in
                and_then (dispatch_resume (Read i) s) (\<lambda>_ s.
                and_then (dispatch_source_cancel (Read i) s) (\<lambda>_ s. dispatch_release (Read i) s))
              else let x = dispatch_source_create\<lparr>event_handler := True, on_cancel := Some Count_down\<rparr>;
                  s = set_source (Write i) x (set_source (Read i) x s) in
                and_then (if wants_read events then dispatch_resume (Read i) s else (Inr (), s)) (\<lambda>_ s.
                and_then (if wants_write events then dispatch_resume (Write i) s else (Inr (), s)) (\<lambda>_ s.
                  (Inr (), logged (Issued (Io i))
                    (set_dual i (d\<lparr>readResumed := wants_read events, writeResumed := wants_write events\<rparr>) s)))))"

definition enable_read :: "nat \<Rightarrow> io_flag set \<Rightarrow> pulse_loop \<Rightarrow> pulse_result" where
  "enable_read i events = with_dual i (\<lambda>d s.
     if wants_read events
     then if \<not> readResumed d
       then and_then (dispatch_resume (Read i) s) (\<lambda>_ s. (Inr (), set_dual i (d\<lparr>readResumed := True\<rparr>) s))
       else (Inr (), s)
     else if readResumed d
       then and_then (dispatch_suspend (Read i) s) (\<lambda>_ s. (Inr (), set_dual i (d\<lparr>readResumed := False\<rparr>) s))
       else (Inr (), s))"

definition enable_write :: "nat \<Rightarrow> io_flag set \<Rightarrow> pulse_loop \<Rightarrow> pulse_result" where
  "enable_write i events = with_dual i (\<lambda>d s.
     if wants_write events
     then if \<not> writeResumed d
       then and_then (dispatch_resume (Write i) s) (\<lambda>_ s. (Inr (), set_dual i (d\<lparr>writeResumed := True\<rparr>) s))
       else (Inr (), s)
     else if writeResumed d
       then and_then (dispatch_suspend (Write i) s) (\<lambda>_ s. (Inr (), set_dual i (d\<lparr>writeResumed := False\<rparr>) s))
       else (Inr (), s))"

definition io_enable :: "nat \<Rightarrow> io_flag set \<Rightarrow> pulse_loop \<Rightarrow> pulse_result" where
  "io_enable i events s = and_then (enable_read i events s) (\<lambda>_ s. enable_write i events s)"

definition retire_source :: "source_id \<Rightarrow> bool \<Rightarrow> pulse_loop \<Rightarrow> pulse_result" where
  "retire_source r resumed s =
     and_then (if \<not> resumed then dispatch_resume r s else (Inr (), s)) (\<lambda>_ s.
     and_then (dispatch_source_cancel r s) (\<lambda>_ s. dispatch_release r s))"

definition io_free :: "nat \<Rightarrow> pulse_loop \<Rightarrow> pulse_result" where
  "io_free i = with_dual i (\<lambda>d s.
     and_then (retire_source (Read i) (readResumed d) s) (\<lambda>_ s.
     and_then (retire_source (Write i) (writeResumed d) s) (\<lambda>_ s. (Inr (), logged (Freed (Io i)) s))))"

definition io_set_destroy :: "nat \<Rightarrow> bool \<Rightarrow> pulse_loop \<Rightarrow> pulse_result" where
  "io_set_destroy i b = with_dual i (\<lambda>d s. (Inr (), set_dual i (d\<lparr>io_destroy := b\<rparr>) s))"

definition io_event :: "nat \<Rightarrow> pulse_loop \<Rightarrow> pulse_result" where
  "io_event i = with_dual i (\<lambda>d s. (Inr (), logged (Called (Io i)) s))"

text \<open>The cancellation handlers of the sources of \<open>io_new\<close>.\<close>

definition delete_dual :: "nat \<Rightarrow> bool \<Rightarrow> pulse_loop \<Rightarrow> pulse_loop" where
  "delete_dual i destroy s = (let s = s\<lparr>duals := (duals s)(i := None)\<rparr> in if destroy then logged (Destroyed (Io i)) s else s)"

definition close_and_delete :: "nat \<Rightarrow> pulse_loop \<Rightarrow> pulse_result" where
  "close_and_delete i = with_dual i (\<lambda>d s. and_then (close_fd (watchFd d) s) (\<lambda>_ s. (Inr (), delete_dual i False s)))"

definition count_down :: "nat \<Rightarrow> pulse_loop \<Rightarrow> pulse_result" where
  "count_down i = with_dual i (\<lambda>d s.
     let n = pendingCancels d - 1 in
     if n \<noteq> 0 then (Inr (), set_dual i (d\<lparr>pendingCancels := n\<rparr>) s)
     else and_then (close_fd (watchFd d) s) (\<lambda>_ s. (Inr (), delete_dual i (io_destroy d) s)))"

subsection \<open>Time events\<close>

definition with_timer :: "nat \<Rightarrow> (pa_timer \<Rightarrow> pulse_loop \<Rightarrow> pulse_result) \<Rightarrow> pulse_loop \<Rightarrow> pulse_result" where
  "with_timer i f s = (case timers s i of None \<Rightarrow> (Inl Undefined, s) | Some t \<Rightarrow> f t s)"

definition set_time :: "nat \<times> nat \<Rightarrow> pa_timer \<Rightarrow> pa_timer" where
  "set_time tv t = t\<lparr>timer_when := Some (fst tv, snd tv * 1000), timer_tv := tv\<rparr>"

definition time_new :: "nat \<times> nat \<Rightarrow> pulse_loop \<Rightarrow> pulse_result" where
  "time_new tv s =
     (let i = allocated s;
          s = set_source (Tick i) (dispatch_source_create\<lparr>event_handler := True, on_cancel := Some Delete_timer\<rparr>)
            (s\<lparr>allocated := Suc i, timers := (timers s)(i := Some (set_time tv \<lparr>timer_when = None, timer_tv = tv, time_destroy = False\<rparr>))\<rparr>)
      in and_then (dispatch_resume (Tick i) s) (\<lambda>_ s. (Inr (), logged (Issued (Time i)) s)))"

definition time_restart :: "nat \<Rightarrow> (nat \<times> nat) option \<Rightarrow> pulse_loop \<Rightarrow> pulse_result" where
  "time_restart i tv = with_timer i (\<lambda>t s.
     (Inr (), s\<lparr>timers := (timers s)(i := Some (case tv of None \<Rightarrow> t\<lparr>timer_when := None\<rparr> | Some v \<Rightarrow> set_time v t))\<rparr>))"

definition time_set_destroy :: "nat \<Rightarrow> bool \<Rightarrow> pulse_loop \<Rightarrow> pulse_result" where
  "time_set_destroy i b = with_timer i (\<lambda>t s. (Inr (), s\<lparr>timers := (timers s)(i := Some (t\<lparr>time_destroy := b\<rparr>))\<rparr>))"

definition time_free :: "nat \<Rightarrow> pulse_loop \<Rightarrow> pulse_result" where
  "time_free i = with_timer i (\<lambda>t s.
     and_then (dispatch_source_cancel (Tick i) s) (\<lambda>_ s.
     and_then (dispatch_release (Tick i) s) (\<lambda>_ s. (Inr (), logged (Freed (Time i)) s))))"

definition time_event :: "nat \<Rightarrow> pulse_loop \<Rightarrow> pulse_result" where
  "time_event i = with_timer i (\<lambda>t s. (Inr (), logged (Called (Time i)) s))"

definition delete_timer :: "nat \<Rightarrow> pulse_loop \<Rightarrow> pulse_result" where
  "delete_timer i = with_timer i (\<lambda>t s.
     let s = s\<lparr>timers := (timers s)(i := None)\<rparr> in (Inr (), if time_destroy t then logged (Destroyed (Time i)) s else s))"

subsection \<open>Defer events and blocks\<close>

definition with_defer :: "nat \<Rightarrow> (defer_event \<Rightarrow> pulse_loop \<Rightarrow> pulse_result) \<Rightarrow> pulse_loop \<Rightarrow> pulse_result" where
  "with_defer i f s = (case defers s i of None \<Rightarrow> (Inl Undefined, s) | Some e \<Rightarrow> f e s)"

definition set_defer :: "nat \<Rightarrow> defer_event \<Rightarrow> pulse_loop \<Rightarrow> pulse_loop" where
  "set_defer i e s = s\<lparr>defers := (defers s)(i := Some e)\<rparr>"

definition dispatch_async :: "task \<Rightarrow> pulse_loop \<Rightarrow> pulse_loop" where
  "dispatch_async t s = s\<lparr>queue := queue s @ [t]\<rparr>"

definition defer_new :: "pulse_loop \<Rightarrow> pulse_result" where
  "defer_new s =
     (let i = allocated s in
      (Inr (), logged (Issued (Defer i)) (dispatch_async (Fire i)
        (set_defer i \<lparr>active = True, defer_destroy = False\<rparr> (s\<lparr>allocated := Suc i\<rparr>)))))"

definition defer_set_destroy :: "nat \<Rightarrow> bool \<Rightarrow> pulse_loop \<Rightarrow> pulse_result" where
  "defer_set_destroy i b = with_defer i (\<lambda>e s. (Inr (), set_defer i (e\<lparr>defer_destroy := b\<rparr>) s))"

definition defer_enable :: "nat \<Rightarrow> bool \<Rightarrow> pulse_loop \<Rightarrow> pulse_result" where
  "defer_enable i b = with_defer i (\<lambda>e s.
     let s = (if \<not> active e \<and> b then dispatch_async (Fire i) s else s) in (Inr (), set_defer i (e\<lparr>active := b\<rparr>) s))"

definition defer_free :: "nat \<Rightarrow> pulse_loop \<Rightarrow> pulse_result" where
  "defer_free i = with_defer i (\<lambda>e s.
     (Inr (), logged (Freed (Defer i)) (dispatch_async (Delete i) (set_defer i (e\<lparr>active := False\<rparr>) s))))"

text \<open>\<open>defer_event_fire\<close> up to the callback, and after it: in between the client's function runs.\<close>

definition defer_event_fire :: "nat \<Rightarrow> pulse_loop \<Rightarrow> pulse_result" where
  "defer_event_fire i = with_defer i (\<lambda>e s. (Inr (), if active e then logged (Called (Defer i)) (s\<lparr>firing := Some i\<rparr>) else s))"

definition defer_event_fired :: "nat \<Rightarrow> pulse_loop \<Rightarrow> pulse_result" where
  "defer_event_fired i = with_defer i (\<lambda>e s. (Inr (), (if active e then dispatch_async (Fire i) s else s)\<lparr>firing := None\<rparr>))"

definition delete_defer :: "nat \<Rightarrow> pulse_loop \<Rightarrow> pulse_result" where
  "delete_defer i = with_defer i (\<lambda>e s.
     let s = s\<lparr>defers := (defers s)(i := None)\<rparr> in (Inr (), if defer_destroy e then logged (Destroyed (Defer i)) s else s))"

text \<open>\<open>perform\<close>: on the queue the block runs at once, otherwise it is queued; a synchronous caller waits for it.\<close>

definition perform :: "bool \<Rightarrow> nat \<Rightarrow> pulse_loop \<Rightarrow> pulse_result" where
  "perform on_queue b s = (Inr (), if on_queue then logged (Ran b) s else dispatch_async (Block b) s)"

subsection \<open>The steps of the queue\<close>

definition run_next :: "pulse_loop \<Rightarrow> pulse_result" where
  "run_next s =
     (case queue s of
        [] \<Rightarrow> (Inr (), s)
      | t # ts \<Rightarrow>
          let s = s\<lparr>queue := ts\<rparr> in
          (case t of Fire i \<Rightarrow> defer_event_fire i s | Delete i \<Rightarrow> delete_defer i s | Block b \<Rightarrow> (Inr (), logged (Ran b) s)))"

definition run_event :: "source_id \<Rightarrow> pulse_loop \<Rightarrow> pulse_result" where
  "run_event r s = (case r of Read i \<Rightarrow> io_event i s | Write i \<Rightarrow> io_event i s | Tick i \<Rightarrow> time_event i s)"

definition source_object :: "source_id \<Rightarrow> nat" where
  "source_object r = (case r of Read i \<Rightarrow> i | Write i \<Rightarrow> i | Tick i \<Rightarrow> i)"

definition run_cancel :: "source_id \<Rightarrow> pulse_loop \<Rightarrow> pulse_result" where
  "run_cancel r s =
     (case sources s r of
        None \<Rightarrow> (Inl Undefined, s)
      | Some x \<Rightarrow>
          let s = set_source r (x\<lparr>cancel_ran := True\<rparr>) s; i = source_object r in
          (case on_cancel x of
             None \<Rightarrow> (Inr (), s)
           | Some Close_and_delete \<Rightarrow> close_and_delete i s
           | Some Count_down \<Rightarrow> count_down i s
           | Some Delete_timer \<Rightarrow> delete_timer i s))"

datatype pulse_action =
    Suspend
  | Resume
  | IoNew "nat option" bool bool nat "io_flag set"
  | IoEnable nat "io_flag set"
  | IoFree nat
  | IoSetDestroy nat bool
  | TimeNew "nat \<times> nat"
  | TimeRestart nat "(nat \<times> nat) option"
  | TimeSetDestroy nat bool
  | TimeFree nat
  | DeferNew
  | DeferSetDestroy nat bool
  | DeferEnable nat bool
  | DeferFree nat
  | Perform bool nat
  | RunTask
  | Fired nat
  | RunEvent source_id
  | RunCancel source_id

fun exec_pulse :: "pulse_action \<Rightarrow> pulse_loop \<Rightarrow> pulse_result" where
  "exec_pulse Suspend s = suspend s"
| "exec_pulse Resume s = resume s"
| "exec_pulse (IoNew dup canRead canWrite fd events) s = io_new dup canRead canWrite fd events s"
| "exec_pulse (IoEnable i events) s = io_enable i events s"
| "exec_pulse (IoFree i) s = io_free i s"
| "exec_pulse (IoSetDestroy i b) s = io_set_destroy i b s"
| "exec_pulse (TimeNew tv) s = time_new tv s"
| "exec_pulse (TimeRestart i tv) s = time_restart i tv s"
| "exec_pulse (TimeSetDestroy i b) s = time_set_destroy i b s"
| "exec_pulse (TimeFree i) s = time_free i s"
| "exec_pulse DeferNew s = defer_new s"
| "exec_pulse (DeferSetDestroy i b) s = defer_set_destroy i b s"
| "exec_pulse (DeferEnable i b) s = defer_enable i b s"
| "exec_pulse (DeferFree i) s = defer_free i s"
| "exec_pulse (Perform on_queue b) s = perform on_queue b s"
| "exec_pulse RunTask s = run_next s"
| "exec_pulse (Fired i) s = defer_event_fired i s"
| "exec_pulse (RunEvent r) s = run_event r s"
| "exec_pulse (RunCancel r) s = run_cancel r s"

text \<open>
  What may happen: the client uses a handle it got and has not freed, a duplicated descriptor is not
  one that is open, and the queue runs one thing at a time and only while it is not suspended: the
  next task, an event of a source that is neither suspended nor cancelled, or, once, the cancellation
  handler of a cancelled one that is not suspended.
\<close>

definition handle_held :: "pulse_handle \<Rightarrow> pulse_loop \<Rightarrow> bool" where
  "handle_held h s \<longleftrightarrow> Issued h \<in> set (pulse_log s) \<and> Freed h \<notin> set (pulse_log s)"

definition queue_idle :: "pulse_loop \<Rightarrow> bool" where
  "queue_idle s \<longleftrightarrow> queue_suspensions s = 0 \<and> firing s = None"

fun pulse_allowed :: "pulse_action \<Rightarrow> pulse_loop \<Rightarrow> bool" where
  "pulse_allowed (IoNew dup canRead canWrite fd events) s \<longleftrightarrow> (case dup of None \<Rightarrow> True | Some n \<Rightarrow> n \<notin> open_fds s)"
| "pulse_allowed (IoEnable i events) s \<longleftrightarrow> handle_held (Io i) s"
| "pulse_allowed (IoFree i) s \<longleftrightarrow> handle_held (Io i) s"
| "pulse_allowed (IoSetDestroy i b) s \<longleftrightarrow> handle_held (Io i) s"
| "pulse_allowed (TimeRestart i tv) s \<longleftrightarrow> handle_held (Time i) s"
| "pulse_allowed (TimeSetDestroy i b) s \<longleftrightarrow> handle_held (Time i) s"
| "pulse_allowed (TimeFree i) s \<longleftrightarrow> handle_held (Time i) s"
| "pulse_allowed (DeferSetDestroy i b) s \<longleftrightarrow> handle_held (Defer i) s"
| "pulse_allowed (DeferEnable i b) s \<longleftrightarrow> handle_held (Defer i) s"
| "pulse_allowed (DeferFree i) s \<longleftrightarrow> handle_held (Defer i) s"
| "pulse_allowed RunTask s \<longleftrightarrow> queue_idle s \<and> queue s \<noteq> []"
| "pulse_allowed (Fired i) s \<longleftrightarrow> firing s = Some i"
| "pulse_allowed (RunEvent r) s \<longleftrightarrow> queue_idle s \<and>
     (case sources s r of None \<Rightarrow> False | Some x \<Rightarrow> suspensions x = 0 \<and> \<not> src_cancelled x \<and> event_handler x)"
| "pulse_allowed (RunCancel r) s \<longleftrightarrow> queue_idle s \<and>
     (case sources s r of None \<Rightarrow> False | Some x \<Rightarrow> suspensions x = 0 \<and> src_cancelled x \<and> \<not> cancel_ran x)"
| "pulse_allowed _ s \<longleftrightarrow> True"

inductive pulse_reachable :: "pulse_loop \<Rightarrow> bool" where
  start: "pulse_reachable new_loop"
| step: "pulse_reachable s \<Longrightarrow> pulse_allowed a s \<Longrightarrow> exec_pulse a s = (Inr (), t) \<Longrightarrow> pulse_reachable t"

end
