(* ===== verification/PulseSafety.thy ===== *)
theory PulseSafety
  imports PulseEvents
begin

section \<open>Why no event is used after it was deleted\<close>

text \<open>
  The invariant of \<open>PADispatchMainLoop\<close>, object by object: how the sources of an io event relate to
  its flags and to the count of cancellations still to come, that a timer's source outlives the
  timer, and that the queue holds the fires of a defer event before its deletion.
\<close>

subsection \<open>The protocol of the log\<close>

text \<open>A function is called only for a handle that was given out and not freed, a handle is freed once,
  and its destroy function is called at most once and after that.\<close>

fun quiet :: "log_entry list \<Rightarrow> bool" where
  "quiet [] \<longleftrightarrow> True"
| "quiet (e # l) \<longleftrightarrow> quiet l \<and>
     (case e of
        Issued h \<Rightarrow> Issued h \<notin> set l
      | Called h \<Rightarrow> Issued h \<in> set l \<and> Freed h \<notin> set l
      | Freed h \<Rightarrow> Issued h \<in> set l \<and> Freed h \<notin> set l
      | Destroyed h \<Rightarrow> Freed h \<in> set l \<and> Destroyed h \<notin> set l
      | Ran b \<Rightarrow> True)"

fun entry_handle :: "log_entry \<Rightarrow> pulse_handle option" where
  "entry_handle (Issued h) = Some h"
| "entry_handle (Called h) = Some h"
| "entry_handle (Freed h) = Some h"
| "entry_handle (Destroyed h) = Some h"
| "entry_handle (Ran b) = None"

lemma quiet_freed: "quiet l \<Longrightarrow> Freed h \<in> set l \<Longrightarrow> Issued h \<in> set l"
  by (induction l) (auto split: log_entry.splits)

lemma quiet_destroyed: "quiet l \<Longrightarrow> Destroyed h \<in> set l \<Longrightarrow> Freed h \<in> set l"
  by (induction l) (auto split: log_entry.splits)

text \<open>What the log says about one handle.\<close>

record life =
  l_issued :: bool
  l_freed :: bool
  l_destroyed :: bool

definition life_of :: "log_entry list \<Rightarrow> pulse_handle \<Rightarrow> life" where
  "life_of l h = \<lparr>l_issued = (Issued h \<in> set l), l_freed = (Freed h \<in> set l), l_destroyed = (Destroyed h \<in> set l)\<rparr>"

lemma life_of_other: "\<forall>e \<in> set es. entry_handle e \<noteq> Some h \<Longrightarrow> life_of (es @ l) h = life_of l h"
  by (auto simp: life_of_def)

subsection \<open>The objects\<close>

definition side_ok :: "bool \<Rightarrow> bool \<Rightarrow> dispatch_source \<Rightarrow> bool" where
  "side_ok freed resumed x \<longleftrightarrow> src_cancelled x = freed \<and> suspensions x = (if freed \<or> resumed then 0 else 1)
     \<and> (cancel_ran x \<longrightarrow> freed) \<and> event_handler x \<and> on_cancel x = Some Count_down"

definition pending :: "dispatch_source \<Rightarrow> nat" where
  "pending x = (if cancel_ran x then 0 else 1)"

definition retired :: "dispatch_source option \<Rightarrow> bool" where
  "retired x \<longleftrightarrow> (case x of None \<Rightarrow> True | Some y \<Rightarrow> cancel_ran y \<and> src_cancelled y)"

definition io_state :: "life \<Rightarrow> dual_source option \<Rightarrow> dispatch_source option \<Rightarrow> dispatch_source option \<Rightarrow> bool" where
  "io_state l d r w \<longleftrightarrow>
     (case d of
        None \<Rightarrow> retired r \<and> retired w \<and> (l_issued l \<longrightarrow> l_freed l)
      | Some d \<Rightarrow> \<not> l_destroyed l \<and>
          (case (r, w) of
             (Some r, Some w) \<Rightarrow> l_issued l \<and> side_ok (l_freed l) (readResumed d) r \<and> side_ok (l_freed l) (writeResumed d) w
               \<and> pendingCancels d = pending r + pending w \<and> 0 < pendingCancels d
           | (Some r, None) \<Rightarrow> \<not> l_issued l \<and> src_cancelled r \<and> suspensions r = 0 \<and> \<not> cancel_ran r \<and> on_cancel r = Some Close_and_delete
           | _ \<Rightarrow> False))"

definition time_state :: "life \<Rightarrow> pa_timer option \<Rightarrow> dispatch_source option \<Rightarrow> bool" where
  "time_state l t x \<longleftrightarrow>
     (case t of
        None \<Rightarrow> retired x \<and> (l_issued l \<longrightarrow> l_freed l)
      | Some t \<Rightarrow> \<not> l_destroyed l \<and> l_issued l \<and>
          (case x of None \<Rightarrow> False
           | Some x \<Rightarrow> src_cancelled x = l_freed l \<and> suspensions x = 0 \<and> \<not> cancel_ran x \<and> event_handler x \<and> on_cancel x = Some Delete_timer))"

text \<open>In the queue nothing of an event follows its deletion.\<close>

fun last_delete :: "nat \<Rightarrow> task list \<Rightarrow> bool" where
  "last_delete i [] \<longleftrightarrow> True"
| "last_delete i (t # ts) \<longleftrightarrow> (t = Delete i \<longrightarrow> Fire i \<notin> set ts \<and> Delete i \<notin> set ts) \<and> last_delete i ts"

lemma last_delete_snoc: "last_delete i (ts @ [t]) \<longleftrightarrow> last_delete i ts \<and> (t \<in> {Fire i, Delete i} \<longrightarrow> Delete i \<notin> set ts)"
  by (induction ts) auto

lemma last_delete_none: "Delete i \<notin> set ts \<Longrightarrow> last_delete i ts"
  by (induction ts) auto

definition defer_state :: "life \<Rightarrow> defer_event option \<Rightarrow> nat \<Rightarrow> task list \<Rightarrow> nat option \<Rightarrow> bool" where
  "defer_state l e i q f \<longleftrightarrow>
     (case e of
        None \<Rightarrow> Fire i \<notin> set q \<and> Delete i \<notin> set q \<and> f \<noteq> Some i \<and> (l_issued l \<longrightarrow> l_freed l)
      | Some e \<Rightarrow> \<not> l_destroyed l \<and> l_issued l \<and> last_delete i q \<and> (Delete i \<in> set q \<longleftrightarrow> l_freed l)
          \<and> (active e \<longrightarrow> \<not> l_freed l \<and> (Fire i \<in> set q \<or> f = Some i)))"

subsection \<open>The invariant\<close>

definition fds_ok :: "(nat \<Rightarrow> dual_source option) \<Rightarrow> nat set \<Rightarrow> bool" where
  "fds_ok ds fds \<longleftrightarrow> (let fd = (\<lambda>i. map_option watchFd (ds i)) in
     fds = ran fd \<and> (\<forall>i j n. fd i = Some n \<longrightarrow> fd j = Some n \<longrightarrow> i = j))"

definition unborn :: "nat \<Rightarrow> pulse_loop \<Rightarrow> bool" where
  "unborn i s \<longleftrightarrow> duals s i = None \<and> timers s i = None \<and> defers s i = None
     \<and> sources s (Read i) = None \<and> sources s (Write i) = None \<and> sources s (Tick i) = None
     \<and> (\<forall>h \<in> {Io i, Time i, Defer i}. Issued h \<notin> set (pulse_log s))"

definition pulse_inv :: "pulse_loop \<Rightarrow> bool" where
  "pulse_inv s \<longleftrightarrow>
     (\<forall>i. io_state (life_of (pulse_log s) (Io i)) (duals s i) (sources s (Read i)) (sources s (Write i)))
   \<and> (\<forall>i. time_state (life_of (pulse_log s) (Time i)) (timers s i) (sources s (Tick i)))
   \<and> (\<forall>i. defer_state (life_of (pulse_log s) (Defer i)) (defers s i) i (queue s) (firing s))
   \<and> (\<forall>i \<ge> allocated s. unborn i s)
   \<and> fds_ok (duals s) (open_fds s)
   \<and> queue_suspensions s = (if m_suspended s then 1 else 0)
   \<and> quiet (pulse_log s)"

lemma pulse_invD:
  assumes "pulse_inv s"
  shows "io_state (life_of (pulse_log s) (Io i)) (duals s i) (sources s (Read i)) (sources s (Write i))"
    "time_state (life_of (pulse_log s) (Time i)) (timers s i) (sources s (Tick i))"
    "defer_state (life_of (pulse_log s) (Defer i)) (defers s i) i (queue s) (firing s)"
    "allocated s \<le> i \<Longrightarrow> unborn i s" "fds_ok (duals s) (open_fds s)"
    "queue_suspensions s = (if m_suspended s then 1 else 0)" "quiet (pulse_log s)"
  using assms by (simp_all add: pulse_inv_def)

lemma new_loop_inv: "pulse_inv new_loop"
  by (simp add: pulse_inv_def new_loop_def io_state_def time_state_def defer_state_def unborn_def fds_ok_def retired_def life_of_def)

lemma other_handle:
  assumes "\<forall>e \<in> set es. entry_handle e = Some k" "h \<noteq> k"
  shows "life_of (es @ l) h = life_of l h" "Issued h \<notin> set es"
  using assms by (auto intro!: life_of_other)

text \<open>A change of one io event, of one time event and of one defer event.\<close>

lemma io_update:
  assumes "pulse_inv s"
    and frame: "\<And>j. j \<noteq> i \<Longrightarrow> duals t j = duals s j" "\<And>r. r \<noteq> Read i \<Longrightarrow> r \<noteq> Write i \<Longrightarrow> sources t r = sources s r"
      "timers t = timers s" "defers t = defers s" "queue t = queue s" "firing t = firing s"
      "m_suspended t = m_suspended s" "queue_suspensions t = queue_suspensions s" "allocated s \<le> allocated t"
    and log: "pulse_log t = es @ pulse_log s" "\<forall>e \<in> set es. entry_handle e = Some (Io i)" "quiet (es @ pulse_log s)"
    and new: "i < allocated t" "io_state (life_of (es @ pulse_log s) (Io i)) (duals t i) (sources t (Read i)) (sources t (Write i))"
      "fds_ok (duals t) (open_fds t)"
  shows "pulse_inv t"
proof -
  note inv = pulse_invD [OF assms(1)] and other = other_handle [OF log(2)]
  show ?thesis
    unfolding pulse_inv_def
  proof (intro conjI allI impI, goal_cases)
    case (1 j)
    show ?case using new(2) inv(1) [of j] other(1) [of "Io j"] log(1) frame(1,2) by (cases "j = i") simp_all
  next
    case (4 j)
    then have "j \<noteq> i" "unborn j s" using inv(4) [of j] frame(9) new(1) by auto
    then show ?case using other(2) log(1) frame by (simp add: unborn_def)
  qed (use inv frame log other new in simp_all)
qed

lemma time_update:
  assumes "pulse_inv s"
    and frame: "\<And>j. j \<noteq> i \<Longrightarrow> timers t j = timers s j" "\<And>r. r \<noteq> Tick i \<Longrightarrow> sources t r = sources s r"
      "duals t = duals s" "defers t = defers s" "queue t = queue s" "firing t = firing s"
      "m_suspended t = m_suspended s" "queue_suspensions t = queue_suspensions s" "allocated s \<le> allocated t" "open_fds t = open_fds s"
    and log: "pulse_log t = es @ pulse_log s" "\<forall>e \<in> set es. entry_handle e = Some (Time i)" "quiet (es @ pulse_log s)"
    and new: "i < allocated t" "time_state (life_of (es @ pulse_log s) (Time i)) (timers t i) (sources t (Tick i))"
  shows "pulse_inv t"
proof -
  note inv = pulse_invD [OF assms(1)] and other = other_handle [OF log(2)]
  show ?thesis
    unfolding pulse_inv_def
  proof (intro conjI allI impI, goal_cases)
    case (2 j)
    show ?case using new(2) inv(2) [of j] other(1) [of "Time j"] log(1) frame(1,2) by (cases "j = i") simp_all
  next
    case (4 j)
    then have "j \<noteq> i" "unborn j s" using inv(4) [of j] frame(9) new(1) by auto
    then show ?case using other(2) log(1) frame by (simp add: unborn_def)
  qed (use inv frame log other new in simp_all)
qed

lemma defer_update:
  assumes "pulse_inv s"
    and frame: "\<And>j. j \<noteq> i \<Longrightarrow> defers t j = defers s j" "sources t = sources s"
      "duals t = duals s" "timers t = timers s" 
      "m_suspended t = m_suspended s" "queue_suspensions t = queue_suspensions s" "allocated s \<le> allocated t" "open_fds t = open_fds s"
    and log: "pulse_log t = es @ pulse_log s" "\<forall>e \<in> set es. entry_handle e = Some (Defer i)" "quiet (es @ pulse_log s)"
    and new: "i < allocated t" "defer_state (life_of (es @ pulse_log s) (Defer i)) (defers t i) i (queue t) (firing t)"
      "\<And>j. j \<noteq> i \<Longrightarrow> defer_state (life_of (pulse_log s) (Defer j)) (defers s j) j (queue t) (firing t)"
  shows "pulse_inv t"
proof -
  note inv = pulse_invD [OF assms(1)] and other = other_handle [OF log(2)]
  show ?thesis
    unfolding pulse_inv_def
  proof (intro conjI allI impI, goal_cases)
    case (3 j)
    show ?case using new(2) new(3) [of j] other(1) [of "Defer j"] log(1) frame(1) by (cases "j = i") simp_all
  next
    case (4 j)
    then have "j \<noteq> i" "unborn j s" using inv(4) [of j] frame(7) new(1) by auto
    then show ?case using other(2) log(1) frame by (simp add: unborn_def)
  qed (use inv frame log other new in simp_all)
qed

lemmas exec_simps = io_new_def io_enable_def enable_read_def enable_write_def io_free_def retire_source_def io_set_destroy_def
  io_event_def close_and_delete_def count_down_def delete_dual_def with_dual_def set_dual_def close_fd_def
  time_new_def time_restart_def time_set_destroy_def time_free_def time_event_def delete_timer_def with_timer_def set_time_def
  defer_new_def defer_set_destroy_def defer_enable_def defer_free_def defer_event_fire_def defer_event_fired_def delete_defer_def
  with_defer_def set_defer_def dispatch_async_def perform_def on_source_def set_source_def dispatch_resume_def dispatch_suspend_def
  dispatch_source_cancel_def dispatch_release_def logged_def dispatch_source_create_def

subsection \<open>What a held handle refers to\<close>

definition fine :: "pulse_result \<Rightarrow> bool" where
  "fine r \<longleftrightarrow> fst r = Inr () \<and> pulse_inv (snd r)"

lemma fineI: "r = (Inr (), t) \<Longrightarrow> pulse_inv t \<Longrightarrow> fine r"
  by (simp add: fine_def)

lemma held_io:
  assumes "pulse_inv s" "handle_held (Io i) s"
  obtains d r w where "duals s i = Some d" "sources s (Read i) = Some r" "sources s (Write i) = Some w"
    "side_ok False (readResumed d) r" "side_ok False (writeResumed d) w" "pendingCancels d = 2"
    "life_of (pulse_log s) (Io i) = \<lparr>l_issued = True, l_freed = False, l_destroyed = False\<rparr>" "i < allocated s"
proof -
  have h: "Issued (Io i) \<in> set (pulse_log s)" "Freed (Io i) \<notin> set (pulse_log s)" using assms(2) by (simp_all add: handle_held_def)
  have "i < allocated s" using pulse_invD(4) [OF assms(1), of i] h(1) by (force simp: unborn_def)
  moreover have "Destroyed (Io i) \<notin> set (pulse_log s)" using quiet_destroyed [OF pulse_invD(7) [OF assms(1)]] h(2) by blast
  then have l: "life_of (pulse_log s) (Io i) = \<lparr>l_issued = True, l_freed = False, l_destroyed = False\<rparr>" using h by (simp add: life_of_def)
  moreover obtain d r w where "duals s i = Some d" "sources s (Read i) = Some r" "sources s (Write i) = Some w"
      "side_ok False (readResumed d) r" "side_ok False (writeResumed d) w" "pendingCancels d = pending r + pending w"
    using pulse_invD(1) [OF assms(1), of i] l by (auto simp: io_state_def split: option.splits)
  moreover have "pending r = 1" "pending w = 1" using calculation(6,7) by (auto simp: side_ok_def pending_def)
  ultimately show thesis using that by simp
qed

lemma held_time:
  assumes "pulse_inv s" "handle_held (Time i) s"
  obtains t x where "timers s i = Some t" "sources s (Tick i) = Some x"
    "\<not> src_cancelled x" "suspensions x = 0" "\<not> cancel_ran x" "event_handler x" "on_cancel x = Some Delete_timer"
    "life_of (pulse_log s) (Time i) = \<lparr>l_issued = True, l_freed = False, l_destroyed = False\<rparr>" "i < allocated s"
proof -
  have h: "Issued (Time i) \<in> set (pulse_log s)" "Freed (Time i) \<notin> set (pulse_log s)" using assms(2) by (simp_all add: handle_held_def)
  have "i < allocated s" using pulse_invD(4) [OF assms(1), of i] h(1) by (force simp: unborn_def)
  moreover have "Destroyed (Time i) \<notin> set (pulse_log s)" using quiet_destroyed [OF pulse_invD(7) [OF assms(1)]] h(2) by blast
  then have "life_of (pulse_log s) (Time i) = \<lparr>l_issued = True, l_freed = False, l_destroyed = False\<rparr>" using h by (simp add: life_of_def)
  ultimately show thesis using that pulse_invD(2) [OF assms(1), of i] by (auto simp: time_state_def split: option.splits)
qed

lemma held_defer:
  assumes "pulse_inv s" "handle_held (Defer i) s"
  obtains e where "defers s i = Some e" "last_delete i (queue s)" "Delete i \<notin> set (queue s)"
    "active e \<longrightarrow> Fire i \<in> set (queue s) \<or> firing s = Some i"
    "life_of (pulse_log s) (Defer i) = \<lparr>l_issued = True, l_freed = False, l_destroyed = False\<rparr>" "i < allocated s"
proof -
  have h: "Issued (Defer i) \<in> set (pulse_log s)" "Freed (Defer i) \<notin> set (pulse_log s)" using assms(2) by (simp_all add: handle_held_def)
  have "i < allocated s" using pulse_invD(4) [OF assms(1), of i] h(1) by (force simp: unborn_def)
  moreover have "Destroyed (Defer i) \<notin> set (pulse_log s)" using quiet_destroyed [OF pulse_invD(7) [OF assms(1)]] h(2) by blast
  then have "life_of (pulse_log s) (Defer i) = \<lparr>l_issued = True, l_freed = False, l_destroyed = False\<rparr>" using h by (simp add: life_of_def)
  ultimately show thesis using that pulse_invD(3) [OF assms(1), of i] by (auto simp: defer_state_def split: option.splits)
qed

subsection \<open>Every operation keeps the invariant\<close>

lemma fds_upd: "(\<lambda>j. map_option watchFd ((ds(i := d)) j)) = (\<lambda>j. map_option watchFd (ds j))(i := map_option watchFd d)"
  by auto

lemma fds_same: "fds_ok ds F \<Longrightarrow> ds i = Some d \<Longrightarrow> watchFd d' = watchFd d \<Longrightarrow> fds_ok (ds(i := Some d')) F"
  unfolding fds_ok_def fds_upd by (simp add: fun_upd_idem)

lemma named_drop:
  assumes "\<forall>i j n. g i = Some n \<longrightarrow> g j = Some n \<longrightarrow> i = j" "g i = Some m"
  shows "m \<in> ran g" "ran (g(i := None)) = ran g - {m}"
    "\<forall>j k n. (g(i := None)) j = Some n \<longrightarrow> (g(i := None)) k = Some n \<longrightarrow> j = k"
proof -
  show "m \<in> ran g" using assms(2) by (rule ranI)
  have "n \<in> ran (g(i := None)) \<longleftrightarrow> n \<in> ran g \<and> n \<noteq> m" for n
  proof
    assume "n \<in> ran (g(i := None))"
    then obtain k where "k \<noteq> i" "g k = Some n" by (auto simp: ran_def split: if_splits)
    then show "n \<in> ran g \<and> n \<noteq> m" using assms by (blast intro: ranI)
  next
    assume n: "n \<in> ran g \<and> n \<noteq> m"
    then obtain k where "g k = Some n" by (auto simp: ran_def)
    moreover have "k \<noteq> i" using calculation n assms(2) by auto
    ultimately have "(g(i := None)) k = Some n" by simp
    then show "n \<in> ran (g(i := None))" by (rule ranI)
  qed
  then show "ran (g(i := None)) = ran g - {m}" by blast
  show "\<forall>j k n. (g(i := None)) j = Some n \<longrightarrow> (g(i := None)) k = Some n \<longrightarrow> j = k"
    using assms(1) by (simp only: fun_upd_apply) (metis option.distinct(1))
qed

lemma named_add:
  assumes "\<forall>i j n. g i = Some n \<longrightarrow> g j = Some n \<longrightarrow> i = j" "g i = None" "m \<notin> ran g"
  shows "ran (g(i := Some m)) = insert m (ran g)"
    "\<forall>j k n. (g(i := Some m)) j = Some n \<longrightarrow> (g(i := Some m)) k = Some n \<longrightarrow> j = k"
proof -
  show "ran (g(i := Some m)) = insert m (ran g)" using assms(2) by (simp add: ran_map_upd)
  have "g j \<noteq> Some m" for j using assms(3) by (blast intro: ranI)
  then show "\<forall>j k n. (g(i := Some m)) j = Some n \<longrightarrow> (g(i := Some m)) k = Some n \<longrightarrow> j = k"
    using assms(1) by (simp only: fun_upd_apply) (metis option.inject)
qed

lemma fds_drop:
  assumes "fds_ok ds F" "ds i = Some d"
  shows "watchFd d \<in> F" "fds_ok (ds(i := None)) (F - {watchFd d})"
proof -
  define g where "g = (\<lambda>i. map_option watchFd (ds i))"
  have g: "F = ran g" "\<forall>i j n. g i = Some n \<longrightarrow> g j = Some n \<longrightarrow> i = j" "g i = Some (watchFd d)"
    using assms unfolding fds_ok_def Let_def g_def by simp_all
  show "watchFd d \<in> F" using named_drop(1) [OF g(2,3)] g(1) by simp
  show "fds_ok (ds(i := None)) (F - {watchFd d})"
    unfolding fds_ok_def fds_upd Let_def g_def [symmetric]
    using named_drop(2,3) [OF g(2,3)] g(1) by (simp only: option.map simp_thms)
qed

lemma fds_add:
  assumes "fds_ok ds F" "n \<notin> F" "ds i = None" "watchFd d = n"
  shows "fds_ok (ds(i := Some d)) (insert n F)"
proof -
  define g where "g = (\<lambda>i. map_option watchFd (ds i))"
  have g: "F = ran g" "\<forall>i j n. g i = Some n \<longrightarrow> g j = Some n \<longrightarrow> i = j" "g i = None"
    using assms unfolding fds_ok_def Let_def g_def by simp_all
  have "n \<notin> ran g" using g(1) assms(2) by simp
  from named_add [OF g(2,3) this] show ?thesis
    unfolding fds_ok_def fds_upd Let_def g_def [symmetric] assms(4) [symmetric]
    using g(1) by (simp only: option.map simp_thms)
qed

lemma idle_source [simp]: "suspensions x = 0 \<Longrightarrow> x\<lparr>suspensions := 0\<rparr> = x"
  by (cases x) simp

lemma enable_read_inv:
  assumes "pulse_inv s" "handle_held (Io i) s"
  shows "\<exists>t. enable_read i events s = (Inr (), t) \<and> pulse_inv t \<and> pulse_log t = pulse_log s"
proof -
  obtain d r w where o: "duals s i = Some d" "sources s (Read i) = Some r" "sources s (Write i) = Some w"
    "side_ok False (readResumed d) r" "side_ok False (writeResumed d) w" "pendingCancels d = 2"
    "life_of (pulse_log s) (Io i) = \<lparr>l_issued = True, l_freed = False, l_destroyed = False\<rparr>" "i < allocated s"
    using held_io [OF assms] .
  let ?r = "if wants_read events = readResumed d then r
    else if wants_read events then r\<lparr>suspensions := 0\<rparr> else r\<lparr>suspensions := 1\<rparr>"
  let ?t = "s\<lparr>sources := (sources s)(Read i := Some ?r), duals := (duals s)(i := Some (d\<lparr>readResumed := wants_read events\<rparr>))\<rparr>"
  have "enable_read i events s = (Inr (), ?t)"
    using o(1,2,4) by (auto simp: exec_simps side_ok_def fun_upd_idem)
  moreover have "pulse_inv ?t"
    using o pulse_invD [OF assms(1)] by (intro io_update [OF assms(1), where i = i and es = "[]"])
      (auto simp: io_state_def side_ok_def pending_def fds_same)
  ultimately show ?thesis by auto
qed

lemma enable_write_inv:
  assumes "pulse_inv s" "handle_held (Io i) s"
  shows "\<exists>t. enable_write i events s = (Inr (), t) \<and> pulse_inv t \<and> pulse_log t = pulse_log s"
proof -
  obtain d r w where o: "duals s i = Some d" "sources s (Read i) = Some r" "sources s (Write i) = Some w"
    "side_ok False (readResumed d) r" "side_ok False (writeResumed d) w" "pendingCancels d = 2"
    "life_of (pulse_log s) (Io i) = \<lparr>l_issued = True, l_freed = False, l_destroyed = False\<rparr>" "i < allocated s"
    using held_io [OF assms] .
  let ?w = "if wants_write events = writeResumed d then w
    else if wants_write events then w\<lparr>suspensions := 0\<rparr> else w\<lparr>suspensions := 1\<rparr>"
  let ?t = "s\<lparr>sources := (sources s)(Write i := Some ?w), duals := (duals s)(i := Some (d\<lparr>writeResumed := wants_write events\<rparr>))\<rparr>"
  have "enable_write i events s = (Inr (), ?t)"
    using o(1,3,5) by (auto simp: exec_simps side_ok_def fun_upd_idem)
  moreover have "pulse_inv ?t"
    using o pulse_invD [OF assms(1)] by (intro io_update [OF assms(1), where i = i and es = "[]"])
      (auto simp: io_state_def side_ok_def pending_def fds_same)
  ultimately show ?thesis by auto
qed

lemma io_enable_fine: "pulse_inv s \<Longrightarrow> handle_held (Io i) s \<Longrightarrow> fine (io_enable i events s)"
  using enable_read_inv [of s i events] enable_write_inv [of _ i events] by (force simp: io_enable_def fine_def handle_held_def)

lemma io_set_destroy_fine:
  assumes "pulse_inv s" "handle_held (Io i) s"
  shows "fine (io_set_destroy i b s)"
proof -
  obtain d r w where o: "duals s i = Some d" "sources s (Read i) = Some r" "sources s (Write i) = Some w"
    "side_ok False (readResumed d) r" "side_ok False (writeResumed d) w" "pendingCancels d = 2"
    "life_of (pulse_log s) (Io i) = \<lparr>l_issued = True, l_freed = False, l_destroyed = False\<rparr>" "i < allocated s"
    using held_io [OF assms] .
  let ?t = "s\<lparr>duals := (duals s)(i := Some (d\<lparr>io_destroy := b\<rparr>))\<rparr>"
  have "io_set_destroy i b s = (Inr (), ?t)" using o(1) by (simp add: exec_simps)
  moreover have "pulse_inv ?t"
    using o pulse_invD [OF assms(1)] by (intro io_update [OF assms(1), where i = i and es = "[]"])
      (auto simp: io_state_def side_ok_def pending_def fds_same)
  ultimately show ?thesis by (rule fineI)
qed

lemma io_free_fine:
  assumes "pulse_inv s" "handle_held (Io i) s"
  shows "fine (io_free i s)"
proof -
  obtain d r w where o: "duals s i = Some d" "sources s (Read i) = Some r" "sources s (Write i) = Some w"
    "side_ok False (readResumed d) r" "side_ok False (writeResumed d) w" "pendingCancels d = 2"
    "life_of (pulse_log s) (Io i) = \<lparr>l_issued = True, l_freed = False, l_destroyed = False\<rparr>" "i < allocated s"
    using held_io [OF assms] .
  let ?x = "\<lambda>x. x\<lparr>suspensions := 0, src_cancelled := True, src_released := True\<rparr>"
  let ?t = "s\<lparr>sources := (sources s)(Read i := Some (?x r), Write i := Some (?x w)), pulse_log := Freed (Io i) # pulse_log s\<rparr>"
  have "io_free i s = (Inr (), ?t)"
    using o(1-5) by (auto simp: exec_simps side_ok_def)
  moreover have "pulse_inv ?t"
    using o pulse_invD [OF assms(1)] by (intro io_update [OF assms(1), where i = i and es = "[Freed (Io i)]"])
      (auto simp: io_state_def side_ok_def pending_def life_of_def)
  ultimately show ?thesis by (rule fineI)
qed

lemma io_new_fine:
  assumes "pulse_inv s" "case dup of None \<Rightarrow> True | Some n \<Rightarrow> n \<notin> open_fds s"
  shows "fine (io_new dup canRead canWrite fd events s)"
proof (cases dup)
  case None
  then show ?thesis using assms(1) by (simp add: io_new_def fine_def)
next
  case (Some n)
  then have n: "n \<notin> open_fds s" using assms(2) by simp
  let ?i = "allocated s"
  have new: "unborn ?i s" using pulse_invD(4) [OF assms(1)] by simp
  have log: "Freed (Io ?i) \<notin> set (pulse_log s)" "Destroyed (Io ?i) \<notin> set (pulse_log s)"
    using new quiet_freed [OF pulse_invD(7) [OF assms(1)]] quiet_destroyed [OF pulse_invD(7) [OF assms(1)]] by (auto simp: unborn_def)
  note inv = pulse_invD [OF assms(1)]
  consider (unread) "\<not> canRead" | (half) "canRead" "\<not> canWrite" | (full) "canRead" "canWrite" by blast
  then show ?thesis
  proof cases
    case unread
    then have "io_new dup canRead canWrite fd events s = (Inr (), s)" using Some n by (simp add: exec_simps)
    then show ?thesis using assms(1) by (rule fineI)
  next
    case half
    let ?d = "\<lparr>readResumed = False, writeResumed = False, io_destroy = False, dual_fd = fd, watchFd = n, pendingCancels = 2\<rparr>"
    let ?r = "\<lparr>suspensions = 0, src_cancelled = True, src_released = True, cancel_ran = False, event_handler = False, on_cancel = Some Close_and_delete\<rparr>"
    let ?t = "s\<lparr>open_fds := insert n (open_fds s), duals := (duals s)(?i := Some ?d), sources := (sources s)(Read ?i := Some ?r), allocated := Suc ?i\<rparr>"
    have "io_new dup canRead canWrite fd events s = (Inr (), ?t)" using Some half by (simp add: exec_simps Let_def)
    moreover have "pulse_inv ?t"
      using new inv log n by (intro io_update [OF assms(1), where i = ?i and es = "[]"])
        (auto simp: io_state_def life_of_def unborn_def fds_add)
    ultimately show ?thesis by (rule fineI)
  next
    case full
    let ?d = "\<lparr>readResumed = wants_read events, writeResumed = wants_write events, io_destroy = False, dual_fd = fd, watchFd = n, pendingCancels = 2\<rparr>"
    let ?x = "\<lambda>b. \<lparr>suspensions = if b then 0 else 1, src_cancelled = False, src_released = False, cancel_ran = False, event_handler = True, on_cancel = Some Count_down\<rparr>"
    let ?t = "s\<lparr>open_fds := insert n (open_fds s), duals := (duals s)(?i := Some ?d),
      sources := (sources s)(Read ?i := Some (?x (wants_read events)), Write ?i := Some (?x (wants_write events))), allocated := Suc ?i,
      pulse_log := Issued (Io ?i) # pulse_log s\<rparr>"
    have "io_new dup canRead canWrite fd events s = (Inr (), ?t)"
      using Some full by (auto simp: exec_simps Let_def fun_upd_twist)
    moreover have "pulse_inv ?t"
      using new inv log n by (intro io_update [OF assms(1), where i = ?i and es = "[Issued (Io ?i)]"])
        (auto simp: io_state_def life_of_def unborn_def fds_add side_ok_def pending_def)
    ultimately show ?thesis by (rule fineI)
  qed
qed

text \<open>The handlers of the sources.\<close>

lemma cancelled_freed:
  assumes "pulse_inv s" "sources s r = Some x" "\<not> src_cancelled x" "event_handler x"
  shows "r \<in> {Read i, Write i} \<Longrightarrow> handle_held (Io i) s" "r = Tick i \<Longrightarrow> handle_held (Time i) s"
  using assms(2-4) pulse_invD(1,2) [OF assms(1), of i]
  by (auto simp: io_state_def time_state_def retired_def side_ok_def life_of_def handle_held_def split: option.splits)

lemma log_only:
  assumes "pulse_inv s" "handle_held h s" "t = s\<lparr>pulse_log := Called h # pulse_log s\<rparr>"
  shows "pulse_inv t"
proof -
  have "life_of (Called h # pulse_log s) k = life_of (pulse_log s) k" for k by (simp add: life_of_def)
  then show ?thesis using assms pulse_invD [OF assms(1)]
    by (simp add: pulse_inv_def unborn_def handle_held_def)
qed

lemma run_event_fine:
  assumes "pulse_inv s" "sources s r = Some x" "\<not> src_cancelled x" "event_handler x"
  shows "fine (run_event r s)"
proof (cases r)
  case (Read i)
  then have h: "handle_held (Io i) s" using cancelled_freed(1) [OF assms, of i] by simp
  obtain d where "duals s i = Some d" using held_io [OF assms(1) h] by metis
  then have "run_event r s = (Inr (), s\<lparr>pulse_log := Called (Io i) # pulse_log s\<rparr>)" using Read by (simp add: run_event_def exec_simps)
  then show ?thesis using log_only [OF assms(1) h refl] by (rule fineI)
next
  case (Write i)
  then have h: "handle_held (Io i) s" using cancelled_freed(1) [OF assms, of i] by simp
  obtain d where "duals s i = Some d" using held_io [OF assms(1) h] by metis
  then have "run_event r s = (Inr (), s\<lparr>pulse_log := Called (Io i) # pulse_log s\<rparr>)" using Write by (simp add: run_event_def exec_simps)
  then show ?thesis using log_only [OF assms(1) h refl] by (rule fineI)
next
  case (Tick i)
  then have h: "handle_held (Time i) s" using cancelled_freed(2) [OF assms, of i] by simp
  obtain d where "timers s i = Some d" using held_time [OF assms(1) h] by metis
  then have "run_event r s = (Inr (), s\<lparr>pulse_log := Called (Time i) # pulse_log s\<rparr>)" using Tick by (simp add: run_event_def exec_simps)
  then show ?thesis using log_only [OF assms(1) h refl] by (rule fineI)
qed

lemma born: "pulse_inv s \<Longrightarrow> sources s r \<noteq> None \<Longrightarrow> source_object r < allocated s"
  using pulse_invD(4) [of s "source_object r"] by (cases r) (force simp: source_object_def unborn_def)+

lemma read_cancel_fine:
  assumes "pulse_inv s" "sources s (Read i) = Some x" "src_cancelled x" "\<not> cancel_ran x"
  shows "fine (run_cancel (Read i) s)"
proof -
  note inv = pulse_invD [OF assms(1)]
  have i: "i < allocated s" using born [OF assms(1), of "Read i"] assms(2) by (simp add: source_object_def)
  obtain d where d: "duals s i = Some d"
    using inv(1) [of i] assms(2,4) by (auto simp: io_state_def retired_def split: option.splits)
  have log: "Destroyed (Io i) \<notin> set (pulse_log s)" using inv(1) [of i] d by (auto simp: io_state_def life_of_def)
  note fd = fds_drop [OF inv(5) d]
  let ?x = "x\<lparr>cancel_ran := True\<rparr>"
  show ?thesis
  proof (cases "sources s (Write i)")
    case None
    let ?t = "s\<lparr>sources := (sources s)(Read i := Some ?x), open_fds := open_fds s - {watchFd d}, duals := (duals s)(i := None)\<rparr>"
    have c: "on_cancel x = Some Close_and_delete" "Issued (Io i) \<notin> set (pulse_log s)"
      using inv(1) [of i] assms(2) d None by (auto simp: io_state_def life_of_def)
    have "run_cancel (Read i) s = (Inr (), ?t)"
      using assms(2) d c fd(1) by (simp add: run_cancel_def source_object_def exec_simps Let_def)
    moreover have "pulse_inv ?t"
      using assms c i None fd(2) inv(7) by (intro io_update [OF assms(1), where i = i and es = "[]"])
        (auto simp: io_state_def retired_def life_of_def)
    ultimately show ?thesis by (rule fineI)
  next
    case (Some y)
    have c: "on_cancel x = Some Count_down" "Issued (Io i) \<in> set (pulse_log s)" "Freed (Io i) \<in> set (pulse_log s)"
        "side_ok True (readResumed d) x" "side_ok True (writeResumed d) y" "pendingCancels d = 1 + pending y"
      using inv(1) [of i] assms(2-4) d Some by (auto simp: io_state_def life_of_def side_ok_def pending_def)
    show ?thesis
    proof (cases "cancel_ran y")
      case True
      let ?es = "if io_destroy d then [Destroyed (Io i)] else []"
      let ?t = "s\<lparr>sources := (sources s)(Read i := Some ?x), open_fds := open_fds s - {watchFd d}, duals := (duals s)(i := None), pulse_log := ?es @ pulse_log s\<rparr>"
      have "run_cancel (Read i) s = (Inr (), ?t)"
        using assms(2) d c(1,6) fd(1) True by (simp add: run_cancel_def source_object_def exec_simps Let_def pending_def)
      moreover have "pulse_inv ?t"
        using assms c i Some True fd(2) inv(7) log by (intro io_update [OF assms(1), where i = i and es = ?es])
          (auto simp: io_state_def retired_def life_of_def side_ok_def)
      ultimately show ?thesis by (rule fineI)
    next
      case False
      let ?t = "s\<lparr>sources := (sources s)(Read i := Some ?x), duals := (duals s)(i := Some (d\<lparr>pendingCancels := 1\<rparr>))\<rparr>"
      have "run_cancel (Read i) s = (Inr (), ?t)"
        using assms(2) d c(1,6) False by (simp add: run_cancel_def source_object_def exec_simps Let_def pending_def)
      moreover have "pulse_inv ?t"
        using assms c d i Some False inv log by (intro io_update [OF assms(1), where i = i and es = "[]"])
          (auto simp: io_state_def life_of_def side_ok_def pending_def fds_same)
      ultimately show ?thesis by (rule fineI)
    qed
  qed
qed

lemma write_cancel_fine:
  assumes "pulse_inv s" "sources s (Write i) = Some x" "src_cancelled x" "\<not> cancel_ran x"
  shows "fine (run_cancel (Write i) s)"
proof -
  note inv = pulse_invD [OF assms(1)]
  have i: "i < allocated s" using born [OF assms(1), of "Write i"] assms(2) by (simp add: source_object_def)
  obtain d where d: "duals s i = Some d"
    using inv(1) [of i] assms(2,4) by (auto simp: io_state_def retired_def split: option.splits)
  obtain y where y: "sources s (Read i) = Some y" using inv(1) [of i] assms(2) d by (auto simp: io_state_def split: option.splits)
  have log: "Destroyed (Io i) \<notin> set (pulse_log s)" using inv(1) [of i] d by (auto simp: io_state_def life_of_def)
  note fd = fds_drop [OF inv(5) d]
  let ?x = "x\<lparr>cancel_ran := True\<rparr>"
  have c: "on_cancel x = Some Count_down" "Issued (Io i) \<in> set (pulse_log s)" "Freed (Io i) \<in> set (pulse_log s)"
      "side_ok True (writeResumed d) x" "side_ok True (readResumed d) y" "pendingCancels d = pending y + 1"
    using inv(1) [of i] assms(2-4) d y by (auto simp: io_state_def life_of_def side_ok_def pending_def)
  show ?thesis
  proof (cases "cancel_ran y")
    case True
    let ?es = "if io_destroy d then [Destroyed (Io i)] else []"
    let ?t = "s\<lparr>sources := (sources s)(Write i := Some ?x), open_fds := open_fds s - {watchFd d}, duals := (duals s)(i := None), pulse_log := ?es @ pulse_log s\<rparr>"
    have "run_cancel (Write i) s = (Inr (), ?t)"
      using assms(2) d c(1,6) fd(1) True by (simp add: run_cancel_def source_object_def exec_simps Let_def pending_def)
    moreover have "pulse_inv ?t"
      using assms c i y True fd(2) inv(7) log by (intro io_update [OF assms(1), where i = i and es = ?es])
        (auto simp: io_state_def retired_def life_of_def side_ok_def)
    ultimately show ?thesis by (rule fineI)
  next
    case False
    let ?t = "s\<lparr>sources := (sources s)(Write i := Some ?x), duals := (duals s)(i := Some (d\<lparr>pendingCancels := 1\<rparr>))\<rparr>"
    have "run_cancel (Write i) s = (Inr (), ?t)"
      using assms(2) d c(1,6) False by (simp add: run_cancel_def source_object_def exec_simps Let_def pending_def)
    moreover have "pulse_inv ?t"
      using assms c d i y False inv log by (intro io_update [OF assms(1), where i = i and es = "[]"])
        (auto simp: io_state_def life_of_def side_ok_def pending_def fds_same)
    ultimately show ?thesis by (rule fineI)
  qed
qed

text \<open>Time events.\<close>

lemma time_cancel_fine:
  assumes "pulse_inv s" "sources s (Tick i) = Some x" "src_cancelled x" "\<not> cancel_ran x"
  shows "fine (run_cancel (Tick i) s)"
proof -
  note inv = pulse_invD [OF assms(1)]
  have i: "i < allocated s" using born [OF assms(1), of "Tick i"] assms(2) by (simp add: source_object_def)
  obtain d where d: "timers s i = Some d"
    using inv(2) [of i] assms(2,4) by (auto simp: time_state_def retired_def split: option.splits)
  have c: "on_cancel x = Some Delete_timer" "Issued (Time i) \<in> set (pulse_log s)" "Freed (Time i) \<in> set (pulse_log s)"
      "Destroyed (Time i) \<notin> set (pulse_log s)"
    using inv(2) [of i] assms(2-4) d by (auto simp: time_state_def life_of_def)
  let ?es = "if time_destroy d then [Destroyed (Time i)] else []"
  let ?t = "s\<lparr>sources := (sources s)(Tick i := Some (x\<lparr>cancel_ran := True\<rparr>)), timers := (timers s)(i := None), pulse_log := ?es @ pulse_log s\<rparr>"
  have "run_cancel (Tick i) s = (Inr (), ?t)"
    using assms(2) d c by (simp add: run_cancel_def source_object_def exec_simps Let_def)
  moreover have "pulse_inv ?t"
    using assms c i inv(7) by (intro time_update [OF assms(1), where i = i and es = ?es])
      (auto simp: time_state_def retired_def life_of_def)
  ultimately show ?thesis by (rule fineI)
qed

lemma time_new_fine:
  assumes "pulse_inv s"
  shows "fine (time_new tv s)"
proof -
  note inv = pulse_invD [OF assms(1)]
  let ?i = "allocated s"
  have new: "unborn ?i s" using inv(4) by simp
  have log: "Freed (Time ?i) \<notin> set (pulse_log s)" "Destroyed (Time ?i) \<notin> set (pulse_log s)"
    using new quiet_freed [OF inv(7)] quiet_destroyed [OF inv(7)] by (auto simp: unborn_def)
  let ?x = "\<lparr>suspensions = 0, src_cancelled = False, src_released = False, cancel_ran = False, event_handler = True, on_cancel = Some Delete_timer\<rparr>"
  let ?t = "s\<lparr>allocated := Suc ?i, timers := (timers s)(?i := Some (set_time tv \<lparr>timer_when = None, timer_tv = tv, time_destroy = False\<rparr>)),
    sources := (sources s)(Tick ?i := Some ?x), pulse_log := Issued (Time ?i) # pulse_log s\<rparr>"
  have "time_new tv s = (Inr (), ?t)" by (simp add: exec_simps Let_def)
  moreover have "pulse_inv ?t"
    using new inv log by (intro time_update [OF assms(1), where i = ?i and es = "[Issued (Time ?i)]"])
      (auto simp: time_state_def life_of_def unborn_def)
  ultimately show ?thesis by (rule fineI)
qed

lemma time_change:
  assumes "pulse_inv s" "handle_held (Time i) s"
  shows "pulse_inv (s\<lparr>timers := (timers s)(i := Some t)\<rparr>)"
proof -
  obtain d x where o: "timers s i = Some d" "sources s (Tick i) = Some x"
    "\<not> src_cancelled x" "suspensions x = 0" "\<not> cancel_ran x" "event_handler x" "on_cancel x = Some Delete_timer"
    "life_of (pulse_log s) (Time i) = \<lparr>l_issued = True, l_freed = False, l_destroyed = False\<rparr>" "i < allocated s"
    using held_time [OF assms] .
  then show ?thesis using pulse_invD(7) [OF assms(1)]
    by (intro time_update [OF assms(1), where i = i and es = "[]"]) (auto simp: time_state_def)
qed

lemma time_restart_fine: "pulse_inv s \<Longrightarrow> handle_held (Time i) s \<Longrightarrow> fine (time_restart i tv s)"
  by (rule held_time [of s i]) (auto simp: exec_simps fine_def time_change)

lemma time_set_destroy_fine: "pulse_inv s \<Longrightarrow> handle_held (Time i) s \<Longrightarrow> fine (time_set_destroy i b s)"
  by (rule held_time [of s i]) (auto simp: exec_simps fine_def time_change)

lemma time_free_fine:
  assumes "pulse_inv s" "handle_held (Time i) s"
  shows "fine (time_free i s)"
proof -
  obtain d x where o: "timers s i = Some d" "sources s (Tick i) = Some x"
    "\<not> src_cancelled x" "suspensions x = 0" "\<not> cancel_ran x" "event_handler x" "on_cancel x = Some Delete_timer"
    "life_of (pulse_log s) (Time i) = \<lparr>l_issued = True, l_freed = False, l_destroyed = False\<rparr>" "i < allocated s"
    using held_time [OF assms] .
  let ?t = "s\<lparr>sources := (sources s)(Tick i := Some (x\<lparr>src_cancelled := True, src_released := True\<rparr>)), pulse_log := Freed (Time i) # pulse_log s\<rparr>"
  have "time_free i s = (Inr (), ?t)" using o(1-4) by (simp add: exec_simps)
  moreover have "pulse_inv ?t"
    using o pulse_invD [OF assms(1)] by (intro time_update [OF assms(1), where i = i and es = "[Freed (Time i)]"])
      (auto simp: time_state_def life_of_def)
  ultimately show ?thesis by (rule fineI)
qed

text \<open>Defer events and the queue.\<close>

lemma defer_state_snoc:
  assumes "defer_state l e j q f" "t \<notin> {Fire j, Delete j}"
  shows "defer_state l e j (q @ [t]) f"
  using assms by (auto simp: defer_state_def last_delete_snoc split: option.splits)

lemma defer_state_tl:
  assumes "defer_state l e j (t # q) f" "t \<notin> {Fire j, Delete j}"
  shows "defer_state l e j q f"
  using assms by (auto simp: defer_state_def split: option.splits)

lemma defer_state_firing: "defer_state l e j q f \<Longrightarrow> f' \<noteq> Some j \<Longrightarrow> f \<noteq> Some j \<Longrightarrow> defer_state l e j q f'"
  by (auto simp: defer_state_def split: option.splits)

lemma defer_state_next: "defer_state l e j (t # q) None \<Longrightarrow> t \<notin> {Fire j, Delete j} \<Longrightarrow> f \<noteq> Some j \<Longrightarrow> defer_state l e j q f"
  by (auto simp: defer_state_def split: option.splits)

lemma defer_new_fine:
  assumes "pulse_inv s"
  shows "fine (defer_new s)"
proof -
  note inv = pulse_invD [OF assms(1)]
  let ?i = "allocated s"
  have new: "unborn ?i s" using inv(4) by simp
  have log: "Freed (Defer ?i) \<notin> set (pulse_log s)" "Destroyed (Defer ?i) \<notin> set (pulse_log s)"
    using new quiet_freed [OF inv(7)] quiet_destroyed [OF inv(7)] by (auto simp: unborn_def)
  let ?t = "s\<lparr>allocated := Suc ?i, defers := (defers s)(?i := Some \<lparr>active = True, defer_destroy = False\<rparr>),
    queue := queue s @ [Fire ?i], pulse_log := Issued (Defer ?i) # pulse_log s\<rparr>"
  have old: "Delete ?i \<notin> set (queue s)" "Fire ?i \<notin> set (queue s)" using new inv(3) [of ?i] by (auto simp: unborn_def defer_state_def)
  have "last_delete ?i (queue s)" using old(1) by (rule last_delete_none)
  have "defer_new s = (Inr (), ?t)" by (simp add: exec_simps Let_def)
  moreover have "pulse_inv ?t"
    using new inv log old \<open>last_delete ?i (queue s)\<close> by (intro defer_update [OF assms(1), where i = ?i and es = "[Issued (Defer ?i)]"])
      (auto simp: defer_state_def [of _ "Some _"] life_of_def unborn_def last_delete_snoc intro: defer_state_snoc)
  ultimately show ?thesis by (rule fineI)
qed

lemma defer_set_destroy_fine:
  assumes "pulse_inv s" "handle_held (Defer i) s"
  shows "fine (defer_set_destroy i b s)"
proof -
  note inv = pulse_invD [OF assms(1)]
  obtain e where o: "defers s i = Some e" "i < allocated s" using held_defer [OF assms] by metis
  let ?t = "s\<lparr>defers := (defers s)(i := Some (e\<lparr>defer_destroy := b\<rparr>))\<rparr>"
  have "defer_set_destroy i b s = (Inr (), ?t)" using o(1) by (simp add: exec_simps)
  moreover have "pulse_inv ?t"
    using o inv inv(3) [of i] by (intro defer_update [OF assms(1), where i = i and es = "[]"]) (auto simp: defer_state_def [of _ "Some _"])
  ultimately show ?thesis by (rule fineI)
qed

lemma defer_enable_fine:
  assumes "pulse_inv s" "handle_held (Defer i) s"
  shows "fine (defer_enable i b s)"
proof -
  note inv = pulse_invD [OF assms(1)]
  obtain e where o: "defers s i = Some e" "last_delete i (queue s)" "Delete i \<notin> set (queue s)"
    "active e \<longrightarrow> Fire i \<in> set (queue s) \<or> firing s = Some i"
    "life_of (pulse_log s) (Defer i) = \<lparr>l_issued = True, l_freed = False, l_destroyed = False\<rparr>" "i < allocated s"
    using held_defer [OF assms] .
  let ?q = "if \<not> active e \<and> b then queue s @ [Fire i] else queue s"
  let ?t = "s\<lparr>queue := ?q, defers := (defers s)(i := Some (e\<lparr>active := b\<rparr>))\<rparr>"
  have "defer_enable i b s = (Inr (), ?t)" using o(1) by (simp add: exec_simps Let_def)
  moreover have "pulse_inv ?t"
    using o inv by (intro defer_update [OF assms(1), where i = i and es = "[]"])
      (auto simp: defer_state_def [of _ "Some _"] last_delete_snoc intro: defer_state_snoc)
  ultimately show ?thesis by (rule fineI)
qed

lemma defer_free_fine:
  assumes "pulse_inv s" "handle_held (Defer i) s"
  shows "fine (defer_free i s)"
proof -
  note inv = pulse_invD [OF assms(1)]
  obtain e where o: "defers s i = Some e" "last_delete i (queue s)" "Delete i \<notin> set (queue s)"
    "active e \<longrightarrow> Fire i \<in> set (queue s) \<or> firing s = Some i"
    "life_of (pulse_log s) (Defer i) = \<lparr>l_issued = True, l_freed = False, l_destroyed = False\<rparr>" "i < allocated s"
    using held_defer [OF assms] .
  let ?t = "s\<lparr>defers := (defers s)(i := Some (e\<lparr>active := False\<rparr>)), queue := queue s @ [Delete i], pulse_log := Freed (Defer i) # pulse_log s\<rparr>"
  have "defer_free i s = (Inr (), ?t)" using o(1) by (simp add: exec_simps)
  moreover have "pulse_inv ?t"
    using o inv by (intro defer_update [OF assms(1), where i = i and es = "[Freed (Defer i)]"])
      (auto simp: defer_state_def [of _ "Some _"] life_of_def last_delete_snoc intro: defer_state_snoc)
  ultimately show ?thesis by (rule fineI)
qed

lemma defer_event_fired_fine:
  assumes "pulse_inv s" "firing s = Some i"
  shows "fine (defer_event_fired i s)"
proof -
  note inv = pulse_invD [OF assms(1)]
  obtain e where e: "defers s i = Some e" using inv(3) [of i] assms(2) by (auto simp: defer_state_def split: option.splits)
  have i: "i < allocated s" using inv(4) [of i] e by (force simp: unborn_def)
  let ?t = "s\<lparr>queue := if active e then queue s @ [Fire i] else queue s, firing := None\<rparr>"
  have "defer_event_fired i s = (Inr (), ?t)" using e by (simp add: exec_simps)
  moreover have "pulse_inv ?t"
    using e i inv inv(3) [of i] assms(2) by (intro defer_update [OF assms(1), where i = i and es = "[]"])
      (auto simp: defer_state_def [of _ "Some _"] last_delete_snoc intro!: defer_state_snoc intro: defer_state_firing)
  ultimately show ?thesis by (rule fineI)
qed

lemma ran_inv: "pulse_inv s \<Longrightarrow> pulse_inv (s\<lparr>pulse_log := Ran b # pulse_log s\<rparr>)"
  by (simp add: pulse_inv_def unborn_def life_of_def)

lemma run_next_fine:
  assumes "pulse_inv s" "queue s = t # q" "firing s = None"
  shows "fine (run_next s)"
proof (cases t)
  note inv = pulse_invD [OF assms(1)]
  {
    case (Fire i)
    obtain e where e: "defers s i = Some e" using inv(3) [of i] assms(2) Fire by (auto simp: defer_state_def split: option.splits)
    have i: "i < allocated s" using inv(4) [of i] e by (force simp: unborn_def)
    have l: "active e \<Longrightarrow> Issued (Defer i) \<in> set (pulse_log s) \<and> Freed (Defer i) \<notin> set (pulse_log s)"
      using inv(3) [of i] e by (auto simp: defer_state_def life_of_def)
    let ?es = "if active e then [Called (Defer i)] else []"
    let ?t = "s\<lparr>queue := q, firing := if active e then Some i else None, pulse_log := ?es @ pulse_log s\<rparr>"
    have "run_next s = (Inr (), ?t)" using Fire assms(2,3) e by (simp add: run_next_def exec_simps)
    moreover have "pulse_inv ?t"
      using e i l inv inv(3) [of i] assms(2,3) Fire by (intro defer_update [OF assms(1), where i = i and es = ?es])
        (auto simp: defer_state_def [of _ "Some _"] life_of_def intro: defer_state_next)
    ultimately show ?thesis by (rule fineI)
  next
    case (Delete i)
    obtain e where e: "defers s i = Some e" using inv(3) [of i] assms(2) Delete by (auto simp: defer_state_def split: option.splits)
    have i: "i < allocated s" using inv(4) [of i] e by (force simp: unborn_def)
    have l: "Issued (Defer i) \<in> set (pulse_log s)" "Freed (Defer i) \<in> set (pulse_log s)" "Destroyed (Defer i) \<notin> set (pulse_log s)"
        "Fire i \<notin> set q" "Delete i \<notin> set q"
      using inv(3) [of i] e assms(2) Delete by (auto simp: defer_state_def life_of_def)
    let ?es = "if defer_destroy e then [Destroyed (Defer i)] else []"
    let ?t = "s\<lparr>queue := q, defers := (defers s)(i := None), pulse_log := ?es @ pulse_log s\<rparr>"
    have "run_next s = (Inr (), ?t)" using Delete assms(2) e by (simp add: run_next_def exec_simps Let_def)
    moreover have "pulse_inv ?t"
      using i l inv inv(3) assms(2,3) Delete by (intro defer_update [OF assms(1), where i = i and es = ?es])
        (auto simp: defer_state_def [of _ None] life_of_def intro: defer_state_tl)
    ultimately show ?thesis by (rule fineI)
  next
    case (Block b)
    have "pulse_inv (s\<lparr>queue := q\<rparr>)"
      using inv assms(2) Block by (auto simp: pulse_inv_def unborn_def intro: defer_state_tl)
    moreover have "run_next s = (Inr (), s\<lparr>queue := q, pulse_log := Ran b # pulse_log s\<rparr>)" using Block assms(2) by (simp add: run_next_def exec_simps)
    ultimately show ?thesis using ran_inv [of "s\<lparr>queue := q\<rparr>" b] by (simp add: fine_def)
  }
qed

text \<open>All steps together.\<close>

lemma suspend_resume_fine:
  assumes "pulse_inv s"
  shows "fine (suspend s)" "fine (resume s)"
  using assms by (auto simp: suspend_def resume_def fine_def pulse_inv_def unborn_def)

lemma run_cancel_fine:
  assumes "pulse_inv s" "sources s r = Some x" "src_cancelled x" "\<not> cancel_ran x"
  shows "fine (run_cancel r s)"
  using assms read_cancel_fine write_cancel_fine time_cancel_fine by (cases r) simp_all

lemma perform_fine: "pulse_inv s \<Longrightarrow> fine (perform on_queue b s)"
  using ran_inv [of s b] by (auto simp: perform_def fine_def logged_def dispatch_async_def pulse_inv_def unborn_def intro!: defer_state_snoc)

lemma exec_pulse_fine:
  assumes "pulse_inv s" "pulse_allowed a s"
  shows "fine (exec_pulse a s)"
proof (cases a)
  case RunTask
  then obtain t q where "queue s = t # q" "firing s = None" using assms(2) by (auto simp: queue_idle_def neq_Nil_conv)
  then show ?thesis using run_next_fine assms(1) RunTask by simp
next
  case (RunEvent r)
  then show ?thesis using assms run_event_fine by (auto split: option.splits)
next
  case (RunCancel r)
  then show ?thesis using assms run_cancel_fine by (auto split: option.splits)
qed (use assms suspend_resume_fine io_new_fine io_enable_fine io_free_fine io_set_destroy_fine time_new_fine time_restart_fine
  time_set_destroy_fine time_free_fine defer_new_fine defer_set_destroy_fine defer_enable_fine defer_free_fine perform_fine
  defer_event_fired_fine in \<open>simp_all\<close>)

lemma pulse_reachable_inv: "pulse_reachable s \<Longrightarrow> pulse_inv s"
proof (induction rule: pulse_reachable.induct)
  case start
  show ?case by (rule new_loop_inv)
next
  case (step s a t)
  then show ?case using exec_pulse_fine [of s a] by (simp add: fine_def)
qed

lemma dispatch_contract:
  assumes "pulse_reachable s" "pulse_allowed a s"
  obtains t where "exec_pulse a s = (Inr (), t)" "pulse_reachable t"
proof -
  have "fst (exec_pulse a s) = Inr ()" using exec_pulse_fine [OF pulse_reachable_inv [OF assms(1)] assms(2)] by (simp add: fine_def)
  then obtain t where "exec_pulse a s = (Inr (), t)" by (cases "exec_pulse a s") simp
  then show thesis using that pulse_reachable.step [OF assms] by blast
qed

text \<open>
  C32: PulseAudio's events can be freed at any moment. Whatever the client does with the handles it holds
  and however the queue interleaves, no operation touches a deleted object, resumes a source too often,
  releases a suspended one or closes a descriptor twice; functions are called only for handles that were
  given out and not freed, a destroy function once and after the free; the duplicated descriptors open
  are those of the io events that still exist, one each; and the queue is suspended exactly when the
  loop says so, so that destroying the loop does not abort.
\<close>

theorem pulse_events_safe:
  assumes "pulse_reachable s" "pulse_allowed a s"
  shows "fst (exec_pulse a s) = Inr () \<and> quiet (pulse_log (snd (exec_pulse a s)))
    \<and> (\<forall>n. n \<in> open_fds s \<longleftrightarrow> (\<exists>i d. duals s i = Some d \<and> watchFd d = n))
    \<and> (\<forall>i j d e. duals s i = Some d \<and> duals s j = Some e \<and> watchFd d = watchFd e \<longrightarrow> i = j)
    \<and> fst (destroy_loop s) = Inr ()"
proof -
  note inv = pulse_reachable_inv [OF assms(1)]
  have "fine (exec_pulse a s)" by (rule exec_pulse_fine [OF inv assms(2)])
  moreover have "fds_ok (duals s) (open_fds s)" by (rule pulse_invD(5) [OF inv])
  then have "\<forall>n. n \<in> open_fds s \<longleftrightarrow> (\<exists>i d. duals s i = Some d \<and> watchFd d = n)"
    "\<forall>i j d e. duals s i = Some d \<and> duals s j = Some e \<and> watchFd d = watchFd e \<longrightarrow> i = j"
    by (simp_all add: fds_ok_def ran_def)
  moreover have "fst (destroy_loop s) = Inr ()"
    using pulse_invD(6) [OF inv] by (auto simp: destroy_loop_def resume_def)
  ultimately show ?thesis using pulse_invD(7) by (auto simp: fine_def)
qed

text \<open>A run used by the witnesses: an io event, freed, and its first cancellation.\<close>

fun run_pulse :: "pulse_action list \<Rightarrow> pulse_loop \<Rightarrow> pulse_loop" where
  "run_pulse [] s = s"
| "run_pulse (a # as) s = run_pulse as (snd (exec_pulse a s))"

fun all_allowed :: "pulse_action list \<Rightarrow> pulse_loop \<Rightarrow> bool" where
  "all_allowed [] s \<longleftrightarrow> True"
| "all_allowed (a # as) s \<longleftrightarrow> pulse_allowed a s \<and> all_allowed as (snd (exec_pulse a s))"

lemma run_pulse_reachable: "pulse_reachable s \<Longrightarrow> all_allowed as s \<Longrightarrow> pulse_reachable (run_pulse as s)"
proof (induction as arbitrary: s)
  case (Cons a as)
  obtain t where "exec_pulse a s = (Inr (), t)" "pulse_reachable t" using dispatch_contract Cons.prems by (metis all_allowed.simps(2))
  then show ?case using Cons by simp
qed simp

definition example_freed :: "pulse_action list" where
  "example_freed = [IoNew (Some 9) True True 3 {IO_INPUT}, Resume, RunEvent (Read 0), IoFree 0, RunCancel (Write 0)]"

lemma example_freed_allowed: "all_allowed example_freed new_loop"
  by (simp add: example_freed_def new_loop_def exec_simps wants_read_def wants_write_def resume_def run_event_def
    run_cancel_def source_object_def queue_idle_def handle_held_def Let_def)

theorem pulse_events_safe_witness:
  "let s = run_pulse example_freed new_loop in
     open_fds s = {9} \<and> fst (exec_pulse (RunCancel (Read 0)) s) = Inr () \<and> quiet (pulse_log (snd (exec_pulse (RunCancel (Read 0)) s)))"
proof -
  let ?s = "run_pulse example_freed new_loop"
  have r: "pulse_reachable ?s" by (rule run_pulse_reachable [OF pulse_reachable.start example_freed_allowed])
  have a: "pulse_allowed (RunCancel (Read 0)) ?s" "open_fds ?s = {9}"
    by (simp_all add: example_freed_def new_loop_def exec_simps wants_read_def wants_write_def resume_def run_event_def
      run_cancel_def source_object_def queue_idle_def handle_held_def Let_def)
  from pulse_events_safe [OF r a(1)] show ?thesis using a(2) by (simp only: Let_def simp_thms)
qed

subsection \<open>Freed events are deleted\<close>

text \<open>What the queue does by itself.\<close>

fun loop_action :: "pulse_action \<Rightarrow> bool" where
  "loop_action RunTask \<longleftrightarrow> True"
| "loop_action (Fired i) \<longleftrightarrow> True"
| "loop_action (RunCancel r) \<longleftrightarrow> True"
| "loop_action _ \<longleftrightarrow> False"

definition gone :: "pulse_handle \<Rightarrow> pulse_loop \<Rightarrow> bool" where
  "gone h s \<longleftrightarrow> (case h of Io i \<Rightarrow> duals s i = None | Time i \<Rightarrow> timers s i = None | Defer i \<Rightarrow> defers s i = None)"

lemma exec_fine_next: "pulse_inv s \<Longrightarrow> pulse_allowed a s \<Longrightarrow> pulse_inv (snd (exec_pulse a s))"
  using exec_pulse_fine [of s a] by (simp add: fine_def)

text \<open>The position of the deletion of a defer event.\<close>

lemma defer_gone:
  assumes "pulse_inv s" "queue_idle s" "queue s = xs @ Delete i # ys"
  shows "\<exists>as. list_all loop_action as \<and> length as \<le> 2 * length xs + 1 \<and> all_allowed as s \<and> defers (run_pulse as s) i = None"
  using assms
proof (induction xs arbitrary: s ys)
  case Nil
  obtain e where e: "defers s i = Some e" using pulse_invD(3) [OF Nil(1), of i] Nil(3) by (auto simp: defer_state_def split: option.splits)
  show ?case using Nil e by (intro exI [of _ "[RunTask]"]) (simp add: run_next_def exec_simps Let_def)
next
  case (Cons t xs)
  have al: "pulse_allowed RunTask s" using Cons.prems(2,3) by simp
  let ?s1 = "snd (exec_pulse RunTask s)"
  have inv1: "pulse_inv ?s1" by (rule exec_fine_next [OF Cons.prems(1) al])
  show ?case
  proof (cases "\<exists>j e. t = Fire j \<and> defers s j = Some e \<and> active e")
    case False
    have "queue ?s1 = xs @ Delete i # ys" "queue_idle ?s1"
      using Cons.prems(2,3) False by (auto simp: run_next_def exec_simps Let_def queue_idle_def split: task.splits option.splits)
    from Cons.IH [OF inv1 this(2,1)] obtain as where as: "list_all loop_action as" "length as \<le> 2 * length xs + 1"
      "all_allowed as ?s1" "defers (run_pulse as ?s1) i = None" by blast
    then show ?thesis using al by (intro exI [of _ "RunTask # as"]) simp
  next
    case True
    then obtain j e where j: "t = Fire j" "defers s j = Some e" "active e" by blast
    have s1: "queue ?s1 = xs @ Delete i # ys" "firing ?s1 = Some j" "queue_suspensions ?s1 = 0" "defers ?s1 j = Some e"
      using Cons.prems(2,3) j by (simp_all add: run_next_def exec_simps Let_def queue_idle_def)
    have al2: "pulse_allowed (Fired j) ?s1" using s1 by simp
    let ?s2 = "snd (exec_pulse (Fired j) ?s1)"
    have s2: "pulse_inv ?s2" "queue ?s2 = xs @ Delete i # ys @ [Fire j]" "queue_idle ?s2"
      using exec_fine_next [OF inv1 al2] s1 j by (simp_all add: exec_simps queue_idle_def)
    from Cons.IH [OF s2(1,3,2)] obtain as where as: "list_all loop_action as" "length as \<le> 2 * length xs + 1"
      "all_allowed as ?s2" "defers (run_pulse as ?s2) i = None" by blast
    then show ?thesis using al al2 by (intro exI [of _ "RunTask # Fired j # as"]) simp
  qed
qed

lemma time_gone:
  assumes "pulse_inv s" "queue_idle s" "Freed (Time i) \<in> set (pulse_log s)" "timers s i = Some t"
  shows "pulse_allowed (RunCancel (Tick i)) s \<and> timers (snd (exec_pulse (RunCancel (Tick i)) s)) i = None"
proof -
  obtain x where x: "sources s (Tick i) = Some x" "src_cancelled x" "suspensions x = 0" "\<not> cancel_ran x" "on_cancel x = Some Delete_timer"
    using pulse_invD(2) [OF assms(1), of i] assms(3,4) by (auto simp: time_state_def life_of_def split: option.splits)
  then show ?thesis using assms(2,4) by (simp add: run_cancel_def source_object_def exec_simps Let_def)
qed

text \<open>One side of a freed io event, the other being \<open>r'\<close>.\<close>

lemma io_side:
  assumes "pulse_inv s" "queue_idle s" "Freed (Io i) \<in> set (pulse_log s)" "duals s i = Some d" "r \<in> {Read i, Write i}"
    "sources s r = Some x" "\<not> cancel_ran x"
  defines "t \<equiv> snd (exec_pulse (RunCancel r) s)"
  shows "pulse_allowed (RunCancel r) s \<and> queue_idle t \<and> Freed (Io i) \<in> set (pulse_log t)
    \<and> (duals t i = None \<or> (duals t i = Some (d\<lparr>pendingCancels := 1\<rparr>) \<and> pendingCancels d = 2))"
proof -
  note io = pulse_invD(1) [OF assms(1), of i] and fd = fds_drop(1) [OF pulse_invD(5) [OF assms(1)] assms(4)]
  have "Issued (Io i) \<in> set (pulse_log s)" using quiet_freed [OF pulse_invD(7) [OF assms(1)] assms(3)] .
  then obtain y z where y: "sources s (Read i) = Some y" "sources s (Write i) = Some z" "side_ok True (readResumed d) y"
      "side_ok True (writeResumed d) z" "pendingCancels d = pending y + pending z"
    using io assms(3,4) by (auto simp: io_state_def life_of_def split: option.splits)
  have x: "on_cancel x = Some Count_down" "suspensions x = 0" "src_cancelled x" "pendingCancels d = 1 \<or> pendingCancels d = 2"
    "source_object r = i"
    using y assms(5-7) by (auto simp: side_ok_def pending_def source_object_def)
  then show ?thesis using assms(2-4,6,7) fd unfolding t_def
    by (auto simp: run_cancel_def exec_simps Let_def queue_idle_def)
qed

lemma io_gone:
  assumes "pulse_inv s" "queue_idle s" "Freed (Io i) \<in> set (pulse_log s)" "duals s i = Some d"
  shows "\<exists>as. list_all loop_action as \<and> length as \<le> 2 \<and> all_allowed as s \<and> duals (run_pulse as s) i = None"
proof -
  have side: "\<exists>r \<in> {Read i, Write i}. \<exists>x. sources u r = Some x \<and> \<not> cancel_ran x"
    if u: "pulse_inv u" "Freed (Io i) \<in> set (pulse_log u)" "duals u i = Some d'" for u d'
    using pulse_invD(1) [OF u(1), of i] u(2,3)
    by (auto simp: io_state_def life_of_def pending_def split: option.splits if_splits)
  obtain r x where r: "r \<in> {Read i, Write i}" "sources s r = Some x" "\<not> cancel_ran x" using side [OF assms(1,3,4)] by blast
  let ?t = "snd (exec_pulse (RunCancel r) s)"
  note first = io_side [OF assms r]
  show ?thesis
  proof (cases "duals ?t i")
    case None
    then show ?thesis using first by (intro exI [of _ "[RunCancel r]"]) simp
  next
    case (Some d')
    have inv: "pulse_inv ?t" using first exec_fine_next [OF assms(1)] by blast
    obtain r' x' where r': "r' \<in> {Read i, Write i}" "sources ?t r' = Some x'" "\<not> cancel_ran x'" using side [OF inv _ Some] first by blast
    have "pendingCancels d' \<noteq> 2" using first Some by auto
    then have "pulse_allowed (RunCancel r') ?t" "duals (snd (exec_pulse (RunCancel r') ?t)) i = None"
      using io_side [OF inv _ _ Some r'] first by auto
    then show ?thesis using first by (intro exI [of _ "[RunCancel r, RunCancel r']"]) simp
  qed
qed



subsection \<open>Fires of a defer event\<close>

text \<open>
  An active event always has a fire in the queue or is being fired. But switching it off and on again
  while a fire is queued adds another, and as every fire queues the next they stay: from then on the
  function runs twice as often, until the event is switched off for a whole round.
\<close>

lemma active_defer_fires:
  assumes "pulse_reachable s" "defers s i = Some e" "active e"
  shows "Fire i \<in> set (queue s) \<or> firing s = Some i"
  using pulse_invD(3) [OF pulse_reachable_inv [OF assms(1)], of i] assms(2,3) by (simp add: defer_state_def)

definition fires :: "nat \<Rightarrow> pulse_loop \<Rightarrow> nat" where
  "fires i s = count_list (queue s) (Fire i)"

lemma reenabled_defer_fires_twice:
  assumes "defers s i = Some e" "active e"
  shows "fires i (run_pulse [DeferEnable i False, DeferEnable i True] s) = fires i s + 1"
  using assms by (simp add: exec_simps Let_def fires_def)

lemma fires_stay:
  assumes "queue s = Fire i # q" "defers s i = Some e" "active e"
  shows "fires i (run_pulse [RunTask, Fired i] s) = fires i s"
  using assms by (simp add: run_next_def exec_simps Let_def fires_def)

end
