(* ===== verification/MachSemaphores.thy ===== *)
theory MachSemaphores
  imports Prelude
begin

section \<open>Mach semaphores on futexes\<close>

text \<open>
  \<open>runtime/shims/kqueue/semaphore.c\<close>: one slot of the table of local semaphores under any number of
  threads. Every atomic access of the source is a step of its own, a thread's program counter says
  which comes next, and all interleavings of the steps are considered; the accesses are taken to be
  sequentially consistent. Two groups of accesses are one step: the loads of \<open>dead\<close> and \<open>generation\<close> in
  \<open>current\<close>, and the three stores \<open>semaphore_destroy\<close> makes under the lock; likewise the stores with which
  \<open>semaphore_create\<close> sets up a slot it has taken from the free list.

  Slots share nothing but the free list, so one slot is enough; \<open>in_free_list\<close> counts how often it is in
  the list. A semaphore's count is an unbounded integer, as are the counts of grants and users: fewer
  than \<open>2 ^ 31\<close> of each are assumed. \<open>in_use\<close>, \<open>posted\<close>, \<open>taken\<close>, \<open>first_count\<close>, \<open>destroy_grant\<close>
  and \<open>issued_names\<close> record what happened and are read by no operation.
\<close>

subsection \<open>Names\<close>

definition sem_tag :: u32 where "sem_tag = 0x40000000"

definition slot_count :: u32 where "slot_count = 4096"

definition generation_mask :: u32 where "generation_mask = 0x3ff"

text \<open>The name \<open>semaphore_create\<close> gives to a slot of the table, and what \<open>lookup\<close> reads from a name.\<close>

definition sem_name :: "u32 \<Rightarrow> u32 \<Rightarrow> u32" where
  "sem_name generation slot = sem_tag OR push_bit 20 (generation AND generation_mask) OR push_bit 8 slot"

definition sem_lookup :: "u32 \<Rightarrow> (u32 \<times> u32) option" where
  "sem_lookup name =
     (if name AND 0xc00000ff \<noteq> sem_tag then None
      else Some (drop_bit 8 name AND (slot_count - 1), drop_bit 20 name AND generation_mask))"

subsection \<open>Threads\<close>

datatype kern_return = KERN_SUCCESS | KERN_INVALID_ARGUMENT | KERN_NOT_WAITING | KERN_OPERATION_TIMED_OUT | KERN_TERMINATED

datatype wait_time = Poll | Timed | Forever

datatype sem_op = Signal | SignalAll | SignalThread | Wait wait_time

text \<open>
  Where a thread is. \<open>Looping\<close>, \<open>Loading\<close>, \<open>Taking\<close>, \<open>Timing\<close>, \<open>Withdrawing\<close> and \<open>Futex\<close> are the loop of
  \<open>wait_local\<close> with the generation, whether there is a deadline and the flag \<open>withdrawn\<close>; the expected
  values of compare-and-exchange loops are kept with their places.
\<close>

datatype sem_pc =
    Entering sem_op nat
  | Checking sem_op nat
  | Adding nat
  | AllLoad nat
  | AllSwap nat int
  | OneLoad nat
  | OneSwap nat int
  | GrantAdd nat nat
  | GrantWake nat nat
  | WaitLoad wait_time nat
  | WaitSwap wait_time nat int
  | WaitSub wait_time nat
  | Looping nat bool bool
  | Loading nat bool bool
  | Taking nat bool bool nat
  | Timing nat bool bool
  | WithdrawLoad nat bool
  | WithdrawSwap nat bool int
  | Futex nat bool bool
  | Sleeping nat bool bool
  | Leaving kern_return
  | ReleaseCheck kern_return
  | ReleaseSwap kern_return
  | ReleasePush kern_return
  | Destroying nat
  | DestroyAdd
  | DestroyWake
  | Creating nat
  | Filling nat
  | Returned kern_return
  | Created nat
  | NoSlot

record sem_slot =
  sem_count :: int
  wakeups :: nat
  users :: nat
  generation :: nat
  dead :: bool
  released :: bool
  in_free_list :: nat
  threads :: "sem_pc list"
  in_use :: bool
  first_count :: nat
  posted :: nat
  taken :: nat
  destroy_grant :: nat
  issued_names :: "nat set"

text \<open>A slot never used: the table is zero, and \<open>next_unused\<close> offers it as the free list does later.\<close>

definition unused_slot :: sem_slot where
  "unused_slot = \<lparr>sem_count = 0, wakeups = 0, users = 0, generation = 0, dead = False, released = False, in_free_list = 1,
     threads = [], in_use = False, first_count = 0, posted = 0, taken = 0, destroy_grant = 0, issued_names = {}\<rparr>"

definition current :: "sem_slot \<Rightarrow> nat \<Rightarrow> bool" where
  "current s g \<longleftrightarrow> \<not> dead s \<and> generation s mod 1024 = g"

definition goto :: "nat \<Rightarrow> sem_pc \<Rightarrow> sem_slot \<Rightarrow> sem_slot" where
  "goto i p s = s\<lparr>threads := (threads s)[i := p]\<rparr>"

subsection \<open>Entering and leaving\<close>

fun op_begin :: "sem_op \<Rightarrow> nat \<Rightarrow> sem_pc" where
  "op_begin Signal g = Adding g"
| "op_begin SignalAll g = AllLoad g"
| "op_begin SignalThread g = OneLoad g"
| "op_begin (Wait w) g = WaitLoad w g"

definition sem_enter :: "nat \<Rightarrow> sem_op \<Rightarrow> nat \<Rightarrow> sem_slot \<Rightarrow> sem_slot" where
  "sem_enter i p g s = goto i (Checking p g) (s\<lparr>users := users s + 1\<rparr>)"

definition sem_check :: "nat \<Rightarrow> sem_op \<Rightarrow> nat \<Rightarrow> sem_slot \<Rightarrow> sem_slot" where
  "sem_check i p g s = goto i (if current s g then op_begin p g else Leaving KERN_INVALID_ARGUMENT) s"

definition sem_leave :: "nat \<Rightarrow> kern_return \<Rightarrow> sem_slot \<Rightarrow> sem_slot" where
  "sem_leave i r s = goto i (if users s = 1 then ReleaseCheck r else Returned r) (s\<lparr>users := users s - 1\<rparr>)"

text \<open>\<open>release_if_idle\<close>: the loads, the exchange of \<open>released\<close> and the insertion into the free list.\<close>

definition release_check :: "nat \<Rightarrow> kern_return \<Rightarrow> sem_slot \<Rightarrow> sem_slot" where
  "release_check i r s = goto i (if \<not> dead s \<or> users s \<noteq> 0 then Returned r else ReleaseSwap r) s"

definition release_swap :: "nat \<Rightarrow> kern_return \<Rightarrow> sem_slot \<Rightarrow> sem_slot" where
  "release_swap i r s = (if released s then goto i (Returned r) s else goto i (ReleasePush r) (s\<lparr>released := True\<rparr>))"

definition release_push :: "nat \<Rightarrow> kern_return \<Rightarrow> sem_slot \<Rightarrow> sem_slot" where
  "release_push i r s = goto i (Returned r) (s\<lparr>in_free_list := in_free_list s + 1\<rparr>)"

subsection \<open>Creating and destroying\<close>

definition create_pop :: "nat \<Rightarrow> nat \<Rightarrow> sem_slot \<Rightarrow> sem_slot" where
  "create_pop i v s = (if in_free_list s = 0 then goto i NoSlot s else goto i (Filling v) (s\<lparr>in_free_list := in_free_list s - 1\<rparr>))"

definition create_fill :: "nat \<Rightarrow> nat \<Rightarrow> sem_slot \<Rightarrow> sem_slot" where
  "create_fill i v s =
     (let g = generation s mod 1024 in
      goto i (Created g) (s\<lparr>sem_count := int v, wakeups := 0, released := False, dead := False,
        in_use := True, first_count := v, posted := 0, taken := 0, destroy_grant := 0, issued_names := insert g (issued_names s)\<rparr>))"

definition destroy_begin :: "nat \<Rightarrow> nat \<Rightarrow> sem_slot \<Rightarrow> sem_slot" where
  "destroy_begin i g s =
     (if current s g
      then goto i DestroyAdd (s\<lparr>users := users s + 1, generation := generation s + 1, dead := True, in_use := False\<rparr>)
      else goto i (Returned KERN_INVALID_ARGUMENT) s)"

definition destroy_add :: "nat \<Rightarrow> sem_slot \<Rightarrow> sem_slot" where
  "destroy_add i s = goto i DestroyWake (s\<lparr>wakeups := wakeups s + 1, destroy_grant := destroy_grant s + 1\<rparr>)"

subsection \<open>Signals\<close>

definition signal_add :: "nat \<Rightarrow> nat \<Rightarrow> sem_slot \<Rightarrow> sem_slot" where
  "signal_add i g s =
     goto i (if sem_count s < 0 then GrantAdd g 1 else Leaving KERN_SUCCESS) (s\<lparr>sem_count := sem_count s + 1, posted := posted s + 1\<rparr>)"

definition all_seen :: "nat \<Rightarrow> int \<Rightarrow> sem_pc" where
  "all_seen g c = (if c < 0 then AllSwap g c else Leaving KERN_SUCCESS)"

definition all_swap :: "nat \<Rightarrow> nat \<Rightarrow> int \<Rightarrow> sem_slot \<Rightarrow> sem_slot" where
  "all_swap i g c s =
     (if sem_count s = c then goto i (GrantAdd g (nat (- c))) (s\<lparr>sem_count := 0, posted := posted s + nat (- c)\<rparr>)
      else goto i (all_seen g (sem_count s)) s)"

definition one_seen :: "nat \<Rightarrow> int \<Rightarrow> sem_pc" where
  "one_seen g c = (if c < 0 then OneSwap g c else Leaving KERN_NOT_WAITING)"

definition one_swap :: "nat \<Rightarrow> nat \<Rightarrow> int \<Rightarrow> sem_slot \<Rightarrow> sem_slot" where
  "one_swap i g c s =
     (if sem_count s = c then goto i (GrantAdd g 1) (s\<lparr>sem_count := c + 1, posted := posted s + 1\<rparr>)
      else goto i (one_seen g (sem_count s)) s)"

text \<open>\<open>grant\<close>: the count of grants, then the wake call.\<close>

definition grant_add :: "nat \<Rightarrow> nat \<Rightarrow> nat \<Rightarrow> sem_slot \<Rightarrow> sem_slot" where
  "grant_add i g n s = goto i (GrantWake g n) (s\<lparr>wakeups := wakeups s + n\<rparr>)"

fun is_sleeping :: "sem_pc \<Rightarrow> bool" where
  "is_sleeping (Sleeping g t w) \<longleftrightarrow> True"
| "is_sleeping p \<longleftrightarrow> False"

fun wake_pc :: "sem_pc \<Rightarrow> sem_pc" where
  "wake_pc (Sleeping g t w) = Looping g t w"
| "wake_pc p = p"

text \<open>The kernel wakes the sleepers at the places \<open>ws\<close>, at most \<open>n\<close> of them and all when there are no more.\<close>

definition wakes :: "nat \<Rightarrow> nat set \<Rightarrow> sem_slot \<Rightarrow> bool" where
  "wakes n ws s \<longleftrightarrow> (let sleepers = {j. j < length (threads s) \<and> is_sleeping (threads s ! j)} in
     ws \<subseteq> sleepers \<and> card ws = min n (card sleepers))"

definition wake_at :: "nat set \<Rightarrow> sem_pc list \<Rightarrow> sem_pc list" where
  "wake_at ws ps = map (\<lambda>j. if j \<in> ws then wake_pc (ps ! j) else ps ! j) [0..<length ps]"

definition futex_wake :: "nat set \<Rightarrow> sem_slot \<Rightarrow> sem_slot" where
  "futex_wake ws s = s\<lparr>threads := wake_at ws (threads s)\<rparr>"

definition wake_all :: "sem_slot \<Rightarrow> sem_slot" where
  "wake_all s = s\<lparr>threads := map wake_pc (threads s)\<rparr>"

subsection \<open>Waiting\<close>

definition wait_seen :: "wait_time \<Rightarrow> nat \<Rightarrow> int \<Rightarrow> sem_pc" where
  "wait_seen t g c = (if c > 0 then WaitSwap t g c else if t = Poll then Leaving KERN_OPERATION_TIMED_OUT else WaitSub t g)"

definition wait_swap :: "nat \<Rightarrow> wait_time \<Rightarrow> nat \<Rightarrow> int \<Rightarrow> sem_slot \<Rightarrow> sem_slot" where
  "wait_swap i t g c s =
     (if sem_count s = c then goto i (Leaving KERN_SUCCESS) (s\<lparr>sem_count := c - 1, taken := taken s + 1\<rparr>)
      else goto i (wait_seen t g (sem_count s)) s)"

definition wait_sub :: "nat \<Rightarrow> wait_time \<Rightarrow> nat \<Rightarrow> sem_slot \<Rightarrow> sem_slot" where
  "wait_sub i t g s =
     (if sem_count s - 1 \<ge> 0 then goto i (Leaving KERN_SUCCESS) (s\<lparr>sem_count := sem_count s - 1, taken := taken s + 1\<rparr>)
      else goto i (Looping g (t = Timed) False) (s\<lparr>sem_count := sem_count s - 1\<rparr>))"

definition loop_check :: "nat \<Rightarrow> nat \<Rightarrow> bool \<Rightarrow> bool \<Rightarrow> sem_slot \<Rightarrow> sem_slot" where
  "loop_check i g t w s = goto i (if current s g then Loading g t w else Leaving KERN_TERMINATED) s"

definition wakeups_seen :: "nat \<Rightarrow> bool \<Rightarrow> bool \<Rightarrow> nat \<Rightarrow> sem_pc" where
  "wakeups_seen g t w n = (if n \<noteq> 0 then Taking g t w n else Timing g t w)"

definition take_wakeup :: "nat \<Rightarrow> nat \<Rightarrow> bool \<Rightarrow> bool \<Rightarrow> nat \<Rightarrow> sem_slot \<Rightarrow> sem_slot" where
  "take_wakeup i g t w n s =
     (if wakeups s = n then goto i (Leaving KERN_SUCCESS) (s\<lparr>wakeups := n - 1, taken := taken s + 1\<rparr>)
      else goto i (wakeups_seen g t w (wakeups s)) s)"

text \<open>The clock is an argument: whether the deadline has passed.\<close>

definition loop_time :: "nat \<Rightarrow> nat \<Rightarrow> bool \<Rightarrow> bool \<Rightarrow> bool \<Rightarrow> sem_slot \<Rightarrow> sem_slot" where
  "loop_time i g t w passed s = goto i (if t \<and> \<not> w \<and> passed then WithdrawLoad g t else Futex g t w) s"

definition withdraw_seen :: "nat \<Rightarrow> bool \<Rightarrow> int \<Rightarrow> sem_pc" where
  "withdraw_seen g t c = (if c < 0 then WithdrawSwap g t c else Looping g t True)"

definition withdraw_swap :: "nat \<Rightarrow> nat \<Rightarrow> bool \<Rightarrow> int \<Rightarrow> sem_slot \<Rightarrow> sem_slot" where
  "withdraw_swap i g t c s =
     (if sem_count s = c then goto i (Leaving KERN_OPERATION_TIMED_OUT) (s\<lparr>sem_count := c + 1\<rparr>)
      else goto i (withdraw_seen g t (sem_count s)) s)"

text \<open>The futex call sleeps only when there is no grant.\<close>

definition futex_wait :: "nat \<Rightarrow> nat \<Rightarrow> bool \<Rightarrow> bool \<Rightarrow> sem_slot \<Rightarrow> sem_slot" where
  "futex_wait i g t w s = goto i (if wakeups s \<noteq> 0 then Looping g t w else Sleeping g t w) s"

subsection \<open>The step of a thread\<close>

text \<open>\<open>passed\<close> is what the clock says and \<open>ws\<close> whom the kernel wakes; a sleeper that steps was interrupted or timed out.\<close>

fun step_at :: "nat \<Rightarrow> bool \<Rightarrow> nat set \<Rightarrow> sem_pc \<Rightarrow> sem_slot \<Rightarrow> sem_slot" where
  "step_at i passed ws (Entering p g) s = sem_enter i p g s"
| "step_at i passed ws (Checking p g) s = sem_check i p g s"
| "step_at i passed ws (Adding g) s = signal_add i g s"
| "step_at i passed ws (AllLoad g) s = goto i (all_seen g (sem_count s)) s"
| "step_at i passed ws (AllSwap g c) s = all_swap i g c s"
| "step_at i passed ws (OneLoad g) s = goto i (one_seen g (sem_count s)) s"
| "step_at i passed ws (OneSwap g c) s = one_swap i g c s"
| "step_at i passed ws (GrantAdd g n) s = grant_add i g n s"
| "step_at i passed ws (GrantWake g n) s = goto i (Leaving KERN_SUCCESS) (futex_wake ws s)"
| "step_at i passed ws (WaitLoad t g) s = goto i (wait_seen t g (sem_count s)) s"
| "step_at i passed ws (WaitSwap t g c) s = wait_swap i t g c s"
| "step_at i passed ws (WaitSub t g) s = wait_sub i t g s"
| "step_at i passed ws (Looping g t w) s = loop_check i g t w s"
| "step_at i passed ws (Loading g t w) s = goto i (wakeups_seen g t w (wakeups s)) s"
| "step_at i passed ws (Taking g t w n) s = take_wakeup i g t w n s"
| "step_at i passed ws (Timing g t w) s = loop_time i g t w passed s"
| "step_at i passed ws (WithdrawLoad g t) s = goto i (withdraw_seen g t (sem_count s)) s"
| "step_at i passed ws (WithdrawSwap g t c) s = withdraw_swap i g t c s"
| "step_at i passed ws (Futex g t w) s = futex_wait i g t w s"
| "step_at i passed ws (Sleeping g t w) s = goto i (Looping g t w) s"
| "step_at i passed ws (Leaving r) s = sem_leave i r s"
| "step_at i passed ws (ReleaseCheck r) s = release_check i r s"
| "step_at i passed ws (ReleaseSwap r) s = release_swap i r s"
| "step_at i passed ws (ReleasePush r) s = release_push i r s"
| "step_at i passed ws (Destroying g) s = destroy_begin i g s"
| "step_at i passed ws DestroyAdd s = destroy_add i s"
| "step_at i passed ws DestroyWake s = goto i (Leaving KERN_SUCCESS) (wake_all s)"
| "step_at i passed ws (Creating v) s = create_pop i v s"
| "step_at i passed ws (Filling v) s = create_fill i v s"
| "step_at i passed ws (Returned r) s = s"
| "step_at i passed ws (Created g) s = s"
| "step_at i passed ws NoSlot s = s"

fun ended :: "sem_pc \<Rightarrow> bool" where
  "ended (Returned r) \<longleftrightarrow> True"
| "ended (Created g) \<longleftrightarrow> True"
| "ended NoSlot \<longleftrightarrow> True"
| "ended p \<longleftrightarrow> False"

definition run_thread :: "nat \<Rightarrow> bool \<Rightarrow> nat set \<Rightarrow> sem_slot \<Rightarrow> sem_slot" where
  "run_thread i passed ws s = step_at i passed ws (threads s ! i) s"

text \<open>
  A call of the client: it may use every name it was given, stale ones too. \<open>calm\<close> restricts the steps:
  no slot is set up while a thread has found it idle but not yet exchanged \<open>released\<close>.
\<close>

fun starts :: "sem_slot \<Rightarrow> sem_pc \<Rightarrow> bool" where
  "starts s (Entering p g) \<longleftrightarrow> g \<in> issued_names s"
| "starts s (Destroying g) \<longleftrightarrow> g \<in> issued_names s"
| "starts s (Creating v) \<longleftrightarrow> True"
| "starts s p \<longleftrightarrow> False"

fun releasing :: "sem_pc \<Rightarrow> bool" where
  "releasing (ReleaseSwap r) \<longleftrightarrow> True"
| "releasing p \<longleftrightarrow> False"

fun filling :: "sem_pc \<Rightarrow> bool" where
  "filling (Filling v) \<longleftrightarrow> True"
| "filling p \<longleftrightarrow> False"

inductive sem_step :: "bool \<Rightarrow> sem_slot \<Rightarrow> sem_slot \<Rightarrow> bool" for calm where
  call: "starts s p \<Longrightarrow> sem_step calm s (s\<lparr>threads := threads s @ [p]\<rparr>)"
| thread: "i < length (threads s) \<Longrightarrow> \<not> ended (threads s ! i)
    \<Longrightarrow> (case threads s ! i of GrantWake g n \<Rightarrow> wakes n ws s | _ \<Rightarrow> True)
    \<Longrightarrow> calm \<longrightarrow> filling (threads s ! i) \<longrightarrow> (\<forall>p \<in> set (threads s). \<not> releasing p)
    \<Longrightarrow> sem_step calm s (run_thread i passed ws s)"

inductive sem_reachable :: "bool \<Rightarrow> sem_slot \<Rightarrow> bool" for calm where
  start: "sem_reachable calm unused_slot"
| step: "sem_reachable calm s \<Longrightarrow> sem_step calm s t \<Longrightarrow> sem_reachable calm t"

subsection \<open>Timeouts\<close>

text \<open>
  The nanoseconds given to \<open>wait_local\<close>, a signed 64 bit number: of \<open>semaphore_timedwait\<close> and of
  \<open>semwait_signal\<close> with a timeout, for which \<open>now_sec\<close> and \<open>now_usec\<close> are what \<open>gettimeofday\<close> says.
  \<open>None\<close> is the return for an invalid time, before any wait.
\<close>

definition billion :: u64 where "billion = 1000000000"

definition timedwait_ns :: "u32 \<Rightarrow> u32 \<Rightarrow> u64 option" where
  "timedwait_ns tv_sec tv_nsec =
     (if tv_nsec <s 0 \<or> 1000000000 \<le>s tv_nsec then None else Some (ucast tv_sec * billion + scast tv_nsec))"

definition semwait_ns :: "bool \<Rightarrow> u64 \<Rightarrow> u32 \<Rightarrow> u64 \<Rightarrow> u64 \<Rightarrow> u64 option" where
  "semwait_ns relative sec nsec now_sec now_usec =
     (if sec <s 0 \<or> nsec <s 0 \<or> 1000000000 \<le>s nsec then None
      else let wait_ns = (if billion <s sec then - 1 else sec * billion + scast nsec) in
        Some (if \<not> relative \<and> 0 \<le>s wait_ns
              then let wait_ns = wait_ns - (now_sec * billion + now_usec * 1000) in if wait_ns <s 0 then 0 else wait_ns
              else wait_ns))"

text \<open>How \<open>wait_local\<close> reads its timeout.\<close>

definition wait_time_of :: "u64 \<Rightarrow> wait_time" where
  "wait_time_of timeout_ns = (if timeout_ns = 0 then Poll else if 0 <s timeout_ns then Timed else Forever)"

datatype wait_errno = Waited | ETIMEDOUT | EINVAL

definition semwait_result :: "kern_return \<Rightarrow> wait_errno" where
  "semwait_result r = (if r = KERN_SUCCESS then Waited else if r = KERN_OPERATION_TIMED_OUT then ETIMEDOUT else EINVAL)"

end
