(* ===== verification/SemaphoreSafety.thy ===== *)
theory SemaphoreSafety
  imports MachSemaphores
begin

section \<open>Permits, slots and wakeups of a semaphore\<close>

text \<open>
  The invariant of one slot counts threads: those inside an operation, those waiting, the grants on
  their way, and the one token that says where the slot is: free, being set up, in use, or dead.
\<close>

subsection \<open>Counting threads\<close>

definition tally :: "(sem_pc \<Rightarrow> nat) \<Rightarrow> sem_slot \<Rightarrow> nat" where
  "tally f s = sum_list (map f (threads s))"

fun inside :: "sem_pc \<Rightarrow> nat" where
  "inside (Entering p g) = 0"
| "inside (ReleaseCheck r) = 0"
| "inside (ReleaseSwap r) = 0"
| "inside (ReleasePush r) = 0"
| "inside (Destroying g) = 0"
| "inside (Creating v) = 0"
| "inside (Filling v) = 0"
| "inside (Returned r) = 0"
| "inside (Created g) = 0"
| "inside NoSlot = 0"
| "inside p = 1"

fun working :: "sem_pc \<Rightarrow> nat" where
  "working (Checking p g) = 0"
| "working (Leaving r) = 0"
| "working p = inside p"

fun waiting :: "sem_pc \<Rightarrow> nat" where
  "waiting (Looping g t w) = 1"
| "waiting (Loading g t w) = 1"
| "waiting (Taking g t w n) = 1"
| "waiting (Timing g t w) = 1"
| "waiting (WithdrawLoad g t) = 1"
| "waiting (WithdrawSwap g t c) = 1"
| "waiting (Futex g t w) = 1"
| "waiting (Sleeping g t w) = 1"
| "waiting p = 0"

fun granting :: "sem_pc \<Rightarrow> nat" where
  "granting (GrantAdd g n) = n"
| "granting p = 0"

fun waking :: "sem_pc \<Rightarrow> nat" where
  "waking (GrantWake g n) = n"
| "waking p = 0"

fun rechecking :: "sem_pc \<Rightarrow> nat" where
  "rechecking (Looping g t w) = 1"
| "rechecking (Loading g t w) = 1"
| "rechecking (Taking g t w n) = 1"
| "rechecking (Futex g t w) = 1"
| "rechecking p = 0"

fun sleeping :: "sem_pc \<Rightarrow> nat" where
  "sleeping (Sleeping g t w) = 1"
| "sleeping p = 0"

fun destroying :: "sem_pc \<Rightarrow> nat" where
  "destroying DestroyAdd = 1"
| "destroying DestroyWake = 1"
| "destroying p = 0"

fun owing :: "sem_pc \<Rightarrow> nat" where
  "owing DestroyAdd = 1"
| "owing p = 0"

fun pushing :: "sem_pc \<Rightarrow> nat" where
  "pushing (ReleasePush r) = 1"
| "pushing p = 0"

fun setting_up :: "sem_pc \<Rightarrow> nat" where
  "setting_up (Filling v) = 1"
| "setting_up p = 0"

fun swapping :: "sem_pc \<Rightarrow> nat" where
  "swapping (ReleaseSwap r) = 1"
| "swapping p = 0"

fun naming :: "sem_pc \<Rightarrow> nat" where
  "naming (Entering p g) = 1"
| "naming (Checking p g) = 1"
| "naming (Destroying g) = 1"
| "naming p = 0"

lemma tally_goto: "i < length (threads s) \<Longrightarrow> tally f (goto i p s) + f (threads s ! i) = tally f s + f p"
  using sum_list_map_update [of i "threads s" f p] by (simp add: tally_def goto_def)

lemma tally_cong: "threads t = threads s \<Longrightarrow> tally f t = tally f s"
  by (simp add: tally_def)

lemma tally_ge: "i < length (threads s) \<Longrightarrow> f (threads s ! i) \<le> tally f s"
  by (simp add: tally_def member_le_sum_list)

lemma tally_zero: "tally f s = 0 \<longleftrightarrow> (\<forall>p \<in> set (threads s). f p = 0)"
  by (auto simp: tally_def)

lemma tally_mono: "(\<And>p. f p \<le> g p) \<Longrightarrow> tally f s \<le> tally g s"
  by (simp add: tally_def sum_list_mono)

text \<open>The generation an operation checked.\<close>

fun checked_at :: "sem_pc \<Rightarrow> nat option" where
  "checked_at (WaitLoad t g) = Some g"
| "checked_at (WaitSwap t g c) = Some g"
| "checked_at (WaitSub t g) = Some g"
| "checked_at (Looping g t w) = Some g"
| "checked_at (Loading g t w) = Some g"
| "checked_at (Taking g t w n) = Some g"
| "checked_at (Timing g t w) = Some g"
| "checked_at (WithdrawLoad g t) = Some g"
| "checked_at (WithdrawSwap g t c) = Some g"
| "checked_at (Futex g t w) = Some g"
| "checked_at (Sleeping g t w) = Some g"
| "checked_at p = None"

text \<open>What is expected by a compare-and-exchange: a count of the right sign.\<close>

fun expects :: "sem_pc \<Rightarrow> bool" where
  "expects (AllSwap g c) \<longleftrightarrow> c < 0"
| "expects (OneSwap g c) \<longleftrightarrow> c < 0"
| "expects (WaitSwap t g c) \<longleftrightarrow> 0 < c"
| "expects (WithdrawSwap g t c) \<longleftrightarrow> c < 0"
| "expects (Taking g t w n) \<longleftrightarrow> n \<noteq> 0"
| "expects p \<longleftrightarrow> True"

subsection \<open>The invariant\<close>

definition below :: "int \<Rightarrow> nat" where "below c = nat (- c)"

definition above :: "int \<Rightarrow> nat" where "above c = nat c"

definition slot_inv :: "sem_slot \<Rightarrow> bool" where
  "slot_inv s \<longleftrightarrow>
     users s = tally inside s
   \<and> in_free_list s + tally pushing s + tally setting_up s + (if in_use s then 1 else 0) + (if dead s \<and> \<not> released s then 1 else 0) = 1
   \<and> (in_use s \<longrightarrow> \<not> dead s \<and> \<not> released s)
   \<and> (0 < tally swapping s \<longrightarrow> dead s)
   \<and> (0 < tally working s \<longrightarrow> in_use s \<or> (dead s \<and> \<not> released s \<and> tally swapping s = 0))
   \<and> (\<not> in_use s \<longrightarrow> \<not> dead s \<longrightarrow> tally naming s = 0 \<and> issued_names s = {})
   \<and> tally owing s + destroy_grant s \<le> (if in_use s then 0 else 1)
   \<and> (in_use s \<longrightarrow> tally destroying s = 0)
   \<and> first_count s + posted s + destroy_grant s = taken s + above (sem_count s) + wakeups s + tally granting s
   \<and> (in_use s \<longrightarrow> tally waiting s = below (sem_count s) + wakeups s + tally granting s)
   \<and> (in_use s \<longrightarrow> 0 < tally sleeping s \<longrightarrow> wakeups s \<le> tally rechecking s + tally waking s)
   \<and> (in_use s \<longrightarrow> (\<forall>p \<in> set (threads s). \<forall>g. checked_at p = Some g \<longrightarrow> g = generation s mod 1024))
   \<and> (\<forall>p \<in> set (threads s). expects p)"

lemma unused_slot_inv: "slot_inv unused_slot"
  by (simp add: slot_inv_def unused_slot_def tally_def above_def)

lemma slot_invD:
  assumes "slot_inv s"
  shows "users s = tally inside s"
    "in_free_list s + tally pushing s + tally setting_up s + (if in_use s then 1 else 0) + (if dead s \<and> \<not> released s then 1 else 0) = 1"
    "in_use s \<Longrightarrow> \<not> dead s" "in_use s \<Longrightarrow> \<not> released s"
    "0 < tally swapping s \<Longrightarrow> dead s"
    "0 < tally working s \<Longrightarrow> in_use s \<or> (dead s \<and> \<not> released s \<and> tally swapping s = 0)"
    "\<not> in_use s \<Longrightarrow> \<not> dead s \<Longrightarrow> tally naming s = 0 \<and> issued_names s = {}"
    "tally owing s + destroy_grant s \<le> (if in_use s then 0 else 1)"
    "in_use s \<Longrightarrow> tally destroying s = 0"
    "first_count s + posted s + destroy_grant s = taken s + above (sem_count s) + wakeups s + tally granting s"
    "in_use s \<Longrightarrow> tally waiting s = below (sem_count s) + wakeups s + tally granting s"
    "in_use s \<Longrightarrow> 0 < tally sleeping s \<Longrightarrow> wakeups s \<le> tally rechecking s + tally waking s"
    "in_use s \<Longrightarrow> p \<in> set (threads s) \<Longrightarrow> checked_at p = Some g \<Longrightarrow> g = generation s mod 1024"
    "p \<in> set (threads s) \<Longrightarrow> expects p"
  using assms unfolding slot_inv_def by (blast | metis)+

text \<open>A step that changes one thread and none of the weights beside.\<close>

lemma goto_threads: "q \<in> set (threads (goto i p s)) \<Longrightarrow> q = p \<or> q \<in> set (threads s)"
  using set_update_subset_insert [of "threads s" i p] by (auto simp: goto_def)

lemma goto_fields [simp]:
  "sem_count (goto i p s) = sem_count s" "wakeups (goto i p s) = wakeups s" "users (goto i p s) = users s"
  "generation (goto i p s) = generation s" "dead (goto i p s) = dead s" "released (goto i p s) = released s"
  "in_free_list (goto i p s) = in_free_list s" "in_use (goto i p s) = in_use s" "first_count (goto i p s) = first_count s"
  "posted (goto i p s) = posted s" "taken (goto i p s) = taken s" "destroy_grant (goto i p s) = destroy_grant s"
  "issued_names (goto i p s) = issued_names s"
  by (simp_all add: goto_def)

text \<open>The invariant after thread \<open>i\<close> went from \<open>p\<close> to \<open>q\<close>, the rest of the state being that of \<open>t\<close>.\<close>

lemma slot_inv_goto:
  assumes "slot_inv s" "i < length (threads s)" "threads s ! i = p" "threads t = threads s"
    and new: "users t + inside p = users s + inside q"
      "in_free_list t + pushing q + setting_up q + (if in_use t then 1 else 0) + (if dead t \<and> \<not> released t then 1 else 0)
        = in_free_list s + pushing p + setting_up p + (if in_use s then 1 else 0) + (if dead s \<and> \<not> released s then 1 else (0 :: nat))"
      "in_use t \<Longrightarrow> \<not> dead t \<and> \<not> released t"
      "0 < tally swapping (goto i q t) \<Longrightarrow> dead t"
      "0 < tally working (goto i q t) \<Longrightarrow> in_use t \<or> (dead t \<and> \<not> released t \<and> tally swapping (goto i q t) = 0)"
      "\<not> in_use t \<Longrightarrow> \<not> dead t \<Longrightarrow> tally naming (goto i q t) = 0 \<and> issued_names t = {}"
      "tally owing (goto i q t) + destroy_grant t \<le> (if in_use t then 0 else 1)"
      "in_use t \<Longrightarrow> tally destroying (goto i q t) = 0"
      "first_count t + posted t + destroy_grant t = taken t + above (sem_count t) + wakeups t + tally granting (goto i q t)"
      "in_use t \<Longrightarrow> tally waiting (goto i q t) = below (sem_count t) + wakeups t + tally granting (goto i q t)"
      "in_use t \<Longrightarrow> 0 < tally sleeping (goto i q t) \<Longrightarrow> wakeups t \<le> tally rechecking (goto i q t) + tally waking (goto i q t)"
      "in_use t \<Longrightarrow> (\<forall>r \<in> set (threads s). \<forall>g. checked_at r = Some g \<longrightarrow> g = generation t mod 1024) \<and> (\<forall>g. checked_at q = Some g \<longrightarrow> g = generation t mod 1024)"
      "expects q"
  shows "slot_inv (goto i q t)"
proof -
  note inv = slot_invD [OF assms(1)]
  have g: "tally f (goto i q t) + f p = tally f s + f q" for f
    using tally_goto [of i t f q] tally_cong [OF assms(4), of f] assms(2-4) by simp
  have "users t = tally inside (goto i q t)" using new(1) inv(1) g [of inside] by simp
  moreover have "in_free_list t + tally pushing (goto i q t) + tally setting_up (goto i q t) + (if in_use t then 1 else 0)
      + (if dead t \<and> \<not> released t then 1 else 0) = 1"
    using new(2) inv(2) g [of pushing] g [of setting_up] by linarith
  moreover have "\<forall>r \<in> set (threads (goto i q t)). expects r" using inv(14) new(13) goto_threads assms(4) by metis
  moreover have "in_use t \<longrightarrow> (\<forall>r \<in> set (threads (goto i q t)). \<forall>g. checked_at r = Some g \<longrightarrow> g = generation t mod 1024)"
    using new(12) goto_threads assms(4) by metis
  ultimately show ?thesis unfolding slot_inv_def goto_fields using new(3-11) by blast
qed

text \<open>Places that only matter to the thread itself.\<close>

definition same_weights :: "sem_pc \<Rightarrow> sem_pc \<Rightarrow> bool" where
  "same_weights p q \<longleftrightarrow> inside p = inside q \<and> working q \<le> working p \<and> waiting p = waiting q \<and> granting p = granting q
     \<and> waking p = waking q \<and> rechecking p = rechecking q \<and> sleeping p = sleeping q \<and> destroying p = destroying q \<and> owing p = owing q
     \<and> pushing p = pushing q \<and> setting_up p = setting_up q \<and> swapping p = swapping q \<and> naming p = naming q"

lemma local_step:
  assumes "slot_inv s" "i < length (threads s)" "same_weights (threads s ! i) q" "expects q"
    "checked_at q = checked_at (threads s ! i) \<or> checked_at q = None"
  shows "slot_inv (goto i q s)"
proof -
  note inv = slot_invD [OF assms(1)]
  have g: "tally f (goto i q s) + f (threads s ! i) = tally f s + f q" for f by (rule tally_goto [OF assms(2)])
  have same: "tally f (goto i q s) = tally f s" if "f (threads s ! i) = f q" for f using g [of f] that by simp
  have in_set: "threads s ! i \<in> set (threads s)" using assms(2) by simp
  have less: "tally working (goto i q s) \<le> tally working s" using g [of working] assms(3) by (simp add: same_weights_def)
  show ?thesis
  proof (rule slot_inv_goto [OF assms(1,2) refl refl])
    show "in_use s \<Longrightarrow> (\<forall>r \<in> set (threads s). \<forall>g. checked_at r = Some g \<longrightarrow> g = generation s mod 1024) \<and> (\<forall>g. checked_at q = Some g \<longrightarrow> g = generation s mod 1024)"
      using inv(13) in_set assms(5) by auto
  qed (use assms(3,4) inv same less in \<open>simp_all add: same_weights_def\<close>)
qed

subsection \<open>Every step keeps the invariant\<close>

lemma tally_after: "i < length (threads t) \<Longrightarrow> tally f (goto i q t) = tally f t + f q - f (threads t ! i)"
  using tally_goto [of i t f q] by simp

lemma tally_fields [simp]:
  "tally f (s\<lparr>sem_count := c\<rparr>) = tally f s" "tally f (s\<lparr>wakeups := n\<rparr>) = tally f s" "tally f (s\<lparr>users := n\<rparr>) = tally f s"
  "tally f (s\<lparr>generation := n\<rparr>) = tally f s" "tally f (s\<lparr>dead := b\<rparr>) = tally f s" "tally f (s\<lparr>released := b\<rparr>) = tally f s"
  "tally f (s\<lparr>in_free_list := n\<rparr>) = tally f s" "tally f (s\<lparr>in_use := b\<rparr>) = tally f s" "tally f (s\<lparr>first_count := n\<rparr>) = tally f s"
  "tally f (s\<lparr>posted := n\<rparr>) = tally f s" "tally f (s\<lparr>taken := n\<rparr>) = tally f s" "tally f (s\<lparr>destroy_grant := n\<rparr>) = tally f s"
  "tally f (s\<lparr>issued_names := ns\<rparr>) = tally f s"
  by (simp_all add: tally_def)

text \<open>What the place of a working thread says.\<close>

lemma working_facts:
  assumes "slot_inv s" "i < length (threads s)" "working (threads s ! i) = 1"
  shows "in_use s \<or> (dead s \<and> \<not> released s \<and> tally swapping s = 0)" "0 < tally working s"
    "\<not> in_use s \<Longrightarrow> dead s"
proof -
  show w: "0 < tally working s" using tally_ge [OF assms(2), of working] assms(3) by simp
  then show "in_use s \<or> (dead s \<and> \<not> released s \<and> tally swapping s = 0)" "\<not> in_use s \<Longrightarrow> dead s"
    using slot_invD(6) [OF assms(1)] by auto
qed

named_theorems slot_steps

lemma expected: "slot_inv s \<Longrightarrow> i < length (threads s) \<Longrightarrow> expects (threads s ! i)"
  using slot_invD(14) nth_mem by blast

lemma checked_current:
  assumes "slot_inv s" "i < length (threads s)" "checked_at (threads s ! i) = Some g" "in_use s"
  shows "current s g"
  using slot_invD(3,13) [OF assms(1)] nth_mem [OF assms(2)] assms(3,4) by (auto simp: current_def)

lemma signal_add_inv [slot_steps]:
  assumes "slot_inv s" "i < length (threads s)" "threads s ! i = Adding g"
  shows "slot_inv (signal_add i g s)"
proof -
  note inv = slot_invD [OF assms(1)]
  have "working (threads s ! i) = 1" using assms(3) by simp
  note work = working_facts [OF assms(1,2) this]
  show ?thesis
    unfolding signal_add_def
    by (rule slot_inv_goto [OF assms]) (use inv work in \<open>auto simp: tally_after assms(2,3) above_def below_def split: if_splits\<close>)
qed

lemma all_swap_inv [slot_steps]:
  assumes "slot_inv s" "i < length (threads s)" "threads s ! i = AllSwap g c"
  shows "slot_inv (all_swap i g c s)"
proof (cases "sem_count s = c")
  case True
  note inv = slot_invD [OF assms(1)]
  have "working (threads s ! i) = 1" "c < 0" using assms(3) expected [OF assms(1,2)] by simp_all
  note work = working_facts [OF assms(1,2) this(1)]
  show ?thesis
    unfolding all_swap_def if_P [OF True]
    by (rule slot_inv_goto [OF assms]) (use inv work True \<open>c < 0\<close> in \<open>auto simp: tally_after assms(2,3) above_def below_def split: if_splits\<close>)
next
  case False
  then show ?thesis
    unfolding all_swap_def if_not_P [OF False] all_seen_def
    by (auto intro!: local_step assms(1,2) simp: assms(3) same_weights_def)
qed

lemma one_swap_inv [slot_steps]:
  assumes "slot_inv s" "i < length (threads s)" "threads s ! i = OneSwap g c"
  shows "slot_inv (one_swap i g c s)"
proof (cases "sem_count s = c")
  case True
  note inv = slot_invD [OF assms(1)]
  have "working (threads s ! i) = 1" "c < 0" using assms(3) expected [OF assms(1,2)] by simp_all
  note work = working_facts [OF assms(1,2) this(1)]
  show ?thesis
    unfolding one_swap_def if_P [OF True]
    by (rule slot_inv_goto [OF assms]) (use inv work True \<open>c < 0\<close> in \<open>auto simp: tally_after assms(2,3) above_def below_def split: if_splits\<close>)
next
  case False
  then show ?thesis
    unfolding one_swap_def if_not_P [OF False] one_seen_def
    by (auto intro!: local_step assms(1,2) simp: assms(3) same_weights_def)
qed

lemma grant_add_inv [slot_steps]:
  assumes "slot_inv s" "i < length (threads s)" "threads s ! i = GrantAdd g n"
  shows "slot_inv (grant_add i g n s)"
proof -
  note inv = slot_invD [OF assms(1)]
  have "working (threads s ! i) = 1" using assms(3) by simp
  note work = working_facts [OF assms(1,2) this]
  show ?thesis
    unfolding grant_add_def
    by (rule slot_inv_goto [OF assms]) (use inv work tally_ge [OF assms(2), of granting] in \<open>auto simp: tally_after assms(2,3) above_def below_def split: if_splits\<close>)
qed

lemma wait_swap_inv [slot_steps]:
  assumes "slot_inv s" "i < length (threads s)" "threads s ! i = WaitSwap t g c"
  shows "slot_inv (wait_swap i t g c s)"
proof (cases "sem_count s = c")
  case True
  note inv = slot_invD [OF assms(1)] and geq = tally_ge [OF assms(2)]
  have "working (threads s ! i) = 1" and c: "0 < c" using assms(3) expected [OF assms(1,2)] by simp_all
  note work = working_facts [OF assms(1,2) this(1)]
  show ?thesis
    unfolding wait_swap_def if_P [OF True]
    by (rule slot_inv_goto [OF assms]) (use inv work True c geq [of waiting] geq [of rechecking] in \<open>auto simp: tally_after assms(2,3) above_def below_def split: if_splits\<close>)
next
  case False
  then show ?thesis
    unfolding wait_swap_def if_not_P [OF False] wait_seen_def
    by (auto intro!: local_step assms(1,2) simp: assms(3) same_weights_def)
qed

lemma wait_sub_inv [slot_steps]:
  assumes "slot_inv s" "i < length (threads s)" "threads s ! i = WaitSub t g"
  shows "slot_inv (wait_sub i t g s)"
proof -
  note inv = slot_invD [OF assms(1)]
  have "working (threads s ! i) = 1" using assms(3) by simp
  note work = working_facts [OF assms(1,2) this]
  have gen: "in_use s \<Longrightarrow> g = generation s mod 1024" using checked_current [OF assms(1,2)] assms(3) by (auto simp: current_def)
  show ?thesis
  proof (cases "sem_count s - 1 \<ge> 0")
    case True
    then show ?thesis
      unfolding wait_sub_def if_P [OF True]
      by (intro slot_inv_goto [OF assms]) (use inv work in \<open>auto simp: tally_after assms(2,3) above_def below_def split: if_splits\<close>)
  next
    case False
    then show ?thesis
      unfolding wait_sub_def if_not_P [OF False]
      by (intro slot_inv_goto [OF assms]) (use inv work gen in \<open>auto simp: tally_after assms(2,3) above_def below_def split: if_splits\<close>)
  qed
qed

lemma loading_inv [slot_steps]:
  assumes "slot_inv s" "i < length (threads s)" "threads s ! i = Loading g t w"
  shows "slot_inv (goto i (wakeups_seen g t w (wakeups s)) s)"
proof -
  note inv = slot_invD [OF assms(1)]
  have "working (threads s ! i) = 1" using assms(3) by simp
  note work = working_facts [OF assms(1,2) this]
  have gen: "in_use s \<Longrightarrow> g = generation s mod 1024" using checked_current [OF assms(1,2)] assms(3) by (auto simp: current_def)
  show ?thesis
    unfolding wakeups_seen_def
    by (rule slot_inv_goto [OF assms]) (use inv work gen tally_ge [OF assms(2), of waiting] in \<open>auto simp: tally_after assms(2,3) split: if_splits\<close>)
qed

lemma take_wakeup_inv [slot_steps]:
  assumes "slot_inv s" "i < length (threads s)" "threads s ! i = Taking g t w n"
  shows "slot_inv (take_wakeup i g t w n s)"
proof -
  note inv = slot_invD [OF assms(1)]
  have "working (threads s ! i) = 1" and n: "n \<noteq> 0" using assms(3) expected [OF assms(1,2)] by simp_all
  note work = working_facts [OF assms(1,2) this(1)] and geq = tally_ge [OF assms(2)]
  have gen: "in_use s \<Longrightarrow> g = generation s mod 1024" using checked_current [OF assms(1,2)] assms(3) by (auto simp: current_def)
  show ?thesis
  proof (cases "wakeups s = n")
    case True
    show ?thesis
      unfolding take_wakeup_def if_P [OF True]
      by (rule slot_inv_goto [OF assms]) (use inv work n True geq [of waiting] geq [of rechecking] in \<open>auto simp: tally_after assms(2,3) split: if_splits\<close>)
  next
    case False
    show ?thesis
      unfolding take_wakeup_def if_not_P [OF False] wakeups_seen_def
      by (rule slot_inv_goto [OF assms]) (use inv work gen geq [of waiting] in \<open>auto simp: tally_after assms(2,3) split: if_splits\<close>)
  qed
qed

lemma loop_check_inv [slot_steps]:
  assumes "slot_inv s" "i < length (threads s)" "threads s ! i = Looping g t w"
  shows "slot_inv (loop_check i g t w s)"
proof (cases "current s g")
  case True
  then show ?thesis
    unfolding loop_check_def by (auto intro!: local_step assms(1,2) simp: assms(3) same_weights_def)
next
  case False
  note inv = slot_invD [OF assms(1)]
  have "working (threads s ! i) = 1" using assms(3) by simp
  note work = working_facts [OF assms(1,2) this]
  have "\<not> in_use s" using checked_current [OF assms(1,2)] assms(3) False by auto
  then show ?thesis
    unfolding loop_check_def if_not_P [OF False]
    by (intro slot_inv_goto [OF assms]) (use inv work in \<open>auto simp: tally_after assms(2,3) split: if_splits\<close>)
qed

lemma loop_time_inv [slot_steps]:
  assumes "slot_inv s" "i < length (threads s)" "threads s ! i = Timing g t w"
  shows "slot_inv (loop_time i g t w passed s)"
proof -
  note inv = slot_invD [OF assms(1)]
  have "working (threads s ! i) = 1" using assms(3) by simp
  note work = working_facts [OF assms(1,2) this]
  have gen: "in_use s \<Longrightarrow> g = generation s mod 1024" using checked_current [OF assms(1,2)] assms(3) by (auto simp: current_def)
  show ?thesis
    unfolding loop_time_def
    by (rule slot_inv_goto [OF assms]) (use inv work gen tally_ge [OF assms(2), of waiting] in \<open>auto simp: tally_after assms(2,3) split: if_splits\<close>)
qed

lemma withdraw_load_inv [slot_steps]:
  assumes "slot_inv s" "i < length (threads s)" "threads s ! i = WithdrawLoad g t"
  shows "slot_inv (goto i (withdraw_seen g t (sem_count s)) s)"
proof -
  note inv = slot_invD [OF assms(1)]
  have "working (threads s ! i) = 1" using assms(3) by simp
  note work = working_facts [OF assms(1,2) this]
  have gen: "in_use s \<Longrightarrow> g = generation s mod 1024" using checked_current [OF assms(1,2)] assms(3) by (auto simp: current_def)
  show ?thesis
    unfolding withdraw_seen_def
    by (rule slot_inv_goto [OF assms]) (use inv work gen tally_ge [OF assms(2), of waiting] in \<open>auto simp: tally_after assms(2,3) split: if_splits\<close>)
qed

lemma withdraw_swap_inv [slot_steps]:
  assumes "slot_inv s" "i < length (threads s)" "threads s ! i = WithdrawSwap g t c"
  shows "slot_inv (withdraw_swap i g t c s)"
proof -
  note inv = slot_invD [OF assms(1)]
  have "working (threads s ! i) = 1" and c: "c < 0" using assms(3) expected [OF assms(1,2)] by simp_all
  note work = working_facts [OF assms(1,2) this(1)] and geq = tally_ge [OF assms(2)]
  have gen: "in_use s \<Longrightarrow> g = generation s mod 1024" using checked_current [OF assms(1,2)] assms(3) by (auto simp: current_def)
  show ?thesis
  proof (cases "sem_count s = c")
    case True
    show ?thesis
      unfolding withdraw_swap_def if_P [OF True]
      by (rule slot_inv_goto [OF assms]) (use inv work c True geq [of waiting] in \<open>auto simp: tally_after assms(2,3) above_def below_def split: if_splits\<close>)
  next
    case False
    show ?thesis
      unfolding withdraw_swap_def if_not_P [OF False] withdraw_seen_def
      by (rule slot_inv_goto [OF assms]) (use inv work gen geq [of waiting] in \<open>auto simp: tally_after assms(2,3) split: if_splits\<close>)
  qed
qed

lemma futex_wait_inv [slot_steps]:
  assumes "slot_inv s" "i < length (threads s)" "threads s ! i = Futex g t w"
  shows "slot_inv (futex_wait i g t w s)"
proof -
  note inv = slot_invD [OF assms(1)]
  have "working (threads s ! i) = 1" using assms(3) by simp
  note work = working_facts [OF assms(1,2) this]
  have gen: "in_use s \<Longrightarrow> g = generation s mod 1024" using checked_current [OF assms(1,2)] assms(3) by (auto simp: current_def)
  show ?thesis
    unfolding futex_wait_def
    by (rule slot_inv_goto [OF assms]) (use inv work gen tally_ge [OF assms(2), of waiting] tally_ge [OF assms(2), of rechecking] in
      \<open>auto simp: tally_after assms(2,3) split: if_splits\<close>)
qed

lemma interrupted_inv [slot_steps]:
  assumes "slot_inv s" "i < length (threads s)" "threads s ! i = Sleeping g t w"
  shows "slot_inv (goto i (Looping g t w) s)"
proof -
  note inv = slot_invD [OF assms(1)]
  have "working (threads s ! i) = 1" using assms(3) by simp
  note work = working_facts [OF assms(1,2) this]
  have gen: "in_use s \<Longrightarrow> g = generation s mod 1024" using checked_current [OF assms(1,2)] assms(3) by (auto simp: current_def)
  show ?thesis
    by (rule slot_inv_goto [OF assms]) (use inv work gen tally_ge [OF assms(2), of waiting] tally_ge [OF assms(2), of sleeping] in
      \<open>auto simp: tally_after assms(2,3) split: if_splits\<close>)
qed

text \<open>Entering, leaving and the free list.\<close>

lemma working_inside: "working p \<le> inside p"
  by (cases p) simp_all

lemma owing_destroying: "owing p \<le> destroying p"
  by (cases p) simp_all

lemma none_working:
  assumes "tally working s = 0"
  shows "tally granting s = 0" "tally waiting s = 0" "tally destroying s = 0" "tally owing s = 0" "tally sleeping s = 0"
    "p \<in> set (threads s) \<Longrightarrow> checked_at p = None"
proof -
  have z: "p \<in> set (threads s) \<Longrightarrow> working p = 0" for p using assms by (simp add: tally_zero)
  have "working p = 0 \<Longrightarrow> granting p = 0 \<and> waiting p = 0 \<and> destroying p = 0 \<and> owing p = 0 \<and> sleeping p = 0 \<and> checked_at p = None" for p
    by (cases p) simp_all
  then show "tally granting s = 0" "tally waiting s = 0" "tally destroying s = 0" "tally owing s = 0" "tally sleeping s = 0"
    "p \<in> set (threads s) \<Longrightarrow> checked_at p = None"
    using z by (auto simp: tally_zero)
qed

lemma sem_enter_inv [slot_steps]:
  assumes "slot_inv s" "i < length (threads s)" "threads s ! i = Entering p g"
  shows "slot_inv (sem_enter i p g s)"
proof -
  note inv = slot_invD [OF assms(1)] and geq = tally_ge [OF assms(2), of naming]
  show ?thesis
    unfolding sem_enter_def
    by (rule slot_inv_goto [OF assms]) (use inv geq assms(3) in \<open>auto simp: tally_after assms(2,3) split: if_splits\<close>)
qed

lemma sem_check_inv [slot_steps]:
  assumes "slot_inv s" "i < length (threads s)" "threads s ! i = Checking p g"
  shows "slot_inv (sem_check i p g s)"
proof -
  note inv = slot_invD [OF assms(1)] and geq = tally_ge [OF assms(2), of naming]
  show ?thesis
  proof (cases "current s g")
    case False
    show ?thesis
      unfolding sem_check_def if_not_P [OF False]
      by (rule slot_inv_goto [OF assms]) (use inv geq assms(3) in \<open>auto simp: tally_after assms(2,3) split: if_splits\<close>)
  next
    case True
    then have use: "in_use s" "g = generation s mod 1024" using inv(7) geq assms(3) by (auto simp: current_def)
    show ?thesis
      unfolding sem_check_def if_P [OF True]
      by (rule slot_inv_goto [OF assms]; cases p) (use inv geq use assms(3) in \<open>auto simp: tally_after assms(2,3) split: if_splits\<close>)
  qed
qed

lemma sem_leave_inv [slot_steps]:
  assumes "slot_inv s" "i < length (threads s)" "threads s ! i = Leaving r"
  shows "slot_inv (sem_leave i r s)"
proof -
  note inv = slot_invD [OF assms(1)] and geq = tally_ge [OF assms(2), of inside]
  show ?thesis
    unfolding sem_leave_def
    by (rule slot_inv_goto [OF assms]) (use inv geq assms(3) in \<open>auto simp: tally_after assms(2,3) split: if_splits\<close>)
qed

lemma release_check_inv [slot_steps]:
  assumes "slot_inv s" "i < length (threads s)" "threads s ! i = ReleaseCheck r"
  shows "slot_inv (release_check i r s)"
proof (cases "\<not> dead s \<or> users s \<noteq> 0")
  case True
  show ?thesis
    unfolding release_check_def if_P [OF True]
    by (auto intro!: local_step assms(1,2) simp: assms(3) same_weights_def)
next
  case False
  note inv = slot_invD [OF assms(1)]
  have "tally working s \<le> tally inside s" using working_inside by (rule tally_mono)
  then have w: "tally working s = 0" using inv(1) False by simp
  show ?thesis
    unfolding release_check_def if_not_P [OF False]
    by (rule slot_inv_goto [OF assms]) (use inv w False in \<open>auto simp: tally_after assms(2,3) split: if_splits\<close>)
qed

lemma release_swap_inv [slot_steps]:
  assumes "slot_inv s" "i < length (threads s)" "threads s ! i = ReleaseSwap r"
  shows "slot_inv (release_swap i r s)"
proof -
  note inv = slot_invD [OF assms(1)] and geq = tally_ge [OF assms(2), of swapping]
  have d: "dead s" "tally working s = 0" "\<not> in_use s" using inv(3,5,6) geq assms(3) by auto
  show ?thesis
  proof (cases "released s")
    case True
    show ?thesis
      unfolding release_swap_def if_P [OF True]
      by (rule slot_inv_goto [OF assms]) (use inv d geq True in \<open>auto simp: tally_after assms(2,3) split: if_splits\<close>)
  next
    case False
    show ?thesis
      unfolding release_swap_def if_not_P [OF False]
      by (rule slot_inv_goto [OF assms]) (use inv d geq False in \<open>auto simp: tally_after assms(2,3) split: if_splits\<close>)
  qed
qed

lemma release_push_inv [slot_steps]:
  assumes "slot_inv s" "i < length (threads s)" "threads s ! i = ReleasePush r"
  shows "slot_inv (release_push i r s)"
proof -
  note inv = slot_invD [OF assms(1)] and geq = tally_ge [OF assms(2), of pushing]
  show ?thesis
    unfolding release_push_def
    by (rule slot_inv_goto [OF assms]) (use inv geq in \<open>auto simp: tally_after assms(2,3) split: if_splits\<close>)
qed

lemma create_pop_inv [slot_steps]:
  assumes "slot_inv s" "i < length (threads s)" "threads s ! i = Creating v"
  shows "slot_inv (create_pop i v s)"
proof (cases "in_free_list s = 0")
  case True
  show ?thesis
    unfolding create_pop_def if_P [OF True]
    by (auto intro!: local_step assms(1,2) simp: assms(3) same_weights_def)
next
  case False
  note inv = slot_invD [OF assms(1)]
  show ?thesis
    unfolding create_pop_def if_not_P [OF False]
    by (rule slot_inv_goto [OF assms]) (use inv False in \<open>auto simp: tally_after assms(2,3) split: if_splits\<close>)
qed

lemma create_fill_inv:
  assumes "slot_inv s" "i < length (threads s)" "threads s ! i = Filling v" "\<forall>p \<in> set (threads s). \<not> releasing p"
  shows "slot_inv (create_fill i v s)"
proof -
  note inv = slot_invD [OF assms(1)] and geq = tally_ge [OF assms(2), of setting_up]
  have "\<not> releasing p \<Longrightarrow> swapping p = 0" for p by (cases p) simp_all
  then have swap: "tally swapping s = 0" using assms(4) by (auto simp: tally_zero)
  have idle: "\<not> in_use s" "\<not> (dead s \<and> \<not> released s)" using inv(2) geq assms(3) by (auto split: if_splits)
  then have w: "tally working s = 0" using inv(6) by blast
  note none = none_working [OF w]
  show ?thesis
    unfolding create_fill_def Let_def
    by (rule slot_inv_goto [OF assms(1-3)]) (use inv swap idle w none geq in \<open>auto simp: tally_after assms(2,3) above_def below_def split: if_splits\<close>)
qed

lemma destroy_begin_inv [slot_steps]:
  assumes "slot_inv s" "i < length (threads s)" "threads s ! i = Destroying g"
  shows "slot_inv (destroy_begin i g s)"
proof (cases "current s g")
  case False
  note inv = slot_invD [OF assms(1)] and geq = tally_ge [OF assms(2), of naming]
  show ?thesis
    unfolding destroy_begin_def if_not_P [OF False]
    by (rule slot_inv_goto [OF assms]) (use inv geq in \<open>auto simp: tally_after assms(2,3) split: if_splits\<close>)
next
  case True
  note inv = slot_invD [OF assms(1)] and geq = tally_ge [OF assms(2), of naming]
  have use: "in_use s" using inv(7) geq True assms(3) by (auto simp: current_def)
  have "tally owing s \<le> tally destroying s" using owing_destroying by (rule tally_mono)
  then show ?thesis
    unfolding destroy_begin_def if_P [OF True]
    by (intro slot_inv_goto [OF assms]) (use inv use in \<open>auto simp: tally_after assms(2,3) split: if_splits\<close>)
qed

lemma destroy_add_inv [slot_steps]:
  assumes "slot_inv s" "i < length (threads s)" "threads s ! i = DestroyAdd"
  shows "slot_inv (destroy_add i s)"
proof -
  note inv = slot_invD [OF assms(1)]
  have "working (threads s ! i) = 1" using assms(3) by simp
  note work = working_facts [OF assms(1,2) this] and geq = tally_ge [OF assms(2)]
  have "\<not> in_use s" using inv(9) geq [of destroying] assms(3) by auto
  then show ?thesis
    unfolding destroy_add_def
    by (intro slot_inv_goto [OF assms]) (use inv work geq [of owing] in \<open>auto simp: tally_after assms(2,3) split: if_splits\<close>)
qed

text \<open>Waking sleepers.\<close>

lemma wake_pc_same:
  "inside (wake_pc p) = inside p" "working (wake_pc p) = working p" "waiting (wake_pc p) = waiting p" "granting (wake_pc p) = granting p"
  "waking (wake_pc p) = waking p" "destroying (wake_pc p) = destroying p" "owing (wake_pc p) = owing p" "pushing (wake_pc p) = pushing p"
  "setting_up (wake_pc p) = setting_up p" "swapping (wake_pc p) = swapping p" "naming (wake_pc p) = naming p"
  "checked_at (wake_pc p) = checked_at p" "expects (wake_pc p) = expects p" "sleeping (wake_pc p) = 0"
  "rechecking (wake_pc p) = rechecking p + sleeping p" "is_sleeping p \<longleftrightarrow> sleeping p = 1" "sleeping p \<le> 1"
  by (cases p; simp)+

lemma tally_nth: "tally f s = (\<Sum>j<length (threads s). f (threads s ! j))"
  by (simp add: tally_def sum_list_sum_nth atLeast0LessThan)

lemma tally_wake: "tally f (futex_wake ws s) = (\<Sum>j<length (threads s). if j \<in> ws then f (wake_pc (threads s ! j)) else f (threads s ! j))"
  by (auto simp: tally_nth futex_wake_def wake_at_def if_distrib intro!: sum.cong)

lemma tally_wake_same:
  assumes "\<And>p. f (wake_pc p) = f p"
  shows "tally f (futex_wake ws s) = tally f s"
  unfolding tally_wake tally_nth [of f s] by (intro sum.cong refl) (simp add: assms)

lemma wake_counts:
  assumes "wakes n ws s"
  shows "tally sleeping (futex_wake ws s) + card ws = tally sleeping s"
    "tally rechecking (futex_wake ws s) = tally rechecking s + card ws" "card ws = min n (tally sleeping s)"
proof -
  let ?n = "length (threads s)" and ?sl = "{j. j < length (threads s) \<and> is_sleeping (threads s ! j)}"
  have ws: "ws \<subseteq> ?sl" "card ws = min n (card ?sl)" using assms by (auto simp: wakes_def Let_def)
  have split: "(\<Sum>j<?n. sleeping (threads s ! j)) = card ?sl"
  proof -
    have "(\<Sum>j<?n. sleeping (threads s ! j)) = (\<Sum>j<?n. if is_sleeping (threads s ! j) then 1 else 0)"
      using wake_pc_same(16,17) by (intro sum.cong) (auto simp: le_Suc_eq)
    also have "\<dots> = card ({..<?n} \<inter> {j. is_sleeping (threads s ! j)})" by (simp add: sum.If_cases)
    also have "{..<?n} \<inter> {j. is_sleeping (threads s ! j)} = ?sl" by auto
    finally show ?thesis .
  qed
  then show "card ws = min n (tally sleeping s)" using ws(2) by (simp add: tally_nth)
  have sub: "ws \<subseteq> {..<?n}" using ws(1) by auto
  have one: "(\<Sum>j<?n. if j \<in> ws then sleeping (threads s ! j) else 0) = card ws"
  proof -
    have "(\<Sum>j<?n. if j \<in> ws then sleeping (threads s ! j) else 0) = (\<Sum>j<?n. if j \<in> ws then 1 else 0)"
      using ws(1) wake_pc_same(16) by (intro sum.cong) auto
    also have "\<dots> = card ({..<?n} \<inter> ws)" by (simp add: sum.If_cases)
    also have "{..<?n} \<inter> ws = ws" using sub by blast
    finally show ?thesis .
  qed
  have "tally sleeping (futex_wake ws s) + (\<Sum>j<?n. if j \<in> ws then sleeping (threads s ! j) else 0) = tally sleeping s"
    unfolding tally_wake tally_nth [of _ s] sum.distrib [symmetric] by (intro sum.cong) (auto simp: wake_pc_same)
  then show "tally sleeping (futex_wake ws s) + card ws = tally sleeping s" using one by simp
  have "tally rechecking (futex_wake ws s) = tally rechecking s + (\<Sum>j<?n. if j \<in> ws then sleeping (threads s ! j) else 0)"
    unfolding tally_wake tally_nth [of _ s] sum.distrib [symmetric] by (intro sum.cong) (auto simp: wake_pc_same)
  then show "tally rechecking (futex_wake ws s) = tally rechecking s + card ws" using one by simp
qed

lemma futex_wake_fields [simp]:
  "sem_count (futex_wake ws s) = sem_count s" "wakeups (futex_wake ws s) = wakeups s" "users (futex_wake ws s) = users s"
  "generation (futex_wake ws s) = generation s" "dead (futex_wake ws s) = dead s" "released (futex_wake ws s) = released s"
  "in_free_list (futex_wake ws s) = in_free_list s" "in_use (futex_wake ws s) = in_use s" "first_count (futex_wake ws s) = first_count s"
  "posted (futex_wake ws s) = posted s" "taken (futex_wake ws s) = taken s" "destroy_grant (futex_wake ws s) = destroy_grant s"
  "issued_names (futex_wake ws s) = issued_names s" "length (threads (futex_wake ws s)) = length (threads s)"
  by (simp_all add: futex_wake_def wake_at_def)

lemma futex_wake_threads: "p \<in> set (threads (futex_wake ws s)) \<Longrightarrow> \<exists>q \<in> set (threads s). p = q \<or> p = wake_pc q"
  by (auto simp: futex_wake_def wake_at_def)

lemma futex_wake_inv:
  assumes "slot_inv s" "wakes n ws s"
  shows "slot_inv (futex_wake ws s)"
proof -
  note inv = slot_invD [OF assms(1)] and same = tally_wake_same [of _ ws s] and counts = wake_counts [OF assms(2)]
  have all: "\<forall>p \<in> set (threads (futex_wake ws s)). expects p"
    "in_use s \<Longrightarrow> \<forall>p \<in> set (threads (futex_wake ws s)). \<forall>g. checked_at p = Some g \<longrightarrow> g = generation s mod 1024"
    using inv(13,14) futex_wake_threads [of _ ws s] wake_pc_same(12,13) by metis+
  have "in_use s \<Longrightarrow> 0 < tally sleeping (futex_wake ws s) \<Longrightarrow> wakeups s \<le> tally rechecking (futex_wake ws s) + tally waking s"
    using inv(12) counts by linarith
  then show ?thesis
    unfolding slot_inv_def
    using inv(1-11) all by (simp add: same wake_pc_same)
qed

lemma grant_wake_inv:
  assumes "slot_inv s" "i < length (threads s)" "threads s ! i = GrantWake g n" "wakes n ws s"
  shows "slot_inv (goto i (Leaving KERN_SUCCESS) (futex_wake ws s))"
proof -
  let ?s = "futex_wake ws s"
  have s: "slot_inv ?s" "i < length (threads ?s)" by (simp_all add: futex_wake_inv [OF assms(1,4)] assms(2))
  have "i \<notin> ws" using assms(3,4) by (auto simp: wakes_def Let_def)
  then have at: "threads ?s ! i = GrantWake g n" using assms(2,3) by (simp add: futex_wake_def wake_at_def)
  note inv = slot_invD [OF s(1)] and counts = wake_counts [OF assms(4)] and old = slot_invD(12) [OF assms(1)]
  have same: "tally waking ?s = tally waking s" by (rule tally_wake_same) (simp add: wake_pc_same)
  have "working (threads ?s ! i) = 1" using at by simp
  note work = working_facts [OF s this] and geq = tally_ge [OF s(2), of waking]
  have waiters: "wakeups s \<le> tally rechecking ?s + (tally waking ?s - n)" if "in_use s" "0 < tally sleeping ?s"
    using old [OF that(1)] that(2) counts same geq at by (auto simp: min_def split: if_splits)
  show ?thesis
    by (rule slot_inv_goto [OF s at refl]) (use inv work waiters in \<open>auto simp: tally_after assms(2) at split: if_splits\<close>)
qed

lemma wake_all_eq: "wake_all s = futex_wake {j. j < length (threads s) \<and> is_sleeping (threads s ! j)} s"
proof -
  have "wake_pc p = p" if "\<not> is_sleeping p" for p using that by (cases p) simp_all
  then have "map wake_pc (threads s) = wake_at {j. j < length (threads s) \<and> is_sleeping (threads s ! j)} (threads s)"
    by (auto simp: wake_at_def intro!: nth_equalityI)
  then show ?thesis by (simp add: wake_all_def futex_wake_def)
qed

lemma destroy_wake_inv:
  assumes "slot_inv s" "i < length (threads s)" "threads s ! i = DestroyWake"
  shows "slot_inv (goto i (Leaving KERN_SUCCESS) (wake_all s))"
proof -
  let ?ws = "{j. j < length (threads s) \<and> is_sleeping (threads s ! j)}"
  have "wakes (card ?ws) ?ws s" by (simp add: wakes_def)
  then have s: "slot_inv (wake_all s)" unfolding wake_all_eq using futex_wake_inv [OF assms(1)] by blast
  have i: "i < length (threads (wake_all s))" and at: "threads (wake_all s) ! i = DestroyWake" using assms(2,3) by (simp_all add: wake_all_def)
  have "working (threads (wake_all s) ! i) = 1" using at by simp
  note inv = slot_invD [OF s] and work = working_facts [OF s i this] and geq = tally_ge [OF i, of destroying]
  show ?thesis
    by (rule slot_inv_goto [OF s i at refl]) (use inv work geq in \<open>auto simp: tally_after i at split: if_splits\<close>)
qed

text \<open>All steps.\<close>

lemma call_inv:
  assumes "slot_inv s" "starts s p"
  shows "slot_inv (s\<lparr>threads := threads s @ [p]\<rparr>)"
proof -
  note inv = slot_invD [OF assms(1)]
  have t: "tally f (s\<lparr>threads := threads s @ [p]\<rparr>) = tally f s + f p" for f by (simp add: tally_def)
  have "expects p" "checked_at p = None" using assms(2) by (cases p; simp)+
  moreover have "naming p = 1 \<Longrightarrow> issued_names s \<noteq> {}" using assms(2) by (cases p) auto
  ultimately show ?thesis
    using inv assms(2) unfolding slot_inv_def t by (cases p) auto
qed

lemma thread_inv:
  assumes "slot_inv s" "i < length (threads s)"
    "case threads s ! i of GrantWake g n \<Rightarrow> wakes n ws s | _ \<Rightarrow> True" "filling (threads s ! i) \<longrightarrow> (\<forall>p \<in> set (threads s). \<not> releasing p)"
  shows "slot_inv (run_thread i passed ws s)"
proof (cases "threads s ! i")
  case (AllLoad g)
  then show ?thesis using assms(1,2) by (auto simp: run_thread_def all_seen_def same_weights_def intro!: local_step)
next
  case (OneLoad g)
  then show ?thesis using assms(1,2) by (auto simp: run_thread_def one_seen_def same_weights_def intro!: local_step)
next
  case (WaitLoad t g)
  then show ?thesis using assms(1,2) by (auto simp: run_thread_def wait_seen_def same_weights_def intro!: local_step)
next
  case (GrantWake g n)
  then show ?thesis using assms grant_wake_inv by (simp add: run_thread_def)
next
  case DestroyWake
  then show ?thesis using assms destroy_wake_inv by (simp add: run_thread_def)
next
  case (Filling v)
  then show ?thesis using assms create_fill_inv by (simp add: run_thread_def)
qed (use assms(1,2) slot_steps in \<open>simp_all add: run_thread_def\<close>)

lemma sem_reachable_inv: "sem_reachable True s \<Longrightarrow> slot_inv s"
proof (induction rule: sem_reachable.induct)
  case start
  show ?case by (rule unused_slot_inv)
next
  case (step s t)
  from step(2) show ?case using step(3) call_inv thread_inv by cases auto
qed

end
