(* ===== verification/SemaphoreProperties.thy ===== *)
theory SemaphoreProperties
  imports SemaphoreSafety
begin

section \<open>What the local semaphores guarantee\<close>

text \<open>
  Permits, slots, sleepers and names of the semaphores of \<open>runtime/shims/kqueue/semaphore.c\<close>, and three
  interleavings in which they do not behave as their comments say.
\<close>

subsection \<open>Runs\<close>

datatype sem_event = Call sem_pc | Step nat bool

definition run_sem_event :: "sem_event \<Rightarrow> sem_slot \<Rightarrow> sem_slot" where
  "run_sem_event e s = (case e of Call p \<Rightarrow> s\<lparr>threads := threads s @ [p]\<rparr> | Step i passed \<Rightarrow> run_thread i passed {} s)"

text \<open>The runs used here wake nobody by a signal.\<close>

fun plain_wake :: "sem_pc \<Rightarrow> sem_slot \<Rightarrow> bool" where
  "plain_wake (GrantWake g n) s \<longleftrightarrow> list_all (\<lambda>p. \<not> is_sleeping p) (threads s)"
| "plain_wake p s \<longleftrightarrow> True"

definition event_ok :: "bool \<Rightarrow> sem_event \<Rightarrow> sem_slot \<Rightarrow> bool" where
  "event_ok calm e s \<longleftrightarrow>
     (case e of
        Call p \<Rightarrow> starts s p
      | Step i passed \<Rightarrow> i < length (threads s) \<and> \<not> ended (threads s ! i) \<and> plain_wake (threads s ! i) s
          \<and> (calm \<and> filling (threads s ! i) \<longrightarrow> list_all (\<lambda>p. \<not> releasing p) (threads s)))"

fun run_events :: "sem_event list \<Rightarrow> sem_slot \<Rightarrow> sem_slot" where
  "run_events [] s = s"
| "run_events (e # es) s = run_events es (run_sem_event e s)"

fun events_ok :: "bool \<Rightarrow> sem_event list \<Rightarrow> sem_slot \<Rightarrow> bool" where
  "events_ok calm [] s \<longleftrightarrow> True"
| "events_ok calm (e # es) s \<longleftrightarrow> event_ok calm e s \<and> events_ok calm es (run_sem_event e s)"

lemma event_step: "event_ok calm e s \<Longrightarrow> sem_step calm s (run_sem_event e s)"
proof (cases e)
  case (Call p)
  assume "event_ok calm e s"
  then show ?thesis using Call by (simp add: event_ok_def run_sem_event_def sem_step.call)
next
  case (Step i passed)
  assume ok: "event_ok calm e s"
  have "wakes n {} s" if "list_all (\<lambda>p. \<not> is_sleeping p) (threads s)" for n
  proof -
    have none: "{j. j < length (threads s) \<and> is_sleeping (threads s ! j)} = {}" using that by (auto simp: list_all_length)
    show ?thesis unfolding wakes_def Let_def none by simp
  qed
  then have "case threads s ! i of GrantWake g n \<Rightarrow> wakes n {} s | _ \<Rightarrow> True"
    using ok Step by (cases "threads s ! i") (simp_all add: event_ok_def)
  then show ?thesis using ok Step
    by (auto simp: event_ok_def run_sem_event_def list_all_iff intro!: sem_step.thread)
qed

lemma run_events_reachable: "sem_reachable calm s \<Longrightarrow> events_ok calm es s \<Longrightarrow> sem_reachable calm (run_events es s)"
  by (induction es arbitrary: s) (auto intro: sem_reachable.step event_step)

lemmas run_simps = run_sem_event_def event_ok_def run_thread_def sem_enter_def sem_check_def sem_leave_def release_check_def release_swap_def
  release_push_def create_pop_def create_fill_def destroy_begin_def destroy_add_def signal_add_def grant_add_def wait_seen_def wait_swap_def
  wait_sub_def loop_check_def wakeups_seen_def take_wakeup_def loop_time_def withdraw_seen_def withdraw_swap_def futex_wait_def futex_wake_def
  wake_at_def wake_all_def goto_def current_def unused_slot_def

subsection \<open>Permits and slots\<close>


definition handover_run :: "sem_event list" where
  "handover_run =
     [Call (Creating 2), Step 0 False, Step 0 False, Call (Entering (Wait Forever) 0), Step 1 False, Step 1 False, Step 1 False, Step 1 False,
      Call (Entering Signal 0), Step 2 False, Step 2 False, Step 2 False]"



definition sleep_run :: "sem_event list" where
  "sleep_run =
     [Call (Creating 0), Step 0 False, Step 0 False,
      Call (Entering (Wait Forever) 0), Step 1 False, Step 1 False, Step 1 False, Step 1 False, Step 1 False, Step 1 False, Step 1 False, Step 1 False]"


subsection \<open>Interleavings that go wrong\<close>

definition timed_run :: "sem_event list" where
  "timed_run =
     [Call (Creating 0), Step 0 False, Step 0 False,
      Call (Entering (Wait Timed) 0), Step 1 False, Step 1 False, Step 1 False, Step 1 False, Step 1 False, Step 1 False, Step 1 True,
      Call (Entering Signal 0), Step 2 False, Step 2 False, Step 2 False,
      Step 1 False, Step 1 False, Step 1 False, Step 1 False,
      Call (Entering (Wait Forever) 0), Step 3 False, Step 3 False, Step 3 False, Step 3 False,
      Step 2 False, Step 2 False, Step 2 False,
      Step 3 False, Step 3 False, Step 3 False, Step 3 False,
      Step 1 False]"

text \<open>
  C37: A timed wait can sleep without a timeout. When its deadline passes just after a signal counted it
  and before the grant is there, the waiter gives up its deadline to wait for that grant; a thread that
  starts to wait in between takes the grant instead, and the timed waiter is left asleep in a futex call
  without timeout although no signal is on its way: all other threads have returned.
\<close>

theorem timed_wait_overruns:
  "\<exists>s. sem_reachable True s \<and> in_use s
    \<and> threads s = [Created 0, Sleeping 0 True True, Returned KERN_SUCCESS, Returned KERN_SUCCESS]
    \<and> wakeups s = 0 \<and> taken s = posted s"
proof (intro exI conjI)
  have "events_ok True timed_run unused_slot" by (simp add: timed_run_def run_simps)
  then show "sem_reachable True (run_events timed_run unused_slot)" by (rule run_events_reachable [OF sem_reachable.start])
qed (simp_all add: timed_run_def run_simps)

definition destroy_run :: "sem_event list" where
  "destroy_run =
     [Call (Creating 0), Step 0 False, Step 0 False,
      Call (Entering (Wait Forever) 0), Step 1 False, Step 1 False, Step 1 False, Step 1 False, Step 1 False, Step 1 False, Step 1 False,
      Call (Entering (Wait Forever) 0), Step 2 False, Step 2 False, Step 2 False, Step 2 False, Step 2 False,
      Call (Destroying 0), Step 3 False, Step 3 False,
      Step 2 False, Step 2 False, Step 2 False,
      Step 3 False, Step 3 False,
      Step 1 False]"

text \<open>
  C38: Destroying a semaphore can leave a waiter asleep for good. \<open>semaphore_destroy\<close> adds one grant so that
  no waiter goes to sleep on the futex word any more, but a waiter that had looked at the generation
  before takes that grant: its wait succeeds though nothing was ever signalled, and another waiter, late
  for the wake call, then sleeps on the zero word of a dead semaphore which nothing wakes again.
\<close>

theorem destroy_loses_waiter:
  "\<exists>s. sem_reachable True s \<and> dead s
    \<and> threads s = [Created 0, Sleeping 0 False False, Returned KERN_SUCCESS, Returned KERN_SUCCESS]
    \<and> wakeups s = 0 \<and> taken s = 1 \<and> first_count s + posted s = 0"
proof (intro exI conjI)
  have "events_ok True destroy_run unused_slot" by (simp add: destroy_run_def run_simps)
  then show "sem_reachable True (run_events destroy_run unused_slot)" by (rule run_events_reachable [OF sem_reachable.start])
qed (simp_all add: destroy_run_def run_simps)

definition reuse_run :: "sem_event list" where
  "reuse_run =
     [Call (Creating 0), Step 0 False, Step 0 False,
      Call (Entering Signal 0),
      Call (Destroying 0), Step 2 False, Step 2 False, Step 2 False, Step 2 False, Step 2 False,
      Step 1 False, Step 1 False, Step 1 False, Step 1 False,
      Step 2 False, Step 2 False,
      Call (Creating 5), Step 3 False, Step 3 False,
      Step 1 False, Step 1 False,
      Call (Creating 7), Step 4 False, Step 4 False]"

text \<open>
  C39: A slot in use can be given out again. Two threads leave a destroyed slot and both find it idle; one
  returns it to the free list and the slot is set up for a new semaphore, which resets \<open>released\<close>; the
  exchange of the other then succeeds as well and puts the live slot into the free list, and the next
  \<open>semaphore_create\<close> returns the name a second time: two owners share one semaphore.
\<close>

theorem live_slot_reused:
  "\<exists>s. sem_reachable False s \<and> in_use s \<and> generation s = 1
    \<and> threads s = [Created 0, Returned KERN_INVALID_ARGUMENT, Returned KERN_SUCCESS, Created 1, Created 1]"
proof (intro exI conjI)
  have "events_ok False reuse_run unused_slot" by (simp add: reuse_run_def run_simps)
  then show "sem_reachable False (run_events reuse_run unused_slot)" by (rule run_events_reachable [OF sem_reachable.start])
qed (simp_all add: reuse_run_def run_simps)

subsection \<open>Names\<close>

lemma below_32: "(\<forall>n < 32. P n) \<longleftrightarrow> list_all P [0..<32]"
  by (auto simp: list_all_iff)

lemma slot_bits: "slot < 4096 \<Longrightarrow> bit (slot :: u32) n \<Longrightarrow> n < 12"
proof -
  assume "slot < 4096" and b: "bit slot n"
  then have "take_bit 12 slot = slot" by (simp add: take_bit_eq_mask less_mask_eq)
  then show "n < 12" using b by (metis bit_take_bit_iff)
qed

lemma mask_bits:
  assumes "n < 32"
  shows "bit (0xc00000ff :: int) n \<longleftrightarrow> n < 8 \<or> 30 \<le> n"
    "bit (0x40000000 :: int) n \<longleftrightarrow> n = 30"
    "bit (0x3ff :: int) n \<longleftrightarrow> n < 10"
    "bit (0x3ff00000 :: int) n \<longleftrightarrow> 20 \<le> n \<and> n < 30"
    "bit (0xfff :: int) n \<longleftrightarrow> n < 12"
    "bit (0x400000 :: int) n \<longleftrightarrow> n = 22"
    "bit (0x400 :: int) n \<longleftrightarrow> n = 10"
proof -
  have "\<forall>n < 32. (bit (0xc00000ff :: int) n \<longleftrightarrow> n < 8 \<or> 30 \<le> n)
      \<and> (bit (0x40000000 :: int) n \<longleftrightarrow> n = 30)
      \<and> (bit (0x3ff :: int) n \<longleftrightarrow> n < 10)
      \<and> (bit (0x3ff00000 :: int) n \<longleftrightarrow> 20 \<le> n \<and> n < 30)
      \<and> (bit (0xfff :: int) n \<longleftrightarrow> n < 12)
      \<and> (bit (0x400000 :: int) n \<longleftrightarrow> n = 22)
      \<and> (bit (0x400 :: int) n \<longleftrightarrow> n = 10)"
    unfolding below_32 by (simp add: upt_rec)
  then show "bit (0xc00000ff :: int) n \<longleftrightarrow> n < 8 \<or> 30 \<le> n"
    "bit (0x40000000 :: int) n \<longleftrightarrow> n = 30"
    "bit (0x3ff :: int) n \<longleftrightarrow> n < 10"
    "bit (0x3ff00000 :: int) n \<longleftrightarrow> 20 \<le> n \<and> n < 30"
    "bit (0xfff :: int) n \<longleftrightarrow> n < 12"
    "bit (0x400000 :: int) n \<longleftrightarrow> n = 22"
    "bit (0x400 :: int) n \<longleftrightarrow> n = 10"
    using assms by blast+
qed

text \<open>
  C40: A name says which slot and which generation it is of. Looking up the name of a slot of the table gives
  back the slot and the low ten bits of the generation, and the name of a semaphore of the kernel, an
  index below \<open>2 ^ 22\<close> shifted by eight bits with a generation in the low byte, is never taken for one
  of the table.
\<close>

theorem names_identify_slots:
  "(slot < slot_count \<longrightarrow> sem_lookup (sem_name g slot) = Some (slot, g AND generation_mask))
    \<and> (index < 2 ^ 22 \<longrightarrow> sem_lookup (push_bit 8 index OR (kernel_generation AND 0xff)) = None)"
proof (intro conjI impI)
  assume "slot < slot_count"
  then have s: "bit slot n \<Longrightarrow> n < 12" for n using slot_bits by (simp add: slot_count_def)
  have "sem_name g slot AND 0xc00000ff = sem_tag"
    by (rule bit_word_eqI) (auto simp: sem_name_def sem_tag_def generation_mask_def bit_and_iff bit_or_iff bit_push_bit_iff bit_drop_bit_eq mask_bits dest: s)
  moreover have "drop_bit 8 (sem_name g slot) AND (slot_count - 1) = slot"
    by (rule bit_word_eqI) (auto simp: sem_name_def sem_tag_def generation_mask_def slot_count_def bit_and_iff bit_or_iff bit_push_bit_iff bit_drop_bit_eq mask_bits dest: s)
  moreover have "drop_bit 20 (sem_name g slot) AND generation_mask = g AND generation_mask"
    by (rule bit_word_eqI) (auto simp: sem_name_def sem_tag_def generation_mask_def bit_and_iff bit_or_iff bit_push_bit_iff bit_drop_bit_eq mask_bits dest: s)
  ultimately show "sem_lookup (sem_name g slot) = Some (slot, g AND generation_mask)" by (simp add: sem_lookup_def)
next
  assume "index < 2 ^ 22"
  then have "take_bit 22 index = index" by (simp add: take_bit_eq_mask less_mask_eq)
  then have i: "\<not> bit index 22" by (metis bit_take_bit_iff less_irrefl)
  have "\<not> bit ((push_bit 8 index OR (kernel_generation AND 0xff)) AND 0xc00000ff) 30"
    using i by (simp add: bit_simps)
  moreover have "bit sem_tag 30" by (simp add: sem_tag_def)
  ultimately show "sem_lookup (push_bit 8 index OR (kernel_generation AND 0xff)) = None" by (auto simp: sem_lookup_def)
qed

theorem names_identify_slots_witness: "sem_lookup (sem_name 1027 4095) = Some (4095, 3)"
  using names_identify_slots [of 4095 1027] by (simp add: slot_count_def generation_mask_def word_less_nat_alt)

subsection \<open>Timeouts\<close>

lemma sint_number:
  assumes "- (2 ^ 63) \<le> k" "k < 2 ^ 63"
  shows "sint (word_of_int k :: u64) = k"
proof -
  have "sint (word_of_int k :: u64) = signed_take_bit 63 k" by (simp add: signed_of_int)
  also have "\<dots> = k" using assms by (intro signed_take_bit_int_eq_self) simp_all
  finally show ?thesis .
qed

lemma sint_scast: "sint (scast (n :: u32) :: u64) = sint n"
proof -
  have "sint n < 2 ^ 31" "- (2 ^ 31) \<le> sint n" using sint_range_size [of n] by (simp_all add: word_size)
  then show ?thesis using signed_take_bit_int_eq_self [of 63 "sint n"] by (simp add: signed_scast_eq)
qed

lemma sint_ucast: "sint (ucast (n :: u32) :: u64) = uint n"
proof -
  have "uint n < 2 ^ 32" by (rule less_le_trans [OF uint_lt2p]) simp
  then have "signed_take_bit 63 (uint n) = uint n"
    by (intro signed_take_bit_int_eq_self) (auto intro: order_trans [OF _ uint_ge_0])
  then show ?thesis by (simp add: signed_ucast_eq)
qed

lemma sint_diff:
  assumes "- (2 ^ 63) \<le> sint (a :: u64) - sint b" "sint a - sint b < 2 ^ 63"
  shows "sint (a - b) = sint a - sint b"
proof -
  have "a - b = word_of_int (sint a - sint b)" by simp
  then show ?thesis using sint_number [OF assms] by simp
qed

lemma nanoseconds:
  assumes "0 \<le> sint (a :: u64)" "sint a \<le> 4294967295" "0 \<le> sint b" "sint b < 1000000000"
  shows "sint (a * billion + b) = sint a * 1000000000 + sint b"
proof -
  have "a * billion + b = word_of_int (sint a * 1000000000 + sint b)" by (simp add: billion_def)
  moreover have "sint (word_of_int (sint a * 1000000000 + sint b) :: u64) = sint a * 1000000000 + sint b"
    by (rule sint_number) (use assms in simp_all)
  ultimately show ?thesis by simp
qed

lemma sint_billion: "sint (1000000000 :: u32) = 1000000000" "sint billion = 1000000000"
  by (simp_all add: billion_def)

text \<open>The timeout of \<open>semaphore_timedwait\<close> never wraps.\<close>

lemma timedwait_exact:
  "case timedwait_ns tv_sec tv_nsec of
     None \<Rightarrow> sint tv_nsec < 0 \<or> 1000000000 \<le> sint tv_nsec
   | Some ns \<Rightarrow> 0 \<le> sint tv_nsec \<and> sint tv_nsec < 1000000000 \<and> sint ns = uint tv_sec * 1000000000 + sint tv_nsec"
proof -
  have "uint tv_sec < 2 ^ 32" by (rule less_le_trans [OF uint_lt2p]) simp
  then show ?thesis
    using nanoseconds [of "ucast tv_sec" "scast tv_nsec"]
    by (simp add: timedwait_ns_def word_sless_alt word_sle_eq sint_billion sint_scast sint_ucast)
qed

lemma relative_timeouts:
  assumes "0 \<le> sint sec" "0 \<le> sint nsec" "sint nsec < 1000000000"
  shows "\<exists>ns. semwait_ns True sec nsec now_sec now_usec = Some ns
    \<and> (if sint sec \<le> 1000000000 then sint ns = sint sec * 1000000000 + sint nsec else wait_time_of ns = Forever)"
  using assms nanoseconds [of sec "scast nsec"]
  by (auto simp: semwait_ns_def word_sless_alt word_sle_eq sint_billion sint_scast wait_time_of_def)

text \<open>
  C36: An absolute deadline is not waited for. \<open>semwait_signal\<close> takes seconds beyond \<open>10 ^ 9\<close> to be more
  than thirty years away, before it subtracts the time of day; but the time of day itself has been
  beyond \<open>10 ^ 9\<close> seconds since 2001. So a wait with an absolute deadline, however near, has no timeout
  at all, and one whose deadline is that old does not wait; the nanoseconds left are never the timeout.
\<close>

theorem absolute_deadlines_ignored:
  assumes "1000000000 < sint now_sec" "sint now_sec \<le> 4294967295" "0 \<le> sint now_usec" "sint now_usec < 1000000"
    and "0 \<le> sint sec" "0 \<le> sint nsec" "sint nsec < 1000000000"
  shows "map_option wait_time_of (semwait_ns False sec nsec now_sec now_usec) = Some (if 1000000000 < sint sec then Forever else Poll)"
proof (cases "1000000000 < sint sec")
  case True
  then show ?thesis using assms
    by (simp add: semwait_ns_def word_sless_alt word_sle_eq sint_billion wait_time_of_def)
next
  case False
  let ?b = "now_usec * 1000 :: u64" and ?w = "sec * billion + scast nsec" and ?n = "now_sec * billion + now_usec * 1000"
  have "sint ?b = sint now_usec * 1000"
  proof -
    have "?b = word_of_int (sint now_usec * 1000)" by simp
    then show ?thesis using sint_number [of "sint now_usec * 1000"] assms by simp
  qed
  then have n: "sint ?n = sint now_sec * 1000000000 + sint now_usec * 1000" using assms nanoseconds [of now_sec ?b] by simp
  have w: "sint ?w = sint sec * 1000000000 + sint nsec" using assms False nanoseconds [of sec "scast nsec"] by (simp add: sint_scast)
  have "sint (?w - ?n) = sint ?w - sint ?n" by (rule sint_diff; unfold n w; use assms False in simp)
  then have "?w - ?n <s 0" "0 \<le>s ?w" using n w assms False by (simp_all add: word_sless_alt word_sle_eq)
  then show ?thesis using assms False
    by (simp add: semwait_ns_def word_sless_alt word_sle_eq sint_billion wait_time_of_def)
qed

theorem absolute_deadlines_ignored_witness:
  "map_option wait_time_of (semwait_ns False 1767225600 0 1767225599 500000) = Some Forever"
  using absolute_deadlines_ignored [of 1767225599 500000 1767225600 0] by simp

end
