(* ===== verification/Spec2Isabelle.thy ===== *)
theory Spec2Isabelle
  imports BufferProperties UploadSafety EventLoop CommandProperties DeviceProperties RenderRefinement RenderTargets RenderEncoders SwapchainProperties PipelineWorkers ShaderModuleProperties PipelineProperties ComputeProperties LibrarySafety AudioStreams PulseSafety SemaphoreProperties
begin

text \<open>
  A model of the native renderer of the Roblox Linux port.
\<close>

end
